(* ===== verification/Relacy_Prelude.thy ===== *)
theory Relacy_Prelude
  imports Main "HOL-Library.Word"
begin

text \<open>
  The prelude of the development: how a handler of the detector returns
  (\<open>fault + 'a\<close>), the two assertion macros, sequencing and iteration of handlers
  that may fault, the machine types of \<^verbatim>\<open>defs.hpp\<close>, and the list and word lemmas
  that several components use.
\<close>

named_theorems fault_simps \<open>evaluation of handlers that may fault\<close>
named_theorems sched_defs \<open>definitions of the scheduler operations\<close>
named_theorems clock_simps \<open>pointwise reading of vector clocks\<close>

section \<open>Machine types\<close>

text \<open>
  \<^verbatim>\<open>defs.hpp\<close>: a thread index is a small non-negative \<open>int\<close> (\<open>nat\<close> here; the places
  where the code stores a negative marker use \<open>int\<close>), a timestamp is a \<open>size_t\<close> and
  \<open>unsigned\<close> is 32 bits wide. A row \<open>timestamp_t x [thread_count]\<close> is a total function on
  thread indices; the loops over it are bounded by \<open>thread_count\<close>.
\<close>

type_synonym thread_id = nat
type_synonym timestamp = "64 word"
type_synonym u32 = "32 word"
type_synonym vclock = "nat \<Rightarrow> timestamp"

definition atomic_history_size :: nat where
  "atomic_history_size = 3"

section \<open>Test results\<close>

datatype test_result =
    result_success
  | result_until_condition_hit
  | result_inconsistent_test_suite
  | result_user_assert_failed
  | result_user_invariant_failed
  | result_data_race
  | result_access_to_freed_memory
  | result_double_free
  | result_memory_leak
  | result_resource_leak
  | result_unitialized_access
  | result_deadlock
  | result_livelock
  | result_recursion_on_nonrecursive_mutex
  | result_unlocking_mutex_wo_ownership
  | result_destroying_owned_mutex
  | result_double_initialization_of_mutex
  | result_usage_of_non_initialized_mutex
  | result_mutex_write_to_read_upgrade
  | result_mutex_read_to_write_upgrade
  | result_double_initialization_of_condvar
  | result_usage_of_non_initialized_condvar
  | result_double_initialization_of_semaphore
  | result_usage_of_non_initialized_semaphore
  | result_double_initialization_of_event
  | result_usage_of_non_initialized_event
  | result_thread_signal

section \<open>Faults\<close>

text \<open>
  A handler leaves its normal path in one of three ways: an internal assertion
  \<open>RL_VERIFY\<close> of a checking build fires and aborts the process, \<open>fail_test\<close> ends the
  iteration with a test result and never returns to the handler, or an allocation throws
  \<open>std::bad_alloc\<close>.
\<close>

datatype fault = Verify_failed | Test_failed test_result | Bad_alloc

definition rl_verify :: "bool \<Rightarrow> fault + 'a \<Rightarrow> fault + 'a" where
  "rl_verify b k = (if b then k else Inl Verify_failed)"

definition rl_assert_impl :: "bool \<Rightarrow> test_result \<Rightarrow> fault + 'a \<Rightarrow> fault + 'a" where
  "rl_assert_impl b r k = (if b then k else Inl (Test_failed r))"

fun rbind :: "fault + 'a \<Rightarrow> ('a \<Rightarrow> fault + 'b) \<Rightarrow> fault + 'b" where
  "rbind (Inl e) f = Inl e"
| "rbind (Inr x) f = f x"

fun rfold :: "('i \<Rightarrow> 's \<Rightarrow> fault + 's) \<Rightarrow> 'i list \<Rightarrow> 's \<Rightarrow> fault + 's" where
  "rfold f [] s = Inr s"
| "rfold f (i # is) s = rbind (f i s) (rfold f is)"

lemma rl_verify_True [simp, fault_simps]: "rl_verify True k = k"
  by (simp add: rl_verify_def)

lemma rl_verify_False [simp, fault_simps]: "rl_verify False k = Inl Verify_failed"
  by (simp add: rl_verify_def)

lemma rl_assert_True [simp, fault_simps]: "rl_assert_impl True r k = k"
  by (simp add: rl_assert_impl_def)

lemma rl_assert_False [simp, fault_simps]: "rl_assert_impl False r k = Inl (Test_failed r)"
  by (simp add: rl_assert_impl_def)

lemma rl_verify_Inr: "rl_verify b k = Inr x \<longleftrightarrow> b \<and> k = Inr x"
  by (simp add: rl_verify_def)

lemma rl_assert_Inr: "rl_assert_impl b r k = Inr x \<longleftrightarrow> b \<and> k = Inr x"
  by (simp add: rl_assert_impl_def)

lemma rbind_Inr: "rbind m f = Inr y \<longleftrightarrow> (\<exists>x. m = Inr x \<and> f x = Inr y)"
  by (cases m) auto

lemma rbind_Inl: "rbind m f = Inl e \<longleftrightarrow> m = Inl e \<or> (\<exists>x. m = Inr x \<and> f x = Inl e)"
  by (cases m) auto

lemmas fault_inv = rl_verify_Inr rl_assert_Inr rbind_Inr

lemma rfold_append: "rfold f (xs @ ys) s = rbind (rfold f xs s) (rfold f ys)"
proof (induction xs arbitrary: s)
  case (Cons x xs)
  then show ?case by (cases "f x s") auto
qed simp

text \<open>
  The rule for a loop that may fault: an invariant indexed by what is still to do, kept by
  every step, under which no step faults.
\<close>

lemma rfold_total:
  assumes step: "\<And>i is s. P (i # is) s \<Longrightarrow> \<exists>s'. f i s = Inr s' \<and> P is s'"
    and start: "P is s"
  shows "\<exists>s'. rfold f is s = Inr s' \<and> P [] s'"
  using start
proof (induction "is" arbitrary: s)
  case (Cons i "is")
  obtain s1 where "f i s = Inr s1" "P is s1"
    using step [OF Cons.prems] by blast
  then show ?case using Cons.IH by simp
qed simp

lemma rfold_invariant:
  assumes "rfold f is s = Inr s'" "P s"
    and step: "\<And>i s s'. i \<in> set is \<Longrightarrow> P s \<Longrightarrow> f i s = Inr s' \<Longrightarrow> P s'"
  shows "P s'"
  using assms
proof (induction "is" arbitrary: s)
  case (Cons i "is")
  from Cons.prems(1) obtain s1 where s1: "f i s = Inr s1" "rfold f is s1 = Inr s'"
    by (auto simp: rbind_Inr)
  have "P s1" using Cons.prems(2) s1(1) by (auto intro: Cons.prems(3) [of i s])
  then show ?case by (rule Cons.IH [OF s1(2)]) (auto intro: Cons.prems(3))
qed simp

section \<open>Words\<close>

text \<open>The one arithmetic fact about timestamps: a tick is an increase below the top value.\<close>

lemma word_less_Suc: "(x :: 'a :: len word) \<noteq> - 1 \<Longrightarrow> x < x + 1"
  by (meson inc_less_eq_triv_imp linorder_not_le)

lemma word_le_Suc: "(x :: 'a :: len word) \<noteq> - 1 \<Longrightarrow> x \<le> x + 1"
  using word_less_Suc by (rule less_imp_le)

lemma word_Suc_nonzero: "(x :: 'a :: len word) \<noteq> - 1 \<Longrightarrow> x + 1 \<noteq> 0"
  using word_less_Suc by fastforce

lemma word_less_top: "(x :: 'a :: len word) \<noteq> - 1 \<Longrightarrow> x < - 1"
  by (simp add: word_order.not_eq_extremum)

section \<open>Lists\<close>

lemma remove1_distinct_set: "distinct xs \<Longrightarrow> set (remove1 x xs) = set xs - {x}"
  by (rule set_remove1_eq)

lemma length_remove1_mem: "x \<in> set xs \<Longrightarrow> Suc (length (remove1 x xs)) = length xs"
  by (induction xs) auto

lemma list_ex_upt: "list_ex P [0..<n] \<longleftrightarrow> (\<exists>i<n. P i)"
  by (auto simp: list_ex_iff)

lemma list_all_upt: "list_all P [0..<n] \<longleftrightarrow> (\<forall>i<n. P i)"
  by (auto simp: list_all_iff)

end
