(* ===== verification/Relacy_Types.thy ===== *)
theory Relacy_Types
  imports Relacy_Prelude
begin

text \<open>
  The enumerations of the detector (\<^verbatim>\<open>defs.hpp\<close>, \<^verbatim>\<open>memory_order.hpp\<close>,
  \<^verbatim>\<open>test_result.hpp\<close>, \<^verbatim>\<open>test_params.hpp\<close>, \<^verbatim>\<open>rmw.hpp\<close>) with the text each one prints,
  the parameters of a test, the read-modify-write functions, and the pseudo random
  generator of \<^verbatim>\<open>random.hpp\<close>.
\<close>

section \<open>Enumerations\<close>

datatype sched_type =
  sched_type_sched | sched_type_atomic_load | sched_type_cas_fail | sched_type_mem_realloc | sched_type_user

datatype unpark_reason = unpark_normal | unpark_timeout | unpark_spurious

datatype memory_order = mo_relaxed | mo_consume | mo_acquire | mo_release | mo_acq_rel | mo_seq_cst

datatype scheduler_type = sched_random | sched_bound | sched_full

datatype rmw_type = rmw_swap | rmw_add | rmw_sub | rmw_and | rmw_or | rmw_xor

datatype wakeup_reason = wakeup_success | wakeup_failed | wakeup_timeout | wakeup_spurious

fun format_mo :: "memory_order \<Rightarrow> string" where
  "format_mo mo_relaxed = ''relaxed''"
| "format_mo mo_consume = ''consume''"
| "format_mo mo_acquire = ''acquire''"
| "format_mo mo_release = ''release''"
| "format_mo mo_acq_rel = ''acq_rel''"
| "format_mo mo_seq_cst = ''seq_cst''"

fun format_sched :: "scheduler_type \<Rightarrow> string" where
  "format_sched sched_random = ''random scheduler''"
| "format_sched sched_bound = ''context bound scheduler''"
| "format_sched sched_full = ''full search scheduler''"

fun format_rmw :: "rmw_type \<Rightarrow> string" where
  "format_rmw rmw_swap = ''exchange''"
| "format_rmw rmw_add = ''fetch_add''"
| "format_rmw rmw_sub = ''fetch_sub''"
| "format_rmw rmw_and = ''fetch_and''"
| "format_rmw rmw_or = ''fetch_or''"
| "format_rmw rmw_xor = ''fetch_xor''"

text \<open>
  \<open>test_result_thread_signal\<close> has no case in the switch and falls into the default branch,
  which asserts.
\<close>

fun test_result_str :: "test_result \<Rightarrow> fault + string" where
  "test_result_str result_success = Inr ''SUCCESS''"
| "test_result_str result_until_condition_hit = Inr ''UNTIL CONDITION HIT''"
| "test_result_str result_inconsistent_test_suite = Inr ''INCONSISTENT TEST SUITE''"
| "test_result_str result_user_assert_failed = Inr ''USER ASSERT FAILED''"
| "test_result_str result_user_invariant_failed = Inr ''USER INVARIANT FAILED''"
| "test_result_str result_data_race = Inr ''DATA RACE''"
| "test_result_str result_access_to_freed_memory = Inr ''ACCESS TO FREED MEMORY''"
| "test_result_str result_double_free = Inr ''DOUBLE FREE''"
| "test_result_str result_memory_leak = Inr ''MEMORY LEAK''"
| "test_result_str result_resource_leak = Inr ''RESOURCE LEAK''"
| "test_result_str result_unitialized_access = Inr ''ACCESS TO UNITIALIZED VARIABLE''"
| "test_result_str result_deadlock = Inr ''DEADLOCK''"
| "test_result_str result_livelock = Inr ''LIVELOCK''"
| "test_result_str result_recursion_on_nonrecursive_mutex = Inr ''RECURSION ON NON-RECURSIVE MUTEX''"
| "test_result_str result_unlocking_mutex_wo_ownership = Inr ''UNLOCKING MUTEX W/O OWNERSHIP''"
| "test_result_str result_destroying_owned_mutex = Inr ''DESTROYING OWNED MUTEX''"
| "test_result_str result_double_initialization_of_mutex = Inr ''DOUBLE INITIALIZATION OF MUTEX''"
| "test_result_str result_usage_of_non_initialized_mutex = Inr ''USAGE OF NON INITIALIZED MUTEX''"
| "test_result_str result_mutex_write_to_read_upgrade = Inr ''ATTEMPT TO UPGRADE EXCLUSIVE MUTEX OWNERSHIP TO SHARED''"
| "test_result_str result_mutex_read_to_write_upgrade = Inr ''ATTEMPT TO UPGRADE SHARED MUTEX OWNERSHIP TO EXCLUSIVE''"
| "test_result_str result_double_initialization_of_condvar = Inr ''DOUBLE INITIALIZATION OF CONDITION VARIABLE''"
| "test_result_str result_usage_of_non_initialized_condvar = Inr ''USAGE OF NON INITIALIZED CONDITION VARIABLE''"
| "test_result_str result_double_initialization_of_semaphore = Inr ''DOUBLE INITIALIZATION OF SEMAPHORE''"
| "test_result_str result_usage_of_non_initialized_semaphore = Inr ''USAGE OF NON INITIALIZED SEMAPHORE''"
| "test_result_str result_double_initialization_of_event = Inr ''DOUBLE INITIALIZATION OF EVENT''"
| "test_result_str result_usage_of_non_initialized_event = Inr ''USAGE OF NON INITIALIZED EVENT''"
| "test_result_str result_thread_signal = Inl Verify_failed"

section \<open>Parameters of a test\<close>

text \<open>
  The two streams and the free-text fields are output only; the fields kept are the ones a
  branch of the code reads or a caller inspects. A test suite fixes its two thread counts and
  the result it expects.
\<close>

record test_params =
  iteration_count :: nat
  progress_output_period :: nat
  collect_history :: bool
  output_history :: bool
  search_type :: scheduler_type
  context_bound :: nat
  execution_depth_limit :: nat
  p_initial_state :: string
  p_test_result :: test_result
  stop_iteration :: nat
  p_final_state :: string

definition default_params :: test_params where
  "default_params = \<lparr>iteration_count = 1000, progress_output_period = 3,
     collect_history = False, output_history = False, search_type = sched_random,
     context_bound = 1, execution_depth_limit = 2000, p_initial_state = [],
     p_test_result = result_success, stop_iteration = 0, p_final_state = []\<rparr>"

record suite_params =
  static_thread_count :: nat
  dynamic_thread_count :: nat
  expected_result :: test_result

definition suite_thread_count :: "suite_params \<Rightarrow> nat" where
  "suite_thread_count p = static_thread_count p + dynamic_thread_count p"

section \<open>Read-modify-write functions\<close>

text \<open>
  \<open>perform_rmw\<close> for the unsigned integer instances of \<open>atomic<T>\<close>, where \<open>+\<close> and \<open>-\<close>
  wrap.
\<close>

unbundle bit_operations_syntax

fun perform_rmw :: "rmw_type \<Rightarrow> 'a :: len word \<Rightarrow> 'a word \<Rightarrow> 'a word" where
  "perform_rmw rmw_swap v p = p"
| "perform_rmw rmw_add v p = v + p"
| "perform_rmw rmw_sub v p = v - p"
| "perform_rmw rmw_and v p = v AND p"
| "perform_rmw rmw_or v p = v OR p"
| "perform_rmw rmw_xor v p = v XOR p"

lemma perform_rmw_sub_add: "perform_rmw rmw_sub (perform_rmw rmw_add v p) p = v"
  by simp

lemma perform_rmw_xor_xor: "perform_rmw rmw_xor (perform_rmw rmw_xor v p) p = v"
  by (simp add: xor.assoc)

section \<open>The pseudo random generator\<close>

record random_generator =
  rg_k :: u32
  rg_c :: u32
  rg_x :: u32

definition primes :: "u32 list" where
  "primes = [1, 3, 5, 7, 11, 13, 17, 19, 23, 29, 31, 37, 41, 43, 47, 53]"

text \<open>
  \<open>seed\<close> is given a 64-bit iteration number. \<open>(unsigned)(s >> 32)\<close> keeps the low 32 bits
  of the shifted value; \<open>0x95949347\<close> is an \<open>unsigned\<close> constant widened to 64 bits in the
  product.
\<close>

definition rg_seed :: "64 word \<Rightarrow> random_generator" where
  "rg_seed s =
     (let k = (ucast (drop_bit 32 s) AND 0xf) + 8;
          c = primes ! unat ((ucast (drop_bit 36 s) :: u32) AND 0xf);
          x = ucast ((s + 1) * 0x95949347 + ucast c)
      in \<lparr>rg_k = k, rg_c = c, rg_x = x\<rparr>)"

definition rg_rand :: "random_generator \<Rightarrow> nat \<times> random_generator" where
  "rg_rand g =
     (let x = rg_x g + rg_c g + push_bit (unat (rg_k g)) (rg_x g)
      in (unat (drop_bit 16 x), g\<lparr>rg_x := x\<rparr>))"

lemma unat_and_15: "unat ((w :: u32) AND 0xf) < 16"
proof -
  have "unat (w AND 0xf) \<le> unat (0xf :: u32)"
    by (rule word_and_le1 [THEN word_le_nat_alt [THEN iffD1]])
  then show ?thesis by simp
qed

text \<open>Only the top half of the state leaves the generator.\<close>

lemma rg_rand_bound: "fst (rg_rand g) < 2 ^ 16"
proof -
  have "drop_bit 16 (unat w) < 2 ^ 16" for w :: u32
  proof -
    have "unat w < 2 ^ 32" using unsigned_less [of w, where 'a = nat] by simp
    then show ?thesis by (simp add: drop_bit_eq_div less_mult_imp_div_less)
  qed
  then show ?thesis
    by (simp add: rg_rand_def Let_def unat_drop_bit_eq)
qed

lemma rg_rand_keeps: "rg_k (snd (rg_rand g)) = rg_k g \<and> rg_c (snd (rg_rand g)) = rg_c g"
  by (simp add: rg_rand_def Let_def)

text \<open>The shift amount the seed chooses is always legal for a 32-bit shift.\<close>

lemma rg_seed_shift: "8 \<le> unat (rg_k (rg_seed s)) \<and> unat (rg_k (rg_seed s)) < 24"
proof -
  let ?w = "(ucast (drop_bit 32 s) :: u32) AND 0xf"
  have b: "unat ?w < 16" by (rule unat_and_15)
  then have "unat (?w + 8) = unat ?w + 8"
    by (subst unat_word_ariths) simp
  with b show ?thesis by (simp add: rg_seed_def Let_def)
qed

lemma odd_primes: "i < 16 \<Longrightarrow> odd (unat (primes ! i))"
proof -
  have "list_all (\<lambda>p. odd (unat p)) primes" by (simp add: primes_def)
  then have "\<forall>i < length primes. odd (unat (primes ! i))" unfolding list_all_length .
  moreover have "length primes = 16" by (simp add: primes_def)
  ultimately show "i < 16 \<Longrightarrow> odd (unat (primes ! i))" by simp
qed

lemma rg_seed_increment_odd: "odd (unat (rg_c (rg_seed s)))"
  by (simp add: rg_seed_def Let_def odd_primes unat_and_15)

end
