(* ===== verification/Vclock.thy ===== *)
theory Vclock
  imports Relacy_Types
begin

text \<open>
  Vector clocks: the template loop \<open>foreach\<close> of \<^verbatim>\<open>foreach.hpp\<close> with its element
  functions, and \<open>sync_var\<close> of \<^verbatim>\<open>sync_var.hpp\<close>, through which every blocking primitive
  passes ordering from one thread to another. The order \<open>vle n\<close> compares two clocks on
  the indices a program with \<open>n\<close> threads has.
\<close>

section \<open>The template loop\<close>

text \<open>
  \<open>foreach_thread_impl<T, i, index>::exec\<close>: handle component \<open>i\<close>, then the rest with
  \<open>index - 1\<close> components to go. The element functions of the repository write their first
  argument only, so they are functions to its new value.
\<close>

fun foreach1_exec :: "nat \<Rightarrow> nat \<Rightarrow> (nat \<Rightarrow> 'a) \<Rightarrow> ('a \<Rightarrow> 'a) \<Rightarrow> (nat \<Rightarrow> 'a)" where
  "foreach1_exec i 0 v1 func = v1"
| "foreach1_exec i (Suc index) v1 func = foreach1_exec (i + 1) index (v1(i := func (v1 i))) func"

fun foreach2_exec ::
  "nat \<Rightarrow> nat \<Rightarrow> (nat \<Rightarrow> 'a) \<Rightarrow> (nat \<Rightarrow> 'a) \<Rightarrow> ('a \<Rightarrow> 'a \<Rightarrow> 'a) \<Rightarrow> (nat \<Rightarrow> 'a)" where
  "foreach2_exec i 0 v1 v2 func = v1"
| "foreach2_exec i (Suc index) v1 v2 func =
     foreach2_exec (i + 1) index (v1(i := func (v1 i) (v2 i))) v2 func"

definition foreach1 :: "nat \<Rightarrow> (nat \<Rightarrow> 'a) \<Rightarrow> ('a \<Rightarrow> 'a) \<Rightarrow> (nat \<Rightarrow> 'a)" where
  "foreach1 count v1 func = foreach1_exec 0 count v1 func"

definition foreach2 ::
  "nat \<Rightarrow> (nat \<Rightarrow> 'a) \<Rightarrow> (nat \<Rightarrow> 'a) \<Rightarrow> ('a \<Rightarrow> 'a \<Rightarrow> 'a) \<Rightarrow> (nat \<Rightarrow> 'a)" where
  "foreach2 count v1 v2 func = foreach2_exec 0 count v1 v2 func"

definition assign_zero :: "timestamp \<Rightarrow> timestamp" where
  "assign_zero elem = 0"

definition assign_const :: "timestamp \<Rightarrow> timestamp \<Rightarrow> timestamp" where
  "assign_const value elem = value"

definition assign :: "timestamp \<Rightarrow> timestamp \<Rightarrow> timestamp" where
  "assign elem1 elem2 = elem2"

definition assign_max :: "timestamp \<Rightarrow> timestamp \<Rightarrow> timestamp" where
  "assign_max elem1 elem2 = (if elem2 > elem1 then elem2 else elem1)"

definition plus_one :: "timestamp \<Rightarrow> timestamp" where
  "plus_one elem = elem + 1"

lemma assign_max_max: "assign_max = max"
  by (auto simp: fun_eq_iff assign_max_def max_def)

lemma foreach1_exec_apply:
  "foreach1_exec i k v f j = (if i \<le> j \<and> j < i + k then f (v j) else v j)"
  by (induction k arbitrary: i v) auto

lemma foreach2_exec_apply:
  "foreach2_exec i k v w f j = (if i \<le> j \<and> j < i + k then f (v j) (w j) else v j)"
  by (induction k arbitrary: i v) auto

lemma foreach1_apply [clock_simps]:
  "foreach1 n v f j = (if j < n then f (v j) else v j)"
  by (simp add: foreach1_def foreach1_exec_apply)

lemma foreach2_apply [clock_simps]:
  "foreach2 n v w f j = (if j < n then f (v j) (w j) else v j)"
  by (simp add: foreach2_def foreach2_exec_apply)

lemmas assign_defs [clock_simps] =
  assign_zero_def assign_const_def assign_def assign_max_max plus_one_def

section \<open>The order of clocks\<close>

definition vle :: "nat \<Rightarrow> vclock \<Rightarrow> vclock \<Rightarrow> bool" where
  "vle n a b \<longleftrightarrow> (\<forall>i<n. a i \<le> b i)"

lemma vle_refl [simp]: "vle n a a"
  by (simp add: vle_def)

lemma vle_trans: "vle n a b \<Longrightarrow> vle n b c \<Longrightarrow> vle n a c"
  unfolding vle_def by (meson order_trans)

lemma vle_join1: "vle n a (foreach2 n a b assign_max)"
  by (simp add: vle_def clock_simps)

lemma vle_join2: "vle n b (foreach2 n a b assign_max)"
  by (simp add: vle_def clock_simps)

lemma vle_join_least: "vle n a c \<Longrightarrow> vle n b c \<Longrightarrow> vle n (foreach2 n a b assign_max) c"
  by (simp add: vle_def clock_simps)

lemma vle_assign: "vle n b (foreach2 n a b assign)"
  by (simp add: vle_def clock_simps)

lemma vle_upd_inc: "a t \<noteq> - 1 \<Longrightarrow> vle n a (a(t := a t + 1))"
  by (simp add: vle_def word_le_Suc)

lemmas vle_intros = vle_join1 vle_join2 vle_assign vle_refl

section \<open>The clock a thread owns\<close>

text \<open>
  \<open>own_acq_rel_order_\<close> is a reference to the thread's own component of its row
  \<open>acq_rel_order_\<close>; \<open>own_acq_rel_order_ += 1\<close> is a \<open>tick\<close>.
\<close>

definition tick :: "nat \<Rightarrow> vclock \<Rightarrow> vclock" where
  "tick t c = c(t := c t + 1)"

lemma tick_apply [clock_simps]: "tick t c i = (if i = t then c t + 1 else c i)"
  by (simp add: tick_def)

lemma tick_le: "c t \<noteq> - 1 \<Longrightarrow> vle n c (tick t c)"
  by (simp add: tick_def vle_upd_inc)

section \<open>Synchronisation variables\<close>

text \<open>
  A \<open>sync_var\<close> is one clock. Each operation ticks the calling thread first and returns the
  thread's clock and the variable's.
\<close>

definition sync_init :: "nat \<Rightarrow> vclock \<Rightarrow> vclock" where
  "sync_init n ord = foreach1 n ord assign_zero"

definition sync_acquire :: "nat \<Rightarrow> nat \<Rightarrow> vclock \<Rightarrow> vclock \<Rightarrow> vclock \<times> vclock" where
  "sync_acquire n t clk ord =
     (let clk = tick t clk in (foreach2 n clk ord assign_max, ord))"

definition sync_release :: "nat \<Rightarrow> nat \<Rightarrow> vclock \<Rightarrow> vclock \<Rightarrow> vclock \<times> vclock" where
  "sync_release n t clk ord =
     (let clk = tick t clk in (clk, foreach2 n ord clk assign_max))"

definition sync_acq_rel :: "nat \<Rightarrow> nat \<Rightarrow> vclock \<Rightarrow> vclock \<Rightarrow> vclock \<times> vclock" where
  "sync_acq_rel n t clk ord =
     (let clk = tick t clk;
          acq_rel_order = foreach2 n clk ord assign_max
      in (acq_rel_order, foreach2 n ord acq_rel_order assign_max))"

lemmas sync_defs = sync_init_def sync_acquire_def sync_release_def sync_acq_rel_def

lemma sync_init_apply [clock_simps]: "i < n \<Longrightarrow> sync_init n v i = 0"
  by (simp add: sync_init_def clock_simps)

lemma sync_acq_rel_agree: "i < n \<Longrightarrow> snd (sync_acq_rel n t c v) i = fst (sync_acq_rel n t c v) i"
  by (simp add: sync_acq_rel_def Let_def clock_simps max.commute)

lemma sync_acq_rel_is_acquire: "fst (sync_acq_rel n t c v) = fst (sync_acquire n t c v)"
  by (simp add: sync_acq_rel_def sync_acquire_def Let_def)

section \<open>The contract of a release and an acquire\<close>

text \<open>
  Everything that passes ordering between threads follows one contract: a release leaves in a
  medium a clock at least the releasing thread's, an acquire raises the acquiring thread's
  clock to what the medium shows, and neither lowers a clock. The client lemma is the transfer
  the detector rests on.
\<close>

locale release_acquire =
  fixes n :: nat
    and view :: "'m \<Rightarrow> vclock"
    and rel :: "nat \<Rightarrow> vclock \<Rightarrow> 'm \<Rightarrow> vclock \<times> 'm"
    and acq :: "nat \<Rightarrow> vclock \<Rightarrow> 'm \<Rightarrow> vclock \<times> 'm"
  assumes rel_publishes: "vle n (fst (rel t c m)) (view (snd (rel t c m)))"
    and rel_clock: "c t \<noteq> - 1 \<Longrightarrow> vle n c (fst (rel t c m))"
    and acq_joins: "t < n \<Longrightarrow> vle n (view m) (fst (acq t c m))"
    and acq_clock: "c t \<noteq> - 1 \<Longrightarrow> vle n c (fst (acq t c m))"
    and acq_view: "vle n (view m) (view (snd (acq t c m)))"
begin

lemma transfer:
  assumes "t < n" "c s \<noteq> - 1"
  shows "vle n c (fst (acq t d (snd (rel s c m))))"
proof -
  have "vle n c (view (snd (rel s c m)))"
    using assms(2) by (meson rel_clock rel_publishes vle_trans)
  then show ?thesis using assms(1) by (meson acq_joins vle_trans)
qed

lemma transfer_chain:
  assumes "s < n" "t < n" "c r \<noteq> - 1"
    and "fst (acq s d (snd (rel r c m))) s \<noteq> - 1"
  shows "vle n c (fst (acq t e (snd (rel s (fst (acq s d (snd (rel r c m)))) k))))"
proof -
  have "vle n c (fst (acq s d (snd (rel r c m))))"
    using assms(1,3) by (rule transfer)
  then show ?thesis using assms(2,4) by (meson transfer vle_trans)
qed

end

interpretation sync: release_acquire n "\<lambda>m. m" "sync_release n" "sync_acquire n" for n
  by unfold_locales
    (auto simp: sync_defs Let_def intro: vle_join2 tick_le vle_trans [OF tick_le vle_join1])

end
