(* ===== verification/Thread_Mem.thy ===== *)
theory Thread_Mem
  imports Vclock
begin

text \<open>
  The memory model of the detector: \<open>thread_info\<close> (\<^verbatim>\<open>thread_base.hpp\<close>,
  \<^verbatim>\<open>thread.hpp\<close>) and the modification history of an atomic variable,
  \<open>atomic_data_impl\<close> (\<^verbatim>\<open>atomic.hpp\<close>). A load chooses one of the last three records of
  the history; a store appends one. The configuration is the C++ one: the two
  \<open>RL_IMPROVED_SEQ_CST\<close> branches are compiled in the Java and CLI modes only.
\<close>

section \<open>Threads\<close>

text \<open>
  \<open>own_acq_rel_order_\<close> is the thread's own component of \<open>acq_rel_order\<close>. The wait set
  of the thread's sync object lives in the store of wait sets and is named by its address.
  \<open>park_dp\<close> is the local variable \<open>dp\<close> of a fiber suspended in
  \<open>park_current_thread\<close>, \<open>park_switch\<close> the parameter \<open>do_switch\<close> of that call.
\<close>

record thread_info =
  th_index :: nat
  acq_rel_order :: vclock
  acquire_fence_order :: vclock
  release_fence_order :: vclock
  last_yield :: timestamp
  th_unpark_reason :: unpark_reason
  temp_switch_from :: int
  saved_disable_preemption :: int
  th_errno :: int
  dynamic_thread_func :: "nat option"
  dynamic_thread_param :: nat
  so_finished :: bool
  so_ws :: nat
  so_sync :: vclock
  park_dp :: u32
  park_switch :: bool

definition own_order :: "thread_info \<Rightarrow> timestamp" where
  "own_order th = acq_rel_order th (th_index th)"

definition thread_iteration_begin :: "nat \<Rightarrow> thread_info \<Rightarrow> thread_info" where
  "thread_iteration_begin n th =
     th\<lparr>so_finished := False, so_sync := sync_init n (so_sync th),
        last_yield := 0, dynamic_thread_func := None, dynamic_thread_param := 0,
        acq_rel_order := (foreach1 n (acq_rel_order th) assign_zero)(th_index th := 1),
        temp_switch_from := -1, saved_disable_preemption := -1\<rparr>"

definition reset_thread :: "nat \<Rightarrow> thread_info \<Rightarrow> thread_info" where
  "reset_thread n ti =
     ti\<lparr>acquire_fence_order := foreach1 n (acquire_fence_order ti) assign_zero,
        release_fence_order := foreach1 n (release_fence_order ti) assign_zero\<rparr>"

section \<open>Fences\<close>

definition fence_acquire :: "nat \<Rightarrow> thread_info \<Rightarrow> thread_info" where
  "fence_acquire n th =
     th\<lparr>acq_rel_order := foreach2 n (acq_rel_order th) (acquire_fence_order th) assign_max\<rparr>"

definition fence_release :: "nat \<Rightarrow> thread_info \<Rightarrow> thread_info" where
  "fence_release n th =
     th\<lparr>release_fence_order := foreach2 n (release_fence_order th) (acq_rel_order th) assign\<rparr>"

definition fence_acq_rel :: "nat \<Rightarrow> thread_info \<Rightarrow> thread_info" where
  "fence_acq_rel n th = fence_release n (fence_acquire n th)"

definition fence_seq_cst :: "nat \<Rightarrow> thread_info \<Rightarrow> vclock \<Rightarrow> thread_info \<times> vclock" where
  "fence_seq_cst n th seq_cst_fence_order =
     (let th = fence_acquire n th;
          th = th\<lparr>acq_rel_order := foreach2 n (acq_rel_order th) seq_cst_fence_order assign_max\<rparr>;
          seq_cst_fence_order = foreach2 n seq_cst_fence_order (acq_rel_order th) assign
      in (fence_release n th, seq_cst_fence_order))"

section \<open>The history of an atomic variable\<close>

record history_record =
  h_acq_rel_order :: vclock
  first_seen_order :: vclock
  busy :: bool
  seq_cst :: bool
  h_thread_id :: int
  acq_rel_timestamp :: timestamp

record atomic_data =
  history :: "nat \<Rightarrow> history_record"
  current_index :: u32
  futex_ws :: nat
  futex_sync :: vclock

text \<open>\<open>index % atomic_history_size\<close>, on the 32-bit index.\<close>

definition hslot :: "u32 \<Rightarrow> nat" where
  "hslot index = unat index mod atomic_history_size"

definition rec_at :: "atomic_data \<Rightarrow> u32 \<Rightarrow> history_record" where
  "rec_at var index = history var (hslot index)"

text \<open>
  The default constructor runs on raw memory: only the fields it assigns are determined.
\<close>

definition atomic_data_ctor :: "nat \<Rightarrow> atomic_data \<Rightarrow> atomic_data" where
  "atomic_data_ctor n raw =
     (let h = history raw;
          h = h(atomic_history_size - 1 := (h (atomic_history_size - 1))\<lparr>busy := False\<rparr>);
          h = h(0 := (h 0)\<lparr>busy := False, seq_cst := False, h_thread_id := -1\<rparr>)
      in raw\<lparr>current_index := 0, history := h, futex_sync := sync_init n (futex_sync raw)\<rparr>)"

definition atomic_data_ctor_th ::
  "nat \<Rightarrow> thread_info \<Rightarrow> atomic_data \<Rightarrow> thread_info \<times> atomic_data" where
  "atomic_data_ctor_th n th raw =
     (let h = history raw;
          h = h(atomic_history_size - 1 := (h (atomic_history_size - 1))\<lparr>busy := False\<rparr>);
          clk = tick (th_index th) (acq_rel_order th);
          rec = (h 0)\<lparr>busy := True, seq_cst := False, h_thread_id := int (th_index th),
                   acq_rel_timestamp := clk (th_index th),
                   h_acq_rel_order := foreach1 n (h_acq_rel_order (h 0)) assign_zero,
                   first_seen_order :=
                     (foreach1 n (first_seen_order (h 0)) (assign_const (-1)))
                       (th_index th := clk (th_index th))\<rparr>
      in (th\<lparr>acq_rel_order := clk\<rparr>,
          raw\<lparr>current_index := 0, history := h(0 := rec), futex_sync := sync_init n (futex_sync raw)\<rparr>))"

section \<open>Loads\<close>

text \<open>
  The read-read coherence test of \<open>get_load_index\<close>: does anything the thread already knows
  include a read of this record?
\<close>

definition seen_before :: "nat \<Rightarrow> thread_info \<Rightarrow> history_record \<Rightarrow> bool" where
  "seen_before n th rec = list_ex (\<lambda>i. acq_rel_order th i \<ge> first_seen_order rec i) [0..<n]"

text \<open>
  The loop of \<open>get_load_index\<close>. \<open>rnd\<close> is \<open>c.rand\<close> over the state \<open>'s\<close> of the
  scheduler. The first argument counts the rounds left (\<open>limit - i\<close>). The result is the index
  where the loop stopped, or \<open>-1\<close> where it returned from inside.
\<close>

type_synonym 's rnd = "'s \<Rightarrow> nat \<Rightarrow> sched_type \<Rightarrow> fault + (nat \<times> 's)"

fun load_scan ::
  "nat \<Rightarrow> nat \<Rightarrow> memory_order \<Rightarrow> 's rnd \<Rightarrow> thread_info \<Rightarrow> atomic_data \<Rightarrow> u32 \<Rightarrow> 's
     \<Rightarrow> fault + (u32 \<times> 's)" where
  "load_scan 0 n mo rnd th var index s = Inr (index, s)"
| "load_scan (Suc rounds) n mo rnd th var index s =
     (let rec = rec_at var index;
          prev = rec_at var (index - 1)
      in if \<not> busy rec then Inr (-1, s)
         else if busy prev \<and> first_seen_order prev (th_index th) \<le> last_yield th then Inr (index, s)
         else if mo = mo_seq_cst \<and> seq_cst rec then Inr (index, s)
         else if acq_rel_order th (nat (h_thread_id rec)) \<ge> acq_rel_timestamp rec then Inr (index, s)
         else if seen_before n th rec then Inr (index, s)
         else rbind (rnd s 2 sched_type_atomic_load) (\<lambda>(r, s).
           if r = 0 then Inr (index, s)
           else load_scan rounds n mo rnd th var (index - 1) s))"

definition load_limit :: "bool \<Rightarrow> nat" where
  "load_limit is_random = (if is_random then atomic_history_size - 1 else 1)"

definition get_load_index ::
  "nat \<Rightarrow> bool \<Rightarrow> memory_order \<Rightarrow> bool \<Rightarrow> 's rnd \<Rightarrow> thread_info \<Rightarrow> atomic_data \<Rightarrow> 's
     \<Rightarrow> fault + (u32 \<times> 's)" where
  "get_load_index n is_random mo rmw rnd th var s =
     rbind (if \<not> rmw
            then load_scan (load_limit is_random) n mo rnd th var (current_index var) s
            else Inr (current_index var, s))
       (\<lambda>(index, s).
          if index = -1 then Inr (-1, s)
          else if \<not> busy (rec_at var index) then Inr (-1, s)
          else Inr (index, s))"

definition synch_acquire :: "memory_order \<Rightarrow> bool" where
  "synch_acquire mo \<longleftrightarrow> mo = mo_acquire \<or> mo = mo_acq_rel \<or> mo = mo_seq_cst"

definition synch_release :: "memory_order \<Rightarrow> bool" where
  "synch_release mo \<longleftrightarrow> mo = mo_release \<or> mo = mo_acq_rel \<or> mo = mo_seq_cst"

text \<open>What \<open>atomic_load\<close> does once the record is chosen.\<close>

definition load_record ::
  "nat \<Rightarrow> memory_order \<Rightarrow> thread_info \<Rightarrow> history_record \<Rightarrow> thread_info \<times> history_record" where
  "load_record n mo th rec =
     (let i = th_index th;
          clk = tick i (acq_rel_order th);
          th = th\<lparr>acq_rel_order := clk\<rparr>;
          rec = (if first_seen_order rec i = -1
                 then rec\<lparr>first_seen_order := (first_seen_order rec)(i := clk i)\<rparr> else rec)
      in (if synch_acquire mo
          then th\<lparr>acq_rel_order := foreach2 n clk (h_acq_rel_order rec) assign_max\<rparr>
          else th\<lparr>acquire_fence_order :=
                    foreach2 n (acquire_fence_order th) (h_acq_rel_order rec) assign_max\<rparr>,
          rec))"

definition atomic_load ::
  "nat \<Rightarrow> bool \<Rightarrow> memory_order \<Rightarrow> bool \<Rightarrow> 's rnd \<Rightarrow> thread_info \<Rightarrow> atomic_data \<Rightarrow> 's
     \<Rightarrow> fault + (u32 \<times> thread_info \<times> atomic_data \<times> 's)" where
  "atomic_load n is_random mo rmw rnd th var s =
     rl_verify (mo_release \<noteq> mo \<or> rmw) (rl_verify (mo_acq_rel \<noteq> mo \<or> rmw)
       (rbind (get_load_index n is_random mo rmw rnd th var s) (\<lambda>(index, s).
          if index = -1 then Inr (-1, th, var, s)
          else
            let idx = hslot index;
                rec = history var idx
            in rl_verify (busy rec)
                 (let (th', rec') = load_record n mo th rec
                  in Inr (of_nat idx, th', var\<lparr>history := (history var)(idx := rec')\<rparr>, s)))))"

section \<open>Stores and read-modify-writes\<close>

definition atomic_init :: "nat \<Rightarrow> thread_info \<Rightarrow> atomic_data \<Rightarrow> u32 \<times> atomic_data" where
  "atomic_init n th var =
     (let cur = current_index var + 1;
          idx = hslot cur;
          rec = (history var idx)\<lparr>busy := True, h_thread_id := int (th_index th), seq_cst := False,
                  acq_rel_timestamp := 0,
                  h_acq_rel_order := foreach1 n (h_acq_rel_order (history var idx)) assign_zero\<rparr>
      in (of_nat idx, var\<lparr>current_index := cur, history := (history var)(idx := rec)\<rparr>))"

text \<open>
  \<open>prev\<close> is read after the new record's fields are written, as in the source, but for its
  release order, which is assigned last.
\<close>

definition atomic_store ::
  "nat \<Rightarrow> memory_order \<Rightarrow> bool \<Rightarrow> thread_info \<Rightarrow> atomic_data
     \<Rightarrow> fault + (u32 \<times> thread_info \<times> atomic_data)" where
  "atomic_store n mo rmw th var =
     rl_verify (mo_consume \<noteq> mo \<or> rmw) (rl_verify (mo_acquire \<noteq> mo \<or> rmw)
     (rl_verify (mo_acq_rel \<noteq> mo \<or> rmw)
       (let i = th_index th;
            cur = current_index var + 1;
            idx = hslot cur;
            clk = tick i (acq_rel_order th);
            th = th\<lparr>acq_rel_order := clk\<rparr>;
            rec = (history var idx)\<lparr>busy := True, h_thread_id := int i, seq_cst := (mo = mo_seq_cst),
                    acq_rel_timestamp := clk i,
                    first_seen_order :=
                      (foreach1 n (first_seen_order (history var idx)) (assign_const (-1)))(i := clk i)\<rparr>;
            h = (history var)(idx := rec);
            prev = h (hslot (cur - 1));
            preserve = (busy prev \<and> (rmw \<or> int i = h_thread_id prev));
            src = (if synch_release mo then acq_rel_order th else release_fence_order th);
            ord = (if preserve
                   then foreach2 n (foreach2 n (h_acq_rel_order rec) (h_acq_rel_order prev) assign)
                          src assign_max
                   else foreach2 n (h_acq_rel_order rec) src assign)
        in Inr (of_nat idx, th,
             var\<lparr>current_index := cur, history := h(idx := rec\<lparr>h_acq_rel_order := ord\<rparr>)\<rparr>))))"

text \<open>
  \<open>atomic_rmw\<close>: the \<open>aba\<close> flag is raised when the thread has never seen the record it
  is about to overwrite; the result of the load is dropped.
\<close>

definition atomic_rmw ::
  "nat \<Rightarrow> memory_order \<Rightarrow> thread_info \<Rightarrow> atomic_data
     \<Rightarrow> fault + (u32 \<times> bool \<times> thread_info \<times> atomic_data)" where
  "atomic_rmw n mo th var =
     (let first_seen = first_seen_order (rec_at var (current_index var)) (th_index th);
          aba = (first_seen = -1)
      in rbind (atomic_load n False mo True (\<lambda>s _ _. Inr (0, s)) th var ())
           (\<lambda>(_, th, var, _). rbind (atomic_store n mo True th var)
              (\<lambda>(result, th, var). Inr (result, aba, th, var))))"

end
