(* ===== verification/Thread_Mem_Props.thy ===== *)
theory Thread_Mem_Props
  imports Thread_Mem
begin

text \<open>
  What the memory model promises: which records a load may return, what a store publishes,
  and how a release reaches an acquire through the history, through fences and through a
  chain of read-modify-writes.
\<close>

section \<open>Which record a load may return\<close>

text \<open>A record the scan may go past, to an older one.\<close>

definition passable :: "nat \<Rightarrow> memory_order \<Rightarrow> thread_info \<Rightarrow> atomic_data \<Rightarrow> u32 \<Rightarrow> bool" where
  "passable n mo th var index \<longleftrightarrow>
     (let rec = rec_at var index; prev = rec_at var (index - 1)
      in busy rec \<and> \<not> (busy prev \<and> first_seen_order prev (th_index th) \<le> last_yield th)
         \<and> \<not> (mo = mo_seq_cst \<and> seq_cst rec)
         \<and> acq_rel_order th (nat (h_thread_id rec)) < acq_rel_timestamp rec
         \<and> (\<forall>i<n. acq_rel_order th i < first_seen_order rec i))"

lemma seen_before_iff: "seen_before n th rec \<longleftrightarrow> (\<exists>i<n. acq_rel_order th i \<ge> first_seen_order rec i)"
  by (simp add: seen_before_def list_ex_upt)

lemma load_scan_Suc:
  "load_scan (Suc k) n mo rnd th var index s =
     (if \<not> busy (rec_at var index) then Inr (-1, s)
      else if \<not> passable n mo th var index then Inr (index, s)
      else rbind (rnd s 2 sched_type_atomic_load) (\<lambda>(r, s).
             if r = 0 then Inr (index, s) else load_scan k n mo rnd th var (index - 1) s))"
  by (auto simp: passable_def Let_def seen_before_iff not_le)

lemma load_scan_sound:
  assumes "load_scan k n mo rnd th var index s = Inr (r, s')" "r \<noteq> -1"
  shows "\<exists>d\<le>k. r = index - of_nat d \<and> (\<forall>e<d. passable n mo th var (index - of_nat e))"
  using assms
proof (induction k arbitrary: index s)
  case 0
  then show ?case by simp
next
  case (Suc k)
  show ?case
  proof (cases "r = index")
    case True
    then show ?thesis by (intro exI [of _ 0]) simp
  next
    case False
    with Suc.prems obtain c s1 where p: "passable n mo th var index"
      and rec: "load_scan k n mo rnd th var (index - 1) s1 = Inr (r, s')"
      by (auto simp: load_scan_Suc rbind_Inr split: if_splits simp del: load_scan.simps)
    from Suc.IH [OF rec Suc.prems(2)] obtain d where d: "d \<le> k" "r = index - 1 - of_nat d"
      "\<forall>e<d. passable n mo th var (index - 1 - of_nat e)" by blast
    have "passable n mo th var (index - of_nat e)" if "e < Suc d" for e
      using that p d(3) by (cases e) (auto simp: algebra_simps)
    with d(1,2) show ?thesis by (intro exI [of _ "Suc d"]) (auto simp: algebra_simps)
  qed
qed

text \<open>An oracle that answers 1 a given number of times, then 0.\<close>

definition ones :: "nat rnd" where
  "ones s l t = Inr (if s = 0 then 0 else 1, s - 1)"

lemma ones_step: "ones (Suc d) l t = Inr (1, d)" "ones 0 l t = Inr (0, 0)"
  by (simp_all add: ones_def)

lemma load_scan_complete:
  assumes "d \<le> k" "\<forall>e<d. passable n mo th var (index - of_nat e)"
    and "d < k \<Longrightarrow> busy (rec_at var (index - of_nat d))"
  shows "\<exists>s'. load_scan k n mo ones th var index d = Inr (index - of_nat d, s')"
  using assms
proof (induction d arbitrary: k index)
  case 0
  then show ?case
    by (cases k) (auto simp: load_scan_Suc ones_step simp del: load_scan.simps(2))
next
  case (Suc d)
  then obtain k' where k: "k = Suc k'" by (cases k) auto
  have p: "passable n mo th var index" using Suc.prems(2) by force
  then have b: "busy (rec_at var index)" by (simp add: passable_def Let_def)
  have "\<forall>e<d. passable n mo th var (index - 1 - of_nat e)"
    using Suc.prems(2) by (force simp: algebra_simps)
  moreover have "d < k' \<Longrightarrow> busy (rec_at var (index - 1 - of_nat d))"
    using Suc.prems(3) k by (simp add: algebra_simps)
  ultimately have "\<exists>s'. load_scan k' n mo ones th var (index - 1) d = Inr (index - 1 - of_nat d, s')"
    using Suc.prems(1) k by (intro Suc.IH) auto
  then show ?case
    using b p by (auto simp: k load_scan_Suc ones_step algebra_simps simp del: load_scan.simps(2))
qed

text \<open>
  The full specification of a load. Over all runs of the scheduler's choice, the record read is
  exactly one at some distance \<open>d\<close> behind the newest, within the history window, such that
  every newer record may be passed.
\<close>

definition readable :: "nat \<Rightarrow> bool \<Rightarrow> memory_order \<Rightarrow> thread_info \<Rightarrow> atomic_data \<Rightarrow> u32 \<Rightarrow> bool" where
  "readable n is_random mo th var r \<longleftrightarrow>
     busy (rec_at var r) \<and>
     (\<exists>d\<le>load_limit is_random. r = current_index var - of_nat d \<and>
        (\<forall>e<d. passable n mo th var (current_index var - of_nat e)))"

lemma get_load_index_sound:
  "get_load_index n is_random mo False rnd th var s = Inr (r, s') \<Longrightarrow> r \<noteq> -1 \<Longrightarrow>
     readable n is_random mo th var r"
  by (auto simp: get_load_index_def readable_def rbind_Inr split: if_splits dest: load_scan_sound)

lemma get_load_index_complete:
  assumes "readable n is_random mo th var r" "r \<noteq> -1"
  shows "\<exists>s s'. get_load_index n is_random mo False ones th var s = Inr (r, s')"
proof -
  obtain d where d: "d \<le> load_limit is_random" "r = current_index var - of_nat d"
    "\<forall>e<d. passable n mo th var (current_index var - of_nat e)" and b: "busy (rec_at var r)"
    using assms(1) by (auto simp: readable_def)
  obtain s' where "load_scan (load_limit is_random) n mo ones th var (current_index var) d = Inr (r, s')"
    using load_scan_complete [OF d(1,3)] b d(2) by blast
  then show ?thesis
    using b assms(2) by (intro exI [of _ d] exI [of _ s']) (simp add: get_load_index_def)
qed

text \<open>A record whose store happens before the load, or a read of which does, is never passed.\<close>

lemma passable_known:
  assumes "passable n mo th var index"
  shows "acq_rel_order th (nat (h_thread_id (rec_at var index))) < acq_rel_timestamp (rec_at var index)"
    and "i < n \<Longrightarrow> acq_rel_order th i < first_seen_order (rec_at var index) i"
  using assms by (simp_all add: passable_def Let_def)

lemma readable_current:
  assumes "readable n is_random mo th var r" "\<not> passable n mo th var (current_index var)"
  shows "r = current_index var"
proof -
  obtain d where d: "r = current_index var - of_nat d"
    "\<forall>e<d. passable n mo th var (current_index var - of_nat e)"
    using assms(1) by (auto simp: readable_def)
  have "d = 0"
  proof (rule ccontr)
    assume "d \<noteq> 0"
    then have "passable n mo th var (current_index var - of_nat 0)" using d(2) by blast
    with assms(2) show False by simp
  qed
  with d(1) show ?thesis by simp
qed

section \<open>The shape of a load and of a store\<close>

lemma atomic_load_Inr:
  "atomic_load n rd mo rmw rnd th var s = Inr (j, th', var', s') \<Longrightarrow> j \<noteq> -1 \<Longrightarrow>
     \<exists>index. get_load_index n rd mo rmw rnd th var s = Inr (index, s') \<and> index \<noteq> -1 \<and>
       j = of_nat (hslot index) \<and> busy (rec_at var index) \<and>
       th' = fst (load_record n mo th (rec_at var index)) \<and>
       var' = var\<lparr>history := (history var)(hslot index := snd (load_record n mo th (rec_at var index)))\<rparr>"
  by (auto simp: atomic_load_def fault_inv Let_def rec_at_def split: if_splits prod.splits)

lemma load_record_clock:
  "acq_rel_order (fst (load_record n mo th rec)) =
     (if synch_acquire mo then foreach2 n (tick (th_index th) (acq_rel_order th)) (h_acq_rel_order rec) assign_max
      else tick (th_index th) (acq_rel_order th))"
  "h_acq_rel_order (snd (load_record n mo th rec)) = h_acq_rel_order rec"
  by (simp_all add: load_record_def Let_def)

lemma load_record_fence:
  "\<not> synch_acquire mo \<Longrightarrow> acquire_fence_order (fst (load_record n mo th rec)) =
     foreach2 n (acquire_fence_order th) (h_acq_rel_order rec) assign_max"
  by (simp add: load_record_def Let_def)

lemma hslot_less: "hslot i < 3"
  by (simp add: hslot_def atomic_history_size_def)

lemma of_nat_hslot_inj: "(of_nat (hslot i) :: u32) = of_nat (hslot j) \<longleftrightarrow> hslot i = hslot j"
proof -
  have "unat (of_nat (hslot k) :: u32) = hslot k" for k
    using hslot_less [of k] by (simp add: unat_of_nat take_bit_nat_eq_self)
  then show ?thesis by metis
qed

text \<open>
  The record a store appends. \<open>published\<close> is the clock it puts into the record when it does
  not continue a release sequence.
\<close>

definition published :: "memory_order \<Rightarrow> thread_info \<Rightarrow> vclock" where
  "published mo th =
     (if synch_release mo then tick (th_index th) (acq_rel_order th) else release_fence_order th)"

lemma atomic_store_Inr:
  assumes "atomic_store n mo rmw th var = Inr (i, th', var')"
  shows "current_index var' = current_index var + 1"
    and "i = of_nat (hslot (current_index var'))"
    and "acq_rel_order th' = tick (th_index th) (acq_rel_order th)"
    and "th_index th' = th_index th"
    and "acq_rel_timestamp (rec_at var' (current_index var')) = acq_rel_order th' (th_index th)"
    and "h_thread_id (rec_at var' (current_index var')) = int (th_index th)"
    and "busy (rec_at var' (current_index var'))"
    and "vle n (published mo th) (h_acq_rel_order (rec_at var' (current_index var')))"
    and "k \<noteq> hslot (current_index var') \<Longrightarrow> history var' k = history var k"
  using assms
  by (auto simp: atomic_store_def rl_verify_Inr Let_def rec_at_def published_def vle_def clock_simps)

lemma atomic_store_total:
  "rmw \<or> mo \<noteq> mo_consume \<and> mo \<noteq> mo_acquire \<and> mo \<noteq> mo_acq_rel \<Longrightarrow>
     \<exists>i th' var'. atomic_store n mo rmw th var = Inr (i, th', var')"
  by (auto simp: atomic_store_def rl_verify_def Let_def)

lemma atomic_store_preserve:
  assumes "atomic_store n mo rmw th var = Inr (i, th', var')"
    and "hslot (current_index var) \<noteq> hslot (current_index var + 1)"
    and "busy (rec_at var (current_index var))"
    and "rmw \<or> h_thread_id (rec_at var (current_index var)) = int (th_index th)"
  shows "vle n (h_acq_rel_order (rec_at var (current_index var)))
           (h_acq_rel_order (rec_at var' (current_index var')))"
  using assms
  by (auto simp: atomic_store_def rl_verify_Inr Let_def rec_at_def vle_def clock_simps)

lemma atomic_store_no_preserve:
  assumes "atomic_store n mo rmw th var = Inr (i, th', var')"
    and "hslot (current_index var) \<noteq> hslot (current_index var + 1)"
    and "\<not> (busy (rec_at var (current_index var)) \<and>
            (rmw \<or> h_thread_id (rec_at var (current_index var)) = int (th_index th)))"
    and "j < n"
  shows "h_acq_rel_order (rec_at var' (current_index var')) j = published mo th j"
  using assms
  by (auto simp: atomic_store_def rl_verify_Inr Let_def rec_at_def published_def clock_simps
      split: if_splits)

text \<open>Two successive indices use different slots, short of the wrap of the 32-bit index.\<close>

lemma hslot_Suc_neq:
  assumes "i \<noteq> -1"
  shows "hslot i \<noteq> hslot (i + 1)"
proof -
  have "unat (i + 1) = Suc (unat i)"
    using assms by (metis add.commute add.inverse_unique unatSuc add_eq_0_iff)
  then show ?thesis by (simp add: hslot_def atomic_history_size_def mod_Suc)
qed

section \<open>What a load and a store leave in the clocks\<close>

lemma atomic_load_acquires:
  assumes "atomic_load n rd mo rmw rnd th var s = Inr (j, th', var', s')"
    and "j = of_nat (hslot i)"
  shows "synch_acquire mo \<Longrightarrow> vle n (h_acq_rel_order (rec_at var i)) (acq_rel_order th')"
    and "\<not> synch_acquire mo \<Longrightarrow> vle n (h_acq_rel_order (rec_at var i)) (acquire_fence_order th')"
    and "acq_rel_order th (th_index th) \<noteq> -1 \<Longrightarrow> vle n (acq_rel_order th) (acq_rel_order th')"
    and "th_index th' = th_index th"
proof -
  have "(of_nat (hslot i) :: u32) \<noteq> -1"
  proof
    assume "(of_nat (hslot i) :: u32) = -1"
    then have "unat (of_nat (hslot i) :: u32) = unat (-1 :: u32)" by simp
    then show False using hslot_less [of i] by (simp add: unat_of_nat take_bit_nat_eq_self unsigned_minus_1_eq_mask mask_eq_exp_minus_1)
  qed
  then obtain index where j: "j = of_nat (hslot index)"
    and th': "th' = fst (load_record n mo th (rec_at var index))"
    using atomic_load_Inr [OF assms(1)] assms(2) by auto
  have r: "rec_at var index = rec_at var i"
    using j assms(2) by (simp add: rec_at_def of_nat_hslot_inj)
  show "synch_acquire mo \<Longrightarrow> vle n (h_acq_rel_order (rec_at var i)) (acq_rel_order th')"
    by (simp add: th' r load_record_clock vle_join2)
  show "\<not> synch_acquire mo \<Longrightarrow> vle n (h_acq_rel_order (rec_at var i)) (acquire_fence_order th')"
    by (simp add: th' r load_record_fence vle_join2)
  show "acq_rel_order th (th_index th) \<noteq> -1 \<Longrightarrow> vle n (acq_rel_order th) (acq_rel_order th')"
    by (auto simp: th' load_record_clock intro: tick_le vle_trans [OF tick_le vle_join1])
  show "th_index th' = th_index th"
    by (simp add: th' load_record_def Let_def)
qed

lemma fence_release_order: "vle n (acq_rel_order th) (release_fence_order (fence_release n th))"
  by (simp add: fence_release_def vle_assign)

lemma fence_acquire_order: "vle n (acquire_fence_order th) (acq_rel_order (fence_acquire n th))"
  by (simp add: fence_acquire_def vle_join2)

lemma fence_seq_cst_order:
  assumes "fence_seq_cst n th f = (th', f')"
  shows "vle n (acq_rel_order th) f'" and "vle n f (acq_rel_order th')"
    and "vle n (acq_rel_order th) (acq_rel_order th')"
    and "th_index th' = th_index th"
  using assms
  by (auto simp: fence_seq_cst_def fence_acquire_def fence_release_def Let_def vle_def clock_simps
      le_max_iff_disj)

text \<open>A chain of atomic read-modify-writes keeps what the head of the release sequence published.\<close>

lemma atomic_rmw_Inr:
  assumes "atomic_rmw n mo th var = Inr (i, aba, th', var')"
  shows "\<exists>j th1 var1. atomic_load n False mo True (\<lambda>s _ _. Inr (0, s)) th var () = Inr (j, th1, var1, ())
           \<and> atomic_store n mo True th1 var1 = Inr (i, th', var')"
  using assms by (auto simp: atomic_rmw_def Let_def rbind_Inr)

lemma atomic_load_keeps_records:
  assumes "atomic_load n rd mo rmw rnd th var s = Inr (j, th', var', s')"
  shows "h_acq_rel_order (rec_at var' k) = h_acq_rel_order (rec_at var k)
    \<and> busy (rec_at var' k) = busy (rec_at var k) \<and> h_thread_id (rec_at var' k) = h_thread_id (rec_at var k)
    \<and> acq_rel_timestamp (rec_at var' k) = acq_rel_timestamp (rec_at var k)
    \<and> seq_cst (rec_at var' k) = seq_cst (rec_at var k)
    \<and> current_index var' = current_index var"
  using assms
  by (auto simp: atomic_load_def fault_inv Let_def rec_at_def load_record_def split: if_splits prod.splits)

lemma atomic_rmw_keeps_order:
  assumes "atomic_rmw n mo th var = Inr (i, aba, th', var')"
    and "busy (rec_at var (current_index var))" "current_index var \<noteq> -1"
  shows "vle n (h_acq_rel_order (rec_at var (current_index var)))
           (h_acq_rel_order (rec_at var' (current_index var')))"
proof -
  obtain j th1 var1 where
    l: "atomic_load n False mo True (\<lambda>s _ _. Inr (0, s)) th var () = Inr (j, th1, var1, ())"
    and s: "atomic_store n mo True th1 var1 = Inr (i, th', var')"
    using atomic_rmw_Inr [OF assms(1)] by blast
  have k: "current_index var1 = current_index var"
    "h_acq_rel_order (rec_at var1 m) = h_acq_rel_order (rec_at var m)"
    "busy (rec_at var1 m) = busy (rec_at var m)" for m
    using atomic_load_keeps_records [OF l] by auto
  show ?thesis
    using atomic_store_preserve [OF s] hslot_Suc_neq [OF assms(3)] assms(2) by (simp add: k)
qed

end
