(* ===== verification/Plain_Var.thy ===== *)
theory Plain_Var
  imports Thread_Mem_Props
begin

text \<open>
  Plain shared variables: the liveness mark of \<^verbatim>\<open>signature.hpp\<close>, the race detector
  \<open>var_data_impl\<close> and the class \<open>var<T>\<close> with its proxies (\<^verbatim>\<open>var.hpp\<close>).
\<close>

section \<open>Signatures\<close>

text \<open>
  The object has an address (64 bits) and holds a magic number while it lives; the destructor
  clears it. \<open>fail_test\<close> does not return.
\<close>

record signature =
  sig_addr :: "64 word"
  sig_magic :: u32

definition signature_ctor :: "u32 \<Rightarrow> 64 word \<Rightarrow> signature" where
  "signature_ctor magic this = \<lparr>sig_addr = this, sig_magic = magic\<rparr>"

definition signature_check :: "u32 \<Rightarrow> signature \<Rightarrow> fault + unit" where
  "signature_check magic s =
     (let this = sig_addr s
      in if this \<le> -1 - 4096 \<and> this \<ge> 4096 \<and> this mod 4 = 0 \<and> magic = sig_magic s
         then Inr ()
         else Inl (Test_failed result_access_to_freed_memory))"

definition signature_dtor :: "u32 \<Rightarrow> signature \<Rightarrow> fault + signature" where
  "signature_dtor magic s = rbind (signature_check magic s) (\<lambda>_. Inr (s\<lparr>sig_magic := 0\<rparr>))"

definition sig_ok :: "u32 \<Rightarrow> signature \<Rightarrow> bool" where
  "sig_ok magic s \<longleftrightarrow> signature_check magic s = Inr ()"

lemma signature_check_ok [simp]: "sig_ok magic s \<Longrightarrow> signature_check magic s = Inr ()"
  by (simp add: sig_ok_def)

lemma signature_check_bad: "\<not> sig_ok magic s \<Longrightarrow>
    signature_check magic s = Inl (Test_failed result_access_to_freed_memory)"
  by (auto simp: sig_ok_def signature_check_def Let_def split: if_splits)

lemma signature_check_Inr: "signature_check magic s = Inr u \<longleftrightarrow> sig_ok magic s"
  by (auto simp: sig_ok_def)

lemma signature_dtor_twice:
  assumes "signature_dtor magic s = Inr s'" "magic \<noteq> 0"
  shows "\<not> sig_ok magic s'"
  using assms by (auto simp: signature_dtor_def sig_ok_def signature_check_def Let_def rbind_Inr)

section \<open>The race detector of one variable\<close>

record var_data =
  load_ts :: vclock
  store_ts :: vclock

definition var_data_ctor :: "nat \<Rightarrow> var_data \<Rightarrow> var_data" where
  "var_data_ctor n raw =
     raw\<lparr>load_ts := foreach1 n (load_ts raw) assign_zero,
         store_ts := foreach1 n (store_ts raw) assign_zero\<rparr>"

definition th_tick :: "thread_info \<Rightarrow> thread_info" where
  "th_tick th = th\<lparr>acq_rel_order := tick (th_index th) (acq_rel_order th)\<rparr>"

definition var_data_init :: "thread_info \<Rightarrow> var_data \<Rightarrow> thread_info \<times> var_data" where
  "var_data_init th v =
     (let th = th_tick th
      in (th, v\<lparr>store_ts := (store_ts v)(th_index th := own_order th)\<rparr>))"

definition var_data_store ::
  "nat \<Rightarrow> thread_info \<Rightarrow> var_data \<Rightarrow> bool \<times> thread_info \<times> var_data" where
  "var_data_store n th v =
     (if list_ex (\<lambda>i. acq_rel_order th i < store_ts v i \<or> acq_rel_order th i < load_ts v i) [0..<n]
      then (False, th, v)
      else let th = th_tick th
           in (True, th, v\<lparr>store_ts := (store_ts v)(th_index th := own_order th)\<rparr>))"

definition var_data_load ::
  "nat \<Rightarrow> thread_info \<Rightarrow> var_data \<Rightarrow> bool \<times> thread_info \<times> var_data" where
  "var_data_load n th v =
     (if list_ex (\<lambda>i. acq_rel_order th i < store_ts v i) [0..<n]
      then (False, th, v)
      else let th = th_tick th
           in (True, th, v\<lparr>load_ts := (load_ts v)(th_index th := own_order th)\<rparr>))"

lemma th_tick_simps [simp]:
  "th_index (th_tick th) = th_index th"
  "acq_rel_order (th_tick th) = tick (th_index th) (acq_rel_order th)"
  "own_order (th_tick th) = own_order th + 1"
  by (simp_all add: th_tick_def own_order_def tick_def)

lemma behind_iff:
  "list_ex (\<lambda>i. c i < s i) [0..<n] \<longleftrightarrow> \<not> vle n s c"
  "list_ex (\<lambda>i. c i < s i \<or> c i < l i) [0..<n] \<longleftrightarrow> \<not> (vle n s c \<and> vle n l c)"
  unfolding list_ex_upt vle_def by (meson not_le)+

lemma var_data_load_iff:
  "fst (var_data_load n th v) \<longleftrightarrow> vle n (store_ts v) (acq_rel_order th)"
  by (simp add: var_data_load_def Let_def behind_iff)

lemma var_data_store_iff:
  "fst (var_data_store n th v) \<longleftrightarrow>
     vle n (store_ts v) (acq_rel_order th) \<and> vle n (load_ts v) (acq_rel_order th)"
  by (simp add: var_data_store_def Let_def behind_iff)

section \<open>The class \<open>var<T>\<close>\<close>

text \<open>
  \<open>invariant_executing\<close> is the flag of the context that is set while the user's invariant
  runs; \<open>signature_magic\<close> of \<open>var\<close> is 123456789.
\<close>

record 'a var =
  v_value :: 'a
  v_initialized :: bool
  v_data :: var_data
  v_sign :: signature

definition var_magic :: u32 where
  "var_magic = 123456789"

definition var_ctor :: "nat \<Rightarrow> 64 word \<Rightarrow> var_data \<Rightarrow> ('a :: zero) var" where
  "var_ctor n this raw =
     \<lparr>v_value = 0, v_initialized = False, v_data = var_data_ctor n raw,
      v_sign = signature_ctor var_magic this\<rparr>"

definition var_ctor_value ::
  "nat \<Rightarrow> 64 word \<Rightarrow> var_data \<Rightarrow> thread_info \<Rightarrow> 'a \<Rightarrow> thread_info \<times> 'a var" where
  "var_ctor_value n this raw th value =
     (let (th, data) = var_data_init th (var_data_ctor n raw)
      in (th, \<lparr>v_value = value, v_initialized = True, v_data = data,
               v_sign = signature_ctor var_magic this\<rparr>))"

definition var_load ::
  "nat \<Rightarrow> bool \<Rightarrow> thread_info \<Rightarrow> 'a var \<Rightarrow> fault + ('a \<times> thread_info \<times> 'a var)" where
  "var_load n invariant_executing th v =
     rbind (signature_check var_magic (v_sign v)) (\<lambda>_.
       rl_assert_impl (v_initialized v) result_unitialized_access
         (if \<not> invariant_executing
          then (let (ok, th, data) = var_data_load n th (v_data v)
                in rl_assert_impl ok result_data_race (Inr (v_value v, th, v\<lparr>v_data := data\<rparr>)))
          else Inr (v_value v, th, v)))"

definition var_store ::
  "nat \<Rightarrow> bool \<Rightarrow> thread_info \<Rightarrow> 'a var \<Rightarrow> 'a \<Rightarrow> fault + (thread_info \<times> 'a var)" where
  "var_store n invariant_executing th v x =
     rl_verify (\<not> invariant_executing)
       (rbind (signature_check var_magic (v_sign v)) (\<lambda>_.
          if v_initialized v
          then (let (ok, th, data) = var_data_store n th (v_data v)
                in rl_assert_impl ok result_data_race
                     (Inr (th, v\<lparr>v_data := data, v_value := x\<rparr>)))
          else (let (th, data) = var_data_init th (v_data v)
                in Inr (th, v\<lparr>v_initialized := True, v_data := data, v_value := x\<rparr>))))"

definition var_ctor_copy ::
  "nat \<Rightarrow> bool \<Rightarrow> 64 word \<Rightarrow> var_data \<Rightarrow> thread_info \<Rightarrow> 'a var
     \<Rightarrow> fault + (thread_info \<times> 'a var \<times> 'a var)" where
  "var_ctor_copy n ie this raw th r =
     rbind (var_load n ie th r) (\<lambda>(value, th, r).
       let (th, v) = var_ctor_value n this raw th value in Inr (th, r, v))"

text \<open>
  The body of the destructor checks the signature; the member \<open>sign_\<close> is destroyed after it.
\<close>

definition var_dtor :: "'a var \<Rightarrow> fault + 'a var" where
  "var_dtor v =
     rbind (signature_check var_magic (v_sign v)) (\<lambda>_.
       rbind (signature_dtor var_magic (v_sign v)) (\<lambda>s. Inr (v\<lparr>v_sign := s\<rparr>)))"

section \<open>The proxies\<close>

text \<open>The operators that read, modify and write a plain variable: a load, then a store.\<close>

definition var_update ::
  "nat \<Rightarrow> bool \<Rightarrow> ('a \<Rightarrow> 'a) \<Rightarrow> thread_info \<Rightarrow> 'a var \<Rightarrow> fault + ('a \<times> thread_info \<times> 'a var)" where
  "var_update n ie f th v =
     rbind (var_load n ie th v) (\<lambda>(x, th, v).
       let x = f x
       in rbind (var_store n ie th v x) (\<lambda>(th, v). Inr (x, th, v)))"

definition var_assign ::
  "nat \<Rightarrow> bool \<Rightarrow> 'a \<Rightarrow> thread_info \<Rightarrow> 'a var \<Rightarrow> fault + ('a \<times> thread_info \<times> 'a var)" where
  "var_assign n ie value th v =
     rbind (var_store n ie th v value) (\<lambda>(th, v). Inr (value, th, v))"

text \<open>
  In the postfix operators \<open>T y = ++v\<close> changes the loaded copy \<open>v\<close> too, and \<open>v\<close> is what
  they return.
\<close>

definition var_postinc ::
  "nat \<Rightarrow> bool \<Rightarrow> thread_info \<Rightarrow> ('b :: len) word var \<Rightarrow> fault + ('b word \<times> thread_info \<times> 'b word var)" where
  "var_postinc n ie th v =
     rbind (var_load n ie th v) (\<lambda>(x, th, v).
       let x = x + 1; y = x
       in rbind (var_store n ie th v y) (\<lambda>(th, v). Inr (x, th, v)))"

definition var_postdec ::
  "nat \<Rightarrow> bool \<Rightarrow> thread_info \<Rightarrow> ('b :: len) word var \<Rightarrow> fault + ('b word \<times> thread_info \<times> 'b word var)" where
  "var_postdec n ie th v =
     rbind (var_load n ie th v) (\<lambda>(x, th, v).
       let x = x - 1; y = x
       in rbind (var_store n ie th v y) (\<lambda>(th, v). Inr (x, th, v)))"

definition var_preinc where
  "var_preinc n ie th (v :: ('b :: len) word var) = var_update n ie (\<lambda>x. x + 1) th v"

definition var_predec where
  "var_predec n ie th (v :: ('b :: len) word var) = var_update n ie (\<lambda>x. x - 1) th v"

definition var_add_assign where
  "var_add_assign n ie value th (v :: ('b :: len) word var) = var_update n ie (\<lambda>x. x + value) th v"

definition var_sub_assign where
  "var_sub_assign n ie value th (v :: ('b :: len) word var) = var_update n ie (\<lambda>x. x - value) th v"

definition var_and_assign where
  "var_and_assign n ie value th (v :: ('b :: len) word var) = var_update n ie (\<lambda>x. x AND value) th v"

definition var_or_assign where
  "var_or_assign n ie value th (v :: ('b :: len) word var) = var_update n ie (\<lambda>x. x OR value) th v"

definition var_xor_assign where
  "var_xor_assign n ie value th (v :: ('b :: len) word var) = var_update n ie (\<lambda>x. x XOR value) th v"

section \<open>What a load and a store return\<close>

lemma var_load_Inr:
  "var_load n False th v = Inr (x, th', v') \<longleftrightarrow>
     sig_ok var_magic (v_sign v) \<and> v_initialized v \<and> vle n (store_ts (v_data v)) (acq_rel_order th) \<and>
     x = v_value v \<and> th' = th_tick th \<and>
     v' = v\<lparr>v_data := (v_data v)\<lparr>load_ts := (load_ts (v_data v))(th_index th := own_order th + 1)\<rparr>\<rparr>"
  by (auto simp: var_load_def fault_inv signature_check_Inr var_data_load_def Let_def behind_iff
      split: if_splits)

lemma var_store_init:
  "v_initialized v \<Longrightarrow> var_store n False th v x = Inr (th', v') \<longleftrightarrow>
     sig_ok var_magic (v_sign v) \<and> vle n (store_ts (v_data v)) (acq_rel_order th) \<and>
     vle n (load_ts (v_data v)) (acq_rel_order th) \<and> th' = th_tick th \<and>
     v' = v\<lparr>v_data := (v_data v)\<lparr>store_ts := (store_ts (v_data v))(th_index th := own_order th + 1)\<rparr>,
           v_value := x\<rparr>"
  by (auto simp: var_store_def fault_inv signature_check_Inr var_data_store_def Let_def behind_iff
      split: if_splits)

lemma var_store_uninit:
  "\<not> v_initialized v \<Longrightarrow> var_store n False th v x = Inr (th', v') \<longleftrightarrow>
     sig_ok var_magic (v_sign v) \<and> th' = th_tick th \<and>
     v' = v\<lparr>v_initialized := True,
           v_data := (v_data v)\<lparr>store_ts := (store_ts (v_data v))(th_index th := own_order th + 1)\<rparr>,
           v_value := x\<rparr>"
  by (auto simp: var_store_def fault_inv signature_check_Inr var_data_init_def Let_def)

lemmas var_ops_Inr = var_load_Inr var_store_init var_store_uninit

text \<open>The postfix operators return the value they store, not the one they found.\<close>

lemma var_postinc_returns_new:
  "var_postinc n ie th v = Inr (r, th', v') \<Longrightarrow> r = v_value v' \<and> r = v_value v + 1"
  by (auto simp: var_postinc_def var_load_def var_store_def fault_inv Let_def split: if_splits prod.splits)

lemma var_postdec_returns_new:
  "var_postdec n ie th v = Inr (r, th', v') \<Longrightarrow> r = v_value v' \<and> r = v_value v - 1"
  by (auto simp: var_postdec_def var_load_def var_store_def fault_inv Let_def split: if_splits prod.splits)

end
