(* ===== verification/Race_Exact.thy ===== *)
theory Race_Exact
  imports Plain_Var
begin

text \<open>
  The race detector against its specification. A trace is a sequence of synchronisations and of
  accesses to plain variables; \<open>hb\<close> is the textbook happens-before on it (program order and
  release-to-acquire, closed transitively), defined without clocks. The run of the modelled
  detector on a trace is compared with it.
\<close>

section \<open>Traces and happens-before\<close>

datatype 'a action =
    act_acquire nat
  | act_release nat
  | act_acq_rel nat
  | act_load nat
  | act_store nat 'a

type_synonym 'a trace = "(nat \<times> 'a action) list"

fun releases :: "'a action \<Rightarrow> nat \<Rightarrow> bool" where
  "releases (act_release s) s' = (s = s')"
| "releases (act_acq_rel s) s' = (s = s')"
| "releases _ _ = False"

fun acquires :: "'a action \<Rightarrow> nat \<Rightarrow> bool" where
  "acquires (act_acquire s) s' = (s = s')"
| "acquires (act_acq_rel s) s' = (s = s')"
| "acquires _ _ = False"

fun is_store :: "'a action \<Rightarrow> nat \<Rightarrow> bool" where
  "is_store (act_store x v) y = (x = y)"
| "is_store _ _ = False"

fun is_load :: "'a action \<Rightarrow> nat \<Rightarrow> bool" where
  "is_load (act_load x) y = (x = y)"
| "is_load _ _ = False"

definition hb1 :: "'a trace \<Rightarrow> nat \<Rightarrow> nat \<Rightarrow> bool" where
  "hb1 tr i j \<longleftrightarrow> i < j \<and> j < length tr \<and>
     (fst (tr ! i) = fst (tr ! j) \<or> (\<exists>s. releases (snd (tr ! i)) s \<and> acquires (snd (tr ! j)) s))"

definition hb :: "'a trace \<Rightarrow> nat \<Rightarrow> nat \<Rightarrow> bool" where
  "hb tr = (hb1 tr)\<^sup>+\<^sup>+"

text \<open>Every load of a plain variable follows a store of it, and conflicting accesses are ordered.\<close>

definition stored_before_load :: "'a trace \<Rightarrow> bool" where
  "stored_before_load tr \<longleftrightarrow>
     (\<forall>j<length tr. \<forall>x. is_load (snd (tr ! j)) x \<longrightarrow> (\<exists>i<j. is_store (snd (tr ! i)) x))"

definition conflict :: "'a action \<Rightarrow> 'a action \<Rightarrow> bool" where
  "conflict a b \<longleftrightarrow> (\<exists>x. is_store a x \<and> is_store b x \<or> is_store a x \<and> is_load b x \<or> is_load a x \<and> is_store b x)"

definition race_free :: "'a trace \<Rightarrow> bool" where
  "race_free tr \<longleftrightarrow>
     (\<forall>j<length tr. \<forall>i<j. conflict (snd (tr ! i)) (snd (tr ! j)) \<longrightarrow> hb tr i j)"

section \<open>The detector on a trace\<close>

record 'a rstate =
  rth :: "nat \<Rightarrow> thread_info"
  rsync :: "nat \<Rightarrow> vclock"
  rvar :: "nat \<Rightarrow> 'a var"

fun rstep :: "nat \<Rightarrow> nat \<times> 'a action \<Rightarrow> 'a rstate \<Rightarrow> fault + 'a rstate" where
  "rstep n (t, act_acquire s) st =
     (let (c, m) = sync_acquire n (th_index (rth st t)) (acq_rel_order (rth st t)) (rsync st s)
      in Inr (st\<lparr>rth := (rth st)(t := (rth st t)\<lparr>acq_rel_order := c\<rparr>), rsync := (rsync st)(s := m)\<rparr>))"
| "rstep n (t, act_release s) st =
     (let (c, m) = sync_release n (th_index (rth st t)) (acq_rel_order (rth st t)) (rsync st s)
      in Inr (st\<lparr>rth := (rth st)(t := (rth st t)\<lparr>acq_rel_order := c\<rparr>), rsync := (rsync st)(s := m)\<rparr>))"
| "rstep n (t, act_acq_rel s) st =
     (let (c, m) = sync_acq_rel n (th_index (rth st t)) (acq_rel_order (rth st t)) (rsync st s)
      in Inr (st\<lparr>rth := (rth st)(t := (rth st t)\<lparr>acq_rel_order := c\<rparr>), rsync := (rsync st)(s := m)\<rparr>))"
| "rstep n (t, act_load x) st =
     rbind (var_load n False (rth st t) (rvar st x)) (\<lambda>(_, th, v).
       Inr (st\<lparr>rth := (rth st)(t := th), rvar := (rvar st)(x := v)\<rparr>))"
| "rstep n (t, act_store x value) st =
     rbind (var_store n False (rth st t) (rvar st x) value) (\<lambda>(th, v).
       Inr (st\<lparr>rth := (rth st)(t := th), rvar := (rvar st)(x := v)\<rparr>))"

definition rrun :: "nat \<Rightarrow> 'a trace \<Rightarrow> 'a rstate \<Rightarrow> fault + 'a rstate" where
  "rrun n tr st = rfold (rstep n) tr st"

text \<open>
  The state an iteration starts in: threads and sync variables reset, variables constructed
  without a value, at addresses a program can have.
\<close>

definition rinit :: "nat \<Rightarrow> (nat \<Rightarrow> thread_info) \<Rightarrow> (nat \<Rightarrow> vclock) \<Rightarrow> (nat \<Rightarrow> var_data) \<Rightarrow> ('a :: zero) rstate" where
  "rinit n ths syncs datas =
     \<lparr>rth = (\<lambda>t. thread_iteration_begin n ((ths t)\<lparr>th_index := t\<rparr>)),
      rsync = (\<lambda>s. sync_init n (syncs s)),
      rvar = (\<lambda>x. var_ctor n 4096 (datas x))\<rparr>"

section \<open>Happens-before, one event at a time\<close>

lemma hb_less: "hb tr i j \<Longrightarrow> i < j \<and> j < length tr"
  unfolding hb_def by (induction rule: tranclp_induct) (auto simp: hb1_def)

lemma hb1_append: "j < length tr \<Longrightarrow> hb1 (tr @ [e]) i j = hb1 tr i j"
  by (auto simp: hb1_def nth_append)

lemma hb_append: "j < length tr \<Longrightarrow> hb (tr @ [e]) i j = hb tr i j"
proof
  assume j: "j < length tr" and "hb (tr @ [e]) i j"
  from this(2,1) show "hb tr i j"
    unfolding hb_def
  proof (induction rule: tranclp_induct)
    case (base k)
    then show ?case by (auto simp: hb1_append)
  next
    case (step k l)
    then have "k < length tr" by (auto simp: hb1_def)
    with step show ?case by (auto simp: hb1_append intro: tranclp.trancl_into_trancl)
  qed
next
  assume j: "j < length tr" and "hb tr i j"
  from this(2,1) show "hb (tr @ [e]) i j"
    unfolding hb_def
  proof (induction rule: tranclp_induct)
    case (base k)
    then show ?case by (auto simp: hb1_append)
  next
    case (step k l)
    then have "k < length tr" by (auto simp: hb1_def)
    with step show ?case by (auto simp: hb1_append intro: tranclp.trancl_into_trancl)
  qed
qed

definition known :: "'a trace \<Rightarrow> nat \<Rightarrow> nat set" where
  "known tr t = {i. \<exists>j<length tr. fst (tr ! j) = t \<and> (i = j \<or> hb tr i j)}"

definition passed :: "'a trace \<Rightarrow> nat \<Rightarrow> nat set" where
  "passed tr s = {i. \<exists>j<length tr. releases (snd (tr ! j)) s \<and> (i = j \<or> hb tr i j)}"

lemma tranclp_last: "r\<^sup>+\<^sup>+ a b \<longleftrightarrow> (\<exists>k. r k b \<and> (a = k \<or> r\<^sup>+\<^sup>+ a k))"
  by (metis tranclp.simps)

lemma hb_last:
  "hb (tr @ [e]) i (length tr) \<longleftrightarrow>
     i \<in> known tr (fst e) \<or> (\<exists>s. acquires (snd e) s \<and> i \<in> passed tr s)"
proof -
  have "hb (tr @ [e]) i (length tr) \<longleftrightarrow>
      (\<exists>k. hb1 (tr @ [e]) k (length tr) \<and> (i = k \<or> hb (tr @ [e]) i k))"
    unfolding hb_def by (rule tranclp_last)
  also have "\<dots> \<longleftrightarrow> (\<exists>k<length tr. (fst (tr ! k) = fst e \<or>
      (\<exists>s. releases (snd (tr ! k)) s \<and> acquires (snd e) s)) \<and> (i = k \<or> hb tr i k))"
    by (rule ex_cong1) (auto simp: hb1_def hb_append nth_append)
  also have "\<dots> \<longleftrightarrow> i \<in> known tr (fst e) \<or> (\<exists>s. acquires (snd e) s \<and> i \<in> passed tr s)"
    unfolding known_def passed_def by blast
  finally show ?thesis .
qed

lemma known_less: "i \<in> known tr t \<Longrightarrow> i < length tr"
  by (auto simp: known_def dest: hb_less)

lemma passed_less: "i \<in> passed tr s \<Longrightarrow> i < length tr"
  by (auto simp: passed_def dest: hb_less)

lemma ex_append:
  "(\<exists>j<length (tr @ [e]). P ((tr @ [e]) ! j) \<and> (i = j \<or> hb (tr @ [e]) i j)) \<longleftrightarrow>
     P e \<and> (i = length tr \<or> hb (tr @ [e]) i (length tr)) \<or>
     (\<exists>j<length tr. P (tr ! j) \<and> (i = j \<or> hb tr i j))"
  by (simp add: Ex_less_Suc nth_append hb_append cong: conj_cong)

lemma known_append:
  "known (tr @ [e]) t =
     known tr t \<union> (if fst e = t then insert (length tr) (\<Union>s \<in> {s. acquires (snd e) s}. passed tr s) else {})"
proof -
  have "known (tr @ [e]) t = known tr t \<union>
      (if fst e = t then insert (length tr) {i. hb (tr @ [e]) i (length tr)} else {})"
    unfolding known_def ex_append [where P = "\<lambda>a. fst a = t"] by (simp add: set_eq_iff) blast
  then show ?thesis by (simp add: hb_last set_eq_iff) blast
qed

lemma passed_append:
  "passed (tr @ [e]) s =
     passed tr s \<union> (if releases (snd e) s then known (tr @ [e]) (fst e) else {})"
proof -
  have "passed (tr @ [e]) s = passed tr s \<union>
      (if releases (snd e) s then insert (length tr) {i. hb (tr @ [e]) i (length tr)} else {})"
    unfolding passed_def ex_append [where P = "\<lambda>a. releases (snd a) s"] by (auto simp: set_eq_iff)
  then show ?thesis by (auto simp: hb_last known_append set_eq_iff)
qed

section \<open>What the clocks count\<close>

text \<open>
  Every event ticks the clock of its thread once, and an iteration starts the clocks at 1: the
  time stamp of an event is one more than its position among the events of its thread.
\<close>

definition cnt :: "'a trace \<Rightarrow> nat \<Rightarrow> nat" where
  "cnt tr t = length (filter (\<lambda>e. fst e = t) tr)"

definition ts :: "'a trace \<Rightarrow> nat \<Rightarrow> nat" where
  "ts tr i = Suc (cnt (take (Suc i) tr) (fst (tr ! i)))"

lemma cnt_append: "cnt (tr @ [e]) t = cnt tr t + (if fst e = t then 1 else 0)"
  by (simp add: cnt_def)

lemma cnt_le: "cnt tr t \<le> length tr"
  by (simp add: cnt_def)

lemma ts_append: "i < length tr \<Longrightarrow> ts (tr @ [e]) i = ts tr i"
  by (simp add: ts_def nth_append)

lemma ts_last: "ts (tr @ [e]) (length tr) = Suc (Suc (cnt tr (fst e)))"
  by (simp add: ts_def cnt_def)

lemma ts_le: "i < length tr \<Longrightarrow> ts tr i \<le> Suc (cnt tr (fst (tr ! i)))"
proof -
  have "cnt tr t = cnt (take (Suc i) tr) t + cnt (drop (Suc i) tr) t" for t
    by (metis append_take_drop_id cnt_def filter_append length_append)
  then show ?thesis by (simp add: ts_def)
qed

text \<open>
  \<open>C t\<close> and \<open>S s\<close> are the clocks of thread \<open>t\<close> and of sync variable \<open>s\<close>.
\<close>

definition clock_inv :: "nat \<Rightarrow> 'a trace \<Rightarrow> (nat \<Rightarrow> nat \<Rightarrow> nat) \<Rightarrow> (nat \<Rightarrow> nat \<Rightarrow> nat) \<Rightarrow> bool" where
  "clock_inv n tr C S \<longleftrightarrow>
     (\<forall>t<n. C t t = Suc (cnt tr t)) \<and>
     (\<forall>t<n. \<forall>u<n. C t u \<le> Suc (cnt tr u)) \<and>
     (\<forall>s. \<forall>u<n. S s u \<le> Suc (cnt tr u)) \<and>
     (\<forall>t<n. \<forall>i<length tr. ts tr i \<le> C t (fst (tr ! i)) \<longleftrightarrow> i \<in> known tr t) \<and>
     (\<forall>s. \<forall>i<length tr. ts tr i \<le> S s (fst (tr ! i)) \<longleftrightarrow> i \<in> passed tr s)"

text \<open>What one event does to the clocks, each bound read off as a set of lower bounds.\<close>

definition clock_step ::
  "nat \<Rightarrow> nat \<times> 'a action \<Rightarrow> (nat \<Rightarrow> nat \<Rightarrow> nat) \<Rightarrow> (nat \<Rightarrow> nat \<Rightarrow> nat)
     \<Rightarrow> (nat \<Rightarrow> nat \<Rightarrow> nat) \<Rightarrow> (nat \<Rightarrow> nat \<Rightarrow> nat) \<Rightarrow> bool" where
  "clock_step n e C S C' S' \<longleftrightarrow>
     (\<forall>u<n. \<forall>k. k \<le> C' (fst e) u \<longleftrightarrow>
        k \<le> (if u = fst e then Suc (C u u) else C (fst e) u) \<or> (\<exists>s. acquires (snd e) s \<and> k \<le> S s u)) \<and>
     (\<forall>t u. t \<noteq> fst e \<longrightarrow> C' t u = C t u) \<and>
     (\<forall>s. \<forall>u<n. \<forall>k. k \<le> S' s u \<longleftrightarrow> k \<le> S s u \<or> releases (snd e) s \<and> k \<le> C' (fst e) u)"

lemma clock_step_bounds:
  assumes inv: "clock_inv n tr C S" and st: "clock_step n e C S C' S'" and e: "fst e < n"
  shows "C' (fst e) (fst e) = Suc (cnt (tr @ [e]) (fst e))"
    and "t < n \<Longrightarrow> u < n \<Longrightarrow> C' t u \<le> Suc (cnt (tr @ [e]) u)"
    and "u < n \<Longrightarrow> S' s u \<le> Suc (cnt (tr @ [e]) u)"
proof -
  have S: "S s u \<le> Suc (cnt tr u)" if "u < n" for s u
    using inv that by (simp add: clock_inv_def)
  have C: "C t u \<le> Suc (cnt tr u)" if "t < n" "u < n" for t u
    using inv that by (simp add: clock_inv_def)
  have Ce: "C (fst e) (fst e) = Suc (cnt tr (fst e))"
    using inv e by (simp add: clock_inv_def)
  have new: "k \<le> C' (fst e) u \<longleftrightarrow> k \<le> (if u = fst e then Suc (C u u) else C (fst e) u) \<or>
      (\<exists>s. acquires (snd e) s \<and> k \<le> S s u)" if "u < n" for k u
    using st that by (simp add: clock_step_def)
  have other: "C' t u = C t u" if "t \<noteq> fst e" for t u
    using st that by (simp add: clock_step_def)
  have le_new: "C' (fst e) u \<le> Suc (cnt (tr @ [e]) u)" if u: "u < n" for u
    using new [OF u, of "C' (fst e) u"] S [OF u] C [OF e u] Ce
    by (auto simp: cnt_append split: if_splits intro: le_SucI order_trans)
  show "C' (fst e) (fst e) = Suc (cnt (tr @ [e]) (fst e))"
  proof (rule antisym)
    show "C' (fst e) (fst e) \<le> Suc (cnt (tr @ [e]) (fst e))" using e by (rule le_new)
    show "Suc (cnt (tr @ [e]) (fst e)) \<le> C' (fst e) (fst e)"
      using e by (simp add: new Ce cnt_append)
  qed
  show le: "C' t u \<le> Suc (cnt (tr @ [e]) u)" if "t < n" "u < n" for t u
    using le_new [of u] other [of t u] C [of t u] that
    by (cases "t = fst e") (auto simp: cnt_append)
  have "S' s u \<le> S s u \<or> S' s u \<le> C' (fst e) u" if "u < n" for s u
    using st that unfolding clock_step_def by blast
  then show "u < n \<Longrightarrow> S' s u \<le> Suc (cnt (tr @ [e]) u)" for s
    using S [of u s] le_new [of u] by (metis (no_types, lifting) cnt_append le_SucI le_add1 order_trans Suc_le_mono)
qed

lemma clock_inv_step:
  assumes inv: "clock_inv n tr C S" and st: "clock_step n e C S C' S'" and e: "fst e < n"
    and th: "\<forall>i<length tr. fst (tr ! i) < n"
  shows "clock_inv n (tr @ [e]) C' S'"
proof -
  note bounds = clock_step_bounds [OF inv st e]
  have new: "k \<le> C' (fst e) u \<longleftrightarrow> k \<le> (if u = fst e then Suc (C u u) else C (fst e) u) \<or>
      (\<exists>s. acquires (snd e) s \<and> k \<le> S s u)" if "u < n" for k u
    using st that by (simp add: clock_step_def)
  have other: "C' t = C t" if "t \<noteq> fst e" for t
    using st that by (auto simp: clock_step_def)
  have sync: "k \<le> S' s u \<longleftrightarrow> k \<le> S s u \<or> releases (snd e) s \<and> k \<le> C' (fst e) u" if "u < n" for k s u
    using st that by (simp add: clock_step_def)
  have own: "\<forall>t<n. C t t = Suc (cnt tr t)" and
    known: "\<forall>t<n. \<forall>i<length tr. ts tr i \<le> C t (fst (tr ! i)) \<longleftrightarrow> i \<in> known tr t" and
    passed: "\<forall>s. \<forall>i<length tr. ts tr i \<le> S s (fst (tr ! i)) \<longleftrightarrow> i \<in> passed tr s"
    and dom: "\<forall>t<n. \<forall>u<n. C t u \<le> Suc (cnt tr u)" and sdom: "\<forall>s. \<forall>u<n. S s u \<le> Suc (cnt tr u)"
    using inv by (simp_all add: clock_inv_def)
  have mine: "i \<in> known tr (fst e)" if "i < length tr" "fst (tr ! i) = fst e" for i
    using that by (auto simp: known_def)
  have old: "ts tr i \<le> C' (fst e) (fst (tr ! i)) \<longleftrightarrow> i \<in> known (tr @ [e]) (fst e)" if i: "i < length tr" for i
    using i e th new [of "fst (tr ! i)" "ts tr i"] known passed mine [OF i] ts_le [OF i] own
    by (auto simp: known_append)
  have last: "ts (tr @ [e]) (length tr) \<le> C' t (fst e) \<longleftrightarrow> t = fst e" if "t < n" for t
  proof -
    have "t \<noteq> fst e \<Longrightarrow> C' t (fst e) \<le> Suc (cnt tr (fst e))" using that other [of t] dom e by simp
    then show ?thesis using bounds(1) by (cases "t = fst e") (auto simp: ts_last cnt_append)
  qed
  have k: "ts (tr @ [e]) i \<le> C' t (fst ((tr @ [e]) ! i)) \<longleftrightarrow> i \<in> known (tr @ [e]) t"
    if t: "t < n" and i: "i < Suc (length tr)" for t i
  proof (cases "i = length tr")
    case True
    then show ?thesis using last [OF t] known_less [of i tr t] by (auto simp: known_append)
  next
    case False
    then have i': "i < length tr" using i by simp
    show ?thesis
    proof (cases "t = fst e")
      case True
      then show ?thesis using old [OF i'] by (simp add: i' nth_append ts_append)
    next
      case False
      then show ?thesis using known t i' other [OF False] by (simp add: nth_append ts_append known_append)
    qed
  qed
  have p: "ts (tr @ [e]) i \<le> S' s (fst ((tr @ [e]) ! i)) \<longleftrightarrow> i \<in> passed (tr @ [e]) s"
    if i: "i < Suc (length tr)" for s i
  proof (cases "i = length tr")
    case True
    have "S s (fst e) \<le> Suc (cnt tr (fst e))" using sdom e by simp
    then show ?thesis
      using True e k [OF e i] sync [OF e, of "ts (tr @ [e]) i" s] passed_less [of i tr s]
      by (auto simp: passed_append ts_last)
  next
    case False
    then have i': "i < length tr" using i by simp
    then show ?thesis
      using sync [of "fst (tr ! i)" "ts tr i" s] th passed k [OF e i]
      by (auto simp: nth_append ts_append passed_append)
  qed
  show ?thesis
    unfolding clock_inv_def
    using bounds k p other own by (auto simp: cnt_append)
qed

section \<open>The detector keeps the clocks of happens-before\<close>

definition rclock :: "'a rstate \<Rightarrow> nat \<Rightarrow> nat \<Rightarrow> nat" where
  "rclock st t u = unat (acq_rel_order (rth st t) u)"

definition sclock :: "'a rstate \<Rightarrow> nat \<Rightarrow> nat \<Rightarrow> nat" where
  "sclock st s u = unat (rsync st s u)"

text \<open>\<open>k\<close> bounds the time stamps of the accesses of thread \<open>u\<close> that satisfy \<open>P\<close>.\<close>

definition bounds :: "'a trace \<Rightarrow> ('a action \<Rightarrow> bool) \<Rightarrow> nat \<Rightarrow> nat \<Rightarrow> bool" where
  "bounds tr P u k \<longleftrightarrow> (\<forall>i<length tr. fst (tr ! i) = u \<longrightarrow> P (snd (tr ! i)) \<longrightarrow> ts tr i \<le> k)"

definition has :: "'a trace \<Rightarrow> ('a action \<Rightarrow> bool) \<Rightarrow> bool" where
  "has tr P \<longleftrightarrow> (\<exists>i<length tr. P (snd (tr ! i)))"

definition var_inv :: "nat \<Rightarrow> 'a trace \<Rightarrow> 'a var \<Rightarrow> nat \<Rightarrow> bool" where
  "var_inv n tr v x \<longleftrightarrow>
     sig_ok var_magic (v_sign v) \<and>
     (v_initialized v \<longleftrightarrow> has tr (\<lambda>a. is_store a x)) \<and>
     (has tr (\<lambda>a. is_load a x) \<longrightarrow> v_initialized v) \<and>
     (\<forall>u<n. \<forall>k. unat (store_ts (v_data v) u) \<le> k \<longleftrightarrow> bounds tr (\<lambda>a. is_store a x) u k) \<and>
     (\<forall>u<n. \<forall>k. unat (load_ts (v_data v) u) \<le> k \<longleftrightarrow> bounds tr (\<lambda>a. is_load a x) u k)"

definition rinv :: "nat \<Rightarrow> 'a trace \<Rightarrow> 'a rstate \<Rightarrow> bool" where
  "rinv n tr st \<longleftrightarrow>
     clock_inv n tr (rclock st) (sclock st) \<and> (\<forall>t. th_index (rth st t) = t) \<and> (\<forall>x. var_inv n tr (rvar st x) x)"

lemma bounds_append:
  "bounds (tr @ [e]) P u k \<longleftrightarrow> bounds tr P u k \<and> (fst e = u \<longrightarrow> P (snd e) \<longrightarrow> Suc (Suc (cnt tr u)) \<le> k)"
  by (auto simp: bounds_def nth_append ts_append ts_last less_Suc_eq)

lemma bounds_own: "bounds tr P u (Suc (cnt tr u))"
  by (auto simp: bounds_def dest: ts_le)

lemma bounds_mono: "bounds tr P u k \<Longrightarrow> k \<le> l \<Longrightarrow> bounds tr P u l"
  by (auto simp: bounds_def)

lemma has_append: "has (tr @ [e]) P \<longleftrightarrow> has tr P \<or> P (snd e)"
  by (simp add: has_def nth_append Ex_less_Suc disj_commute cong: conj_cong)

lemma unat_max: "unat (max a b) = max (unat a) (unat b)"
  by (simp add: max_def word_le_nat_alt)

lemma unat_Suc_word: "(w :: 'b :: len word) \<noteq> -1 \<Longrightarrow> unat (w + 1) = Suc (unat w)"
  using word_Suc_nonzero [of w] unatSuc [of w] by (simp add: add.commute)

text \<open>The accesses a variable has seen all happen before the next event of thread \<open>t\<close>.\<close>

lemma vle_known:
  assumes "clock_inv n tr (rclock st) S" "t < n" "\<forall>i<length tr. fst (tr ! i) < n"
    and "\<forall>u<n. \<forall>k. unat (c u) \<le> k \<longleftrightarrow> bounds tr P u k"
  shows "vle n c (acq_rel_order (rth st t)) \<longleftrightarrow>
    (\<forall>i<length tr. P (snd (tr ! i)) \<longrightarrow> i \<in> known tr t)"
proof -
  have "vle n c (acq_rel_order (rth st t)) \<longleftrightarrow> (\<forall>u<n. bounds tr P u (rclock st t u))"
    using assms(4) by (simp add: vle_def word_le_nat_alt rclock_def)
  also have "\<dots> \<longleftrightarrow> (\<forall>i<length tr. P (snd (tr ! i)) \<longrightarrow> ts tr i \<le> rclock st t (fst (tr ! i)))"
    using assms(3) by (auto simp: bounds_def)
  also have "\<dots> \<longleftrightarrow> (\<forall>i<length tr. P (snd (tr ! i)) \<longrightarrow> i \<in> known tr t)"
    using assms(1,2) by (simp add: clock_inv_def)
  finally show ?thesis .
qed

lemma rinit_clock: "clock_inv n [] (rclock (rinit n ths syncs datas)) (sclock (rinit n ths syncs datas))"
  (is "clock_inv n [] (rclock ?r) (sclock ?q)")
proof -
  have "rclock ?r t u = (if t = u then 1 else 0)" if "u < n" for t u
    using that by (simp add: rclock_def rinit_def thread_iteration_begin_def foreach1_apply assign_zero_def)
  moreover have "sclock ?q s u = 0" if "u < n" for s u
    using that by (simp add: sclock_def rinit_def sync_init_apply)
  ultimately show ?thesis unfolding clock_inv_def cnt_def by auto
qed

lemma rinit_var: "var_inv n [] (rvar (rinit n ths syncs datas) x) x"
proof -
  have "sig_ok var_magic (signature_ctor var_magic 4096)"
    by (simp add: sig_ok_def signature_check_def signature_ctor_def Let_def word_le_nat_alt)
  then show ?thesis
    by (simp add: var_inv_def bounds_def has_def rinit_def var_ctor_def var_data_ctor_def clock_simps)
qed

lemma rinit_inv: "rinv n [] (rinit n ths syncs datas)"
  by (simp add: rinv_def rinit_clock rinit_var) (simp add: rinit_def thread_iteration_begin_def)

text \<open>The clocks of one step that succeeds.\<close>

lemma rstep_clock:
  assumes "rstep n e st = Inr st'" "\<forall>t. th_index (rth st t) = t" "fst e < n"
    and "acq_rel_order (rth st (fst e)) (fst e) \<noteq> -1"
  shows "clock_step n e (rclock st) (sclock st) (rclock st') (sclock st') \<and> (\<forall>t. th_index (rth st' t) = t)"
proof -
  obtain t a where e: "e = (t, a)" by (cases e)
  have own: "unat (acq_rel_order (rth st t) t + 1) = Suc (unat (acq_rel_order (rth st t) t))"
    using assms(4) by (simp add: e unat_Suc_word)
  show ?thesis
  proof (cases a)
    case (act_store x v)
    with assms own show ?thesis
      by (cases "v_initialized (rvar st x)")
        (auto simp: e clock_step_def rclock_def sclock_def rbind_Inr var_ops_Inr tick_apply)
  qed (use assms own in \<open>auto simp: e clock_step_def rclock_def sclock_def rbind_Inr var_load_Inr sync_defs
      Let_def clock_simps unat_max le_max_iff_disj split: if_splits\<close>)
qed

text \<open>The accesses recorded in a variable, one event later.\<close>

lemma var_inv_other:
  "var_inv n tr v x \<Longrightarrow> \<not> is_store (snd e) x \<Longrightarrow> \<not> is_load (snd e) x \<Longrightarrow> var_inv n (tr @ [e]) v x"
  by (auto simp: var_inv_def has_append bounds_append)

lemma var_inv_load:
  assumes "var_inv n tr v x" "var_load n False th v = Inr (y, th', v')" "e = (u, act_load x)"
    and "th_index th = u" "unat (own_order th + 1) = Suc (Suc (cnt tr u))"
  shows "var_inv n (tr @ [e]) v' x"
proof -
  have "unat (own_order th + 1) \<le> k \<longleftrightarrow> bounds tr (\<lambda>a. is_load a x) u k \<and> Suc (Suc (cnt tr u)) \<le> k" for k
    using assms(5) bounds_mono [OF bounds_own, of tr u k] by auto
  then show ?thesis
    using assms by (auto simp: var_inv_def var_load_Inr has_append bounds_append)
qed

lemma var_inv_store:
  assumes "var_inv n tr v x" "var_store n False th v y = Inr (th', v')" "e = (u, act_store x y)"
    and "th_index th = u" "unat (own_order th + 1) = Suc (Suc (cnt tr u))"
  shows "var_inv n (tr @ [e]) v' x"
proof -
  have "unat (own_order th + 1) \<le> k \<longleftrightarrow> bounds tr (\<lambda>a. is_store a x) u k \<and> Suc (Suc (cnt tr u)) \<le> k" for k
    using assms(5) bounds_mono [OF bounds_own, of tr u k] by auto
  then show ?thesis
    using assms
    by (cases "v_initialized v") (auto simp: var_inv_def var_ops_Inr has_append bounds_append)
qed

lemma rstep_inv:
  assumes inv: "rinv n tr st" and st: "rstep n e st = Inr st'" and e: "fst e < n"
    and th: "\<forall>i<length tr. fst (tr ! i) < n" and len: "Suc (length tr) < 2 ^ 64 - 1"
  shows "rinv n (tr @ [e]) st'"
proof -
  have ci: "clock_inv n tr (rclock st) (sclock st)" and idx: "\<forall>t. th_index (rth st t) = t"
    and vi: "\<forall>x. var_inv n tr (rvar st x) x"
    using inv by (simp_all add: rinv_def)
  have own: "unat (acq_rel_order (rth st (fst e)) (fst e)) = Suc (cnt tr (fst e))"
    using ci e by (simp add: clock_inv_def rclock_def)
  have small: "Suc (cnt tr (fst e)) < 2 ^ 64 - 1"
    using cnt_le [of tr "fst e"] len by linarith
  have nw: "acq_rel_order (rth st (fst e)) (fst e) \<noteq> -1"
  proof
    assume "acq_rel_order (rth st (fst e)) (fst e) = -1"
    then have "unat (acq_rel_order (rth st (fst e)) (fst e)) = 2 ^ 64 - 1"
      by (simp add: unsigned_minus_1_eq_mask mask_eq_exp_minus_1)
    with own small show False by simp
  qed
  have own': "unat (own_order (rth st (fst e)) + 1) = Suc (Suc (cnt tr (fst e)))"
    using unat_Suc_word [OF nw] own idx by (simp add: own_order_def)
  note c = rstep_clock [OF st idx e nw]
  have "clock_inv n (tr @ [e]) (rclock st') (sclock st')"
    using clock_inv_step [OF ci _ e th] c by blast
  moreover have "var_inv n (tr @ [e]) (rvar st' x) x" for x
  proof (cases "is_store (snd e) x \<or> is_load (snd e) x")
    case True
    with st vi idx own' show ?thesis
      by (cases e; cases "snd e")
        (auto simp: rbind_Inr intro: var_inv_load var_inv_store)
  next
    case False
    with st vi show ?thesis
      by (cases e; cases "snd e") (auto simp: rbind_Inr Let_def split: prod.splits intro!: var_inv_other)
  qed
  ultimately show ?thesis using c by (simp add: rinv_def)
qed

section \<open>The verdict of one event\<close>

definition admissible :: "'a trace \<Rightarrow> nat \<times> 'a action \<Rightarrow> bool" where
  "admissible tr e \<longleftrightarrow>
     (\<forall>x. is_load (snd e) x \<longrightarrow> has tr (\<lambda>a. is_store a x)) \<and>
     (\<forall>i<length tr. conflict (snd (tr ! i)) (snd e) \<longrightarrow> i \<in> known tr (fst e))"

definition refusal :: "'a trace \<Rightarrow> nat \<times> 'a action \<Rightarrow> test_result" where
  "refusal tr e =
     (case snd e of
        act_load x \<Rightarrow> if has tr (\<lambda>a. is_store a x) then result_data_race else result_unitialized_access
      | _ \<Rightarrow> result_data_race)"

lemma race_free_append:
  "race_free (tr @ [e]) \<longleftrightarrow>
     race_free tr \<and> (\<forall>i<length tr. conflict (snd (tr ! i)) (snd e) \<longrightarrow> i \<in> known tr (fst e))"
proof -
  have "conflict a (snd e) \<Longrightarrow> \<not> acquires (snd e) s" for a s
    by (cases "snd e") (auto simp: conflict_def)
  then show ?thesis
    by (auto simp: race_free_def nth_append hb_append hb_last less_Suc_eq)
qed

lemma stored_before_load_append:
  "stored_before_load (tr @ [e]) \<longleftrightarrow>
     stored_before_load tr \<and> (\<forall>x. is_load (snd e) x \<longrightarrow> has tr (\<lambda>a. is_store a x))"
  by (auto simp: stored_before_load_def has_def nth_append All_less_Suc cong: conj_cong)

lemma admissible_append:
  "race_free (tr @ [e]) \<and> stored_before_load (tr @ [e]) \<longleftrightarrow>
     race_free tr \<and> stored_before_load tr \<and> admissible tr e"
  by (auto simp: race_free_append stored_before_load_append admissible_def)

lemma rstep_verdict:
  assumes inv: "rinv n tr st" and e: "fst e < n" and th: "\<forall>i<length tr. fst (tr ! i) < n"
  shows "admissible tr e \<Longrightarrow> \<exists>st'. rstep n e st = Inr st'"
    and "\<not> admissible tr e \<Longrightarrow> rstep n e st = Inl (Test_failed (refusal tr e))"
proof -
  obtain t a where ta: "e = (t, a)" by (cases e)
  have ci: "clock_inv n tr (rclock st) (sclock st)" and vi: "\<And>x. var_inv n tr (rvar st x) x"
    using inv by (simp_all add: rinv_def)
  have sv: "vle n (store_ts (v_data (rvar st x))) (acq_rel_order (rth st t)) \<longleftrightarrow>
      (\<forall>i<length tr. is_store (snd (tr ! i)) x \<longrightarrow> i \<in> known tr t)" for x
    using vi [of x] e ta vle_known [OF ci _ th] by (auto simp: var_inv_def)
  have lv: "vle n (load_ts (v_data (rvar st x))) (acq_rel_order (rth st t)) \<longleftrightarrow>
      (\<forall>i<length tr. is_load (snd (tr ! i)) x \<longrightarrow> i \<in> known tr t)" for x
    using vi [of x] e ta vle_known [OF ci _ th] by (auto simp: var_inv_def)
  have sg: "sig_ok var_magic (v_sign (rvar st x))" for x
    using vi by (simp add: var_inv_def)
  have ini: "v_initialized (rvar st x) \<longleftrightarrow> has tr (\<lambda>a. is_store a x)"
    "has tr (\<lambda>a. is_load a x) \<longrightarrow> has tr (\<lambda>a. is_store a x)" for x
    using vi [of x] by (auto simp: var_inv_def)
  show "admissible tr e \<Longrightarrow> \<exists>st'. rstep n e st = Inr st'"
  proof (cases a)
    case (act_load x)
    moreover assume "admissible tr e"
    ultimately show ?thesis
      by (auto simp: ta admissible_def conflict_def rbind_Inr var_load_Inr sv sg ini)
  next
    case (act_store x v)
    moreover assume "admissible tr e"
    ultimately show ?thesis
      by (cases "v_initialized (rvar st x)")
        (auto simp: ta admissible_def conflict_def rbind_Inr var_store_init var_store_uninit sv lv sg)
  qed (auto simp: ta split: prod.splits)
  show "\<not> admissible tr e \<Longrightarrow> rstep n e st = Inl (Test_failed (refusal tr e))"
  proof (cases a)
    case (act_load x)
    moreover assume "\<not> admissible tr e"
    ultimately show ?thesis
      using sv [of x]
      by (cases "has tr (\<lambda>a. is_store a x)")
        (auto simp: ta admissible_def conflict_def refusal_def var_load_def sg ini var_data_load_def behind_iff)
  next
    case (act_store x v)
    moreover assume "\<not> admissible tr e"
    ultimately show ?thesis
      using sv [of x] lv [of x] ini [of x]
      by (auto simp: ta admissible_def conflict_def refusal_def var_store_def sg var_data_store_def behind_iff
          has_def)
  qed (auto simp: ta admissible_def conflict_def)
qed

lemma rrun_append: "rrun n (tr @ [e]) st = rbind (rrun n tr st) (rstep n e)"
  by (simp add: rrun_def rfold_append) (cases "rfold (rstep n) tr st"; simp add: rbind_Inr; cases "rstep n e (projr (rfold (rstep n) tr st))"; simp)

lemma rrun_invariant:
  assumes "\<forall>e \<in> set tr. fst e < n" "Suc (length tr) < 2 ^ 64"
  shows "if race_free tr \<and> stored_before_load tr
         then \<exists>st. rrun n tr (rinit n ths syncs datas) = Inr st \<and> rinv n tr st
         else \<exists>k<length tr. race_free (take k tr) \<and> stored_before_load (take k tr) \<and>
                \<not> admissible (take k tr) (tr ! k) \<and>
                rrun n tr (rinit n ths syncs datas) = Inl (Test_failed (refusal (take k tr) (tr ! k)))"
  using assms
proof (induction tr rule: rev_induct)
  case Nil
  then show ?case by (simp add: race_free_def stored_before_load_def rrun_def rinit_inv)
next
  case (snoc e tr)
  have th: "\<forall>i<length tr. fst (tr ! i) < n" and e: "fst e < n"
    using snoc.prems(1) by auto
  show ?case
  proof (cases "race_free tr \<and> stored_before_load tr")
    case True
    with snoc obtain st where st: "rrun n tr (rinit n ths syncs datas) = Inr st" "rinv n tr st"
      by auto
    show ?thesis
    proof (cases "admissible tr e")
      case a: True
      then obtain st' where s': "rstep n e st = Inr st'"
        using rstep_verdict(1) [OF st(2) e th] by blast
      then have "rinv n (tr @ [e]) st'"
        using rstep_inv [OF st(2) s' e th] snoc.prems(2) by simp
      then show ?thesis using True a s' by (simp only: admissible_append) (simp add: rrun_append st(1))
    next
      case False
      then show ?thesis
        using True rstep_verdict(2) [OF st(2) e th False]
        by (simp only: admissible_append) (auto simp: rrun_append st(1) intro!: exI [of _ "length tr"])
    qed
  next
    case False
    with snoc obtain k where "k < length tr" "race_free (take k tr)" "stored_before_load (take k tr)"
      "\<not> admissible (take k tr) (tr ! k)"
      "rrun n tr (rinit n ths syncs datas) = Inl (Test_failed (refusal (take k tr) (tr ! k)))"
      by (auto split: if_splits)
    with False show ?thesis
      by (simp only: admissible_append) (auto simp: rrun_append nth_append intro!: exI [of _ k])
  qed
qed

text \<open>Prefixes of a clean trace are clean, so the first refused event is unique.\<close>

definition clean :: "'a trace \<Rightarrow> bool" where
  "clean tr \<longleftrightarrow> race_free tr \<and> stored_before_load tr"

lemma clean_Suc: "k < length tr \<Longrightarrow> clean (take (Suc k) tr) \<longleftrightarrow> clean (take k tr) \<and> admissible (take k tr) (tr ! k)"
  using admissible_append [of "take k tr" "tr ! k"] by (simp add: clean_def take_Suc_conv_app_nth)

lemma clean_take: "clean tr \<Longrightarrow> clean (take k tr)"
proof (induction tr arbitrary: k rule: rev_induct)
  case (snoc e tr)
  then show ?case
    using admissible_append [of tr e] by (cases "k \<le> length tr") (auto simp: clean_def)
qed simp

lemma clean_take_le: "clean (take k tr) \<Longrightarrow> j \<le> k \<Longrightarrow> clean (take j tr)"
  using clean_take [of "take k tr" j] by (simp add: min_def)

lemma first_refusal_unique:
  assumes "clean (take k tr)" "\<not> clean (take (Suc k) tr)" "clean (take j tr)" "\<not> clean (take (Suc j) tr)"
  shows "k = j"
proof (rule antisym)
  show "k \<le> j" using clean_take_le [OF assms(1), of "Suc j"] assms(4) by (meson not_less_eq_eq)
  show "j \<le> k" using clean_take_le [OF assms(3), of "Suc k"] assms(2) by (meson not_less_eq_eq)
qed

lemma refusal_race:
  "stored_before_load (tr @ [e]) \<Longrightarrow> refusal tr e = result_data_race"
  by (auto simp: refusal_def stored_before_load_append split: action.splits)

lemma refusal_uninit:
  "\<not> stored_before_load (tr @ [e]) \<Longrightarrow> stored_before_load tr \<Longrightarrow> refusal tr e = result_unitialized_access"
  by (cases "snd e") (auto simp: refusal_def stored_before_load_append)

section \<open>Properties\<close>

text \<open>
  C1. The detector is exact on synchronisations and plain variables: a trace of any length
  short of the wrap of the 64-bit time stamps runs to its end without a fault exactly when every
  load follows a store of the variable and every two conflicting accesses are ordered by
  happens-before. There are neither false alarms nor missed races.
\<close>

theorem detector_exact:
  assumes "\<forall>e \<in> set tr. fst e < n" "Suc (length tr) < 2 ^ 64"
  shows "(\<exists>st. rrun n tr (rinit n ths syncs datas) = Inr st) \<longleftrightarrow> race_free tr \<and> stored_before_load tr"
  using rrun_invariant [OF assms, of ths syncs datas] by (auto split: if_splits)

theorem detector_exact_witness:
  "\<forall>ths syncs datas.
     (\<exists>st. rrun 2 [(0, act_store 0 (7 :: u32)), (0, act_release 3), (1, act_acquire 3), (1, act_load 0)]
            (rinit 2 ths syncs datas) = Inr st) \<longleftrightarrow>
     race_free [(0, act_store 0 (7 :: u32)), (0, act_release 3), (1, act_acquire 3), (1, act_load 0)] \<and>
     stored_before_load [(0, act_store 0 (7 :: u32)), (0, act_release 3), (1, act_acquire 3), (1, act_load 0)]"
  by (intro allI detector_exact) simp_all

text \<open>
  C2. The result of a refused run names the cause: the run ends in \<open>test_result_data_race\<close>
  exactly when the first event that spoils the trace is an access unordered with an earlier
  conflicting one.
\<close>

theorem detector_reports_race:
  assumes "\<forall>e \<in> set tr. fst e < n" "Suc (length tr) < 2 ^ 64"
  shows "rrun n tr (rinit n ths syncs datas) = Inl (Test_failed result_data_race) \<longleftrightarrow>
    (\<exists>k<length tr. race_free (take k tr) \<and> \<not> race_free (take (Suc k) tr) \<and> stored_before_load (take (Suc k) tr))"
    (is "?run = _ \<longleftrightarrow> (\<exists>k<length tr. ?R k)")
proof
  assume r: "?run = Inl (Test_failed result_data_race)"
  then have "\<not> clean tr"
    using rrun_invariant [OF assms, of ths syncs datas] by (auto simp: clean_def split: if_splits)
  then obtain k where k: "k < length tr" "clean (take k tr)" "\<not> admissible (take k tr) (tr ! k)"
    "refusal (take k tr) (tr ! k) = result_data_race"
    using rrun_invariant [OF assms, of ths syncs datas] r by (auto simp: clean_def split: if_splits)
  then have "\<not> clean (take (Suc k) tr)" "stored_before_load (take (Suc k) tr)"
    using clean_Suc [OF k(1)] refusal_uninit [of "take k tr" "tr ! k"]
    by (auto simp: clean_def take_Suc_conv_app_nth)
  with k show "\<exists>k<length tr. ?R k" by (auto simp: clean_def)
next
  assume "\<exists>k<length tr. ?R k"
  then obtain k where k: "k < length tr" "?R k" by blast
  then have ck: "clean (take k tr)" "\<not> clean (take (Suc k) tr)"
    by (auto simp: clean_def take_Suc_conv_app_nth stored_before_load_append)
  then have "\<not> clean tr" using clean_take by blast
  then obtain j where j: "j < length tr" "clean (take j tr)" "\<not> admissible (take j tr) (tr ! j)"
    "?run = Inl (Test_failed (refusal (take j tr) (tr ! j)))"
    using rrun_invariant [OF assms, of ths syncs datas] by (auto simp: clean_def split: if_splits)
  then have "k = j" using first_refusal_unique [OF ck j(2)] clean_Suc [OF j(1)] by blast
  with j k show "?run = Inl (Test_failed result_data_race)"
    by (simp add: refusal_race take_Suc_conv_app_nth)
qed

theorem detector_reports_race_witness:
  "\<forall>ths syncs datas.
     rrun 2 [(0, act_store 0 (7 :: u32)), (1, act_load 0)] (rinit 2 ths syncs datas) =
       Inl (Test_failed result_data_race) \<longleftrightarrow>
     (\<exists>k<length [(0 :: nat, act_store 0 (7 :: u32)), (1, act_load 0)].
        race_free (take k [(0, act_store 0 (7 :: u32)), (1, act_load 0)]) \<and>
        \<not> race_free (take (Suc k) [(0, act_store 0 (7 :: u32)), (1, act_load 0)]) \<and>
        stored_before_load (take (Suc k) [(0, act_store 0 (7 :: u32)), (1, act_load 0)]))"
  by (intro allI detector_reports_race) simp_all

end
