(* ===== verification/Memory_Order.thy ===== *)
theory Memory_Order
  imports Plain_Var
begin

text \<open>
  What the memory model guarantees to the program under test: publication through release and
  acquire, through fences and through chains of read-modify-writes; the order of sequentially
  consistent fences; coherence of reads; and the exact set of records a load may return.
\<close>

section \<open>Loads that must return the newest record\<close>

lemma load_limit_Suc: "load_limit rd = Suc (load_limit rd - 1)"
  by (simp add: load_limit_def atomic_history_size_def)

lemma get_load_index_current:
  assumes "busy (rec_at var (current_index var))" "\<not> passable n mo th var (current_index var)"
    and "current_index var \<noteq> -1"
  shows "get_load_index n rd mo False rnd th var s = Inr (current_index var, s)"
  using assms
  by (subst get_load_index_def, subst load_limit_Suc) (simp add: load_scan_Suc del: load_scan.simps(2))

lemma atomic_load_current:
  assumes "busy (rec_at var (current_index var))" "\<not> passable n mo th var (current_index var)"
    and "current_index var \<noteq> -1" "atomic_load n rd mo False rnd th var s = Inr (j, th', var', s')"
  shows "j = of_nat (hslot (current_index var))"
  using assms(4) assms(1,3)
  by (auto simp: atomic_load_def fault_inv get_load_index_current [OF assms(1-3)] Let_def rec_at_def
      split: prod.splits)

lemma known_not_passable:
  assumes "acq_rel_order th (nat (h_thread_id (rec_at var i))) \<ge> acq_rel_timestamp (rec_at var i)"
  shows "\<not> passable n mo th var i"
  using passable_known(1) [of n mo th var i] assms by auto

text \<open>A store that a thread's clock covers hides every older record from it.\<close>

lemma covered_store_read:
  assumes store: "atomic_store n mo rmw a var = Inr (i, a', var')"
    and "th_index a < n" "vle n (acq_rel_order a') (acq_rel_order b)" "current_index var' \<noteq> -1"
    and load: "atomic_load n rd mo' False rnd b var' s = Inr (j, b', var'', s')"
  shows "j = i"
proof -
  note st = atomic_store_Inr [OF store]
  have "\<not> passable n mo' b var' (current_index var')"
    using assms(2,3) st by (intro known_not_passable) (simp add: vle_def)
  with atomic_load_current [OF st(7) _ assms(4) load] st(2) show ?thesis by simp
qed

section \<open>The first reads a record remembers\<close>

definition seen_wf :: "thread_info \<Rightarrow> atomic_data \<Rightarrow> bool" where
  "seen_wf th var \<longleftrightarrow>
     (\<forall>k<atomic_history_size. let fs = first_seen_order (history var k) (th_index th)
                             in fs = -1 \<or> fs \<le> own_order th)"

lemma load_record_own:
  assumes "own_order th \<noteq> -1"
  shows "own_order th < own_order (fst (load_record n mo th rec))"
proof -
  have "own_order th < own_order th + 1" using assms by (rule word_less_Suc)
  moreover have "own_order th + 1 \<le> own_order (fst (load_record n mo th rec))"
    by (simp add: load_record_def Let_def own_order_def clock_simps)
  ultimately show ?thesis by (rule less_le_trans)
qed

lemma load_record_index: "th_index (fst (load_record n mo th rec)) = th_index th"
  by (simp add: load_record_def Let_def)

lemma load_record_seen:
  "first_seen_order (snd (load_record n mo th rec)) t =
     (if t = th_index th \<and> first_seen_order rec t = -1 then own_order th + 1 else first_seen_order rec t)"
  by (auto simp: load_record_def Let_def own_order_def clock_simps)

lemma atomic_load_cases:
  assumes "atomic_load n rd mo rmw rnd th var s = Inr (j, th', var', s')"
  obtains "j = -1" "th' = th" "var' = var"
  | index where "get_load_index n rd mo rmw rnd th var s = Inr (index, s')" "index \<noteq> -1"
      "j = of_nat (hslot index)" "th' = fst (load_record n mo th (rec_at var index))"
      "var' = var\<lparr>history := (history var)(hslot index := snd (load_record n mo th (rec_at var index)))\<rparr>"
proof (cases "j = -1 \<and> th' = th \<and> var' = var")
  case True
  then show ?thesis using that(1) by blast
next
  case False
  with assms show ?thesis
    by (auto simp: atomic_load_def fault_inv Let_def rec_at_def split: if_splits prod.splits intro: that(2))
qed

lemma load_record_own_le:
  assumes "own_order th \<noteq> -1"
  shows "own_order th + 1 \<le> own_order (fst (load_record n mo th rec))"
  by (simp add: load_record_def Let_def own_order_def clock_simps)

lemma seen_wf_load:
  assumes wf: "seen_wf th var" and load: "atomic_load n rd mo rmw rnd th var s = Inr (j, th', var', s')"
    and own: "own_order th \<noteq> -1"
  shows "seen_wf th' var'"
  using load
proof (cases rule: atomic_load_cases)
  case 1
  then show ?thesis using wf by simp
next
  case (2 index)
  then have le: "own_order th \<le> own_order th'" "own_order th + 1 \<le> own_order th'" "th_index th' = th_index th"
    using load_record_own [OF own, of n mo "rec_at var index"] load_record_own_le [OF own, of n mo "rec_at var index"]
    by (simp_all add: load_record_index)
  have "first_seen_order (history var' k) (th_index th) = -1 \<or>
      first_seen_order (history var' k) (th_index th) \<le> own_order th'"
    if k: "k < atomic_history_size" for k
  proof -
    have "first_seen_order (history var k) (th_index th) = -1 \<or>
        first_seen_order (history var k) (th_index th) \<le> own_order th"
      using wf k by (simp add: seen_wf_def Let_def)
    with le show ?thesis
      by (cases "k = hslot index") (auto simp: 2 load_record_seen rec_at_def)
  qed
  with le show ?thesis by (simp add: seen_wf_def Let_def)
qed

lemma seen_wf_store:
  assumes wf: "seen_wf th var" and store: "atomic_store n mo rmw th var = Inr (i, th', var')"
    and own: "own_order th \<noteq> -1" "th_index th < n"
  shows "seen_wf th' var'"
proof -
  have o: "own_order th' = own_order th + 1" "th_index th' = th_index th"
    using atomic_store_Inr [OF store] by (simp_all add: own_order_def clock_simps)
  have le: "own_order th \<le> own_order th + 1" using own(1) by (rule word_le_Suc)
  have "first_seen_order (history var' k) (th_index th) = -1 \<or>
      first_seen_order (history var' k) (th_index th) \<le> own_order th + 1"
    if k: "k < atomic_history_size" for k
  proof (cases "k = hslot (current_index var + 1)")
    case True
    then show ?thesis using store
      by (auto simp: atomic_store_def rl_verify_Inr Let_def clock_simps own_order_def)
  next
    case False
    then have "history var' k = history var k"
      using atomic_store_Inr(1,9) [OF store] by simp
    then show ?thesis using wf k le by (auto simp: seen_wf_def Let_def)
  qed
  with o show ?thesis by (simp add: seen_wf_def Let_def)
qed

text \<open>Another thread's steps do not touch the components of this one.\<close>

lemma seen_wf_other_load:
  assumes "seen_wf u var" "th_index u \<noteq> th_index th"
    and load: "atomic_load n rd mo rmw rnd th var s = Inr (j, th', var', s')"
  shows "seen_wf u var'"
  using load
proof (cases rule: atomic_load_cases)
  case (2 index)
  then show ?thesis using assms by (auto simp: seen_wf_def Let_def load_record_seen rec_at_def)
qed (use assms in simp)

lemma seen_wf_other_store:
  assumes "seen_wf u var" "th_index u \<noteq> th_index th" "th_index u < n"
    and store: "atomic_store n mo rmw th var = Inr (i, th', var')"
  shows "seen_wf u var'"
proof -
  have "first_seen_order (history var' k) (th_index u) = -1 \<or>
      first_seen_order (history var' k) (th_index u) \<le> own_order u"
    if k: "k < atomic_history_size" for k
  proof (cases "k = hslot (current_index var + 1)")
    case True
    then show ?thesis using store assms(2,3)
      by (auto simp: atomic_store_def rl_verify_Inr Let_def clock_simps)
  next
    case False
    then have "history var' k = history var k"
      using atomic_store_Inr(1,9) [OF store] by simp
    then show ?thesis using assms(1) k by (auto simp: seen_wf_def Let_def)
  qed
  then show ?thesis by (simp add: seen_wf_def Let_def)
qed

text \<open>A record one thread has read is not passed by a thread that knows of the read.\<close>

lemma read_not_passable:
  assumes wf: "seen_wf b var" and own: "own_order b < -2" and b: "th_index b < n"
    and load: "atomic_load n rd mo rmw rnd b var s = Inr (j, b', var', s')" "j = of_nat (hslot r)"
    and le: "vle n (acq_rel_order b') (acq_rel_order c)"
  shows "\<not> passable n mo' c var' r"
proof -
  have own1: "own_order b \<noteq> -1" using own by auto
  have own2: "own_order b + 1 \<noteq> -1"
  proof
    assume "own_order b + 1 = -1"
    then have "own_order b = -2" by (simp add: eq_diff_eq [symmetric])
    with own show False by simp
  qed
  from load(1) show ?thesis
  proof (cases rule: atomic_load_cases)
    case 1
    have "unat (of_nat (hslot r) :: u32) < 3"
      using hslot_less [of r] by (simp add: unat_of_nat take_bit_nat_eq_self)
    moreover have "unat (-1 :: u32) = 2 ^ 32 - 1"
      by (simp add: unsigned_minus_1_eq_mask mask_eq_exp_minus_1)
    ultimately show ?thesis using 1 load(2) by force
  next
    case (2 index)
    let ?rec = "rec_at var index"
    have k: "hslot index = hslot r" using 2 load(2) by (simp add: of_nat_hslot_inj)
    then have rec: "rec_at var' r = snd (load_record n mo b ?rec)" by (simp add: 2 rec_at_def)
    have "own_order b \<le> own_order b'" "own_order b + 1 \<le> own_order b'" "th_index b' = th_index b"
      using load_record_own [OF own1] load_record_own_le [OF own1]
      by (simp_all add: 2 load_record_index less_imp_le)
    moreover have "first_seen_order ?rec (th_index b) = -1 \<or> first_seen_order ?rec (th_index b) \<le> own_order b"
      using wf hslot_less [of index] by (simp add: seen_wf_def Let_def rec_at_def atomic_history_size_def)
    ultimately have "first_seen_order (rec_at var' r) (th_index b) \<le> acq_rel_order b' (th_index b)"
      by (auto simp: rec load_record_seen own_order_def)
    then have "first_seen_order (rec_at var' r) (th_index b) \<le> acq_rel_order c (th_index b)"
      using le b unfolding vle_def by (meson order_trans)
    then show ?thesis using passable_known(2) [OF _ b, of mo' c var' r] by auto
  qed
qed

lemma readable_not_past:
  assumes "readable n rd mo th var r" "\<not> passable n mo th var (current_index var - of_nat d)"
  shows "\<exists>d'\<le>d. r = current_index var - of_nat d'"
proof -
  obtain d' where d': "r = current_index var - of_nat d'"
    "\<forall>e<d'. passable n mo th var (current_index var - of_nat e)"
    using assms(1) by (auto simp: readable_def)
  then have "d' \<le> d" using assms(2) by (meson not_le)
  with d' show ?thesis by blast
qed

section \<open>Release to acquire\<close>

lemma release_acquire_clock:
  assumes "atomic_store n mo rmw a var = Inr (i, a', var')" "synch_release mo"
    and "atomic_load n rd mo' rmw' rnd b var' s = Inr (i, b', var'', s')" "synch_acquire mo'"
  shows "vle n (acq_rel_order a') (acq_rel_order b')"
proof -
  note st = atomic_store_Inr [OF assms(1)]
  have "vle n (acq_rel_order a') (h_acq_rel_order (rec_at var' (current_index var')))"
    using st(3,8) assms(2) by (simp add: published_def)
  with atomic_load_acquires(1) [OF assms(3) st(2) assms(4)] show ?thesis
    by (rule vle_trans [rotated])
qed

lemma atomic_load_relaxed_clock:
  assumes "atomic_load n rd mo rmw rnd b var s = Inr (j, b', var', s')" "th_index b \<noteq> t" "\<not> synch_acquire mo"
  shows "acq_rel_order b' t = acq_rel_order b t"
  using assms(1)
proof (cases rule: atomic_load_cases)
  case (2 index)
  then show ?thesis using assms(2,3) by (simp add: load_record_clock tick_apply)
qed simp

section \<open>Chains of read-modify-writes\<close>

text \<open>Any threads, with any orders, one after the other on the same variable.\<close>

fun rmw_chain :: "nat \<Rightarrow> (memory_order \<times> thread_info) list \<Rightarrow> atomic_data \<Rightarrow> fault + atomic_data" where
  "rmw_chain n [] var = Inr var"
| "rmw_chain n ((mo, th) # rest) var =
     rbind (atomic_rmw n mo th var) (\<lambda>(_, _, _, var). rmw_chain n rest var)"

lemma atomic_rmw_record:
  assumes "atomic_rmw n mo th var = Inr (i, aba, th', var')"
  shows "current_index var' = current_index var + 1" and "busy (rec_at var' (current_index var'))"
    and "i = of_nat (hslot (current_index var'))"
proof -
  obtain j th1 var1 where
    l: "atomic_load n False mo True (\<lambda>s _ _. Inr (0, s)) th var () = Inr (j, th1, var1, ())"
    and s: "atomic_store n mo True th1 var1 = Inr (i, th', var')"
    using atomic_rmw_Inr [OF assms(1)] by blast
  then show "current_index var' = current_index var + 1" "busy (rec_at var' (current_index var'))"
    "i = of_nat (hslot (current_index var'))"
    using atomic_store_Inr [OF s] atomic_load_keeps_records [OF l] by auto
qed

lemma rmw_chain_order:
  assumes "rmw_chain n steps var = Inr var'" "busy (rec_at var (current_index var))"
    and "unat (current_index var) + length steps < 2 ^ 32"
  shows "vle n (h_acq_rel_order (rec_at var (current_index var)))
           (h_acq_rel_order (rec_at var' (current_index var'))) \<and> busy (rec_at var' (current_index var'))"
  using assms
proof (induction steps arbitrary: var)
  case (Cons st steps)
  obtain mo th where st: "st = (mo, th)" by (cases st)
  with Cons.prems(1) obtain i aba th' var1 where
    r: "atomic_rmw n mo th var = Inr (i, aba, th', var1)" and c: "rmw_chain n steps var1 = Inr var'"
    by (auto simp: rbind_Inr)
  have nw: "current_index var \<noteq> -1"
  proof
    assume "current_index var = -1"
    then have "unat (current_index var) = 2 ^ 32 - 1" by (simp add: unsigned_minus_1_eq_mask mask_eq_exp_minus_1)
    with Cons.prems(3) show False by simp
  qed
  then have u: "unat (current_index var1) = Suc (unat (current_index var))"
    using atomic_rmw_record(1) [OF r] word_Suc_nonzero [OF nw] unatSuc [of "current_index var"]
    by (simp add: add.commute)
  have "vle n (h_acq_rel_order (rec_at var1 (current_index var1)))
      (h_acq_rel_order (rec_at var' (current_index var'))) \<and> busy (rec_at var' (current_index var'))"
    using c atomic_rmw_record(2) [OF r] Cons.prems(3) by (intro Cons.IH) (simp_all add: u)
  with atomic_rmw_keeps_order [OF r Cons.prems(2) nw] show ?case by (blast intro: vle_trans)
qed simp

section \<open>Runs that exist\<close>

text \<open>A read-modify-write's load never faults on a constructed variable and reads the newest record.\<close>

lemma rmw_load_total:
  assumes "busy (rec_at var (current_index var))" "current_index var \<noteq> -1"
  shows "\<exists>th' var'. atomic_load n rd mo True rnd th var s =
    Inr (of_nat (hslot (current_index var)), th', var', s)"
  using assms
  by (simp add: atomic_load_def get_load_index_def Let_def rec_at_def split: prod.splits) 

definition blank_thread :: "nat \<Rightarrow> thread_info" where
  "blank_thread t = \<lparr>th_index = t, acq_rel_order = (\<lambda>_. 0), acquire_fence_order = (\<lambda>_. 0),
     release_fence_order = (\<lambda>_. 0), last_yield = 0, th_unpark_reason = unpark_normal,
     temp_switch_from = -1, saved_disable_preemption = -1, th_errno = 0, dynamic_thread_func = None,
     dynamic_thread_param = 0, so_finished = False, so_ws = 0, so_sync = (\<lambda>_. 0), park_dp = 0,
     park_switch = False\<rparr>"

definition fresh_thread :: "nat \<Rightarrow> nat \<Rightarrow> thread_info" where
  "fresh_thread n t = reset_thread n (thread_iteration_begin n (blank_thread t))"

definition blank_atomic :: atomic_data where
  "blank_atomic = \<lparr>history = (\<lambda>_. \<lparr>h_acq_rel_order = (\<lambda>_. 0), first_seen_order = (\<lambda>_. -1), busy = False,
     seq_cst = False, h_thread_id = -1, acq_rel_timestamp = 0\<rparr>), current_index = 0, futex_ws = 0,
     futex_sync = (\<lambda>_. 0)\<rparr>"

definition fresh_atomic :: "nat \<Rightarrow> nat \<Rightarrow> atomic_data" where
  "fresh_atomic n t = snd (atomic_data_ctor_th n (fresh_thread n t) blank_atomic)"

definition fresh_owner :: "nat \<Rightarrow> nat \<Rightarrow> thread_info" where
  "fresh_owner n t = fst (atomic_data_ctor_th n (fresh_thread n t) blank_atomic)"

lemma fresh_atomic_simps [simp]:
  "current_index (fresh_atomic n t) = 0" "busy (rec_at (fresh_atomic n t) 0)"
  by (simp_all add: fresh_atomic_def atomic_data_ctor_th_def Let_def rec_at_def hslot_def)

lemma fresh_thread_simps [simp]:
  "th_index (fresh_thread n t) = t"
  "i < n \<Longrightarrow> acq_rel_order (fresh_thread n t) i = (if i = t then 1 else 0)"
  "own_order (fresh_thread n t) = 1"
  by (simp_all add: fresh_thread_def reset_thread_def thread_iteration_begin_def blank_thread_def
      own_order_def clock_simps)

text \<open>A store followed by a load of its record, from the first states of an iteration.\<close>

lemma store_load_run:
  assumes "mo \<noteq> mo_consume" "mo \<noteq> mo_acquire" "mo \<noteq> mo_acq_rel"
    and "busy (rec_at var (current_index var))" "unat (current_index var) < 2 ^ 32 - 2"
  shows "\<exists>i a' var' b' var2. atomic_store n mo False a var = Inr (i, a', var') \<and>
    current_index var' = current_index var + 1 \<and> current_index var' \<noteq> -1 \<and>
    atomic_load n rd mo' True rnd b var' s = Inr (i, b', var2, s)"
proof -
  obtain i a' var' where st: "atomic_store n mo False a var = Inr (i, a', var')"
    using atomic_store_total [of False mo n a var] assms(1-3) by blast
  note S = atomic_store_Inr [OF st]
  have nz: "unat (current_index var + 1) = Suc (unat (current_index var))"
  proof -
    have "current_index var \<noteq> -1" using assms(5) by (auto simp: unsigned_minus_1_eq_mask mask_eq_exp_minus_1)
    then show ?thesis
      using word_Suc_nonzero [of "current_index var"] unatSuc [of "current_index var"] by (simp add: add.commute)
  qed
  have nw: "current_index var' \<noteq> -1"
  proof
    assume "current_index var' = -1"
    then have "unat (current_index var') = 2 ^ 32 - 1" by (simp add: unsigned_minus_1_eq_mask mask_eq_exp_minus_1)
    with nz S(1) assms(5) show False by simp
  qed
  show ?thesis
    using st rmw_load_total [OF S(7) nw, of n rd mo' rnd b s] S(1,2) nw by metis
qed


lemma zero_load_total:
  assumes "busy (rec_at var (current_index var))" "current_index var \<noteq> -1" "mo \<noteq> mo_release" "mo \<noteq> mo_acq_rel"
  shows "\<exists>th' var'. atomic_load n rd mo False (\<lambda>s _ _. Inr (0, s)) th var s =
    Inr (of_nat (hslot (current_index var)), th', var', s)"
proof -
  have "get_load_index n rd mo False (\<lambda>s _ _. Inr (0, s)) th var s = Inr (current_index var, s)"
    using assms(1,2)
    by (subst get_load_index_def, subst load_limit_Suc) (simp add: load_scan_Suc del: load_scan.simps(2))
  then show ?thesis using assms by (simp add: atomic_load_def Let_def rec_at_def split: prod.splits)
qed

lemma rmw_total:
  assumes "busy (rec_at var (current_index var))" "current_index var \<noteq> -1"
  shows "\<exists>i aba th' var'. atomic_rmw n mo th var = Inr (i, aba, th', var')"
proof -
  obtain th1 var1 where "atomic_load n False mo True (\<lambda>s _ _. Inr (0, s)) th var () =
      Inr (of_nat (hslot (current_index var)), th1, var1, ())"
    using rmw_load_total [OF assms, of n False mo "\<lambda>s _ _. Inr (0, s)" th "()"] by blast
  moreover obtain i th2 var2 where "atomic_store n mo True th1 var1 = Inr (i, th2, var2)"
    using atomic_store_total [of True mo n th1 var1] by blast
  ultimately show ?thesis by (simp add: atomic_rmw_def Let_def)
qed

section \<open>Properties\<close>

text \<open>
  C3. The records a relaxed-or-stronger load may return, over all choices of the scheduler: the
  record at distance \<open>d\<close> behind the newest, inside the history window, when every newer record
  may be passed - it is not sequentially consistent for a seq_cst load, its store is not known to
  the thread, and no read of it is known to the thread.
\<close>

theorem load_choice_spec:
  "(\<exists>(rnd :: nat rnd) s s'. get_load_index n rd mo False rnd th var s = Inr (r, s') \<and> r \<noteq> -1) \<longleftrightarrow>
     readable n rd mo th var r \<and> r \<noteq> -1"
  by (metis get_load_index_sound get_load_index_complete)

text \<open>
  C4. Release and acquire: an acquire load that reads the record of a release store raises the
  reader's clock to the writer's, for a plain store and for a read-modify-write alike.
\<close>

theorem release_acquire_transfer:
  assumes "atomic_store n mo rmw a var = Inr (i, a', var')" "synch_release mo"
    and "atomic_load n rd mo' rmw' rnd b var' s = Inr (i, b', var2, s')" "synch_acquire mo'"
  shows "vle n (acq_rel_order a') (acq_rel_order b')"
  using assms by (rule release_acquire_clock)

theorem release_acquire_transfer_witness:
  "\<exists>i a' var' b' var2.
     atomic_store 2 mo_release False (fresh_thread 2 0) (fresh_atomic 2 0) = Inr (i, a', var') \<and>
     atomic_load 2 True mo_acquire True (\<lambda>s _ _. Inr (0, s)) (fresh_thread 2 1) var' () = Inr (i, b', var2, ()) \<and>
     vle 2 (acq_rel_order a') (acq_rel_order b')"
proof -
  obtain i a' var' b' var2 where
    "atomic_store 2 mo_release False (fresh_thread 2 0) (fresh_atomic 2 0) = Inr (i, a', var')"
    "atomic_load 2 True mo_acquire True (\<lambda>s _ _. Inr (0, s)) (fresh_thread 2 1) var' () = Inr (i, b', var2, ())"
    using store_load_run [of mo_release "fresh_atomic 2 0" 2 "fresh_thread 2 0" True mo_acquire
        "\<lambda>s _ _. Inr (0, s)" "fresh_thread 2 1" "()"] by auto
  then show ?thesis
    using release_acquire_transfer [of 2 mo_release False "fresh_thread 2 0" "fresh_atomic 2 0" i a' var' True
        mo_acquire True "\<lambda>s _ _. Inr (0, s)" "fresh_thread 2 1" "()" b' var2 "()"]
    by (auto simp: synch_release_def synch_acquire_def)
qed

text \<open>
  C5. Fences: a release fence before a relaxed store and an acquire fence after a relaxed load of
  its record pass the writer's clock on, whatever the writer does between its fence and the store.
\<close>

theorem fence_fence_transfer:
  assumes "release_fence_order a' = release_fence_order (fence_release n a)"
    and "atomic_store n mo rmw a' var = Inr (i, a2, var')" "\<not> synch_release mo"
    and "atomic_load n rd mo' rmw' rnd b var' s = Inr (i, b', var2, s')" "\<not> synch_acquire mo'"
  shows "vle n (acq_rel_order a) (acq_rel_order (fence_acquire n b'))"
proof -
  note st = atomic_store_Inr [OF assms(2)]
  have "vle n (acq_rel_order a) (published mo a')"
    using assms(1,3) by (simp add: published_def fence_release_order)
  with st(8) atomic_load_acquires(2) [OF assms(4) st(2) assms(5)] fence_acquire_order
  show ?thesis by (blast intro: vle_trans)
qed

theorem fence_fence_transfer_witness:
  "\<exists>i a2 var' b' var2.
     atomic_store 2 mo_relaxed False (fence_release 2 (fresh_thread 2 0)) (fresh_atomic 2 0) = Inr (i, a2, var') \<and>
     atomic_load 2 True mo_relaxed True (\<lambda>s _ _. Inr (0, s)) (fresh_thread 2 1) var' () = Inr (i, b', var2, ()) \<and>
     vle 2 (acq_rel_order (fresh_thread 2 0)) (acq_rel_order (fence_acquire 2 b'))"
proof -
  obtain i a' var' b' var2 where
    "atomic_store 2 mo_relaxed False (fence_release 2 (fresh_thread 2 0)) (fresh_atomic 2 0) = Inr (i, a', var')"
    "atomic_load 2 True mo_relaxed True (\<lambda>s _ _. Inr (0, s)) (fresh_thread 2 1) var' () = Inr (i, b', var2, ())"
    using store_load_run [of mo_relaxed "fresh_atomic 2 0" 2 "fence_release 2 (fresh_thread 2 0)" True mo_relaxed
        "\<lambda>s _ _. Inr (0, s)" "fresh_thread 2 1" "()"] by auto
  then show ?thesis
    using fence_fence_transfer [of "fence_release 2 (fresh_thread 2 0)" 2 "fresh_thread 2 0" mo_relaxed False
        "fresh_atomic 2 0" i a' var' True mo_relaxed True "\<lambda>s _ _. Inr (0, s)" "fresh_thread 2 1" "()" b' var2 "()"]
    by (auto simp: synch_release_def synch_acquire_def)
qed

text \<open>
  C6. Release sequences: an acquire load that reads the last record of any chain of
  read-modify-writes, of any orders and by any threads, headed by a release store synchronises
  with the head.
\<close>

theorem release_sequence_transfer:
  assumes "atomic_store n mo False a var = Inr (i, a', var')" "synch_release mo"
    and "rmw_chain n steps var' = Inr var2" "unat (current_index var') + length steps < 2 ^ 32"
    and "atomic_load n rd mo' rmw' rnd b var2 s = Inr (j, b', var3, s')" "synch_acquire mo'"
    and "j = of_nat (hslot (current_index var2))"
  shows "vle n (acq_rel_order a') (acq_rel_order b')"
proof -
  note st = atomic_store_Inr [OF assms(1)]
  have "vle n (acq_rel_order a') (h_acq_rel_order (rec_at var' (current_index var')))"
    using st(3,8) assms(2) by (simp add: published_def)
  moreover note rmw_chain_order [OF assms(3) st(7) assms(4)]
  moreover note atomic_load_acquires(1) [OF assms(5,7,6)]
  ultimately show ?thesis by (blast intro: vle_trans)
qed


theorem release_sequence_transfer_witness:
  "\<exists>i a' var' var2 j b' var3.
     atomic_store 2 mo_release False (fresh_thread 2 0) (fresh_atomic 2 0) = Inr (i, a', var') \<and>
     rmw_chain 2 [(mo_relaxed, fresh_thread 2 1)] var' = Inr var2 \<and>
     atomic_load 2 True mo_acquire True (\<lambda>s _ _. Inr (0, s)) (fresh_thread 2 1) var2 () = Inr (j, b', var3, ()) \<and>
     vle 2 (acq_rel_order a') (acq_rel_order b')"
proof -
  obtain i a' var' where st: "atomic_store 2 mo_release False (fresh_thread 2 0) (fresh_atomic 2 0) = Inr (i, a', var')"
    using atomic_store_total [of False mo_release] by fastforce
  then have c1: "current_index var' = 1" "busy (rec_at var' (current_index var'))"
    using atomic_store_Inr(1,7) [OF st] by simp_all
  obtain k aba th var2 where r: "atomic_rmw 2 mo_relaxed (fresh_thread 2 1) var' = Inr (k, aba, th, var2)"
    using rmw_total [OF c1(2)] c1(1) by force
  then have c2: "current_index var2 = 2" "busy (rec_at var2 (current_index var2))"
    using atomic_rmw_record(1,2) [OF r] c1 by simp_all
  have ch: "rmw_chain 2 [(mo_relaxed, fresh_thread 2 1)] var' = Inr var2" using r by simp
  obtain b' var3 where l: "atomic_load 2 True mo_acquire True (\<lambda>s _ _. Inr (0, s)) (fresh_thread 2 1) var2 () =
      Inr (of_nat (hslot (current_index var2)), b', var3, ())"
    using rmw_load_total [OF c2(2), of 2 True mo_acquire "\<lambda>s _ _. Inr (0, s)" "fresh_thread 2 1" "()"] c2(1) by auto
  have "vle 2 (acq_rel_order a') (acq_rel_order b')"
    using st _ ch _ l by (rule release_sequence_transfer) (simp_all add: synch_release_def synch_acquire_def c1)
  with st ch l show ?thesis by blast
qed

text \<open>
  C7. Sequentially consistent fences order a store before a load: when the writer's fence comes
  first, the reader, after its own fence, reads that store (the store-buffering outcome is
  excluded).
\<close>

theorem seq_cst_fences_order:
  assumes "atomic_store n mo rmw a var = Inr (i, a1, var')" "th_index a < n" "current_index var' \<noteq> -1"
    and "fence_seq_cst n a1 f = (a2, f1)" "vle n f1 f2" "fence_seq_cst n b f2 = (b1, f3)"
    and "atomic_load n rd mo' False rnd b1 var' s = Inr (j, b2, var2, s')"
  shows "j = i"
proof -
  have "vle n (acq_rel_order a1) (acq_rel_order b1)"
    using fence_seq_cst_order(1) [OF assms(4)] fence_seq_cst_order(2) [OF assms(6)] assms(5)
    by (blast intro: vle_trans)
  then show ?thesis using covered_store_read [OF assms(1,2) _ assms(3,7)] by blast
qed

theorem seq_cst_fences_order_witness:
  "\<exists>i a1 var' j b2 var2.
     atomic_store 2 mo_relaxed False (fresh_thread 2 0) (fresh_atomic 2 0) = Inr (i, a1, var') \<and>
     atomic_load 2 True mo_relaxed False (\<lambda>s _ _. Inr (0, s))
       (fst (fence_seq_cst 2 (fresh_thread 2 1) (snd (fence_seq_cst 2 a1 (\<lambda>_. 0))))) var' () = Inr (j, b2, var2, ()) \<and>
     j = i"
proof -
  obtain i a1 var' where st: "atomic_store 2 mo_relaxed False (fresh_thread 2 0) (fresh_atomic 2 0) = Inr (i, a1, var')"
    using atomic_store_total [of False mo_relaxed] by fastforce
  then have c1: "current_index var' = 1" "busy (rec_at var' (current_index var'))"
    using atomic_store_Inr(1,7) [OF st] by simp_all
  let ?f = "snd (fence_seq_cst 2 a1 (\<lambda>_. 0))"
  obtain j b2 var2 where l: "atomic_load 2 True mo_relaxed False (\<lambda>s _ _. Inr (0, s))
      (fst (fence_seq_cst 2 (fresh_thread 2 1) ?f)) var' () = Inr (j, b2, var2, ())"
    using zero_load_total [OF c1(2), of mo_relaxed 2 True "fst (fence_seq_cst 2 (fresh_thread 2 1) ?f)" "()"] c1(1)
    by auto
  have "j = i"
    using st _ _ _ _ _ l 
    by (rule seq_cst_fences_order [where f = "\<lambda>_. 0" and ?f1.0 = ?f and ?f2.0 = ?f
          and ?a2.0 = "fst (fence_seq_cst 2 a1 (\<lambda>_. 0))" and b = "fresh_thread 2 1"
          and ?f3.0 = "snd (fence_seq_cst 2 (fresh_thread 2 1) ?f)"]) (simp_all add: c1)
  with st l show ?thesis by blast
qed

text \<open>
  C8. Coherence of reads: after a thread has read the record at distance \<open>d\<close> behind the newest,
  no thread whose clock covers that read can be given an older one.
\<close>

theorem read_read_coherence:
  assumes "seen_wf b var" "own_order b < -2" "th_index b < n"
    and "atomic_load n rd mo rmw rnd b var s = Inr (of_nat (hslot (current_index var - of_nat d)), b', var', s')"
    and "vle n (acq_rel_order b') (acq_rel_order c)" "readable n rd' mo' c var' r"
  shows "\<exists>d'\<le>d. r = current_index var' - of_nat d'"
proof -
  have "current_index var' = current_index var" using atomic_load_keeps_records [OF assms(4)] by blast
  then show ?thesis
    using readable_not_past [OF assms(6)] read_not_passable [OF assms(1-4) refl assms(5)] by metis
qed


theorem read_read_coherence_witness:
  "\<exists>b' var'. atomic_load 2 True mo_relaxed True (\<lambda>s _ _. Inr (0, s)) (fresh_owner 2 0) (fresh_atomic 2 0) () =
       Inr (of_nat (hslot (current_index (fresh_atomic 2 0) - of_nat 0)), b', var', ()) \<and>
     (\<exists>d'\<le>0. current_index var' = current_index var' - of_nat d')"
proof -
  have wf: "seen_wf (fresh_owner 2 0) (fresh_atomic 2 0)"
    by (auto simp: seen_wf_def Let_def fresh_owner_def fresh_atomic_def atomic_data_ctor_th_def blank_atomic_def
        atomic_history_size_def own_order_def clock_simps)
  have own: "own_order (fresh_owner 2 0) = 2" "th_index (fresh_owner 2 0) = 0"
    by (simp_all add: fresh_owner_def atomic_data_ctor_th_def Let_def own_order_def clock_simps)
  obtain b' var' where l: "atomic_load 2 True mo_relaxed True (\<lambda>s _ _. Inr (0, s)) (fresh_owner 2 0) (fresh_atomic 2 0) () =
      Inr (of_nat (hslot (current_index (fresh_atomic 2 0) - of_nat 0)), b', var', ())"
    using rmw_load_total [of "fresh_atomic 2 0" 2 True mo_relaxed "\<lambda>s _ _. Inr (0, s)" "fresh_owner 2 0" "()"]
    by auto
  have "readable 2 True mo_relaxed b' var' (current_index var')"
    using atomic_load_keeps_records [OF l] by (auto simp: readable_def intro: exI [of _ 0])
  with read_read_coherence [OF wf _ _ l vle_refl] l show ?thesis by (auto simp: own)
qed

text \<open>
  C9. Message passing: a thread writes a plain variable and release-stores a flag; a thread that
  did not know of the write loads that record of the flag. Its read of the plain variable then
  returns the message when the load was an acquire, and is reported as a data race when it was
  not.
\<close>

theorem message_passing:
  assumes "v_initialized v" "var_store n False a v x = Inr (a1, v1)" "own_order a < -2"
    and "atomic_store n mo False a1 var = Inr (i, a2, var')" "synch_release mo"
    and "atomic_load n rd mo' rmw rnd b var' s = Inr (i, b', var2, s')"
    and "th_index a < n" "th_index b \<noteq> th_index a" "acq_rel_order b (th_index a) \<le> own_order a"
  shows "if synch_acquire mo' then \<exists>b2 v2. var_load n False b' v1 = Inr (x, b2, v2)
         else var_load n False b' v1 = Inl (Test_failed result_data_race)"
proof -
  have own1: "own_order a \<noteq> -1" using assms(3) by auto
  have own2: "own_order a + 1 \<noteq> -1"
  proof
    assume "own_order a + 1 = -1"
    then have "own_order a = -2" by (simp add: eq_diff_eq [symmetric])
    with assms(3) show False by simp
  qed
  note st = assms(2) [unfolded var_store_init [OF assms(1)]]
  have a1: "a1 = th_tick a" and sig: "sig_ok var_magic (v_sign v1)" and ini: "v_initialized v1"
    and val: "v_value v1 = x"
    and ts: "store_ts (v_data v1) = (store_ts (v_data v))(th_index a := own_order a + 1)"
    using st assms(1) by auto
  have le: "vle n (acq_rel_order a) (acq_rel_order a1)" "vle n (acq_rel_order a1) (acq_rel_order a2)"
    using own1 own2 atomic_store_Inr(3) [OF assms(4)]
    by (auto simp: a1 own_order_def intro!: tick_le simp: tick_apply)
  have "vle n (store_ts (v_data v1)) (acq_rel_order a1)"
    using st le(1) by (auto simp: ts a1 vle_def own_order_def tick_apply intro: order_trans)
  then have pub: "vle n (store_ts (v_data v1)) (acq_rel_order a2)" using le(2) by (rule vle_trans)
  show ?thesis
  proof (cases "synch_acquire mo'")
    case True
    have "vle n (store_ts (v_data v1)) (acq_rel_order b')"
      using pub release_acquire_clock [OF assms(4-6) True] by (rule vle_trans)
    then show ?thesis using True sig ini val by (auto simp: var_load_Inr)
  next
    case False
    have "acq_rel_order b' (th_index a) = acq_rel_order b (th_index a)"
      using assms(6,8) False by (rule atomic_load_relaxed_clock)
    then have "acq_rel_order b' (th_index a) < store_ts (v_data v1) (th_index a)"
      using assms(9) word_less_Suc [OF own1] by (simp add: ts)
    then have "\<not> vle n (store_ts (v_data v1)) (acq_rel_order b')"
      using assms(7) by (auto simp: vle_def not_le)
    then show ?thesis using False sig ini
      by (simp add: var_load_def var_data_load_def behind_iff)
  qed
qed


theorem message_passing_witness:
  "\<exists>a1 v1 i a2 var' b' var2.
     var_store 2 False (fst (var_ctor_value 2 4096 \<lparr>load_ts = (\<lambda>_. 0), store_ts = (\<lambda>_. 0)\<rparr> (fresh_thread 2 0) (0 :: u32)))
       (snd (var_ctor_value 2 4096 \<lparr>load_ts = (\<lambda>_. 0), store_ts = (\<lambda>_. 0)\<rparr> (fresh_thread 2 0) (0 :: u32))) (5 :: u32) = Inr (a1, v1) \<and>
     atomic_store 2 mo_release False a1 (fresh_atomic 2 0) = Inr (i, a2, var') \<and>
     atomic_load 2 True mo_relaxed True (\<lambda>s _ _. Inr (0, s)) (fresh_thread 2 1) var' () = Inr (i, b', var2, ()) \<and>
     var_load 2 False b' v1 = Inl (Test_failed result_data_race)"
proof -
  let ?p = "var_ctor_value 2 4096 \<lparr>load_ts = (\<lambda>_. 0), store_ts = (\<lambda>_. 0)\<rparr> (fresh_thread 2 0) (0 :: u32)"
  have sg: "sig_ok var_magic (signature_ctor var_magic 4096)"
    by (simp add: sig_ok_def signature_check_def signature_ctor_def Let_def word_le_nat_alt)
  have p: "v_initialized (snd ?p)" "own_order (fst ?p) = 2" "th_index (fst ?p) = 0"
    and "\<exists>a1 v1. var_store 2 False (fst ?p) (snd ?p) 5 = Inr (a1, v1)"
    by (auto simp: var_ctor_value_def var_data_init_def Let_def var_data_ctor_def var_store_init sg
        vle_def clock_simps own_order_def)
  then obtain a1 v1 where st: "var_store 2 False (fst ?p) (snd ?p) 5 = Inr (a1, v1)" by blast
  obtain i a2 var' b' var2 where
    s: "atomic_store 2 mo_release False a1 (fresh_atomic 2 0) = Inr (i, a2, var')" and
    l: "atomic_load 2 True mo_relaxed True (\<lambda>s _ _. Inr (0, s)) (fresh_thread 2 1) var' () = Inr (i, b', var2, ())"
    using store_load_run [of mo_release "fresh_atomic 2 0" 2 a1 True mo_relaxed
        "\<lambda>s _ _. Inr (0, s)" "fresh_thread 2 1" "()"] by auto
  have "var_load 2 False b' v1 = Inl (Test_failed result_data_race)"
    using message_passing [OF p(1) st _ s _ l] by (simp add: p synch_release_def synch_acquire_def)
  with st s l show ?thesis by blast
qed


end
