(* ===== verification/Scheduler.thy ===== *)
theory Scheduler
  imports Relacy_Types
begin

text \<open>
  The schedulers (\<^verbatim>\<open>scheduler.hpp\<close>, \<^verbatim>\<open>random_scheduler.hpp\<close>,
  \<^verbatim>\<open>full_search_scheduler.hpp\<close>, \<^verbatim>\<open>context_bound_scheduler.hpp\<close>). The three classes
  share one base through static dispatch on \<open>self()\<close>; here one state record carries the
  fields of all three and a tag that the dispatched operations branch on. Pointers to thread
  records are thread indices. An operation that may fire \<open>RL_VERIFY\<close> returns
  \<open>fault + \<dots>\<close>.
\<close>

section \<open>State\<close>

datatype thread_state = thread_running | thread_blocked | thread_finished_st

datatype thread_finish_result = finish_normal | finish_last | finish_deadlock

record sched_thread =
  st_index :: nat
  block_count :: nat
  st_state :: thread_state
  yield_sched_count :: "nat \<Rightarrow> nat"
  yield_prio :: "nat \<Rightarrow> nat"
  total_yield_priority :: nat
  cb_sched_count :: nat
  forced_context_switch_count :: nat

record stree_node =
  n_count :: nat
  n_index :: nat
  n_type :: sched_type

record sched =
  s_kind :: scheduler_type
  s_n :: nat
  s_params :: test_params
  total_dynamic_threads :: nat
  s_iter :: nat
  s_threads :: "nat \<Rightarrow> sched_thread"
  s_thread :: "nat option"
  running_threads :: "nat list"
  running_threads_count :: nat
  finished_thread_count :: nat
  timed_threads :: "nat list"
  spurious_threads :: "nat list"
  dynamic_threads :: "nat list"
  s_rand :: random_generator
  stree :: "stree_node list"
  stree_depth :: nat
  switches_remain :: nat

definition upd_thread :: "nat \<Rightarrow> (sched_thread \<Rightarrow> sched_thread) \<Rightarrow> sched \<Rightarrow> sched" where
  "upd_thread i f s = s\<lparr>s_threads := (s_threads s)(i := f (s_threads s i))\<rparr>"

abbreviation state_of :: "sched \<Rightarrow> nat \<Rightarrow> thread_state" where
  "state_of s i \<equiv> st_state (s_threads s i)"

abbreviation blocks :: "sched \<Rightarrow> nat \<Rightarrow> nat" where
  "blocks s i \<equiv> block_count (s_threads s i)"

abbreviation prio :: "sched \<Rightarrow> nat \<Rightarrow> nat \<Rightarrow> nat" where
  "prio s y i \<equiv> yield_prio (s_threads s y) i"

text \<open>
  The counters and the yield debts are \<open>unsigned\<close>: natural numbers below \<open>2 ^ 32\<close> that wrap around. These are
  \<open>++\<close>, \<open>--\<close>, \<open>+=\<close> and \<open>-=\<close>.
\<close>

definition inc32 :: "nat \<Rightarrow> nat" where
  "inc32 b = (b + 1) mod 2 ^ 32"

definition dec32 :: "nat \<Rightarrow> nat" where
  "dec32 b = (if b = 0 then 2 ^ 32 - 1 else b - 1)"

definition add32 :: "nat \<Rightarrow> nat \<Rightarrow> nat" where
  "add32 a b = (a + b) mod 2 ^ 32"

definition sub32 :: "nat \<Rightarrow> nat \<Rightarrow> nat" where
  "sub32 a b = (if b \<le> a then a - b else 2 ^ 32 + a - b)"

definition blank_sched_thread :: "nat \<Rightarrow> sched_thread" where
  "blank_sched_thread i = \<lparr>st_index = i, block_count = 0, st_state = thread_running, yield_sched_count = (\<lambda>_. 0),
     yield_prio = (\<lambda>_. 0), total_yield_priority = 0, cb_sched_count = 0, forced_context_switch_count = 0\<rparr>"

text \<open>The constructor; the fields it leaves alone are zero here.\<close>

definition sched_ctor :: "scheduler_type \<Rightarrow> nat \<Rightarrow> test_params \<Rightarrow> nat \<Rightarrow> sched" where
  "sched_ctor kind n params dyn_count =
     \<lparr>s_kind = kind, s_n = n, s_params = params, total_dynamic_threads = dyn_count, s_iter = 0,
      s_threads = blank_sched_thread, s_thread = None, running_threads = [], running_threads_count = 0,
      finished_thread_count = 0, timed_threads = [], spurious_threads = [], dynamic_threads = [],
      s_rand = \<lparr>rg_k = 0, rg_c = 0, rg_x = 0\<rparr>, stree = [], stree_depth = 0, switches_remain = 0\<rparr>"

section \<open>Blocking and unblocking\<close>

definition unblock_thread :: "nat \<Rightarrow> sched \<Rightarrow> fault + (bool \<times> sched)" where
  "unblock_thread th s =
     rl_verify (th < s_n s) (rl_verify (state_of s th = thread_blocked)
       (let b = dec32 (blocks s th);
            s = upd_thread th (\<lambda>t. t\<lparr>block_count := b\<rparr>) s
        in if b \<noteq> 0 then Inr (False, s)
           else Inr (True, upd_thread th (\<lambda>t. t\<lparr>st_state := thread_running\<rparr>)
                  (s\<lparr>running_threads := running_threads s @ [th],
                     running_threads_count := running_threads_count s + 1\<rparr>))))"

text \<open>One round of the loop of the tree searching \<open>on_thread_block\<close>.\<close>

definition release_yielder :: "nat \<Rightarrow> nat \<Rightarrow> sched \<Rightarrow> fault + sched" where
  "release_yielder th i s =
     (if prio s th i \<noteq> 0
      then rbind (unblock_thread i
             (upd_thread th (\<lambda>t. t\<lparr>total_yield_priority := sub32 (total_yield_priority t) (yield_prio t i),
                                yield_prio := (yield_prio t)(i := 0)\<rparr>) s))
             (\<lambda>(_, s). Inr s)
      else Inr s)"

definition on_thread_block :: "nat \<Rightarrow> sched \<Rightarrow> fault + sched" where
  "on_thread_block th s =
     (if s_kind s = sched_random then Inr s
      else if total_yield_priority (s_threads s th) \<noteq> 0
           then rfold (release_yielder th) [0..<s_n s] s
           else Inr s)"

definition block_thread :: "nat \<Rightarrow> sched \<Rightarrow> fault + sched" where
  "block_thread th s =
     rl_verify (th < s_n s) (rl_verify (state_of s th \<noteq> thread_finished_st)
       (let old = blocks s th;
            s = upd_thread th (\<lambda>t. t\<lparr>block_count := inc32 (block_count t)\<rparr>) s
        in if old \<noteq> 0 then Inr s
           else if th \<in> set (take (running_threads_count s) (running_threads s))
           then on_thread_block th
                  (upd_thread th (\<lambda>t. t\<lparr>st_state := thread_blocked\<rparr>)
                    (s\<lparr>running_threads := remove1 th (running_threads s),
                       running_threads_count := running_threads_count s - 1\<rparr>))
           else Inl Verify_failed))"

definition purge_blocked_threads :: "sched \<Rightarrow> fault + sched" where
  "purge_blocked_threads s =
     (if s_kind s = sched_random then Inr s else rfold on_thread_block [0..<s_n s] s)"

definition is_deadlock :: "sched \<Rightarrow> fault + (bool \<times> sched)" where
  "is_deadlock s =
     (if running_threads_count s = 0 \<and> length (timed_threads s) = 0
      then rbind (purge_blocked_threads s) (\<lambda>s.
             Inr (running_threads_count s = 0 \<and> length (timed_threads s) = 0, s))
      else Inr (False, s))"

section \<open>Parking, finishing and creating threads\<close>

definition sched_park_current :: "bool \<Rightarrow> bool \<Rightarrow> sched \<Rightarrow> fault + (bool \<times> sched)" where
  "sched_park_current is_timed allow_spurious_wakeup s =
     (let t = the (s_thread s);
          s = (if is_timed then s\<lparr>timed_threads := timed_threads s @ [t]\<rparr> else s)
      in rl_verify (is_timed \<longrightarrow> length (timed_threads s) \<le> s_n s)
        (let s = (if allow_spurious_wakeup then s\<lparr>spurious_threads := spurious_threads s @ [t]\<rparr> else s)
         in rl_verify (allow_spurious_wakeup \<longrightarrow> length (spurious_threads s) \<le> s_n s)
           (rbind (block_thread t s) (\<lambda>s.
              rbind (is_deadlock s) (\<lambda>(d, s). Inr (\<not> d, s))))))"

definition sched_unpark :: "nat \<Rightarrow> sched \<Rightarrow> fault + sched" where
  "sched_unpark th s =
     rbind (unblock_thread th s) (\<lambda>(_, s).
       Inr (s\<lparr>spurious_threads := remove1 th (spurious_threads s),
              timed_threads := remove1 th (timed_threads s)\<rparr>))"

text \<open>
  \<open>goto retry\<close> of \<open>thread_finished\<close>: the first argument bounds the passes. A second pass
  finds no dynamic thread left, so two are enough.
\<close>

definition release_dynamic :: "sched \<Rightarrow> fault + sched" where
  "release_dynamic s =
     rfold (\<lambda>th s. rbind (unblock_thread th (s\<lparr>dynamic_threads := butlast (dynamic_threads s)\<rparr>))
                    (\<lambda>(_, s). Inr s))
       (rev (dynamic_threads s)) s"

fun finish_retry :: "nat \<Rightarrow> sched \<Rightarrow> fault + (thread_finish_result \<times> sched)" where
  "finish_retry 0 s = Inl Verify_failed"
| "finish_retry (Suc k) s =
     (if finished_thread_count s = s_n s then Inr (finish_last, s)
      else rbind (is_deadlock s) (\<lambda>(d, s).
        if d then (if dynamic_threads s \<noteq> [] then rbind (release_dynamic s) (finish_retry k)
                   else Inr (finish_deadlock, s))
        else Inr (finish_normal, s)))"

definition thread_finished :: "sched \<Rightarrow> fault + (thread_finish_result \<times> sched)" where
  "thread_finished s =
     (let t = the (s_thread s)
      in rl_verify (state_of s t = thread_running)
        (rbind (block_thread t s) (\<lambda>s.
           finish_retry 2 (upd_thread t (\<lambda>x. x\<lparr>st_state := thread_finished_st\<rparr>) s
             \<lparr>finished_thread_count := finished_thread_count s + 1\<rparr>))))"

definition sched_create_thread :: "sched \<Rightarrow> fault + (nat \<times> sched)" where
  "sched_create_thread s =
     rl_verify (dynamic_threads s \<noteq> [])
       (let th = last (dynamic_threads s)
        in rbind (unblock_thread th (s\<lparr>dynamic_threads := butlast (dynamic_threads s)\<rparr>))
             (\<lambda>(_, s). Inr (th, s)))"

section \<open>Choices\<close>

definition rand_impl :: "sched \<Rightarrow> nat \<Rightarrow> sched_type \<Rightarrow> fault + (nat \<times> sched)" where
  "rand_impl s limit t =
     (if s_kind s = sched_random
      then (let (r, g) = rg_rand (s_rand s) in Inr (r mod limit, s\<lparr>s_rand := g\<rparr>))
      else if stree_depth s = length (stree s)
      then Inr (0, s\<lparr>stree := stree s @ [\<lparr>n_count = limit, n_index = 0, n_type = t\<rparr>],
                     stree_depth := stree_depth s + 1\<rparr>)
      else let n = stree s ! stree_depth s
           in rl_verify (length (stree s) \<noteq> 0) (rl_verify (n_type n = t) (rl_verify (n_count n = limit)
                (rl_verify (n_index n < n_count n)
                  (Inr (n_index n, s\<lparr>stree_depth := stree_depth s + 1\<rparr>))))))"

definition sched_rand :: "sched \<Rightarrow> nat \<Rightarrow> sched_type \<Rightarrow> fault + (nat \<times> sched)" where
  "sched_rand s limit t = rl_verify (limit \<noteq> 0) (rand_impl s limit t)"

section \<open>Scheduling\<close>

text \<open>A parked thread picked from the timed or the spurious list wakes up.\<close>

definition wake_picked :: "nat \<Rightarrow> unpark_reason \<Rightarrow> sched \<Rightarrow> fault + (nat \<times> unpark_reason \<times> sched)" where
  "wake_picked th reason s =
     rbind (sched_unpark th s) (\<lambda>s.
       rl_verify (state_of s th = thread_running) (Inr (th, reason, s)))"

definition random_pick :: "sched \<Rightarrow> nat \<Rightarrow> nat \<times> sched" where
  "random_pick s cnt = (let (r, g) = rg_rand (s_rand s) in (r mod cnt, s\<lparr>s_rand := g\<rparr>))"

definition random_normal :: "nat \<Rightarrow> sched \<Rightarrow> fault + (nat \<times> unpark_reason \<times> sched)" where
  "random_normal running_thread_count s =
     rl_verify (running_thread_count \<noteq> 0)
       (let (index, s) = random_pick s running_thread_count
        in Inr (running_threads s ! index, unpark_normal, s))"

definition random_spurious :: "nat \<Rightarrow> sched \<Rightarrow> fault + (nat \<times> unpark_reason \<times> sched)" where
  "random_spurious running_thread_count s =
     (let spurious_thread_count = length (spurious_threads s)
      in if spurious_thread_count \<noteq> 0 \<and> running_thread_count \<noteq> 0
         then (let (idx, s) = random_pick s (spurious_thread_count * 8)
               in if idx < spurious_thread_count
                  then (let th = spurious_threads s ! idx
                        in rl_verify (1 = blocks s th) (wake_picked th unpark_spurious s))
                  else random_normal running_thread_count s)
         else random_normal running_thread_count s)"

definition random_schedule_impl :: "sched \<Rightarrow> fault + (nat \<times> unpark_reason \<times> sched)" where
  "random_schedule_impl s =
     (let running_thread_count = running_threads_count s;
          timed_thread_count = length (timed_threads s)
      in if timed_thread_count \<noteq> 0
         then (let (idx, s) = random_pick s (if running_thread_count \<noteq> 0 then timed_thread_count * 4
                                             else timed_thread_count)
               in if idx < timed_thread_count
                  then (let th = timed_threads s ! idx
                        in rl_verify (1 = blocks s th) (wake_picked th unpark_timeout s))
                  else random_spurious running_thread_count s)
         else random_spurious running_thread_count s)"

text \<open>
  The tree searching \<open>schedule_impl\<close>. A thread scheduled here pays one unit of every debt the
  yielding threads hold on it, and lets those go that are paid off.
\<close>

definition pay_yielder :: "nat \<Rightarrow> nat \<Rightarrow> sched \<Rightarrow> fault + sched" where
  "pay_yielder t i s =
     rbind (if prio s t i \<noteq> 0
            then (let s = upd_thread t (\<lambda>x. x\<lparr>yield_prio := (yield_prio x)(i := yield_prio x i - 1),
                                       total_yield_priority := dec32 (total_yield_priority x)\<rparr>) s
                  in if prio s t i = 0 then rbind (unblock_thread i s) (\<lambda>(_, s). Inr s) else Inr s)
            else Inr s)
       (\<lambda>s. Inr (upd_thread t (\<lambda>x. x\<lparr>yield_sched_count := (yield_sched_count x)(i := inc32 (yield_sched_count x i))\<rparr>) s))"

definition pay_yielders :: "nat \<Rightarrow> sched \<Rightarrow> fault + sched" where
  "pay_yielders t s =
     (if total_yield_priority (s_threads s t) \<noteq> 0 then rfold (pay_yielder t) [0..<s_n s] s else Inr s)"

definition yield_to :: "nat \<Rightarrow> nat \<Rightarrow> nat \<Rightarrow> sched \<Rightarrow> fault + sched" where
  "yield_to t yield i s =
     rl_verify (0 = prio s i t)
       (rbind (if t \<noteq> i \<and> yield_sched_count (s_threads s i) t < yield \<and> state_of s i \<noteq> thread_finished_st
               then block_thread t
                      (upd_thread i (\<lambda>y. y\<lparr>yield_prio := (yield_prio y)(t := yield),
                                          total_yield_priority := add32 (total_yield_priority y) yield\<rparr>) s)
               else Inr s)
         (\<lambda>s. Inr (upd_thread i (\<lambda>y. y\<lparr>yield_sched_count := (yield_sched_count y)(t := 0)\<rparr>) s)))"

definition yield_priority :: "nat \<Rightarrow> sched \<Rightarrow> fault + sched" where
  "yield_priority yield s =
     rl_verify (yield \<noteq> 0)
       (let t = the (s_thread s)
        in rbind (rfold (yield_to t yield) [0..<s_n s] s) (\<lambda>s.
             if running_threads_count s = 0 then purge_blocked_threads s else Inr s))"

definition can_switch :: "nat \<Rightarrow> sched \<Rightarrow> bool \<times> sched" where
  "can_switch t s =
     (if s_kind s = sched_bound
      then (let s = upd_thread t (\<lambda>x. x\<lparr>cb_sched_count := inc32 (cb_sched_count x)\<rparr>) s
            in (switches_remain s \<noteq> 0, s))
      else (True, s))"

definition on_switch :: "nat \<Rightarrow> sched \<Rightarrow> fault + sched" where
  "on_switch t s =
     (if s_kind s = sched_bound
      then if state_of s t = thread_running
           then rl_verify (switches_remain s \<noteq> 0) (Inr (s\<lparr>switches_remain := switches_remain s - 1\<rparr>))
           else Inr (upd_thread t (\<lambda>x. x\<lparr>forced_context_switch_count := inc32 (forced_context_switch_count x)\<rparr>) s)
      else Inr s)"

text \<open>
  The first two blocks of the body: try a timed wake-up, then a spurious one. \<open>None\<close> is
  \<open>reason == unpark_reason_normal\<close> after the block.
\<close>

definition tree_wake ::
  "nat list \<Rightarrow> nat \<Rightarrow> unpark_reason \<Rightarrow> sched \<Rightarrow> fault + ((nat \<times> unpark_reason) option \<times> sched)" where
  "tree_wake candidates cnt reason s =
     rbind (sched_rand s cnt sched_type_user) (\<lambda>(idx, s).
       if idx < length candidates \<and> 1 = blocks s (candidates ! idx)
       then rbind (wake_picked (candidates ! idx) reason s) (\<lambda>(th, reason, s). Inr (Some (th, reason), s))
       else Inr (None, s))"

definition tree_timed :: "sched \<Rightarrow> fault + ((nat \<times> unpark_reason) option \<times> sched)" where
  "tree_timed s =
     (if length (timed_threads s) \<noteq> 0
      then tree_wake (timed_threads s)
             (if running_threads_count s \<noteq> 0 then length (timed_threads s) + 1 else length (timed_threads s))
             unpark_timeout s
      else Inr (None, s))"

definition tree_spurious :: "sched \<Rightarrow> fault + ((nat \<times> unpark_reason) option \<times> sched)" where
  "tree_spurious s =
     (if length (spurious_threads s) \<noteq> 0
      then tree_wake (spurious_threads s) (length (spurious_threads s) + 1) unpark_spurious s
      else Inr (None, s))"

definition tree_normal :: "sched \<Rightarrow> fault + (nat \<times> unpark_reason \<times> sched)" where
  "tree_normal s =
     (if 1 \<noteq> running_threads_count s
      then rbind (sched_rand s (running_threads_count s) sched_type_sched) (\<lambda>(index, s).
             Inr (running_threads s ! index, unpark_normal, s))
      else Inr (running_threads s ! 0, unpark_normal, s))"

definition tree_choose :: "sched \<Rightarrow> fault + (nat \<times> unpark_reason \<times> sched)" where
  "tree_choose s =
     rbind (tree_timed s) (\<lambda>(w, s).
       rl_verify (running_threads_count s \<noteq> 0)
         (case w of
            Some (th, reason) \<Rightarrow> Inr (th, reason, s)
          | None \<Rightarrow> rbind (tree_spurious s) (\<lambda>(w, s).
              case w of Some (th, reason) \<Rightarrow> Inr (th, reason, s) | None \<Rightarrow> tree_normal s)))"

definition tree_schedule_impl :: "nat \<Rightarrow> sched \<Rightarrow> fault + (nat \<times> unpark_reason \<times> sched)" where
  "tree_schedule_impl yield s =
     (let t = the (s_thread s)
      in rbind (pay_yielders t s) (\<lambda>s.
         rbind (if yield \<noteq> 0 then yield_priority yield s else Inr s) (\<lambda>s.
         let (can, s) = can_switch t s
         in rbind (if can \<or> state_of s t \<noteq> thread_running then tree_choose s
                   else Inr (st_index (s_threads s t), unpark_normal, s))
              (\<lambda>(thread_index, reason, s).
                 if st_index (s_threads s t) = thread_index then Inr (thread_index, reason, s)
                 else rbind (on_switch t s) (\<lambda>s. Inr (thread_index, reason, s))))))"

text \<open>The parameter \<open>yield\<close> is an \<open>unsigned\<close>.\<close>

definition sched_schedule :: "nat \<Rightarrow> sched \<Rightarrow> fault + (nat \<times> unpark_reason \<times> sched)" where
  "sched_schedule yield s =
     rbind (if s_kind s = sched_random then random_schedule_impl s else tree_schedule_impl (yield mod 2 ^ 32) s)
       (\<lambda>(th, reason, s).
          rl_verify (state_of s th = thread_running) (Inr (th, reason, s\<lparr>s_thread := Some th\<rparr>)))"

section \<open>Iterations\<close>

definition reset_sched_thread :: "nat \<Rightarrow> scheduler_type \<Rightarrow> sched_thread \<Rightarrow> sched_thread" where
  "reset_sched_thread n kind t =
     (let t = t\<lparr>block_count := 0, st_state := thread_running\<rparr>;
          t = (if kind \<noteq> sched_random
               then t\<lparr>yield_sched_count := (\<lambda>i. if i < n then 0 else yield_sched_count t i),
                      yield_prio := (\<lambda>i. if i < n then 0 else yield_prio t i),
                      total_yield_priority := 0\<rparr> else t)
      in if kind = sched_bound then t\<lparr>cb_sched_count := 0, forced_context_switch_count := 0\<rparr> else t)"

definition tree_iteration_begin_impl :: "sched \<Rightarrow> fault + (nat \<times> sched)" where
  "tree_iteration_begin_impl s =
     rbind (rand_impl (s\<lparr>stree_depth := 0\<rparr>) (running_threads_count s) sched_type_sched)
       (\<lambda>(index, s). Inr (running_threads s ! index, s))"

definition iteration_begin_impl :: "sched \<Rightarrow> fault + (nat \<times> sched)" where
  "iteration_begin_impl s =
     (case s_kind s of
        sched_random \<Rightarrow> rbind (random_schedule_impl (s\<lparr>s_rand := rg_seed (of_nat (s_iter s))\<rparr>))
                          (\<lambda>(th, _, s). Inr (th, s))
      | sched_bound \<Rightarrow> tree_iteration_begin_impl (s\<lparr>switches_remain := context_bound (s_params s)\<rparr>)
      | sched_full \<Rightarrow> tree_iteration_begin_impl s)"

definition sched_iteration_begin :: "nat \<Rightarrow> sched \<Rightarrow> fault + (nat \<times> sched)" where
  "sched_iteration_begin it s =
     (let n = s_n s;
          s = s\<lparr>s_iter := it, running_threads_count := n, finished_thread_count := 0,
                timed_threads := [], spurious_threads := [], dynamic_threads := [],
                running_threads := running_threads s @ [0..<n],
                s_threads := (\<lambda>i. if i < n then reset_sched_thread n (s_kind s) (s_threads s i) else s_threads s i)\<rparr>
      in rbind (rfold (\<lambda>i s. block_thread i (s\<lparr>dynamic_threads := dynamic_threads s @ [i]\<rparr>))
                  [n - total_dynamic_threads s..<n] s)
           (\<lambda>s. rbind (iteration_begin_impl s) (\<lambda>(th, s). Inr (th, s\<lparr>s_thread := Some th\<rparr>))))"

text \<open>
  The odometer step of the search tree: the deepest node with an alternative left is advanced
  and everything below it is dropped. The argument is the reversed node list.
\<close>

fun stree_next :: "stree_node list \<Rightarrow> stree_node list option" where
  "stree_next [] = None"
| "stree_next (n # rest) =
     (if n_index n \<noteq> n_count n - 1 then Some (n\<lparr>n_index := n_index n + 1\<rparr> # rest) else stree_next rest)"

definition tree_iteration_end_impl :: "sched \<Rightarrow> fault + (bool \<times> sched)" where
  "tree_iteration_end_impl s =
     rl_verify (stree_depth s = length (stree s))
       (case stree_next (rev (stree s)) of
          None \<Rightarrow> Inr (True, s)
        | Some r \<Rightarrow> rl_verify (n_index (hd r) < n_count (hd r)) (Inr (False, s\<lparr>stree := rev r\<rparr>)))"

definition sched_iteration_end :: "sched \<Rightarrow> fault + (bool \<times> sched)" where
  "sched_iteration_end s =
     rbind (if s_kind s = sched_random then Inr (s_iter s = iteration_count (s_params s), s)
            else tree_iteration_end_impl s)
       (\<lambda>(finish, s). Inr (finish, s\<lparr>s_thread := None\<rparr>))"


end
