(* ===== verification/Scheduler_Inv.thy ===== *)
theory Scheduler_Inv
  imports Scheduler
begin

text \<open>
  The invariant of the schedulers and its preservation. The heart of it is the accounting of
  \<open>block_count\<close>: a blocked thread is blocked at most once by an operation (parked, or a dynamic
  thread not created yet), and once for every thread that must be scheduled before it, in the
  yield debts of those threads. A thread that parks yields as well, so both may hold at once.
\<close>

section \<open>The invariant\<close>

definition waiters :: "sched \<Rightarrow> nat \<Rightarrow> nat set" where
  "waiters s i = {y. y < s_n s \<and> prio s y i \<noteq> 0}"

text \<open>Blocked by an operation: the count is one more than the debts.\<close>

definition parked :: "sched \<Rightarrow> nat \<Rightarrow> bool" where
  "parked s i \<longleftrightarrow> i < s_n s \<and> state_of s i = thread_blocked \<and> blocks s i = Suc (card (waiters s i))"

definition lists_ok :: "sched \<Rightarrow> bool" where
  "lists_ok s \<longleftrightarrow>
     distinct (timed_threads s) \<and> distinct (spurious_threads s) \<and> distinct (dynamic_threads s) \<and>
     set (dynamic_threads s) \<inter> (set (timed_threads s) \<union> set (spurious_threads s)) = {} \<and>
     (\<forall>i \<in> set (timed_threads s) \<union> set (spurious_threads s) \<union> set (dynamic_threads s). parked s i) \<and>
     (\<forall>i \<in> set (dynamic_threads s). waiters s i = {})"

text \<open>
  What \<open>block_count\<close> must be for a blocked thread; the flag says that the thread is about to be
  unblocked, so that its count is one too high.
\<close>

definition owed :: "bool \<Rightarrow> sched \<Rightarrow> nat \<Rightarrow> bool" where
  "owed x s i \<longleftrightarrow>
     (if x then blocks s i = Suc (card (waiters s i)) \<or> blocks s i = Suc (Suc (card (waiters s i)))
      else blocks s i = card (waiters s i) \<and> waiters s i \<noteq> {} \<or> blocks s i = Suc (card (waiters s i)))"

text \<open>
  The part of the invariant that does not mention the lists. With \<open>Some i\<close>, thread \<open>i\<close> is
  about to be unblocked.
\<close>

definition score :: "nat option \<Rightarrow> sched \<Rightarrow> bool" where
  "score e s \<longleftrightarrow>
     (\<forall>i < s_n s. st_index (s_threads s i) = i) \<and>
     distinct (running_threads s) \<and>
     set (running_threads s) = {i. i < s_n s \<and> state_of s i = thread_running} \<and>
     running_threads_count s = length (running_threads s) \<and>
     (\<forall>i < s_n s. state_of s i = thread_running \<longrightarrow> blocks s i = 0) \<and>
     (\<forall>i < s_n s. state_of s i = thread_blocked \<longrightarrow> owed (e = Some i) s i) \<and>
     (\<forall>i < s_n s. state_of s i \<noteq> thread_blocked \<longrightarrow> waiters s i = {}) \<and>
     (\<forall>y < s_n s. total_yield_priority (s_threads s y) = (\<Sum>i < s_n s. prio s y i)) \<and>
     (\<forall>y < s_n s. state_of s y = thread_finished_st \<longrightarrow> (\<forall>i < s_n s. prio s y i = 0)) \<and>
     (\<forall>y < s_n s. prio s y y = 0) \<and>
     finished_thread_count s = card {i. i < s_n s \<and> state_of s i = thread_finished_st} \<and>
     (s_kind s = sched_random \<longrightarrow> (\<forall>y < s_n s. \<forall>i < s_n s. prio s y i = 0))"

definition sched_inv :: "sched \<Rightarrow> bool" where
  "sched_inv s \<longleftrightarrow> score None s \<and> lists_ok s"

text \<open>
  What blocking and unblocking leave alone. The parked threads outside \<open>X\<close> are the same.
\<close>

definition sframe :: "nat set \<Rightarrow> sched \<Rightarrow> sched \<Rightarrow> bool" where
  "sframe X s s' \<longleftrightarrow>
     s_kind s' = s_kind s \<and> s_n s' = s_n s \<and> s_thread s' = s_thread s \<and> s_params s' = s_params s \<and>
     total_dynamic_threads s' = total_dynamic_threads s \<and> s_iter s' = s_iter s \<and>
     timed_threads s' = timed_threads s \<and> spurious_threads s' = spurious_threads s \<and>
     dynamic_threads s' = dynamic_threads s \<and> finished_thread_count s' = finished_thread_count s \<and>
     stree s' = stree s \<and> stree_depth s' = stree_depth s \<and> switches_remain s' = switches_remain s \<and>
     s_rand s' = s_rand s \<and>
     set (running_threads s) - X \<subseteq> set (running_threads s') \<and>
     (\<forall>j. state_of s' j = thread_finished_st \<longleftrightarrow> state_of s j = thread_finished_st) \<and>
     (\<forall>j. j \<notin> X \<longrightarrow> (parked s' j \<longleftrightarrow> parked s j)) \<and> (\<forall>j. j \<notin> X \<longrightarrow> waiters s' j \<subseteq> waiters s j)"

lemma sframe_refl [simp]: "sframe X s s"
  by (simp add: sframe_def)

lemma sframe_trans: "sframe X s s' \<Longrightarrow> sframe Y s' s'' \<Longrightarrow> sframe (X \<union> Y) s s''"
  unfolding sframe_def by (auto; blast)

lemma sframe_trans0: "sframe {} s s' \<Longrightarrow> sframe {} s' s'' \<Longrightarrow> sframe {} s s''"
  using sframe_trans by fastforce

lemma sframe_n: "sframe X s s' \<Longrightarrow> s_n s' = s_n s"
  by (simp add: sframe_def)

lemma sframe_waiters: "sframe X s s' \<Longrightarrow> j \<notin> X \<Longrightarrow> waiters s j = {} \<Longrightarrow> waiters s' j = {}"
  unfolding sframe_def by blast

lemma lists_ok_frame: "lists_ok s \<Longrightarrow> sframe {} s s' \<Longrightarrow> lists_ok s'"
  unfolding lists_ok_def sframe_def by (auto; blast)

lemma upd_thread_cong: "f (s_threads s i) = g (s_threads s i) \<Longrightarrow> upd_thread i f s = upd_thread i g s"
  by (simp add: upd_thread_def)

lemma upd_thread_simps [simp]:
  "s_threads (upd_thread i f s) j = (if j = i then f (s_threads s i) else s_threads s j)"
  "s_kind (upd_thread i f s) = s_kind s" "s_n (upd_thread i f s) = s_n s"
  "s_params (upd_thread i f s) = s_params s" "s_iter (upd_thread i f s) = s_iter s"
  "total_dynamic_threads (upd_thread i f s) = total_dynamic_threads s"
  "s_thread (upd_thread i f s) = s_thread s" "running_threads (upd_thread i f s) = running_threads s"
  "running_threads_count (upd_thread i f s) = running_threads_count s"
  "finished_thread_count (upd_thread i f s) = finished_thread_count s"
  "timed_threads (upd_thread i f s) = timed_threads s"
  "spurious_threads (upd_thread i f s) = spurious_threads s"
  "dynamic_threads (upd_thread i f s) = dynamic_threads s"
  "s_rand (upd_thread i f s) = s_rand s" "stree (upd_thread i f s) = stree s"
  "stree_depth (upd_thread i f s) = stree_depth s" "switches_remain (upd_thread i f s) = switches_remain s"
  by (simp_all add: upd_thread_def)

lemma finite_waiters [simp]: "finite (waiters s i)"
  by (simp add: waiters_def)

lemma scoreI:
  assumes "\<And>i. i < s_n s \<Longrightarrow> st_index (s_threads s i) = i"
    and "distinct (running_threads s)"
    and "set (running_threads s) = {i. i < s_n s \<and> state_of s i = thread_running}"
    and "running_threads_count s = length (running_threads s)"
    and "\<And>i. i < s_n s \<Longrightarrow> state_of s i = thread_running \<Longrightarrow> blocks s i = 0"
    and "\<And>i. i < s_n s \<Longrightarrow> state_of s i = thread_blocked \<Longrightarrow> owed (e = Some i) s i"
    and "\<And>i. i < s_n s \<Longrightarrow> state_of s i \<noteq> thread_blocked \<Longrightarrow> waiters s i = {}"
    and "\<And>y. y < s_n s \<Longrightarrow> total_yield_priority (s_threads s y) = (\<Sum>i < s_n s. prio s y i)"
    and "\<And>y i. y < s_n s \<Longrightarrow> state_of s y = thread_finished_st \<Longrightarrow> i < s_n s \<Longrightarrow> prio s y i = 0"
    and "\<And>y. y < s_n s \<Longrightarrow> prio s y y = 0"
    and "finished_thread_count s = card {i. i < s_n s \<and> state_of s i = thread_finished_st}"
    and "\<And>y i. s_kind s = sched_random \<Longrightarrow> y < s_n s \<Longrightarrow> i < s_n s \<Longrightarrow> prio s y i = 0"
  shows "score e s"
  unfolding score_def by (intro conjI allI impI; rule assms; assumption)

lemma scoreD:
  assumes "score e s"
  shows "i < s_n s \<Longrightarrow> st_index (s_threads s i) = i"
    and "distinct (running_threads s)"
    and "set (running_threads s) = {i. i < s_n s \<and> state_of s i = thread_running}"
    and "running_threads_count s = length (running_threads s)"
    and "i < s_n s \<Longrightarrow> state_of s i = thread_running \<Longrightarrow> blocks s i = 0"
    and "i < s_n s \<Longrightarrow> state_of s i = thread_blocked \<Longrightarrow> owed (e = Some i) s i"
    and "i < s_n s \<Longrightarrow> state_of s i \<noteq> thread_blocked \<Longrightarrow> waiters s i = {}"
    and "y < s_n s \<Longrightarrow> total_yield_priority (s_threads s y) = (\<Sum>i < s_n s. prio s y i)"
    and "y < s_n s \<Longrightarrow> state_of s y = thread_finished_st \<Longrightarrow> i < s_n s \<Longrightarrow> prio s y i = 0"
    and "y < s_n s \<Longrightarrow> prio s y y = 0"
    and "finished_thread_count s = card {i. i < s_n s \<and> state_of s i = thread_finished_st}"
    and "s_kind s = sched_random \<Longrightarrow> y < s_n s \<Longrightarrow> i < s_n s \<Longrightarrow> prio s y i = 0"
  using assms unfolding score_def by simp_all

section \<open>Unblocking\<close>

text \<open>The state after an unblock that brings the count to zero, and after one that does not.\<close>

lemma unblock_zero:
  assumes c: "score (Some i) s" and i: "i < s_n s" "state_of s i = thread_blocked" and w0: "waiters s i = {}" "blocks s i = 1"
    and s': "s' = upd_thread i (\<lambda>t. t\<lparr>st_state := thread_running\<rparr>)
      ((upd_thread i (\<lambda>t. t\<lparr>block_count := 0\<rparr>) s)\<lparr>running_threads := running_threads s @ [i],
         running_threads_count := running_threads_count s + 1\<rparr>)"
  shows "score None s'"
proof (rule scoreI)
  have w: "waiters s' j = waiters s j" for j by (auto simp: s' waiters_def)
  have n: "s_n s' = s_n s" "s_kind s' = s_kind s" by (simp_all add: s')
  have p: "prio s' y j = prio s y j" for y j by (simp add: s')
  show "\<And>j. j < s_n s' \<Longrightarrow> st_index (s_threads s' j) = j" using scoreD(1) [OF c] i by (simp add: s')
  show "distinct (running_threads s')" using scoreD(2,3) [OF c] i by (auto simp: s')
  show "set (running_threads s') = {i. i < s_n s' \<and> state_of s' i = thread_running}"
    using scoreD(3) [OF c] i by (auto simp: s')
  show "running_threads_count s' = length (running_threads s')" using scoreD(4) [OF c] by (simp add: s')
  show "\<And>j. j < s_n s' \<Longrightarrow> state_of s' j = thread_running \<Longrightarrow> blocks s' j = 0"
    using scoreD(5) [OF c] by (simp add: s' split: if_splits)
  show "owed (None = Some j) s' j" if "j < s_n s'" "state_of s' j = thread_blocked" for j
  proof -
    have "j \<noteq> i" using that(2) by (auto simp: s')
    then have "blocks s' j = blocks s j" "state_of s' j = state_of s j" by (simp_all add: s')
    then show ?thesis using scoreD(6) [OF c, of j] that \<open>j \<noteq> i\<close> by (simp add: owed_def w n)
  qed
  show "\<And>j. j < s_n s' \<Longrightarrow> state_of s' j \<noteq> thread_blocked \<Longrightarrow> waiters s' j = {}"
    using scoreD(7) [OF c] w0(1) by (simp add: w) (simp add: s' split: if_splits)
  show "\<And>y. y < s_n s' \<Longrightarrow> total_yield_priority (s_threads s' y) = (\<Sum>i < s_n s'. prio s' y i)"
    using scoreD(8) [OF c] by (simp add: p n) (simp add: s')
  show "\<And>y i. y < s_n s' \<Longrightarrow> state_of s' y = thread_finished_st \<Longrightarrow> i < s_n s' \<Longrightarrow> prio s' y i = 0"
    using scoreD(9) [OF c] by (simp add: p n) (simp add: s' split: if_splits)
  show "\<And>y. y < s_n s' \<Longrightarrow> prio s' y y = 0" using scoreD(10) [OF c] by (simp add: p n)
  have "{j. j < s_n s' \<and> state_of s' j = thread_finished_st} = {j. j < s_n s \<and> state_of s j = thread_finished_st}"
    using i by (auto simp: s')
  then show "finished_thread_count s' = card {i. i < s_n s' \<and> state_of s' i = thread_finished_st}"
    using scoreD(11) [OF c] by (simp add: s')
  show "\<And>y i. s_kind s' = sched_random \<Longrightarrow> y < s_n s' \<Longrightarrow> i < s_n s' \<Longrightarrow> prio s' y i = 0"
    using scoreD(12) [OF c] by (simp add: p n)
qed

lemma unblock_more:
  assumes c: "score (Some i) s" and i: "i < s_n s" "state_of s i = thread_blocked" and w0: "blocks s i \<noteq> 1"
    and s': "s' = upd_thread i (\<lambda>t. t\<lparr>block_count := blocks s i - 1\<rparr>) s"
  shows "score None s'"
proof (rule scoreI)
  have w: "waiters s' j = waiters s j" for j by (auto simp: s' waiters_def)
  have n: "s_n s' = s_n s" "s_kind s' = s_kind s" by (simp_all add: s')
  have p: "prio s' y j = prio s y j" and st: "state_of s' j = state_of s j" for y j by (simp_all add: s')
  show "\<And>j. j < s_n s' \<Longrightarrow> st_index (s_threads s' j) = j" using scoreD(1) [OF c] i by (simp add: s')
  show "distinct (running_threads s')" using scoreD(2) [OF c] by (simp add: s')
  show "set (running_threads s') = {i. i < s_n s' \<and> state_of s' i = thread_running}"
    using scoreD(3) [OF c] by (simp add: st n) (simp add: s')
  show "running_threads_count s' = length (running_threads s')" using scoreD(4) [OF c] by (simp add: s')
  show "\<And>j. j < s_n s' \<Longrightarrow> state_of s' j = thread_running \<Longrightarrow> blocks s' j = 0"
    using scoreD(5) [OF c] i(2) by (simp add: s' split: if_splits)
  show "owed (None = Some j) s' j" if "j < s_n s'" "state_of s' j = thread_blocked" for j
  proof -
    have "blocks s' j = (if j = i then blocks s i - 1 else blocks s j)" by (simp add: s')
    then show ?thesis using scoreD(6) [OF c, of j] that w0 by (auto simp: owed_def w st n)
  qed
  show "\<And>j. j < s_n s' \<Longrightarrow> state_of s' j \<noteq> thread_blocked \<Longrightarrow> waiters s' j = {}"
    using scoreD(7) [OF c] by (simp add: w st n)
  show "\<And>y. y < s_n s' \<Longrightarrow> total_yield_priority (s_threads s' y) = (\<Sum>i < s_n s'. prio s' y i)"
    using scoreD(8) [OF c] by (simp add: p n) (simp add: s')
  show "\<And>y i. y < s_n s' \<Longrightarrow> state_of s' y = thread_finished_st \<Longrightarrow> i < s_n s' \<Longrightarrow> prio s' y i = 0"
    using scoreD(9) [OF c] by (simp add: p n st)
  show "\<And>y. y < s_n s' \<Longrightarrow> prio s' y y = 0" using scoreD(10) [OF c] by (simp add: p n)
  show "finished_thread_count s' = card {i. i < s_n s' \<and> state_of s' i = thread_finished_st}"
    using scoreD(11) [OF c] by (simp add: st n) (simp add: s')
  show "\<And>y i. s_kind s' = sched_random \<Longrightarrow> y < s_n s' \<Longrightarrow> i < s_n s' \<Longrightarrow> prio s' y i = 0"
    using scoreD(12) [OF c] by (simp add: p n)
qed

lemma unblock_inv:
  assumes c: "score (Some i) s" and i: "i < s_n s" "state_of s i = thread_blocked"
  shows "\<exists>s'. unblock_thread i s = Inr (blocks s i = 1, s') \<and> score None s' \<and> sframe {i} s s' \<and>
    state_of s' i = (if blocks s i = 1 then thread_running else thread_blocked) \<and>
    (parked s' i \<longleftrightarrow> blocks s i = Suc (Suc (card (waiters s i)))) \<and>
    (\<forall>y j. prio s' y j = prio s y j) \<and> (\<forall>j. j \<noteq> i \<longrightarrow> s_threads s' j = s_threads s j) \<and>
    (\<forall>j. waiters s' j = waiters s j)"
proof -
  have o: "blocks s i = Suc (card (waiters s i)) \<or> blocks s i = Suc (Suc (card (waiters s i)))"
    using scoreD(6) [OF c i] by (simp add: owed_def)
  then have d: "dec32 (blocks s i) = blocks s i - 1" by (auto simp: dec32_def)
  show ?thesis
  proof (cases "blocks s i = 1")
    case True
    then have w0: "waiters s i = {}" using o by auto
    define s' where "s' = upd_thread i (\<lambda>t. t\<lparr>st_state := thread_running\<rparr>)
      ((upd_thread i (\<lambda>t. t\<lparr>block_count := 0\<rparr>) s)\<lparr>running_threads := running_threads s @ [i],
         running_threads_count := running_threads_count s + 1\<rparr>)"
    have w: "waiters s' j = waiters s j" for j by (auto simp: waiters_def s'_def)
    have "unblock_thread i s = Inr (True, s')"
      using i d True by (simp add: unblock_thread_def Let_def s'_def)
    moreover have "score None s'" using unblock_zero [OF c i w0 True s'_def] .
    moreover have "sframe {i} s s'" using i by (simp add: sframe_def parked_def w) (auto simp: s'_def)
    ultimately show ?thesis using True w0 w by (intro exI [of _ s']) (simp add: s'_def parked_def)
  next
    case False
    define s' where "s' = upd_thread i (\<lambda>t. t\<lparr>block_count := blocks s i - 1\<rparr>) s"
    have w: "waiters s' j = waiters s j" for j by (auto simp: waiters_def s'_def)
    have nz: "blocks s i - 1 \<noteq> 0" using False o by auto
    have "unblock_thread i s = Inr (False, s')"
      using i d nz by (simp add: unblock_thread_def Let_def s'_def)
    moreover have "score None s'" using unblock_more [OF c i False s'_def] .
    moreover have "sframe {i} s s'" using i by (simp add: sframe_def parked_def w) (auto simp: s'_def)
    moreover have "parked s' i \<longleftrightarrow> blocks s i = Suc (Suc (card (waiters s i)))"
      using i o by (auto simp: parked_def w) (simp_all add: s'_def)
    ultimately show ?thesis using False i w by (intro exI [of _ s']) (simp add: s'_def)
  qed
qed

text \<open>A parked thread may be unblocked.\<close>

lemma score_parked: "score None s \<Longrightarrow> parked s i \<Longrightarrow> score (Some i) s"
  unfolding score_def parked_def owed_def by simp

section \<open>Releasing the threads that wait for one\<close>

lemma drop_prio:
  assumes c: "score None s" and yi: "y < s_n s" "i < s_n s" "prio s y i \<noteq> 0"
    and s': "s' = upd_thread y (\<lambda>t. t\<lparr>total_yield_priority := sub32 (total_yield_priority t) (yield_prio t i),
                                 yield_prio := (yield_prio t)(i := 0)\<rparr>) s"
  shows "score (Some i) s' \<and> state_of s' i = thread_blocked \<and> waiters s' i = waiters s i - {y} \<and>
    (\<forall>j. j \<noteq> i \<longrightarrow> waiters s' j = waiters s j)"
proof -
  have yw: "y \<in> waiters s i" using yi by (simp add: waiters_def)
  have st: "state_of s' j = state_of s j" "blocks s' j = blocks s j" "st_index (s_threads s' j) = st_index (s_threads s j)" for j
    by (simp_all add: s')
  have n: "s_n s' = s_n s" "s_kind s' = s_kind s" "running_threads s' = running_threads s"
    "running_threads_count s' = running_threads_count s" "finished_thread_count s' = finished_thread_count s"
    by (simp_all add: s')
  have p: "prio s' z j = (if z = y \<and> j = i then 0 else prio s z j)" for z j by (simp add: s')
  have w: "waiters s' i = waiters s i - {y}" "\<And>j. j \<noteq> i \<Longrightarrow> waiters s' j = waiters s j"
    by (auto simp: waiters_def p n)
  have bl: "state_of s i = thread_blocked" using scoreD(7) [OF c yi(2)] yw by auto
  have "score (Some i) s'"
  proof (rule scoreI)
    show "\<And>j. j < s_n s' \<Longrightarrow> st_index (s_threads s' j) = j" using scoreD(1) [OF c] by (simp add: st n)
    show "distinct (running_threads s')" using scoreD(2) [OF c] by (simp add: n)
    show "set (running_threads s') = {i. i < s_n s' \<and> state_of s' i = thread_running}"
      using scoreD(3) [OF c] by (simp add: st n)
    show "running_threads_count s' = length (running_threads s')" using scoreD(4) [OF c] by (simp add: n)
    show "\<And>j. j < s_n s' \<Longrightarrow> state_of s' j = thread_running \<Longrightarrow> blocks s' j = 0"
      using scoreD(5) [OF c] by (simp add: st n)
    show "owed (Some i = Some j) s' j" if "j < s_n s'" "state_of s' j = thread_blocked" for j
    proof (cases "j = i")
      case True
      have "card (waiters s i) = Suc (card (waiters s i - {y}))"
        using card_Suc_Diff1 [OF finite_waiters yw] by simp
      then show ?thesis using scoreD(6) [OF c yi(2) bl] True by (auto simp: st w owed_def)
    next
      case False
      then show ?thesis using scoreD(6) [OF c, of j] that by (simp add: st w n owed_def)
    qed
    show "waiters s' j = {}" if "j < s_n s'" "state_of s' j \<noteq> thread_blocked" for j
      using scoreD(7) [OF c, of j] that w bl by (cases "j = i") (simp_all add: st n)
    show "total_yield_priority (s_threads s' z) = (\<Sum>j < s_n s'. prio s' z j)" if "z < s_n s'" for z
    proof (cases "z = y")
      case True
      have "(\<Sum>j < s_n s. prio s y j) = prio s y i + (\<Sum>j \<in> {..< s_n s} - {i}. prio s y j)"
        using yi(2) by (intro sum.remove) simp_all
      moreover have "(\<Sum>j < s_n s. prio s' y j) = (\<Sum>j \<in> {..< s_n s} - {i}. prio s y j)"
        using yi(2) sum.remove [of "{..< s_n s}" i "prio s' y"] by (simp add: p cong: sum.cong_simp)
      ultimately show ?thesis using scoreD(8) [OF c yi(1)] True by (simp add: n) (simp add: s' sub32_def)
    next
      case False
      then show ?thesis using scoreD(8) [OF c, of z] that by (simp add: n p) (simp add: s')
    qed
    show "\<And>y i. y < s_n s' \<Longrightarrow> state_of s' y = thread_finished_st \<Longrightarrow> i < s_n s' \<Longrightarrow> prio s' y i = 0"
      using scoreD(9) [OF c] by (simp add: p n st)
    show "\<And>y. y < s_n s' \<Longrightarrow> prio s' y y = 0" using scoreD(10) [OF c] by (simp add: p n)
    show "finished_thread_count s' = card {i. i < s_n s' \<and> state_of s' i = thread_finished_st}"
      using scoreD(11) [OF c] by (simp add: st n)
    show "\<And>y i. s_kind s' = sched_random \<Longrightarrow> y < s_n s' \<Longrightarrow> i < s_n s' \<Longrightarrow> prio s' y i = 0"
      using scoreD(12) [OF c] by (simp add: p n)
  qed
  with w bl st show ?thesis by simp
qed


lemma waiters_prio: "(\<forall>y j. prio s' y j = prio s y j) \<Longrightarrow> s_n s' = s_n s \<Longrightarrow> waiters s' i = waiters s i"
  by (simp add: waiters_def)

lemma release_inv:
  assumes c: "score None s" and yi: "y < s_n s" "i < s_n s"
  shows "\<exists>s'. release_yielder y i s = Inr s' \<and> score None s' \<and> sframe {} s s' \<and> prio s' y i = 0 \<and>
    (\<forall>z j. (z, j) \<noteq> (y, i) \<longrightarrow> prio s' z j = prio s z j) \<and> state_of s' y = state_of s y"
proof (cases "prio s y i = 0")
  case True
  then show ?thesis using c by (intro exI [of _ s]) (simp add: release_yielder_def)
next
  case False
  define s1 where "s1 = upd_thread y (\<lambda>t. t\<lparr>total_yield_priority := sub32 (total_yield_priority t) (yield_prio t i),
                                 yield_prio := (yield_prio t)(i := 0)\<rparr>) s"
  have d: "score (Some i) s1" "state_of s1 i = thread_blocked" "waiters s1 i = waiters s i - {y}"
    "\<And>j. j \<noteq> i \<Longrightarrow> waiters s1 j = waiters s j"
    using drop_prio [OF c yi False s1_def] by auto
  have p1: "prio s1 z j = (if z = y \<and> j = i then 0 else prio s z j)" and st1: "state_of s1 j = state_of s j"
    and b1: "blocks s1 j = blocks s j" and n1: "s_n s1 = s_n s" for z j
    by (simp_all add: s1_def)
  have y_i: "y \<noteq> i" using scoreD(10) [OF c yi(1)] False by auto
  have pk1: "j \<noteq> i \<Longrightarrow> parked s1 j \<longleftrightarrow> parked s j" for j
    using d(4) [of j] by (simp add: parked_def st1 b1 n1)
  have f1: "sframe {i} s s1"
    unfolding sframe_def using pk1 d(4) by (auto simp: p1 st1) (auto simp: s1_def)
  obtain s' where s': "unblock_thread i s1 = Inr (blocks s1 i = 1, s')" "score None s'" "sframe {i} s1 s'"
    "\<forall>y j. prio s' y j = prio s1 y j" "\<forall>j. j \<noteq> i \<longrightarrow> s_threads s' j = s_threads s1 j"
    "parked s' i \<longleftrightarrow> blocks s1 i = Suc (Suc (card (waiters s1 i)))" "\<forall>j. waiters s' j = waiters s1 j"
    using unblock_inv [OF d(1) _ d(2)] yi(2) n1 by metis
  have yw: "y \<in> waiters s i" using False yi by (simp add: waiters_def)
  have pi: "parked s' i \<longleftrightarrow> parked s i"
    using s'(6) d(2,3) card_Suc_Diff1 [OF finite_waiters yw] yi(2) by (simp add: parked_def b1 st1)
  have ni: "i \<notin> set (running_threads s)"
    using scoreD(3,7) [OF c] False yi by (auto simp: waiters_def)
  have "sframe {} s s'"
  proof -
    have "parked s' j \<longleftrightarrow> parked s j" "waiters s' j \<subseteq> waiters s j" for j
      using sframe_trans [OF f1 s'(3)] pi s'(7) d(3) by (cases "j = i"; auto simp: sframe_def)+
    then show ?thesis using sframe_trans [OF f1 s'(3)] ni unfolding sframe_def by auto
  qed
  then show ?thesis
    using s' False y_i by (intro exI [of _ s']) (auto simp: release_yielder_def s1_def [symmetric] p1 st1)
qed

lemma on_thread_block_inv:
  assumes c: "score None s" and y: "y < s_n s"
  shows "\<exists>s'. on_thread_block y s = Inr s' \<and> score None s' \<and> sframe {} s s' \<and> (\<forall>i < s_n s. prio s' y i = 0) \<and>
    (\<forall>z j. z \<noteq> y \<longrightarrow> prio s' z j = prio s z j) \<and> state_of s' y = state_of s y"
proof (cases "s_kind s \<noteq> sched_random \<and> total_yield_priority (s_threads s y) \<noteq> 0")
  case False
  then have "\<forall>i < s_n s. prio s y i = 0"
    using scoreD(8) [OF c y] scoreD(12) [OF c _ y] by auto
  then show ?thesis using c False by (intro exI [of _ s]) (auto simp: on_thread_block_def)
next
  case True
  let ?P = "\<lambda>rest s'. score None s' \<and> sframe {} s s' \<and> set rest \<subseteq> {..< s_n s} \<and>
    (\<forall>i < s_n s. i \<notin> set rest \<longrightarrow> prio s' y i = 0) \<and> (\<forall>z j. z \<noteq> y \<longrightarrow> prio s' z j = prio s z j) \<and>
    state_of s' y = state_of s y"
  have "\<exists>s'. rfold (release_yielder y) [0..< s_n s] s = Inr s' \<and> ?P [] s'"
  proof (rule rfold_total [where P = ?P])
    show "?P [0..< s_n s] s" using c by auto
    fix i rest s1
    assume P: "?P (i # rest) s1"
    then have n: "s_n s1 = s_n s" by (simp add: sframe_def)
    from P n y obtain s' where s': "release_yielder y i s1 = Inr s'" "score None s'" "sframe {} s1 s'" "prio s' y i = 0"
      "\<forall>z j. (z, j) \<noteq> (y, i) \<longrightarrow> prio s' z j = prio s1 z j" "state_of s' y = state_of s1 y"
      using release_inv [of s1 y i] by auto
    have "sframe {} s s'" using sframe_trans0 [of s s1 s'] P s'(3) by blast
    moreover have "\<forall>j < s_n s. j \<notin> set rest \<longrightarrow> prio s' y j = 0"
    proof (intro allI impI)
      fix j assume "j < s_n s" "j \<notin> set rest"
      then show "prio s' y j = 0" using P s'(4,5) by (cases "j = i") auto
    qed
    ultimately show "\<exists>s'. release_yielder y i s1 = Inr s' \<and> ?P rest s'"
      using P s' by (intro exI [of _ s']) auto
  qed
  with True show ?thesis by (auto simp: on_thread_block_def)
qed

lemma purge_inv:
  assumes c: "score None s"
  shows "\<exists>s'. purge_blocked_threads s = Inr s' \<and> score None s' \<and> sframe {} s s' \<and>
    (\<forall>y < s_n s. \<forall>i < s_n s. prio s' y i = 0)"
proof (cases "s_kind s = sched_random")
  case True
  then show ?thesis
    using c scoreD(12) [OF c] by (intro exI [of _ s]) (simp add: purge_blocked_threads_def)
next
  case False
  let ?P = "\<lambda>rest s'. score None s' \<and> sframe {} s s' \<and> set rest \<subseteq> {..< s_n s} \<and>
    (\<forall>y < s_n s. y \<notin> set rest \<longrightarrow> (\<forall>i < s_n s. prio s' y i = 0))"
  have "\<exists>s'. rfold on_thread_block [0..< s_n s] s = Inr s' \<and> ?P [] s'"
  proof (rule rfold_total [where P = ?P])
    show "?P [0..< s_n s] s" using c by auto
    fix y rest s1
    assume P: "?P (y # rest) s1"
    then have n: "s_n s1 = s_n s" by (simp add: sframe_def)
    from P n obtain s' where s': "on_thread_block y s1 = Inr s'" "score None s'" "sframe {} s1 s'"
      "\<forall>i < s_n s. prio s' y i = 0" "\<forall>z j. z \<noteq> y \<longrightarrow> prio s' z j = prio s1 z j"
      using on_thread_block_inv [of s1 y] by auto
    have "sframe {} s s'" using sframe_trans0 [of s s1 s'] P s'(3) by blast
    moreover have "\<forall>z < s_n s. z \<notin> set rest \<longrightarrow> (\<forall>i < s_n s. prio s' z i = 0)"
      using P s'(4,5) by (metis list.set_intros(2) set_ConsD)
    ultimately show "\<exists>s'. on_thread_block y s1 = Inr s' \<and> ?P rest s'"
      using P s' by (intro exI [of _ s']) auto
  qed
  with False show ?thesis by (auto simp: purge_blocked_threads_def)
qed


section \<open>Blocking\<close>

text \<open>
  A running thread enters the blocked state: with \<open>v = 0\<close> by an operation, with \<open>v > 0\<close> by a
  yield to thread \<open>y\<close>.
\<close>

definition enter_blocked :: "nat \<Rightarrow> nat \<Rightarrow> nat \<Rightarrow> sched \<Rightarrow> sched" where
  "enter_blocked t y v s =
     (let s = upd_thread y (\<lambda>x. x\<lparr>yield_prio := (yield_prio x)(t := v),
                                total_yield_priority := total_yield_priority x + v\<rparr>) s
      in upd_thread t (\<lambda>x. x\<lparr>st_state := thread_blocked\<rparr>)
           ((upd_thread t (\<lambda>x. x\<lparr>block_count := block_count x + 1\<rparr>) s)
             \<lparr>running_threads := remove1 t (running_threads s),
              running_threads_count := running_threads_count s - 1\<rparr>))"

lemma sum_upd:
  fixes n :: nat
  assumes "t < n" "f t = (0 :: nat)"
  shows "(\<Sum>j < n. (f(t := v)) j) = (\<Sum>j < n. f j) + v"
proof -
  have "(\<Sum>j < n. (f(t := v)) j) = v + (\<Sum>j \<in> {..<n} - {t}. f j)"
  proof -
    have "(\<Sum>j < n. (f(t := v)) j) = (f(t := v)) t + (\<Sum>j \<in> {..<n} - {t}. (f(t := v)) j)"
      using assms(1) by (intro sum.remove) simp_all
    moreover have "(\<Sum>j \<in> {..<n} - {t}. (f(t := v)) j) = (\<Sum>j \<in> {..<n} - {t}. f j)"
      by (rule sum.cong) auto
    ultimately show ?thesis by simp
  qed
  moreover have "(\<Sum>j < n. f j) = f t + (\<Sum>j \<in> {..<n} - {t}. f j)"
    using assms(1) by (intro sum.remove) simp_all
  ultimately show ?thesis using assms(2) by simp
qed

lemma enter_blocked_inv:
  assumes c: "score None s" and t: "t < s_n s" "state_of s t = thread_running" and y: "y < s_n s"
    and v: "v \<noteq> 0 \<Longrightarrow> y \<noteq> t \<and> state_of s y \<noteq> thread_finished_st \<and> s_kind s \<noteq> sched_random"
    and s': "s' = enter_blocked t y v s"
  shows "score None s' \<and> waiters s' t = (if v = 0 then {} else {y}) \<and> (\<forall>j. j \<noteq> t \<longrightarrow> waiters s' j = waiters s j)"
proof -
  have wt: "waiters s t = {}" using scoreD(7) [OF c t(1)] t(2) by simp
  then have z: "z < s_n s \<Longrightarrow> prio s z t = 0" for z by (simp add: waiters_def)
  have n: "s_n s' = s_n s" "s_kind s' = s_kind s" "finished_thread_count s' = finished_thread_count s"
    by (simp_all add: s' enter_blocked_def Let_def)
  have p: "prio s' x j = (if x = y \<and> j = t then v else prio s x j)" for x j
    by (simp add: s' enter_blocked_def Let_def)
  have st: "state_of s' j = (if j = t then thread_blocked else state_of s j)" for j
    by (simp add: s' enter_blocked_def Let_def)
  have bl: "blocks s' j = (if j = t then Suc (blocks s t) else blocks s j)" for j
    by (simp add: s' enter_blocked_def Let_def)
  have ix: "st_index (s_threads s' j) = st_index (s_threads s j)" for j
    by (simp add: s' enter_blocked_def Let_def)
  have rn: "running_threads s' = remove1 t (running_threads s)" "running_threads_count s' = running_threads_count s - 1"
    by (simp_all add: s' enter_blocked_def Let_def)
  have tp: "total_yield_priority (s_threads s' x) = total_yield_priority (s_threads s x) + (if x = y then v else 0)" for x
    by (simp add: s' enter_blocked_def Let_def)
  have w: "waiters s' t = (if v = 0 then {} else {y})" "\<And>j. j \<noteq> t \<Longrightarrow> waiters s' j = waiters s j"
    using z y by (auto simp: waiters_def p n)
  have tr: "t \<in> set (running_threads s)" using scoreD(3) [OF c] t by auto
  have "score None s'"
  proof (rule scoreI)
    show "\<And>j. j < s_n s' \<Longrightarrow> st_index (s_threads s' j) = j" using scoreD(1) [OF c] by (simp add: ix n)
    show "distinct (running_threads s')" using scoreD(2) [OF c] by (simp add: rn)
    show "set (running_threads s') = {i. i < s_n s' \<and> state_of s' i = thread_running}"
      using scoreD(2,3) [OF c] by (auto simp: rn n st)
    show "running_threads_count s' = length (running_threads s')"
      using scoreD(4) [OF c] tr by (simp add: rn length_remove1)
    show "\<And>j. j < s_n s' \<Longrightarrow> state_of s' j = thread_running \<Longrightarrow> blocks s' j = 0"
      using scoreD(5) [OF c] by (simp add: st n bl split: if_splits)
    show "owed (None = Some j) s' j" if "j < s_n s'" "state_of s' j = thread_blocked" for j
      using scoreD(5) [OF c t] scoreD(6) [OF c, of j] that w
      by (cases "j = t") (simp_all add: st n bl owed_def)
    show "waiters s' j = {}" if "j < s_n s'" "state_of s' j \<noteq> thread_blocked" for j
      using scoreD(7) [OF c, of j] that w by (simp add: st n split: if_splits)
    show "total_yield_priority (s_threads s' x) = (\<Sum>j < s_n s'. prio s' x j)" if "x < s_n s'" for x
    proof (cases "x = y")
      case True
      have "prio s' y = (yield_prio (s_threads s y))(t := v)" by (auto simp: p)
      then show ?thesis using scoreD(8) [OF c y] sum_upd [where f = "yield_prio (s_threads s y)", OF t(1) z [OF y], of v] True by (simp add: tp n)
    next
      case False
      then show ?thesis using scoreD(8) [OF c, of x] that by (simp add: tp p n)
    qed
    show "prio s' x i = 0" if "x < s_n s'" "state_of s' x = thread_finished_st" "i < s_n s'" for x i
      using scoreD(9) [OF c, of x i] that v by (auto simp: p st n split: if_splits)
    show "prio s' x x = 0" if "x < s_n s'" for x using scoreD(10) [OF c, of x] that v by (auto simp: p n)
    have "{j. j < s_n s' \<and> state_of s' j = thread_finished_st} = {j. j < s_n s \<and> state_of s j = thread_finished_st}"
      using t by (auto simp: st n)
    then show "finished_thread_count s' = card {i. i < s_n s' \<and> state_of s' i = thread_finished_st}"
      using scoreD(11) [OF c] by (simp add: n)
    show "prio s' x i = 0" if "s_kind s' = sched_random" "x < s_n s'" "i < s_n s'" for x i
      using scoreD(12) [OF c, of x i] that v by (auto simp: p n)
  qed
  with w show ?thesis by simp
qed

lemma enter_blocked_frame:
  assumes c: "score None s" and t: "t < s_n s" "state_of s t = thread_running" and y: "y < s_n s"
    and v: "v \<noteq> 0 \<Longrightarrow> y \<noteq> t \<and> state_of s y \<noteq> thread_finished_st \<and> s_kind s \<noteq> sched_random"
  shows "sframe {t} s (enter_blocked t y v s)"
proof -
  define s' where "s' = enter_blocked t y v s"
  have w: "j \<noteq> t \<Longrightarrow> waiters s' j = waiters s j" for j
    using enter_blocked_inv [OF c t y v s'_def] by blast
  have "sframe {t} s s'"
    unfolding sframe_def
  proof (intro conjI allI impI)
    show "set (running_threads s) - {t} \<subseteq> set (running_threads s')"
      using scoreD(2) [OF c] by (auto simp: s'_def enter_blocked_def Let_def)
    show "parked s' j \<longleftrightarrow> parked s j" if "j \<notin> {t}" for j
      using that w [of j] by (simp add: parked_def) (auto simp: s'_def enter_blocked_def Let_def)
    show "state_of s' j = thread_finished_st \<longleftrightarrow> state_of s j = thread_finished_st" for j
      using t by (simp add: s'_def enter_blocked_def Let_def)
    show "waiters s' j \<subseteq> waiters s j" if "j \<notin> {t}" for j using that w [of j] by simp
  qed (simp_all add: s'_def enter_blocked_def Let_def)
  then show ?thesis by (simp add: s'_def)
qed

lemma block_thread_running:
  assumes c: "score None s" and t: "t < s_n s" "state_of s t = thread_running"
  shows "block_thread t s = on_thread_block t (enter_blocked t t 0 s)"
proof -
  have z: "prio s t t = 0" by (rule scoreD(10) [OF c t(1)])
  have "enter_blocked t t 0 s = upd_thread t (\<lambda>x. x\<lparr>st_state := thread_blocked\<rparr>)
           ((upd_thread t (\<lambda>x. x\<lparr>block_count := block_count x + 1\<rparr>) s)
             \<lparr>running_threads := remove1 t (running_threads s),
              running_threads_count := running_threads_count s - 1\<rparr>)"
    using z by (simp add: enter_blocked_def Let_def upd_thread_def fun_upd_idem)
  moreover have "t \<in> set (take (running_threads_count s) (running_threads s))"
    using scoreD(3,4) [OF c] t by simp
  moreover have "upd_thread t (\<lambda>x. x\<lparr>block_count := inc32 (block_count x)\<rparr>) s = upd_thread t (\<lambda>x. x\<lparr>block_count := block_count x + 1\<rparr>) s"
    by (rule upd_thread_cong) (simp add: scoreD(5) [OF c t] inc32_def)
  ultimately show ?thesis
    using t scoreD(5) [OF c t] by (simp add: block_thread_def Let_def)
qed


text \<open>A running thread blocked by an operation ends parked, and nobody waits for it.\<close>

lemma block_inv:
  assumes c: "score None s" and t: "t < s_n s" "state_of s t = thread_running"
  shows "\<exists>s'. block_thread t s = Inr s' \<and> score None s' \<and> sframe {t} s s' \<and> parked s' t \<and>
    waiters s' t = {} \<and> (\<forall>i < s_n s. prio s' t i = 0)"
proof -
  let ?e = "enter_blocked t t 0 s"
  have e: "score None ?e" "waiters ?e t = {}"
    using enter_blocked_inv [OF c t t(1), of 0 ?e] by auto
  have f: "sframe {t} s ?e" using enter_blocked_frame [OF c t t(1), of 0] by simp
  have "blocks ?e t = 1" "state_of ?e t = thread_blocked" "s_n ?e = s_n s"
    using scoreD(5) [OF c t] by (simp_all add: enter_blocked_def Let_def)
  then have pk: "parked ?e t" using e t by (simp add: parked_def)
  obtain s' where s': "on_thread_block t ?e = Inr s'" "score None s'" "sframe {} ?e s'" "\<forall>i < s_n s. prio s' t i = 0"
    using on_thread_block_inv [OF e(1), of t] t f by (auto simp: sframe_n)
  have "sframe {t} s s'" using sframe_trans [OF f s'(3)] by simp
  moreover have "parked s' t" "waiters s' t = {}"
    using pk s'(3) sframe_waiters [OF s'(3) _ e(2)] by (simp_all add: sframe_def)
  ultimately show ?thesis using s' by (simp add: block_thread_running [OF c t])
qed

lemma is_deadlock_inv:
  assumes c: "score None s"
  shows "\<exists>d s'. is_deadlock s = Inr (d, s') \<and> score None s' \<and> sframe {} s s' \<and>
    (d \<longleftrightarrow> running_threads s' = [] \<and> timed_threads s' = []) \<and>
    (d \<longrightarrow> (\<forall>y < s_n s. \<forall>i < s_n s. prio s' y i = 0))"
proof (cases "running_threads_count s = 0 \<and> length (timed_threads s) = 0")
  case False
  then show ?thesis using c scoreD(4) [OF c] by (auto simp: is_deadlock_def)
next
  case True
  obtain s' where s': "purge_blocked_threads s = Inr s'" "score None s'" "sframe {} s s'"
    "\<forall>y < s_n s. \<forall>i < s_n s. prio s' y i = 0"
    using purge_inv [OF c] by blast
  then show ?thesis
    using True scoreD(4) [OF s'(2)]
    by (intro exI [of _ "running_threads s' = [] \<and> timed_threads s' = []"] exI [of _ s'])
      (simp add: is_deadlock_def)
qed

section \<open>The operations of the base class\<close>

lemma waiters_lists [simp]:
  "waiters (s\<lparr>timed_threads := x\<rparr>) i = waiters s i" "waiters (s\<lparr>spurious_threads := x\<rparr>) i = waiters s i"
  "waiters (s\<lparr>dynamic_threads := x\<rparr>) i = waiters s i" "waiters (s\<lparr>s_thread := y\<rparr>) i = waiters s i"
  by (simp_all add: waiters_def)

lemma score_lists [simp]:
  "score e (s\<lparr>timed_threads := x\<rparr>) = score e s" "score e (s\<lparr>spurious_threads := x\<rparr>) = score e s"
  "score e (s\<lparr>dynamic_threads := x\<rparr>) = score e s" "score e (s\<lparr>s_thread := y\<rparr>) = score e s"
  by (simp_all add: score_def owed_def)

lemma parked_lists [simp]:
  "parked (s\<lparr>timed_threads := x\<rparr>) i = parked s i" "parked (s\<lparr>spurious_threads := x\<rparr>) i = parked s i"
  "parked (s\<lparr>dynamic_threads := x\<rparr>) i = parked s i" "parked (s\<lparr>s_thread := y\<rparr>) i = parked s i"
  by (simp_all add: parked_def)

lemma running_not_parked: "state_of s t = thread_running \<Longrightarrow> \<not> parked s t"
  by (simp add: parked_def)

lemma parked_list_length:
  assumes "distinct xs" "\<forall>i \<in> set xs. i < (n :: nat)"
  shows "length xs \<le> n"
proof -
  have "set xs \<subseteq> {..<n}" using assms(2) by auto
  then have "card (set xs) \<le> n" by (metis card_lessThan card_mono finite_lessThan)
  then show ?thesis using distinct_card [OF assms(1)] by simp
qed

lemma park_inv:
  assumes inv: "sched_inv s" and t: "s_thread s = Some t" "t < s_n s" "state_of s t = thread_running"
  shows "\<exists>s'. sched_park_current is_timed spur s = Inr (running_threads s' \<noteq> [] \<or> timed_threads s' \<noteq> [], s') \<and>
    sched_inv s' \<and> parked s' t \<and> waiters s' t = {} \<and> t \<notin> set (dynamic_threads s') \<and>
    s_thread s' = Some t \<and> s_n s' = s_n s \<and> s_kind s' = s_kind s \<and> stree s' = stree s \<and> stree_depth s' = stree_depth s \<and>
    timed_threads s' = timed_threads s @ (if is_timed then [t] else []) \<and>
    (running_threads s' = [] \<and> timed_threads s' = [] \<longrightarrow> (\<forall>y < s_n s'. \<forall>i < s_n s'. prio s' y i = 0))"
proof -
  define s1 where "s1 = s\<lparr>timed_threads := timed_threads s @ (if is_timed then [t] else []),
    spurious_threads := spurious_threads s @ (if spur then [t] else [])\<rparr>"
  have c: "score None s" and l: "lists_ok s" using inv by (simp_all add: sched_inv_def)
  have nt: "t \<notin> set (timed_threads s) \<union> set (spurious_threads s) \<union> set (dynamic_threads s)"
    using l running_not_parked [OF t(3)] by (auto simp: lists_ok_def)
  have len: "length (timed_threads s @ [t]) \<le> s_n s" "length (spurious_threads s @ [t]) \<le> s_n s"
    using l nt t(2) by (auto intro!: parked_list_length simp: lists_ok_def parked_def simp del: length_append)
  have c1: "score None s1" using c by (simp add: s1_def)
  obtain s2 where s2: "block_thread t s1 = Inr s2" "score None s2" "sframe {t} s1 s2" "parked s2 t" "waiters s2 t = {}"
    using block_inv [OF c1, of t] t by (auto simp: s1_def)
  obtain d s3 where s3: "is_deadlock s2 = Inr (d, s3)" "score None s3" "sframe {} s2 s3"
    "d \<longleftrightarrow> running_threads s3 = [] \<and> timed_threads s3 = []"
    "d \<longrightarrow> (\<forall>y < s_n s2. \<forall>i < s_n s2. prio s3 y i = 0)"
    using is_deadlock_inv [OF s2(2)] by blast
  have f: "sframe {t} s1 s3" using sframe_trans [OF s2(3) s3(3)] by simp
  have pt: "parked s3 t" "waiters s3 t = {}"
    using s2(4) s3(3) sframe_waiters [OF s3(3) _ s2(5)] by (simp_all add: sframe_def)
  have pj: "parked s j \<Longrightarrow> parked s3 j" for j
    using f pt by (cases "j = t") (auto simp: sframe_def s1_def)
  have wj: "waiters s j = {} \<Longrightarrow> waiters s3 j = {}" for j
    using f pt by (cases "j = t") (auto simp: sframe_def s1_def)
  have "lists_ok s3"
    using l f nt pt pj wj unfolding lists_ok_def by (simp add: sframe_def s1_def)
  moreover have "sched_park_current is_timed spur s = Inr (\<not> d, s3)"
    using t len s2(1) s3(1)
    by (cases is_timed; cases spur) (simp_all add: sched_park_current_def Let_def s1_def)
  ultimately show ?thesis
    using s3 f pt t nt by (intro exI [of _ s3]) (auto simp: sched_inv_def sframe_def s1_def)
qed

text \<open>Once all yield debts are gone, a blocked thread is parked.\<close>

lemma all_parked:
  assumes c: "score None s" and z: "\<forall>y < s_n s. \<forall>i < s_n s. prio s y i = 0" and r: "running_threads s = []"
    and i: "i < s_n s" "state_of s i \<noteq> thread_finished_st"
  shows "parked s i"
proof -
  have "waiters s i = {}" using z i(1) by (auto simp: waiters_def)
  moreover have "state_of s i = thread_blocked"
    using i r scoreD(3) [OF c] by (cases "state_of s i") auto
  ultimately show ?thesis using scoreD(6) [OF c i(1)] i(1) by (simp add: parked_def owed_def)
qed

text \<open>Removing a thread from the two wait lists commutes with unblocking it.\<close>

lemma unblock_lists:
  "unblock_thread th (s\<lparr>spurious_threads := x, timed_threads := y\<rparr>) =
     map_sum id (\<lambda>(b, s). (b, s\<lparr>spurious_threads := x, timed_threads := y\<rparr>)) (unblock_thread th s)"
  by (simp add: unblock_thread_def Let_def upd_thread_def rl_verify_def)

lemma unpark_inv:
  assumes inv: "sched_inv s" and p: "parked s th" "th \<notin> set (dynamic_threads s)"
  shows "\<exists>s'. sched_unpark th s = Inr s' \<and> sched_inv s' \<and>
    state_of s' th = (if waiters s th = {} then thread_running else thread_blocked) \<and> \<not> parked s' th \<and>
    s_thread s' = s_thread s \<and> s_n s' = s_n s \<and> s_kind s' = s_kind s \<and> stree s' = stree s \<and>
    stree_depth s' = stree_depth s \<and> set (running_threads s) \<subseteq> set (running_threads s') \<and>
    switches_remain s' = switches_remain s \<and>
    (\<forall>j. j \<noteq> th \<longrightarrow> state_of s' j = state_of s j) \<and> dynamic_threads s' = dynamic_threads s \<and>
    (\<forall>j. j \<noteq> th \<longrightarrow> parked s' j = parked s j)"
proof -
  have c: "score None s" and l: "lists_ok s" using inv by (simp_all add: sched_inv_def)
  define s1 where "s1 = s\<lparr>spurious_threads := remove1 th (spurious_threads s),
                          timed_threads := remove1 th (timed_threads s)\<rparr>"
  have c1: "score (Some th) s1" using score_parked [OF c p(1)] by (simp add: s1_def)
  have th1: "th < s_n s1" "state_of s1 th = thread_blocked" "blocks s1 th = Suc (card (waiters s th))"
    "waiters s1 th = waiters s th"
    using p by (simp_all add: s1_def parked_def)
  obtain b s2 where s2: "unblock_thread th s1 = Inr (b, s2)" "score None s2" "sframe {th} s1 s2"
    "state_of s2 th = (if waiters s th = {} then thread_running else thread_blocked)"
    "\<forall>j. j \<noteq> th \<longrightarrow> s_threads s2 j = s_threads s1 j" "\<not> parked s2 th" "\<forall>j. waiters s2 j = waiters s1 j"
    using unblock_inv [OF c1 th1(1,2)] th1(3,4) by auto
  have e: "sched_unpark th s = Inr s2"
  proof -
    have sp: "spurious_threads x = spurious_threads s" "timed_threads x = timed_threads s"
      if "unblock_thread th s = Inr (b, x)" for b x
      using that by (auto simp: unblock_thread_def Let_def rl_verify_Inr split: if_splits)
    show ?thesis
      using s2(1) sp unfolding s1_def unblock_lists
      by (cases "unblock_thread th s") (auto simp: sched_unpark_def)
  qed
  have "lists_ok s2"
    using l s2(3,7) p unfolding lists_ok_def by (auto simp: sframe_def s1_def)
  moreover have "th \<notin> set (running_threads s)" using scoreD(3) [OF c] p by (auto simp: parked_def)
  ultimately show ?thesis
    using e s2 by (intro exI [of _ s2]) (auto simp: sched_inv_def sframe_def s1_def)
qed

lemma release_last_dynamic:
  assumes inv: "sched_inv s" and d: "dynamic_threads s \<noteq> []"
  shows "\<exists>s'. unblock_thread (last (dynamic_threads s)) (s\<lparr>dynamic_threads := butlast (dynamic_threads s)\<rparr>) =
      Inr (True, s') \<and> sched_inv s' \<and> dynamic_threads s' = butlast (dynamic_threads s) \<and>
    state_of s' (last (dynamic_threads s)) = thread_running \<and> s_n s' = s_n s \<and> s_kind s' = s_kind s \<and>
    s_thread s' = s_thread s \<and> stree s' = stree s \<and> stree_depth s' = stree_depth s \<and>
    set (running_threads s) \<subseteq> set (running_threads s') \<and> timed_threads s' = timed_threads s \<and>
    finished_thread_count s' = finished_thread_count s \<and> last (dynamic_threads s) < s_n s"
proof -
  let ?th = "last (dynamic_threads s)"
  have c: "score None s" and l: "lists_ok s" using inv by (simp_all add: sched_inv_def)
  have th: "?th \<in> set (dynamic_threads s)" using d by simp
  have p: "parked s ?th" using l th unfolding lists_ok_def by blast
  define s1 where "s1 = s\<lparr>dynamic_threads := butlast (dynamic_threads s)\<rparr>"
  have c1: "score (Some ?th) s1" using score_parked [OF c p] by (simp add: s1_def)
  have w0: "waiters s ?th = {}" using l th unfolding lists_ok_def by blast
  have th1: "?th < s_n s1" "state_of s1 ?th = thread_blocked" "blocks s1 ?th = 1"
    using p w0 by (simp_all add: s1_def parked_def)
  obtain s2 where s2: "unblock_thread ?th s1 = Inr (True, s2)" "score None s2" "sframe {?th} s1 s2"
    "state_of s2 ?th = thread_running" "\<forall>j. waiters s2 j = waiters s1 j"
    using unblock_inv [OF c1 th1(1,2)] th1(3) by auto
  have db: "distinct (butlast (dynamic_threads s))" "?th \<notin> set (butlast (dynamic_threads s))"
    "set (butlast (dynamic_threads s)) \<subseteq> set (dynamic_threads s)"
    using l d append_butlast_last_id [OF d] distinct_append [of "butlast (dynamic_threads s)" "[?th]"]
    by (auto simp: lists_ok_def distinct_butlast dest: in_set_butlastD)
  have ne: "i \<noteq> ?th" "parked s i"
    if "i \<in> set (timed_threads s) \<union> set (spurious_threads s) \<union> set (butlast (dynamic_threads s))" for i
    using that l th db by (auto simp: lists_ok_def)
  have pj: "parked s2 i"
    if "i \<in> set (timed_threads s) \<union> set (spurious_threads s) \<union> set (butlast (dynamic_threads s))" for i
    using ne [OF that] s2(3) by (simp add: sframe_def s1_def)
  have "lists_ok s2"
    unfolding lists_ok_def
  proof (intro conjI ballI)
    show "set (dynamic_threads s2) \<inter> (set (timed_threads s2) \<union> set (spurious_threads s2)) = {}"
      using l s2(3) db(3) by (auto simp: lists_ok_def sframe_def s1_def)
    show "parked s2 i" if "i \<in> set (timed_threads s2) \<union> set (spurious_threads s2) \<union> set (dynamic_threads s2)" for i
      using that s2(3) by (intro pj) (simp add: sframe_def s1_def)
    show "waiters s2 i = {}" if "i \<in> set (dynamic_threads s2)" for i
      using that s2(3,5) l db(3) by (auto simp: lists_ok_def sframe_def s1_def)
  qed (use l s2(3) db in \<open>simp_all add: lists_ok_def sframe_def s1_def\<close>)
  moreover have "?th \<notin> set (running_threads s)" using scoreD(3) [OF c] p by (auto simp: parked_def)
  ultimately show ?thesis
    using s2 p by (intro exI [of _ s2]) (auto simp: sched_inv_def sframe_def s1_def parked_def)
qed

lemma create_inv:
  assumes "sched_inv s" "dynamic_threads s \<noteq> []"
  shows "\<exists>s'. sched_create_thread s = Inr (last (dynamic_threads s), s') \<and> sched_inv s' \<and>
    state_of s' (last (dynamic_threads s)) = thread_running \<and> dynamic_threads s' = butlast (dynamic_threads s) \<and>
    s_thread s' = s_thread s \<and> s_n s' = s_n s \<and> set (running_threads s) \<subseteq> set (running_threads s')"
  using release_last_dynamic [OF assms] assms(2) by (auto simp: sched_create_thread_def Let_def)

lemma release_dynamic_inv:
  assumes inv: "sched_inv s"
  shows "\<exists>s'. release_dynamic s = Inr s' \<and> sched_inv s' \<and> dynamic_threads s' = [] \<and> s_n s' = s_n s \<and>
    (dynamic_threads s \<noteq> [] \<longrightarrow> running_threads s' \<noteq> []) \<and> stree s' = stree s \<and> stree_depth s' = stree_depth s \<and>
    finished_thread_count s' = finished_thread_count s \<and> s_kind s' = s_kind s"
proof -
  let ?P = "\<lambda>rest s'. sched_inv s' \<and> rev (dynamic_threads s') = rest \<and> s_n s' = s_n s \<and>
    (rest \<noteq> rev (dynamic_threads s) \<longrightarrow> running_threads s' \<noteq> []) \<and> stree s' = stree s \<and> stree_depth s' = stree_depth s \<and>
    finished_thread_count s' = finished_thread_count s \<and> s_kind s' = s_kind s"
  have "\<exists>s'. release_dynamic s = Inr s' \<and> ?P [] s'"
    unfolding release_dynamic_def
  proof (rule rfold_total [where P = ?P])
    show "?P (rev (dynamic_threads s)) s" using inv by simp
    fix th rest s1
    assume P: "?P (th # rest) s1"
    then have d: "dynamic_threads s1 \<noteq> []" "last (dynamic_threads s1) = th" "rev (butlast (dynamic_threads s1)) = rest"
      by (auto simp: rev_eq_Cons_iff)
    obtain s2 where s2: "unblock_thread th (s1\<lparr>dynamic_threads := butlast (dynamic_threads s1)\<rparr>) = Inr (True, s2)"
      "sched_inv s2" "dynamic_threads s2 = butlast (dynamic_threads s1)" "state_of s2 th = thread_running"
      "s_n s2 = s_n s1" "stree s2 = stree s1" "stree_depth s2 = stree_depth s1" "th < s_n s1"
      "finished_thread_count s2 = finished_thread_count s1" "s_kind s2 = s_kind s1"
      using release_last_dynamic [of s1] P d by auto
    have "th \<in> set (running_threads s2)"
      using s2 scoreD(3) [of None s2] by (auto simp: sched_inv_def)
    then have "running_threads s2 \<noteq> []" by auto
    with s2 P d show "\<exists>s2. rbind (unblock_thread th (s1\<lparr>dynamic_threads := butlast (dynamic_threads s1)\<rparr>)) (\<lambda>(_, s). Inr s) =
        Inr s2 \<and> ?P rest s2"
      by (intro exI [of _ s2]) simp
  qed
  then show ?thesis by auto
qed

text \<open>A parked thread nobody owes anything may be marked finished.\<close>

lemma mark_finished:
  assumes c: "score None s" and p: "parked s t" "waiters s t = {}" and z: "\<forall>i < s_n s. prio s t i = 0"
    and s': "s' = upd_thread t (\<lambda>x. x\<lparr>st_state := thread_finished_st\<rparr>) s\<lparr>finished_thread_count := finished_thread_count s + 1\<rparr>"
  shows "score None s'"
proof -
  have t: "t < s_n s" "state_of s t = thread_blocked" "waiters s t = {}" using p by (simp_all add: parked_def)
  have w: "waiters s' j = waiters s j" for j by (auto simp: waiters_def s')
  have p': "prio s' y j = prio s y j" and bl: "blocks s' j = blocks s j" for y j by (simp_all add: s')
  have st: "state_of s' j = (if j = t then thread_finished_st else state_of s j)" for j by (simp add: s')
  have n: "s_n s' = s_n s" "s_kind s' = s_kind s" by (simp_all add: s')
  show ?thesis
  proof (rule scoreI)
    show "\<And>j. j < s_n s' \<Longrightarrow> st_index (s_threads s' j) = j" using scoreD(1) [OF c] by (simp add: s')
    show "distinct (running_threads s')" "running_threads_count s' = length (running_threads s')"
      using scoreD(2,4) [OF c] by (simp_all add: s')
    show "set (running_threads s') = {i. i < s_n s' \<and> state_of s' i = thread_running}"
      using scoreD(3) [OF c] t by (simp add: st n) (auto simp: s')
    show "\<And>j. j < s_n s' \<Longrightarrow> state_of s' j = thread_running \<Longrightarrow> blocks s' j = 0"
      using scoreD(5) [OF c] by (simp add: st n bl split: if_splits)
    show "\<And>j. j < s_n s' \<Longrightarrow> state_of s' j = thread_blocked \<Longrightarrow> owed (None = Some j) s' j"
      using scoreD(6) [OF c] by (simp add: st n bl owed_def w split: if_splits)
    show "\<And>j. j < s_n s' \<Longrightarrow> state_of s' j \<noteq> thread_blocked \<Longrightarrow> waiters s' j = {}"
      using scoreD(7) [OF c] t(3) by (simp add: st n w split: if_splits)
    show "\<And>y. y < s_n s' \<Longrightarrow> total_yield_priority (s_threads s' y) = (\<Sum>i < s_n s'. prio s' y i)"
      using scoreD(8) [OF c] by (simp add: p' n) (simp add: s')
    show "\<And>y i. y < s_n s' \<Longrightarrow> state_of s' y = thread_finished_st \<Longrightarrow> i < s_n s' \<Longrightarrow> prio s' y i = 0"
      using scoreD(9) [OF c] z by (simp add: p' n st split: if_splits)
    show "\<And>y. y < s_n s' \<Longrightarrow> prio s' y y = 0" using scoreD(10) [OF c] by (simp add: p' n)
    have "{j. j < s_n s' \<and> state_of s' j = thread_finished_st} = insert t {j. j < s_n s \<and> state_of s j = thread_finished_st}"
      using t by (auto simp: st n)
    then show "finished_thread_count s' = card {i. i < s_n s' \<and> state_of s' i = thread_finished_st}"
      using scoreD(11) [OF c] t by (simp add: s')
    show "\<And>y i. s_kind s' = sched_random \<Longrightarrow> y < s_n s' \<Longrightarrow> i < s_n s' \<Longrightarrow> prio s' y i = 0"
      using scoreD(12) [OF c] by (simp add: p' n)
  qed
qed

lemma all_finished_iff:
  assumes "score None s"
  shows "finished_thread_count s = s_n s \<longleftrightarrow> (\<forall>i < s_n s. state_of s i = thread_finished_st)"
proof -
  let ?F = "{i. i < s_n s \<and> state_of s i = thread_finished_st}"
  have sub: "?F \<subseteq> {..< s_n s}" by auto
  have "card ?F = s_n s \<longleftrightarrow> ?F = {..< s_n s}"
  proof
    assume "card ?F = s_n s"
    then have "card ?F = card {..< s_n s}" by simp
    then show "?F = {..< s_n s}" by (rule card_subset_eq [OF finite_lessThan sub])
  next
    assume e: "?F = {..< s_n s}"
    show "card ?F = s_n s" unfolding e by simp
  qed
  also have "\<dots> \<longleftrightarrow> (\<forall>i < s_n s. state_of s i = thread_finished_st)" by auto
  finally show ?thesis using scoreD(11) [OF assms] by simp
qed

definition finish_ok :: "thread_finish_result \<Rightarrow> sched \<Rightarrow> bool" where
  "finish_ok r s \<longleftrightarrow>
     (r = finish_last \<longleftrightarrow> (\<forall>i < s_n s. state_of s i = thread_finished_st)) \<and>
     (r = finish_normal \<longrightarrow> running_threads s \<noteq> [] \<or> timed_threads s \<noteq> []) \<and>
     (r = finish_deadlock \<longrightarrow> running_threads s = [] \<and> timed_threads s = [] \<and> dynamic_threads s = [] \<and>
        (\<forall>i < s_n s. state_of s i \<noteq> thread_finished_st \<longrightarrow> parked s i))"

lemma finish_retry_inv:
  assumes "sched_inv s" "2 \<le> k \<or> 1 \<le> k \<and> (dynamic_threads s = [] \<or> running_threads s \<noteq> [])"
  shows "\<exists>r s'. finish_retry k s = Inr (r, s') \<and> sched_inv s' \<and> finish_ok r s' \<and> s_n s' = s_n s \<and>
    s_kind s' = s_kind s \<and> stree s' = stree s \<and> stree_depth s' = stree_depth s"
  using assms
proof (induction k arbitrary: s)
  case (Suc k)
  have c: "score None s" and l: "lists_ok s" using Suc.prems(1) by (simp_all add: sched_inv_def)
  show ?case
  proof (cases "finished_thread_count s = s_n s")
    case True
    then show ?thesis using Suc.prems(1) all_finished_iff [OF c] by (simp add: finish_ok_def)
  next
    case notlast: False
    obtain d s1 where s1: "is_deadlock s = Inr (d, s1)" "score None s1" "sframe {} s s1"
      "d \<longleftrightarrow> running_threads s1 = [] \<and> timed_threads s1 = []"
      "d \<longrightarrow> (\<forall>y < s_n s. \<forall>i < s_n s. prio s1 y i = 0)"
      using is_deadlock_inv [OF c] by blast
    have inv1: "sched_inv s1" using s1 lists_ok_frame [OF l s1(3)] by (simp add: sched_inv_def)
    have nl: "\<not> (\<forall>i < s_n s1. state_of s1 i = thread_finished_st)"
      using notlast s1(3) all_finished_iff [OF s1(2)] by (simp add: sframe_def)
    have fr: "s_n s1 = s_n s" "s_kind s1 = s_kind s" "stree s1 = stree s" "stree_depth s1 = stree_depth s"
      "dynamic_threads s1 = dynamic_threads s" "finished_thread_count s1 = finished_thread_count s"
      "set (running_threads s) \<subseteq> set (running_threads s1)"
      using s1(3) by (simp_all add: sframe_def)
    show ?thesis
    proof (cases "d \<and> dynamic_threads s1 \<noteq> []")
      case False
      then show ?thesis
        using notlast s1 inv1 nl fr all_parked [OF s1(2)] by (cases d) (auto simp: finish_ok_def)
    next
      case True
      obtain s2 where s2: "release_dynamic s1 = Inr s2" "sched_inv s2" "dynamic_threads s2 = []"
        "s_n s2 = s_n s" "s_kind s2 = s_kind s" "stree s2 = stree s" "stree_depth s2 = stree_depth s"
        using release_dynamic_inv [OF inv1] fr by auto
      have "running_threads s = []" using True s1(4) fr(7) by auto
      then have k1: "1 \<le> k" using Suc.prems(2) True fr(5) by auto
      obtain r s' where "finish_retry k s2 = Inr (r, s')" "sched_inv s'" "finish_ok r s'" "s_n s' = s_n s2"
        "s_kind s' = s_kind s2" "stree s' = stree s2" "stree_depth s' = stree_depth s2"
        using Suc.IH [OF s2(2)] k1 s2(3) by auto
      then show ?thesis using notlast s1(1) s2 True by auto
    qed
  qed
qed simp

lemma finished_inv:
  assumes inv: "sched_inv s" and t: "s_thread s = Some t" "t < s_n s" "state_of s t = thread_running"
  shows "\<exists>r s'. thread_finished s = Inr (r, s') \<and> sched_inv s' \<and> finish_ok r s' \<and> s_n s' = s_n s \<and>
    s_kind s' = s_kind s \<and> stree s' = stree s \<and> stree_depth s' = stree_depth s"
proof -
  have c: "score None s" and l: "lists_ok s" using inv by (simp_all add: sched_inv_def)
  obtain s1 where s1: "block_thread t s = Inr s1" "score None s1" "sframe {t} s s1" "parked s1 t"
    "waiters s1 t = {}" "\<forall>i < s_n s. prio s1 t i = 0"
    using block_inv [OF c t(2,3)] by blast
  define s2 where "s2 = upd_thread t (\<lambda>x. x\<lparr>st_state := thread_finished_st\<rparr>) s1
    \<lparr>finished_thread_count := finished_thread_count s1 + 1\<rparr>"
  have c2: "score None s2" using mark_finished [OF s1(2,4,5) _ s2_def] s1(3,6) by (simp add: sframe_n)
  have w: "waiters s2 j = waiters s1 j" for j by (auto simp: waiters_def s2_def)
  have nt: "t \<notin> set (timed_threads s) \<union> set (spurious_threads s) \<union> set (dynamic_threads s)"
    using l running_not_parked [OF t(3)] by (auto simp: lists_ok_def)
  have "j \<noteq> t \<Longrightarrow> parked s2 j \<longleftrightarrow> parked s1 j" for j
    by (simp add: parked_def w) (simp add: s2_def)
  then have pj: "j \<noteq> t \<Longrightarrow> parked s j \<Longrightarrow> parked s2 j" for j
    using s1(3) by (simp add: sframe_def)
  have ls: "timed_threads s2 = timed_threads s" "spurious_threads s2 = spurious_threads s"
    "dynamic_threads s2 = dynamic_threads s"
    using s1(3) by (simp_all add: sframe_def s2_def)
  have "lists_ok s2"
  proof -
    have "parked s2 i" if "i \<in> set (timed_threads s) \<union> set (spurious_threads s) \<union> set (dynamic_threads s)" for i
      using that nt l by (intro pj) (auto simp: lists_ok_def)
    moreover have "waiters s2 i = {}" if "i \<in> set (dynamic_threads s)" for i
      using that nt l s1(3) w [of i] by (auto simp: lists_ok_def sframe_def)
    ultimately show ?thesis using l by (simp add: lists_ok_def ls)
  qed
  then have "sched_inv s2" using c2 by (simp add: sched_inv_def)
  then obtain r s3 where "finish_retry 2 s2 = Inr (r, s3)" "sched_inv s3" "finish_ok r s3" "s_n s3 = s_n s2"
    "s_kind s3 = s_kind s2" "stree s3 = stree s2" "stree_depth s3 = stree_depth s2"
    using finish_retry_inv [of s2 2] by auto
  moreover have "thread_finished s = finish_retry 2 s2"
    using t s1(1) by (simp add: thread_finished_def s2_def)
  moreover have "s_n s2 = s_n s" "s_kind s2 = s_kind s" "stree s2 = stree s" "stree_depth s2 = stree_depth s"
    using s1(3) by (simp_all add: sframe_def s2_def)
  ultimately show ?thesis by metis
qed

end
