(* ===== verification/Scheduler_Sched.thy ===== *)
theory Scheduler_Sched
  imports Scheduler_Inv
begin

text \<open>
  Scheduling keeps the invariant and picks a thread that can run: for the random scheduler
  always, for the tree searching ones unless the replayed part of the search tree belongs to a
  different program (the documented assertion against non-deterministic tests).
\<close>

section \<open>Outcomes that may fault\<close>

definition tot :: "bool \<Rightarrow> ('a \<Rightarrow> bool) \<Rightarrow> fault + 'a \<Rightarrow> bool" where
  "tot b Q m \<longleftrightarrow> (\<exists>x. m = Inr x \<and> Q x) \<or> (\<not> b \<and> m = Inl Verify_failed)"

lemma tot_Inr [simp]: "tot b Q (Inr x) = Q x"
  by (simp add: tot_def)

lemma tot_bind:
  assumes "tot b Q m" "\<And>x. Q x \<Longrightarrow> tot b R (f x)"
  shows "tot b R (rbind m f)"
proof (cases m)
  case (Inl e)
  then show ?thesis using assms(1) by (simp add: tot_def)
next
  case (Inr x)
  then have "Q x" using assms(1) by simp
  then show ?thesis using assms(2) Inr by simp
qed

lemma tot_exists: "\<exists>x. m = Inr x \<and> Q x \<Longrightarrow> tot b Q m"
  by (auto simp: tot_def)

lemma tot_mono: "tot b Q m \<Longrightarrow> (\<And>x. Q x \<Longrightarrow> R x) \<Longrightarrow> tot b R m"
  by (auto simp: tot_def)

section \<open>Choices\<close>

definition replay_free :: "sched \<Rightarrow> bool" where
  "replay_free s \<longleftrightarrow> s_kind s = sched_random \<or> stree_depth s = length (stree s)"

text \<open>The fields a choice may change.\<close>

definition schoice :: "sched \<Rightarrow> sched \<Rightarrow> bool" where
  "schoice s s' \<longleftrightarrow> (\<exists>g a d. s' = s\<lparr>s_rand := g, stree := a, stree_depth := d\<rparr>)"

lemma schoice_refl [simp]: "schoice s s"
  unfolding schoice_def by (intro exI [of _ "s_rand s"] exI [of _ "stree s"] exI [of _ "stree_depth s"]) simp

lemma schoice_fields:
  assumes "schoice s s'"
  shows "s_kind s' = s_kind s" "s_n s' = s_n s" "s_threads s' = s_threads s" "s_thread s' = s_thread s"
    "running_threads s' = running_threads s" "running_threads_count s' = running_threads_count s"
    "timed_threads s' = timed_threads s" "spurious_threads s' = spurious_threads s"
    "dynamic_threads s' = dynamic_threads s" "switches_remain s' = switches_remain s"
    "finished_thread_count s' = finished_thread_count s" "s_params s' = s_params s"
  using assms by (auto simp: schoice_def)

lemma schoice_inv: "schoice s s' \<Longrightarrow> score e s' = score e s \<and> lists_ok s' = lists_ok s"
  unfolding schoice_def
  by (elim exE, hypsubst) (simp add: score_def owed_def waiters_def lists_ok_def parked_def)

lemma schoice_sched_inv: "schoice s s' \<Longrightarrow> sched_inv s' = sched_inv s"
  by (simp add: sched_inv_def schoice_inv)

lemma random_pick_choice:
  assumes "cnt \<noteq> 0"
  shows "\<exists>i s'. random_pick s cnt = (i, s') \<and> i < cnt \<and> schoice s s' \<and> (replay_free s' = replay_free s)"
proof -
  obtain r g where rg: "rg_rand (s_rand s) = (r, g)" by (cases "rg_rand (s_rand s)")
  have "schoice s (s\<lparr>s_rand := g\<rparr>)"
    unfolding schoice_def by (intro exI [of _ g] exI [of _ "stree s"] exI [of _ "stree_depth s"]) simp
  then show ?thesis using rg assms by (simp add: random_pick_def replay_free_def)
qed

lemma sched_rand_tot:
  assumes "limit \<noteq> 0" "b \<longrightarrow> replay_free s"
  shows "tot b (\<lambda>(r, s'). r < limit \<and> schoice s s' \<and> (b \<longrightarrow> replay_free s')) (sched_rand s limit t)"
proof (cases "s_kind s = sched_random")
  case True
  obtain r g where rg: "rg_rand (s_rand s) = (r, g)" by (cases "rg_rand (s_rand s)")
  have "schoice s (s\<lparr>s_rand := g\<rparr>)"
    unfolding schoice_def by (intro exI [of _ g] exI [of _ "stree s"] exI [of _ "stree_depth s"]) simp
  then show ?thesis using True rg assms by (simp add: sched_rand_def rand_impl_def replay_free_def)
next
  case tree: False
  have ch: "schoice s (s\<lparr>stree := a, stree_depth := d\<rparr>)" for a d
    unfolding schoice_def by (intro exI [of _ "s_rand s"] exI [of _ a] exI [of _ d]) simp
  have ch': "schoice s (s\<lparr>stree_depth := d\<rparr>)" for d
    using ch [where a = "stree s" and d = d] by simp
  show ?thesis
  proof (cases "stree_depth s = length (stree s)")
    case True
    then show ?thesis using tree assms(1) ch by (simp add: sched_rand_def rand_impl_def replay_free_def)
  next
    case False
    with tree have nb: "\<not> b" using assms(2) by (simp add: replay_free_def)
    show ?thesis
      using tree assms False nb ch' [of "stree_depth s + 1"]
      by (simp add: sched_rand_def rand_impl_def Let_def rl_verify_def tot_def)
  qed
qed

section \<open>The random scheduler\<close>

text \<open>What a scheduling step promises about the thread it picks.\<close>

definition picked :: "bool \<Rightarrow> sched \<Rightarrow> nat \<Rightarrow> sched \<Rightarrow> bool" where
  "picked b s th s' \<longleftrightarrow>
     sched_inv s' \<and> th < s_n s' \<and> state_of s' th = thread_running \<and> s_n s' = s_n s \<and> s_kind s' = s_kind s \<and>
     s_thread s' = s_thread s \<and> (b \<longrightarrow> replay_free s')"

lemma wake_picked_inv:
  assumes inv: "sched_inv s" and th: "th \<in> set (timed_threads s) \<union> set (spurious_threads s)" "blocks s th = 1"
    and b: "b \<longrightarrow> replay_free s"
  shows "\<exists>s'. wake_picked th reason s = Inr (th, reason, s') \<and> picked b s th s' \<and>
    (\<forall>j. j \<noteq> th \<longrightarrow> state_of s' j = state_of s j) \<and> switches_remain s' = switches_remain s \<and>
    running_threads s' \<noteq> []"
proof -
  have p: "parked s th" "th \<notin> set (dynamic_threads s)"
    using inv th(1) by (auto simp: sched_inv_def lists_ok_def)
  then have w0: "waiters s th = {}" using th(2) by (simp add: parked_def)
  obtain s' where s': "sched_unpark th s = Inr s'" "sched_inv s'" "state_of s' th = thread_running"
    "s_thread s' = s_thread s" "s_n s' = s_n s" "s_kind s' = s_kind s" "stree s' = stree s"
    "stree_depth s' = stree_depth s" "\<forall>j. j \<noteq> th \<longrightarrow> state_of s' j = state_of s j"
    "switches_remain s' = switches_remain s"
    using unpark_inv [OF inv p] w0 by auto
  have "th \<in> set (running_threads s')"
    using s' p scoreD(3) [of None s'] by (auto simp: sched_inv_def parked_def)
  then have "running_threads s' \<noteq> []" by auto
  with s' p b show ?thesis
    by (auto simp: wake_picked_def picked_def parked_def replay_free_def)
qed

text \<open>Under the random scheduler nobody owes anything, so a parked thread is blocked once.\<close>

lemma random_parked_once:
  assumes "sched_inv s" "s_kind s = sched_random" "i \<in> set (timed_threads s) \<union> set (spurious_threads s)"
  shows "blocks s i = 1"
proof -
  have p: "parked s i" and c: "score None s" using assms(1,3) by (auto simp: sched_inv_def lists_ok_def)
  have "waiters s i = {}" using scoreD(12) [OF c assms(2)] p by (auto simp: waiters_def parked_def)
  then show ?thesis using p by (simp add: parked_def)
qed

lemma nth_running:
  assumes "sched_inv s" "i < length (running_threads s)"
  shows "running_threads s ! i < s_n s \<and> state_of s (running_threads s ! i) = thread_running"
proof -
  have "running_threads s ! i \<in> set (running_threads s)" using assms(2) by simp
  then show ?thesis using assms(1) scoreD(3) [of None s] by (auto simp: sched_inv_def)
qed

lemma sched_inv_count: "sched_inv s \<Longrightarrow> running_threads_count s = length (running_threads s)"
  using scoreD(4) [of None s] by (simp add: sched_inv_def)

lemma random_normal_tot:
  assumes "sched_inv s" "running_threads s \<noteq> []" "b \<longrightarrow> replay_free s"
  shows "tot b (\<lambda>(th, r, s'). picked b s th s') (random_normal (running_threads_count s) s)"
proof -
  have cnt: "running_threads_count s = length (running_threads s)"
    using assms(1) by (rule sched_inv_count)
  obtain i s' where p: "random_pick s (running_threads_count s) = (i, s')" "i < running_threads_count s"
    "schoice s s'" "replay_free s' = replay_free s"
    using random_pick_choice [of "running_threads_count s" s] assms(2) cnt by auto
  have "sched_inv s'" using assms(1) schoice_sched_inv [OF p(3)] by simp
  then have "picked b s (running_threads s' ! i) s'"
    using nth_running [of s' i] p cnt schoice_fields [OF p(3)] assms(3) by (simp add: picked_def)
  then show ?thesis
    using p assms(2) cnt by (simp add: random_normal_def)
qed

lemma picked_choice:
  "schoice s s1 \<Longrightarrow> picked b s1 th s' \<Longrightarrow> picked b s th s'"
  by (simp add: picked_def schoice_fields)

lemma random_spurious_tot:
  assumes inv: "sched_inv s" and r: "running_threads s \<noteq> []" and b: "b \<longrightarrow> replay_free s"
    and k: "s_kind s = sched_random"
  shows "tot b (\<lambda>(th, r, s'). picked b s th s') (random_spurious (running_threads_count s) s)"
proof (cases "length (spurious_threads s) \<noteq> 0 \<and> running_threads_count s \<noteq> 0")
  case False
  then show ?thesis using random_normal_tot [OF assms(1-3)] by (auto simp: random_spurious_def Let_def)
next
  case True
  obtain i s1 where p: "random_pick s (length (spurious_threads s) * 8) = (i, s1)"
    "schoice s s1" "replay_free s1 = replay_free s"
    using random_pick_choice [of "length (spurious_threads s) * 8" s] True by auto
  note f = schoice_fields [OF p(2)]
  have inv1: "sched_inv s1" using inv schoice_sched_inv [OF p(2)] by simp
  show ?thesis
  proof (cases "i < length (spurious_threads s)")
    case i: True
    then have m: "spurious_threads s1 ! i \<in> set (timed_threads s1) \<union> set (spurious_threads s1)" by (simp add: f)
    have "b \<longrightarrow> replay_free s1" using p b by simp
    have o: "blocks s1 (spurious_threads s1 ! i) = 1" using random_parked_once [OF inv1 _ m] k f by simp
    from wake_picked_inv [OF inv1 m o \<open>b \<longrightarrow> replay_free s1\<close>, of unpark_spurious] p b True i o show ?thesis
      by (auto simp: random_spurious_def f picked_def)
  next
    case False
    then show ?thesis
      using random_normal_tot [OF inv1, of b] True p b r f
      by (auto simp: random_spurious_def picked_def)
  qed
qed

lemma random_schedule_tot:
  assumes inv: "sched_inv s" and r: "running_threads s \<noteq> [] \<or> timed_threads s \<noteq> []" and b: "b \<longrightarrow> replay_free s"
    and k: "s_kind s = sched_random"
  shows "tot b (\<lambda>(th, r, s'). picked b s th s') (random_schedule_impl s)"
proof (cases "timed_threads s = []")
  case True
  then show ?thesis using random_spurious_tot [OF inv _ b k] r by (simp add: random_schedule_impl_def)
next
  case False
  have cnt: "running_threads_count s = length (running_threads s)"
    using inv by (rule sched_inv_count)
  define c where "c = (if running_threads_count s \<noteq> 0 then length (timed_threads s) * 4 else length (timed_threads s))"
  have c0: "c \<noteq> 0" using False by (simp add: c_def)
  obtain i s1 where p: "random_pick s c = (i, s1)" "i < c" "schoice s s1" "replay_free s1 = replay_free s"
    using random_pick_choice [of c s] c0 by blast
  note f = schoice_fields [OF p(3)]
  have inv1: "sched_inv s1" using inv schoice_sched_inv [OF p(3)] by simp
  have e: "random_schedule_impl s =
    (if i < length (timed_threads s)
     then rl_verify (1 = blocks s1 (timed_threads s1 ! i)) (wake_picked (timed_threads s1 ! i) unpark_timeout s1)
     else random_spurious (running_threads_count s1) s1)"
    using False p(1) by (simp add: random_schedule_impl_def c_def f Let_def)
  show ?thesis
  proof (cases "i < length (timed_threads s)")
    case i: True
    then have m: "timed_threads s1 ! i \<in> set (timed_threads s1) \<union> set (spurious_threads s1)" by (simp add: f)
    have "b \<longrightarrow> replay_free s1" using p b by simp
    have o: "blocks s1 (timed_threads s1 ! i) = 1" using random_parked_once [OF inv1 _ m] k f by simp
    from wake_picked_inv [OF inv1 m o \<open>b \<longrightarrow> replay_free s1\<close>, of unpark_timeout] p b False i o show ?thesis
      by (auto simp: e f picked_def)
  next
    case ni: False
    then have "running_threads s \<noteq> []" using p(2) cnt by (auto simp: c_def split: if_splits)
    then show ?thesis
      using random_spurious_tot [OF inv1, of b] ni p b False f k
      by (auto simp: e picked_def)
  qed
qed

section \<open>Paying and making yield debts\<close>

text \<open>Updates of the counters no blocking decision reads.\<close>

definition inert :: "(sched_thread \<Rightarrow> sched_thread) \<Rightarrow> bool" where
  "inert f \<longleftrightarrow> (\<forall>x. st_index (f x) = st_index x \<and> block_count (f x) = block_count x \<and>
     st_state (f x) = st_state x \<and> yield_prio (f x) = yield_prio x \<and>
     total_yield_priority (f x) = total_yield_priority x)"

lemma inert_simps:
  fixes i s
  assumes "inert f"
  defines "s' \<equiv> upd_thread i f s"
  shows "waiters s' j = waiters s j" "score e s' = score e s" "parked s' j = parked s j"
    "state_of s' j = state_of s j" "prio s' y j = prio s y j" "sframe X s s'" "s_n s' = s_n s"
proof -
  have th: "state_of s' j = state_of s j" "prio s' y j = prio s y j" "blocks s' j = blocks s j"
    "st_index (s_threads s' j) = st_index (s_threads s j)"
    "total_yield_priority (s_threads s' j) = total_yield_priority (s_threads s j)" for j y
    using assms(1) by (simp_all add: s'_def inert_def)
  have f: "s_n s' = s_n s" "s_kind s' = s_kind s" "running_threads s' = running_threads s"
    "running_threads_count s' = running_threads_count s" "finished_thread_count s' = finished_thread_count s"
    by (simp_all add: s'_def)
  have w: "waiters s' j = waiters s j" for j by (simp add: waiters_def th f)
  show "waiters s' j = waiters s j" "state_of s' j = state_of s j" "prio s' y j = prio s y j" "s_n s' = s_n s"
    by (fact w th f)+
  show "score e s' = score e s" by (simp add: score_def owed_def w th f)
  show p: "parked s' j = parked s j" for j by (simp add: parked_def w th f)
  show "sframe X s s'" unfolding sframe_def by (simp add: p w th f) (simp add: s'_def)
qed

lemma inert_upds [simp]:
  "inert (\<lambda>x. x\<lparr>yield_sched_count := g x\<rparr>)" "inert (\<lambda>x. x\<lparr>cb_sched_count := h x\<rparr>)"
  "inert (\<lambda>x. x\<lparr>forced_context_switch_count := h x\<rparr>)"
  by (simp_all add: inert_def)

lemmas bump_simps = inert_simps [OF inert_upds(1)]

text \<open>One unit of a debt that stays positive.\<close>

lemma dec_prio:
  assumes c: "score None s" and yi: "y < s_n s" "i < s_n s" "prio s y i > 1"
    and s': "s' = upd_thread y (\<lambda>x. x\<lparr>yield_prio := (yield_prio x)(i := yield_prio x i - 1),
                                 total_yield_priority := total_yield_priority x - 1\<rparr>) s"
  shows "score None s' \<and> sframe {} s s'"
proof -
  have p: "prio s' z j = (if z = y \<and> j = i then prio s y i - 1 else prio s z j)" for z j by (simp add: s')
  have w: "waiters s' j = waiters s j" for j using yi(3) by (auto simp: waiters_def s')
  have st: "state_of s' j = state_of s j" "blocks s' j = blocks s j" "st_index (s_threads s' j) = st_index (s_threads s j)" for j
    by (simp_all add: s')
  have n: "s_n s' = s_n s" "s_kind s' = s_kind s" "running_threads s' = running_threads s"
    "running_threads_count s' = running_threads_count s" "finished_thread_count s' = finished_thread_count s"
    by (simp_all add: s')
  have tot: "total_yield_priority (s_threads s' z) = (\<Sum>j < s_n s'. prio s' z j)" if "z < s_n s'" for z
  proof (cases "z = y")
    case True
    have "(\<Sum>j < s_n s. prio s y j) = prio s y i + (\<Sum>j \<in> {..< s_n s} - {i}. prio s y j)"
      using yi(2) by (intro sum.remove) simp_all
    moreover have "(\<Sum>j < s_n s. prio s' y j) = prio s' y i + (\<Sum>j \<in> {..< s_n s} - {i}. prio s' y j)"
      using yi(2) by (intro sum.remove) simp_all
    moreover have "(\<Sum>j \<in> {..< s_n s} - {i}. prio s' y j) = (\<Sum>j \<in> {..< s_n s} - {i}. prio s y j)"
      by (rule sum.cong) (auto simp: p)
    ultimately show ?thesis using scoreD(8) [OF c yi(1)] yi(3) True by (simp add: n p) (simp add: s')
  next
    case False
    then show ?thesis using scoreD(8) [OF c, of z] that by (simp add: n p) (simp add: s')
  qed
  have "score None s'"
  proof (rule scoreI)
    show "total_yield_priority (s_threads s' z) = (\<Sum>j < s_n s'. prio s' z j)" if "z < s_n s'" for z
      using that by (rule tot)
    show "prio s' z j = 0" if "z < s_n s'" "state_of s' z = thread_finished_st" "j < s_n s'" for z j
      using scoreD(9) [OF c, of z j] that by (auto simp: p n st)
    show "prio s' z z = 0" if "z < s_n s'" for z using scoreD(10) [OF c, of z] that by (auto simp: p n)
    show "prio s' z j = 0" if "s_kind s' = sched_random" "z < s_n s'" "j < s_n s'" for z j
      using scoreD(12) [OF c, of z j] that by (auto simp: p n)
  qed (use scoreD(1-7,11) [OF c] in \<open>simp_all add: st n w owed_def\<close>)
  moreover have "sframe {} s s'"
    unfolding sframe_def by (simp add: parked_def w st n) (simp add: s')
  ultimately show ?thesis by simp
qed

lemma pay_yielder_inv:
  assumes c: "score None s" and ti: "t < s_n s" "i < s_n s"
  shows "\<exists>s'. pay_yielder t i s = Inr s' \<and> score None s' \<and> sframe {} s s' \<and> (\<forall>y j. prio s' y j \<le> prio s y j)"
proof -
  let ?b = "\<lambda>s. upd_thread t (\<lambda>x. x\<lparr>yield_sched_count := (yield_sched_count x)(i := inc32 (yield_sched_count x i))\<rparr>) s"
  define s1 where "s1 = upd_thread t (\<lambda>x. x\<lparr>yield_prio := (yield_prio x)(i := yield_prio x i - 1),
                                 total_yield_priority := dec32 (total_yield_priority x)\<rparr>) s"
  have fin: "score None s' \<Longrightarrow> sframe {} s s' \<Longrightarrow> score None (?b s') \<and> sframe {} s (?b s')" for s'
    using bump_simps(2,6) [where i = t and g = "\<lambda>x. (yield_sched_count x)(i := inc32 (yield_sched_count x i))" and s = s']
      sframe_trans0 by blast
  consider "prio s t i = 0" | "prio s t i = 1" | "prio s t i > 1" by linarith
  then show ?thesis
  proof cases
    case 1
    then show ?thesis using fin [OF c sframe_refl] by (simp add: pay_yielder_def)
  next
    case 2
    have "dec32 v = sub32 v 1" for v by (simp add: dec32_def sub32_def)
    then have e: "s1 = upd_thread t (\<lambda>x. x\<lparr>total_yield_priority := sub32 (total_yield_priority x) (yield_prio x i),
                                 yield_prio := (yield_prio x)(i := 0)\<rparr>) s"
      using 2 by (cases "s_threads s t") (simp add: s1_def upd_thread_def)
    obtain s2 where s2: "release_yielder t i s = Inr s2" "score None s2" "sframe {} s s2" "prio s2 t i = 0"
      "\<forall>z j. (z, j) \<noteq> (t, i) \<longrightarrow> prio s2 z j = prio s z j"
      using release_inv [OF c ti] by blast
    have le: "prio s2 y j \<le> prio s y j" for y j using s2(4,5) by (metis le0 order_refl prod.inject)
    from s2 have "rbind (unblock_thread i s1) (\<lambda>(_, s). Inr s) = Inr s2"
      using 2 by (simp add: release_yielder_def e)
    moreover have "prio s1 t i = 0" using 2 by (simp add: s1_def)
    ultimately show ?thesis using fin [OF s2(2,3)] 2 s1_def le by (simp add: pay_yielder_def)
  next
    case 3
    then have "prio s1 t i \<noteq> 0" by (simp add: s1_def)
    have "prio s t i \<le> (\<Sum>j < s_n s. prio s t j)" by (rule member_le_sum) (use ti in simp_all)
    then have "total_yield_priority (s_threads s t) \<noteq> 0" unfolding scoreD(8) [OF c ti(1)] using 3 by linarith
    then have e: "s1 = upd_thread t (\<lambda>x. x\<lparr>yield_prio := (yield_prio x)(i := yield_prio x i - 1),
                                 total_yield_priority := total_yield_priority x - 1\<rparr>) s"
      unfolding s1_def by (intro upd_thread_cong) (simp add: dec32_def)
    show ?thesis using fin dec_prio [OF c ti 3 e] 3 s1_def \<open>prio s1 t i \<noteq> 0\<close> by (simp add: pay_yielder_def)
  qed
qed

lemma pay_yielders_inv:
  assumes c: "score None s" and t: "t < s_n s"
  shows "\<exists>s'. pay_yielders t s = Inr s' \<and> score None s' \<and> sframe {} s s' \<and> (\<forall>y j. prio s' y j \<le> prio s y j)"
proof (cases "total_yield_priority (s_threads s t) = 0")
  case True
  then show ?thesis using c by (simp add: pay_yielders_def)
next
  case False
  let ?P = "\<lambda>rest s'. score None s' \<and> sframe {} s s' \<and> set rest \<subseteq> {..< s_n s} \<and> (\<forall>y j. prio s' y j \<le> prio s y j)"
  have "\<exists>s'. rfold (pay_yielder t) [0..< s_n s] s = Inr s' \<and> ?P [] s'"
  proof (rule rfold_total [where P = ?P])
    show "?P [0..< s_n s] s" using c by auto
    fix i rest s1
    assume P: "?P (i # rest) s1"
    then obtain s2 where s2: "pay_yielder t i s1 = Inr s2" "score None s2" "sframe {} s1 s2"
      "\<forall>y j. prio s2 y j \<le> prio s1 y j"
      using pay_yielder_inv [of s1 t i] t by (auto simp: sframe_n)
    have "\<forall>y j. prio s2 y j \<le> prio s y j" using P s2(4) le_trans by blast
    then show "\<exists>s2. pay_yielder t i s1 = Inr s2 \<and> ?P rest s2"
      using P s2 sframe_trans0 [of s s1 s2] by auto
  qed
  then show ?thesis using False by (auto simp: pay_yielders_def)
qed


text \<open>
  The debts of a thread add up below the width of the counters as long as every single one is below \<open>B\<close>
  and \<open>B\<close> times the number of threads is not past that width.
\<close>

definition debts_fit :: "nat \<Rightarrow> sched \<Rightarrow> bool" where
  "debts_fit B s \<longleftrightarrow> B * s_n s \<le> 2 ^ 32 \<and> (\<forall>y < s_n s. \<forall>i < s_n s. prio s y i < B)"

lemma debts_fit_le:
  "debts_fit B s \<Longrightarrow> s_n s' = s_n s \<Longrightarrow> (\<And>y i. y < s_n s \<Longrightarrow> i < s_n s \<Longrightarrow> prio s' y i \<le> prio s y i) \<Longrightarrow> debts_fit B s'"
  unfolding debts_fit_def by (metis le_less_trans)

lemma debts_no_wrap:
  assumes c: "score None s" and f: "debts_fit B s" and it: "i < s_n s" "t < s_n s" "prio s i t = 0" and v: "v < B"
  shows "add32 (total_yield_priority (s_threads s i)) v = total_yield_priority (s_threads s i) + v"
proof -
  have "(\<Sum>j < s_n s. prio s i j) = prio s i t + (\<Sum>j \<in> {..< s_n s} - {t}. prio s i j)"
    using it(2) by (intro sum.remove) simp_all
  moreover have "(\<Sum>j \<in> {..< s_n s} - {t}. prio s i j) \<le> card ({..< s_n s} - {t}) * (B - 1)"
  proof (rule sum_bounded_above [of _ "prio s i" "B - 1", simplified of_nat_id])
    fix j assume "j \<in> {..< s_n s} - {t}"
    then have "prio s i j < B" using f it(1) by (simp add: debts_fit_def)
    then show "prio s i j \<le> B - 1" by simp
  qed
  moreover have "card ({..< s_n s} - {t}) = s_n s - 1" using it(2) by simp
  ultimately have "total_yield_priority (s_threads s i) \<le> (s_n s - 1) * (B - 1)"
    using scoreD(8) [OF c it(1)] it(3) by simp
  then have "total_yield_priority (s_threads s i) + v \<le> (s_n s - 1) * (B - 1) + (B - 1)" using v by linarith
  also have "\<dots> = s_n s * (B - 1)" using it(1) by (cases "s_n s") simp_all
  also have "\<dots> < s_n s * B" using it(1) v by simp
  also have "\<dots> \<le> 2 ^ 32" using f by (simp add: debts_fit_def mult.commute)
  finally show ?thesis by (simp add: add32_def)
qed

lemma blocks_no_wrap:
  assumes c: "score None s" and f: "debts_fit B s" and t: "t < s_n s" "state_of s t = thread_blocked" and v: "1 < B"
  shows "inc32 (blocks s t) = blocks s t + 1"
proof -
  have "waiters s t \<subseteq> {..< s_n s}" by (auto simp: waiters_def)
  then have "card (waiters s t) \<le> s_n s" by (metis card_lessThan card_mono finite_lessThan)
  then have "blocks s t \<le> s_n s + 1" using scoreD(6) [OF c t] by (auto simp: owed_def)
  moreover have "2 * s_n s \<le> B * s_n s" using v by (intro mult_right_mono) simp_all
  then have "2 * s_n s \<le> 2 ^ 32" using f le_trans unfolding debts_fit_def by blast
  ultimately show ?thesis by (simp add: inc32_def)
qed

text \<open>A blocked thread takes on one more debt; a parked one stays parked.\<close>

lemma add_debt:
  assumes c: "score None s" and t: "t < s_n s" "state_of s t = thread_blocked"
    and y: "y < s_n s" "y \<noteq> t" "state_of s y \<noteq> thread_finished_st" "prio s y t = 0" "s_kind s \<noteq> sched_random" "v \<noteq> 0"
    and s': "s' = upd_thread t (\<lambda>x. x\<lparr>block_count := block_count x + 1\<rparr>)
      (upd_thread y (\<lambda>x. x\<lparr>yield_prio := (yield_prio x)(t := v), total_yield_priority := total_yield_priority x + v\<rparr>) s)"
  shows "score None s' \<and> sframe {t} s s' \<and> waiters s' t = insert y (waiters s t) \<and> (parked s' t \<longleftrightarrow> parked s t)"
proof -
  have p: "prio s' z j = (if z = y \<and> j = t then v else prio s z j)" for z j by (simp add: s')
  have st: "state_of s' j = state_of s j" "st_index (s_threads s' j) = st_index (s_threads s j)" for j
    by (simp_all add: s')
  have bl: "blocks s' j = (if j = t then Suc (blocks s t) else blocks s j)" for j using y(2) by (simp add: s')
  have n: "s_n s' = s_n s" "s_kind s' = s_kind s" "running_threads s' = running_threads s"
    "running_threads_count s' = running_threads_count s" "finished_thread_count s' = finished_thread_count s"
    by (simp_all add: s')
  have w: "waiters s' t = insert y (waiters s t)" "\<And>j. j \<noteq> t \<Longrightarrow> waiters s' j = waiters s j"
    using y(1,6) by (auto simp: waiters_def p n)
  have yw: "y \<notin> waiters s t" using y(4) by (simp add: waiters_def)
  have tp: "total_yield_priority (s_threads s' x) = total_yield_priority (s_threads s x) + (if x = y then v else 0)" for x
    using y(2) by (simp add: s')
  have "score None s'"
  proof (rule scoreI)
    show "owed (None = Some j) s' j" if "j < s_n s'" "state_of s' j = thread_blocked" for j
      using scoreD(6) [OF c, of j] that w yw by (cases "j = t") (auto simp: st n bl owed_def)
    show "waiters s' j = {}" if "j < s_n s'" "state_of s' j \<noteq> thread_blocked" for j
      using scoreD(7) [OF c, of j] that w t(2) by (cases "j = t") (simp_all add: st n)
    show "blocks s' j = 0" if "j < s_n s'" "state_of s' j = thread_running" for j
      using scoreD(5) [OF c, of j] that t(2) by (auto simp: st n bl)
    show "total_yield_priority (s_threads s' x) = (\<Sum>j < s_n s'. prio s' x j)" if "x < s_n s'" for x
    proof (cases "x = y")
      case True
      have "prio s' y = (yield_prio (s_threads s y))(t := v)" by (auto simp: p)
      then show ?thesis
        using scoreD(8) [OF c y(1)] sum_upd [where f = "yield_prio (s_threads s y)", OF t(1) y(4), of v] True
        by (simp add: tp n)
    next
      case False
      then show ?thesis using scoreD(8) [OF c, of x] that by (simp add: tp p n)
    qed
    show "prio s' x i = 0" if "x < s_n s'" "state_of s' x = thread_finished_st" "i < s_n s'" for x i
      using scoreD(9) [OF c, of x i] that y(3) by (auto simp: p st n)
    show "prio s' x x = 0" if "x < s_n s'" for x using scoreD(10) [OF c, of x] that y(2) by (auto simp: p n)
    show "prio s' x i = 0" if "s_kind s' = sched_random" "x < s_n s'" "i < s_n s'" for x i
      using that y(5) by (simp add: n)
  qed (use scoreD(1-4,11) [OF c] in \<open>simp_all add: st n\<close>)
  moreover have "sframe {t} s s'"
    unfolding sframe_def using w(2) by (simp add: parked_def st n bl) (simp add: s')
  moreover have "parked s' t \<longleftrightarrow> parked s t" using w(1) yw by (simp add: parked_def st n bl)
  ultimately show ?thesis using w(1) by simp
qed

text \<open>
  One round of \<open>yield_priority\<close>: thread \<open>t\<close> has not finished. Whether it is parked does not
  change; if it is not, it runs or waits for a yield debt, so it is never blocked without a way out.
\<close>

definition yielding :: "nat \<Rightarrow> sched \<Rightarrow> sched \<Rightarrow> bool" where
  "yielding t s s' \<longleftrightarrow> score None s' \<and> sframe {t} s s' \<and> t < s_n s' \<and> state_of s' t \<noteq> thread_finished_st \<and>
     (parked s' t \<longleftrightarrow> parked s t)"

lemma yielding_trans: "yielding t s s' \<Longrightarrow> yielding t s' s'' \<Longrightarrow> yielding t s s''"
  using sframe_trans [of "{t}" s s' "{t}" s''] by (auto simp: yielding_def)

lemma yield_block_inv:
  assumes t: "yielding t s s" and i: "i < s_n s" "i \<noteq> t" "state_of s i \<noteq> thread_finished_st"
    and z: "prio s i t = 0" and k: "s_kind s \<noteq> sched_random" "yield \<noteq> 0"
    and B: "debts_fit B s" "yield < B"
  shows "\<exists>s'. block_thread t (upd_thread i (\<lambda>y. y\<lparr>yield_prio := (yield_prio y)(t := yield),
            total_yield_priority := add32 (total_yield_priority y) yield\<rparr>) s) = Inr s' \<and> yielding t s s' \<and> debts_fit B s' \<and>
    (\<forall>x j. x \<noteq> t \<longrightarrow> (x, j) \<noteq> (i, t) \<longrightarrow> prio s' x j = prio s x j)"
proof -
  have c: "score None s" and tn: "t < s_n s" and tf: "state_of s t \<noteq> thread_finished_st"
    using t by (simp_all add: yielding_def)
  have up: "upd_thread i (\<lambda>y. y\<lparr>yield_prio := (yield_prio y)(t := yield),
            total_yield_priority := add32 (total_yield_priority y) yield\<rparr>) s =
      upd_thread i (\<lambda>y. y\<lparr>yield_prio := (yield_prio y)(t := yield), total_yield_priority := total_yield_priority y + yield\<rparr>) s"
    by (rule upd_thread_cong) (simp add: debts_no_wrap [OF c B(1) i(1) tn z B(2)])
  have fit: "debts_fit B s'" if "s_n s' = s_n s" "\<And>x j. prio s' x j = 0 \<or> prio s' x j = (if x = i \<and> j = t then yield else prio s x j) \<or> s_n s \<le> j" for s'
  proof -
    have "prio s' x j < B" if "x < s_n s" "j < s_n s" for x j
      using \<open>\<And>x j. prio s' x j = 0 \<or> prio s' x j = (if x = i \<and> j = t then yield else prio s x j) \<or> s_n s \<le> j\<close> [of x j] B that
      by (auto simp: debts_fit_def split: if_splits)
    then show ?thesis using B(1) that(1) by (simp add: debts_fit_def)
  qed
  show ?thesis
  proof (cases "state_of s t = thread_running")
    case True
    define e where "e = enter_blocked t i yield s"
    have v: "yield \<noteq> 0 \<Longrightarrow> i \<noteq> t \<and> state_of s i \<noteq> thread_finished_st \<and> s_kind s \<noteq> sched_random"
      using i k by simp
    have ce: "score None e" "waiters e t = {i}" using enter_blocked_inv [OF c tn True i(1) v e_def] k by auto
    have fe: "sframe {t} s e" unfolding e_def using enter_blocked_frame [OF c tn True i(1) v] by blast
    have pe: "prio e x j = (if x = i \<and> j = t then yield else prio s x j)" for x j
      by (simp add: e_def enter_blocked_def Let_def)
    have ste: "state_of e t = thread_blocked" "s_n e = s_n s" "blocks e t = Suc (blocks s t)"
      by (simp_all add: e_def enter_blocked_def Let_def)
    have "t < s_n e" using tn by (simp add: ste)
    from on_thread_block_inv [OF ce(1) this] obtain s' where
      s': "on_thread_block t e = Inr s'" "score None s'" "sframe {} e s'"
      "\<forall>z j. z \<noteq> t \<longrightarrow> prio s' z j = prio e z j" "state_of s' t = state_of e t" "\<forall>j < s_n e. prio s' t j = 0"
      by blast
    have "t \<in> set (take (running_threads_count s) (running_threads s))"
      using scoreD(3,4) [OF c] tn True by simp
    then have "block_thread t (upd_thread i (\<lambda>y. y\<lparr>yield_prio := (yield_prio y)(t := yield),
              total_yield_priority := total_yield_priority y + yield\<rparr>) s) = Inr s'"
      using s'(1) tn True scoreD(5) [OF c tn True] i(2)
      by (simp add: block_thread_def Let_def e_def enter_blocked_def upd_thread_def inc32_def fun_upd_twist)
    moreover have "\<not> parked e t" using ce(2) scoreD(5) [OF c tn True] by (simp add: parked_def ste)
    then have np: "\<not> parked s' t" using s'(3) by (simp add: sframe_def)
    have np0: "\<not> parked s t" using True by (simp add: parked_def)
    have "yielding t s s'"
      using s' sframe_trans [OF fe s'(3)] ste tn np np0 by (simp add: yielding_def sframe_n)
    moreover have "debts_fit B s'"
    proof (rule fit)
      show "s_n s' = s_n s" using s'(3) ste(2) by (simp add: sframe_n)
      show "prio s' x j = 0 \<or> prio s' x j = (if x = i \<and> j = t then yield else prio s x j) \<or> s_n s \<le> j" for x j
        using s'(4,6) pe [of x j] ste(2) by (cases "x = t") (auto simp: not_le)
    qed
    ultimately show ?thesis unfolding up using s'(4) pe by (intro exI [of _ s']) simp
  next
    case False
    then have tb: "t < s_n s" "state_of s t = thread_blocked" using tn tf by (cases "state_of s t"; simp)+
    define s' where "s' = upd_thread t (\<lambda>x. x\<lparr>block_count := block_count x + 1\<rparr>)
        (upd_thread i (\<lambda>x. x\<lparr>yield_prio := (yield_prio x)(t := yield), total_yield_priority := total_yield_priority x + yield\<rparr>) s)"
    note a = add_debt [OF c tb i(1-3) z k s'_def]
    have "blocks s t \<noteq> 0" using scoreD(6) [OF c tb] by (auto simp: owed_def)
    then have "block_thread t (upd_thread i (\<lambda>y. y\<lparr>yield_prio := (yield_prio y)(t := yield),
              total_yield_priority := total_yield_priority y + yield\<rparr>) s) = Inr s'"
      using tb i(2) blocks_no_wrap [OF c B(1) tb] B(2) k(2)
      by (simp add: block_thread_def Let_def s'_def upd_thread_def)
    moreover have "debts_fit B s'" by (rule fit) (simp_all add: s'_def)
    moreover have "state_of s' t = thread_blocked" "s_n s' = s_n s" using tb i(2) by (simp_all add: s'_def)
    then have "yielding t s s'" using a tb(1) by (simp add: yielding_def)
    ultimately show ?thesis unfolding up by (intro exI [of _ s']) (auto simp: s'_def)
  qed
qed

lemma yield_to_inv:
  assumes t: "yielding t s s" and i: "i < s_n s" and z: "prio s i t = 0"
    and k: "s_kind s \<noteq> sched_random" "yield \<noteq> 0" and B: "debts_fit B s" "yield < B"
  shows "\<exists>s'. yield_to t yield i s = Inr s' \<and> yielding t s s' \<and> debts_fit B s' \<and>
    (\<forall>x. x \<noteq> t \<longrightarrow> x \<noteq> i \<longrightarrow> prio s' x t = prio s x t)"
proof -
  let ?b = "\<lambda>s. upd_thread i (\<lambda>y. y\<lparr>yield_sched_count := (yield_sched_count y)(t := 0)\<rparr>) s"
  have fin: "yielding t s (?b s') \<and> prio (?b s') x j = prio s' x j \<and> debts_fit B (?b s') = debts_fit B s'" if "yielding t s s'" for s' x j
    using that bump_simps(1-7) [where i = i and g = "\<lambda>y. (yield_sched_count y)(t := 0)" and s = s']
      sframe_trans [of "{t}" s s' "{t}" "?b s'"] by (auto simp: yielding_def debts_fit_def)
  show ?thesis
  proof (cases "t \<noteq> i \<and> yield_sched_count (s_threads s i) t < yield \<and> state_of s i \<noteq> thread_finished_st")
    case True
    then obtain s' where "block_thread t (upd_thread i (\<lambda>y. y\<lparr>yield_prio := (yield_prio y)(t := yield),
            total_yield_priority := add32 (total_yield_priority y) yield\<rparr>) s) = Inr s'" "yielding t s s'" "debts_fit B s'"
      "\<forall>x j. x \<noteq> t \<longrightarrow> (x, j) \<noteq> (i, t) \<longrightarrow> prio s' x j = prio s x j"
      using yield_block_inv [OF t i _ _ z k B] by (metis (no_types, lifting))
    then show ?thesis using True z fin by (intro exI [of _ "?b s'"]) (simp add: yield_to_def)
  next
    case False
    then have "yield_to t yield i s = Inr (?b s)" using z by (auto simp: yield_to_def)
    then show ?thesis using fin [OF t] B(1) by (intro exI [of _ "?b s"]) blast
  qed
qed

text \<open>
  Afterwards somebody runs, or nothing runs because the yielding thread was parked and all debts
  have been forgiven.
\<close>

lemma yield_priority_inv:
  assumes c: "score None s" and t: "s_thread s = Some t" "t < s_n s" "state_of s t \<noteq> thread_finished_st"
    "waiters s t = {}" and k: "s_kind s \<noteq> sched_random" "yield \<noteq> 0" and B: "debts_fit B s" "yield < B"
  shows "\<exists>s'. yield_priority yield s = Inr s' \<and> yielding t s s' \<and> debts_fit B s' \<and>
    (running_threads s' \<noteq> [] \<or> parked s t \<and> (\<forall>y < s_n s'. \<forall>i < s_n s'. prio s' y i = 0))"
proof -
  let ?P = "\<lambda>rest s'. yielding t s s' \<and> set rest \<subseteq> {..< s_n s} \<and> distinct rest \<and> (\<forall>i \<in> set rest. prio s' i t = 0) \<and> debts_fit B s'"
  have "\<exists>s'. rfold (yield_to t yield) [0..< s_n s] s = Inr s' \<and> ?P [] s'"
  proof (rule rfold_total [where P = ?P])
    show "?P [0..< s_n s] s" using c t B(1) by (auto simp: yielding_def waiters_def)
    fix i rest s1
    assume P: "?P (i # rest) s1"
    then have f: "s_n s1 = s_n s" "s_kind s1 = s_kind s" by (simp_all add: yielding_def sframe_def)
    have f3: "yielding t s1 s1" using P by (simp add: yielding_def)
    obtain s2 where s2: "yield_to t yield i s1 = Inr s2" "yielding t s1 s2"
      "\<forall>x. x \<noteq> t \<longrightarrow> x \<noteq> i \<longrightarrow> prio s2 x t = prio s1 x t" "debts_fit B s2"
      using yield_to_inv [OF f3, of i yield B] P k f B(2) by auto
    have "prio s2 t t = 0" using scoreD(10) [of None s2 t] s2(2) by (simp add: yielding_def)
    then have "\<forall>j \<in> set rest. prio s2 j t = 0" using P s2(3) by (metis distinct.simps(2) list.set_intros(2))
    then show "\<exists>s2. yield_to t yield i s1 = Inr s2 \<and> ?P rest s2"
      using P s2 yielding_trans [of t s s1 s2] by (intro exI [of _ s2]) auto
  qed
  then obtain s1 where s1: "rfold (yield_to t yield) [0..< s_n s] s = Inr s1" "yielding t s s1" "debts_fit B s1" by blast
  then have c1: "score None s1" by (simp add: yielding_def)
  show ?thesis
  proof (cases "running_threads_count s1 = 0")
    case False
    then have "running_threads s1 \<noteq> []" using scoreD(4) [OF c1] by auto
    then show ?thesis using False s1 t(1) k(2) by (simp add: yield_priority_def)
  next
    case True
    obtain s2 where s2: "purge_blocked_threads s1 = Inr s2" "score None s2" "sframe {} s1 s2"
      "\<forall>y < s_n s1. \<forall>i < s_n s1. prio s2 y i = 0"
      using purge_inv [OF c1] by blast
    have tn: "t < s_n s2" "s_n s2 = s_n s1" using s1(2) s2(3) by (simp_all add: yielding_def sframe_n)
    have "sframe {t} s s2" using s1(2) sframe_trans [of "{t}" s s1 "{}" s2] s2(3) by (simp add: yielding_def)
    moreover have p2: "parked s2 t \<longleftrightarrow> parked s t" "state_of s2 t \<noteq> thread_finished_st"
    proof -
      have "parked s1 t \<longleftrightarrow> parked s t" "state_of s1 t \<noteq> thread_finished_st" using s1(2) by (simp_all add: yielding_def)
      then show "parked s2 t \<longleftrightarrow> parked s t" "state_of s2 t \<noteq> thread_finished_st" using s2(3) by (simp_all add: sframe_def)
    qed
    ultimately have y2: "yielding t s s2" using s2(2) tn(1) by (simp add: yielding_def)
    have "running_threads s2 \<noteq> [] \<or> parked s t"
      using all_parked [OF s2(2) _ _ tn(1) p2(2)] s2(4) tn(2) p2(1) by auto
    moreover have "debts_fit B s2" by (rule debts_fit_le [OF s1(3) tn(2)]) (use s2(4) in simp)
    ultimately show ?thesis using True s1 s2 y2 t(1) k(2) tn(2) by (auto simp: yield_priority_def)
  qed
qed


section \<open>The tree searching schedulers\<close>

definition stepped :: "bool \<Rightarrow> sched \<Rightarrow> nat \<Rightarrow> nat \<Rightarrow> sched \<Rightarrow> bool" where
  "stepped b s t th s' \<longleftrightarrow>
     picked b s th s' \<and> running_threads s' \<noteq> [] \<and> switches_remain s' = switches_remain s \<and>
     (t \<noteq> th \<longrightarrow> state_of s' t = state_of s t) \<and> s_params s' = s_params s"

lemma wake_stepped:
  assumes "sched_inv s" "th \<in> set (timed_threads s) \<union> set (spurious_threads s)" "blocks s th = 1" "b \<longrightarrow> replay_free s"
  shows "\<exists>s'. wake_picked th reason s = Inr (th, reason, s') \<and> stepped b s t th s'"
proof -
  obtain s' where s': "th = th" "wake_picked th reason s = Inr (th, reason, s')" "picked b s th s'"
    "\<forall>j. j \<noteq> th \<longrightarrow> state_of s' j = state_of s j" "switches_remain s' = switches_remain s" "running_threads s' \<noteq> []"
    using wake_picked_inv [OF assms] by blast
  have "s_params s' = s_params s"
    using s'(2) by (auto simp: wake_picked_def sched_unpark_def unblock_thread_def Let_def rbind_Inr rl_verify_Inr
        split: if_splits)
  with s' show ?thesis by (auto simp: stepped_def)
qed

text \<open>Either a thread has been woken, or only the choice has been made.\<close>

definition woken :: "bool \<Rightarrow> sched \<Rightarrow> nat \<Rightarrow> (nat \<times> unpark_reason) option \<times> sched \<Rightarrow> bool" where
  "woken b s t = (\<lambda>(w, s'). case w of
     Some (th, r) \<Rightarrow> stepped b s t th s' | None \<Rightarrow> schoice s s' \<and> (b \<longrightarrow> replay_free s'))"

lemma tree_wake_tot:
  assumes inv: "sched_inv s" and c: "set cands \<subseteq> set (timed_threads s) \<union> set (spurious_threads s)"
    and n: "cnt \<noteq> 0" and b: "b \<longrightarrow> replay_free s"
  shows "tot b (\<lambda>(w, s'). woken b s t (w, s') \<and> (w = None \<longrightarrow> length cands < cnt \<or> (\<exists>c \<in> set cands. blocks s c \<noteq> 1)))
    (tree_wake cands cnt reason s)"
  unfolding tree_wake_def
proof (rule tot_bind)
  show "tot b (\<lambda>(r, s'). r < cnt \<and> schoice s s' \<and> (b \<longrightarrow> replay_free s')) (sched_rand s cnt sched_type_user)"
    using n b by (rule sched_rand_tot)
  fix x :: "nat \<times> sched"
  assume "case x of (r, s') \<Rightarrow> r < cnt \<and> schoice s s' \<and> (b \<longrightarrow> replay_free s')"
  then obtain idx s1 where x: "x = (idx, s1)" "idx < cnt" "schoice s s1" "b \<longrightarrow> replay_free s1" by (cases x) auto
  note f = schoice_fields [OF x(3)]
  have inv1: "sched_inv s1" using inv schoice_sched_inv [OF x(3)] by simp
  show "tot b (\<lambda>(w, s'). woken b s t (w, s') \<and> (w = None \<longrightarrow> length cands < cnt \<or> (\<exists>c \<in> set cands. blocks s c \<noteq> 1)))
    (case x of (idx, s) \<Rightarrow>
       if idx < length cands \<and> 1 = blocks s (cands ! idx)
       then rbind (wake_picked (cands ! idx) reason s) (\<lambda>(th, reason, s). Inr (Some (th, reason), s))
       else Inr (None, s))"
  proof (cases "idx < length cands \<and> 1 = blocks s1 (cands ! idx)")
    case t: True
    then have True: "idx < length cands" by simp
    then have m: "cands ! idx \<in> set (timed_threads s1) \<union> set (spurious_threads s1)"
      using subsetD [OF c nth_mem [OF True]] by (simp add: f)
    have "blocks s1 (cands ! idx) = 1" using t by simp
    from wake_stepped [OF inv1 m this x(4)] obtain s2 where
      "wake_picked (cands ! idx) reason s1 = Inr (cands ! idx, reason, s2)" "stepped b s1 t (cands ! idx) s2"
      by blast
    then show ?thesis using t x f by (simp add: woken_def stepped_def picked_def)
  next
    case False
    have "idx < length cands \<Longrightarrow> \<exists>c \<in> set cands. blocks s c \<noteq> 1"
      using False nth_mem [of idx cands] by (intro bexI [of _ "cands ! idx"]) (auto simp: f)
    then show ?thesis using x False by (cases "idx < length cands") (auto simp: woken_def)
  qed
qed

text \<open>
  The states a scheduling step may start from: somebody can run, or a timed wait can expire at
  once. The tree searching schedulers need the timed threads to be owed nothing for that.
\<close>

definition can_go :: "sched \<Rightarrow> bool" where
  "can_go s \<longleftrightarrow> running_threads s \<noteq> [] \<or> timed_threads s \<noteq> [] \<and> (\<forall>i \<in> set (timed_threads s). blocks s i = 1)"

lemma tree_timed_tot:
  assumes inv: "sched_inv s" and r: "can_go s" and b: "b \<longrightarrow> replay_free s"
  shows "tot b (\<lambda>(w, s'). woken b s t (w, s') \<and> running_threads s' \<noteq> []) (tree_timed s)"
proof (cases "timed_threads s = []")
  case True
  then show ?thesis using r b by (simp add: tree_timed_def woken_def can_go_def)
next
  case False
  let ?c = "if running_threads_count s \<noteq> 0 then length (timed_threads s) + 1 else length (timed_threads s)"
  have cnt: "running_threads_count s = length (running_threads s)"
    using inv by (rule sched_inv_count)
  have "tot b (\<lambda>(w, s'). woken b s t (w, s') \<and>
        (w = None \<longrightarrow> length (timed_threads s) < ?c \<or> (\<exists>c \<in> set (timed_threads s). blocks s c \<noteq> 1)))
      (tree_wake (timed_threads s) ?c unpark_timeout s)"
    using False by (intro tree_wake_tot [OF inv _ _ b]) auto
  then have "tot b (\<lambda>(w, s'). woken b s t (w, s') \<and> running_threads s' \<noteq> [])
      (tree_wake (timed_threads s) ?c unpark_timeout s)"
  proof (rule tot_mono)
    fix x assume x: "case x of (w, s') \<Rightarrow> woken b s t (w, s') \<and>
        (w = None \<longrightarrow> length (timed_threads s) < ?c \<or> (\<exists>c \<in> set (timed_threads s). blocks s c \<noteq> 1))"
    then show "case x of (w, s') \<Rightarrow> woken b s t (w, s') \<and> running_threads s' \<noteq> []"
      using cnt r by (cases x; cases "fst x") (auto simp: woken_def stepped_def schoice_fields can_go_def split: if_splits)
  qed
  then show ?thesis using False by (simp add: tree_timed_def)
qed

lemma tree_normal_tot:
  assumes inv: "sched_inv s" and r: "running_threads s \<noteq> []" and b: "b \<longrightarrow> replay_free s"
  shows "tot b (\<lambda>(th, r, s'). stepped b s t th s') (tree_normal s)"
proof -
  have cnt: "running_threads_count s = length (running_threads s)"
    using inv by (rule sched_inv_count)
  show ?thesis
  proof (cases "1 = running_threads_count s")
    case True
    then show ?thesis
      using nth_running [OF inv, of 0] r b cnt inv by (simp add: tree_normal_def stepped_def picked_def)
  next
    case False
    have "tot b (\<lambda>(th, r, s'). stepped b s t th s')
      (rbind (sched_rand s (running_threads_count s) sched_type_sched) (\<lambda>(index, s). Inr (running_threads s ! index, unpark_normal, s)))"
    proof (rule tot_bind)
      show "tot b (\<lambda>(i, s'). i < running_threads_count s \<and> schoice s s' \<and> (b \<longrightarrow> replay_free s'))
        (sched_rand s (running_threads_count s) sched_type_sched)"
        using r cnt b by (intro sched_rand_tot) simp_all
      fix x :: "nat \<times> sched"
      assume "case x of (i, s') \<Rightarrow> i < running_threads_count s \<and> schoice s s' \<and> (b \<longrightarrow> replay_free s')"
      then obtain i s1 where x: "x = (i, s1)" "i < running_threads_count s" "schoice s s1" "b \<longrightarrow> replay_free s1" by (cases x) auto
      have "sched_inv s1" using inv schoice_sched_inv [OF x(3)] by simp
      then show "tot b (\<lambda>(th, r, s'). stepped b s t th s') (case x of (index, s) \<Rightarrow> Inr (running_threads s ! index, unpark_normal, s))"
        using nth_running [of s1 i] x r cnt schoice_fields [OF x(3)] by (simp add: stepped_def picked_def)
    qed
    then show ?thesis using False by (simp add: tree_normal_def)
  qed
qed

lemma stepped_choice: "schoice s s1 \<Longrightarrow> stepped b s1 t th s' \<Longrightarrow> stepped b s t th s'"
  by (simp add: stepped_def picked_def schoice_fields)


lemma tree_choose_tot:
  assumes inv: "sched_inv s" and r: "can_go s" and b: "b \<longrightarrow> replay_free s"
  shows "tot b (\<lambda>(th, r, s'). stepped b s t th s') (tree_choose s)"
  unfolding tree_choose_def
proof (rule tot_bind [OF tree_timed_tot [OF inv r b, of t]])
  fix x assume "case x of (w, s') \<Rightarrow> woken b s t (w, s') \<and> running_threads s' \<noteq> []"
  then obtain w s1 where x: "x = (w, s1)" "woken b s t (w, s1)" "running_threads s1 \<noteq> []" by (cases x) auto
  show "tot b (\<lambda>(th, r, s'). stepped b s t th s')
    (case x of (w, s) \<Rightarrow> rl_verify (running_threads_count s \<noteq> 0)
       (case w of None \<Rightarrow> rbind (tree_spurious s) (\<lambda>(w, s). case w of None \<Rightarrow> tree_normal s | Some (th, reason) \<Rightarrow> Inr (th, reason, s))
        | Some (th, reason) \<Rightarrow> Inr (th, reason, s)))"
  proof (cases w)
    case (Some p)
    obtain th rs where p: "p = (th, rs)" by (cases p)
    have st: "stepped b s t th s1" using x(2) Some p by (simp add: woken_def)
    then have "running_threads_count s1 \<noteq> 0"
      using x(3) sched_inv_count [of s1] by (simp add: stepped_def picked_def)
    then show ?thesis using x(1) Some p st by simp
  next
    case None
    then have ch: "schoice s s1" and b1: "b \<longrightarrow> replay_free s1" using x(2) by (simp_all add: woken_def)
    have inv1: "sched_inv s1" using inv schoice_sched_inv [OF ch] by simp
    have "tot b (\<lambda>(th, r, s'). stepped b s1 t th s')
      (rbind (tree_spurious s1) (\<lambda>(w, s). case w of None \<Rightarrow> tree_normal s | Some (th, reason) \<Rightarrow> Inr (th, reason, s)))"
    proof (rule tot_bind [where Q = "woken b s1 t"])
      show "tot b (woken b s1 t) (tree_spurious s1)"
      proof (cases "length (spurious_threads s1) = 0")
        case True
        then show ?thesis using b1 by (simp add: tree_spurious_def woken_def)
      next
        case False
        have "tot b (\<lambda>(w, s'). woken b s1 t (w, s') \<and> (w = None \<longrightarrow> length (spurious_threads s1) < length (spurious_threads s1) + 1 \<or>
              (\<exists>c \<in> set (spurious_threads s1). blocks s1 c \<noteq> 1)))
            (tree_wake (spurious_threads s1) (length (spurious_threads s1) + 1) unpark_spurious s1)"
          by (intro tree_wake_tot [OF inv1 _ _ b1]) auto
        then have "tot b (woken b s1 t) (tree_wake (spurious_threads s1) (length (spurious_threads s1) + 1) unpark_spurious s1)"
          by (rule tot_mono) auto
        then show ?thesis using False by (simp add: tree_spurious_def)
      qed
      fix y assume y: "woken b s1 t y"
      obtain w2 s2 where y2: "y = (w2, s2)" by (cases y)
      show "tot b (\<lambda>(th, r, s'). stepped b s1 t th s')
        (case y of (w, s) \<Rightarrow> case w of None \<Rightarrow> tree_normal s | Some (th, reason) \<Rightarrow> Inr (th, reason, s))"
      proof (cases w2)
        case None
        then have c2: "schoice s1 s2" "b \<longrightarrow> replay_free s2" using y y2 by (simp_all add: woken_def)
        have "sched_inv s2" using inv1 schoice_sched_inv [OF c2(1)] by simp
        from tree_normal_tot [OF this _ c2(2), of t] x(3)
        have "tot b (\<lambda>(th, r, s'). stepped b s2 t th s') (tree_normal s2)"
          by (simp add: schoice_fields [OF c2(1)])
        then have "tot b (\<lambda>(th, r, s'). stepped b s1 t th s') (tree_normal s2)"
          by (rule tot_mono) (auto intro: stepped_choice [OF c2(1)])
        then show ?thesis using None y2 by simp
      next
        case (Some p)
        then show ?thesis using y y2 by (cases p) (simp add: woken_def)
      qed
    qed
    then have "tot b (\<lambda>(th, r, s'). stepped b s t th s')
      (rbind (tree_spurious s1) (\<lambda>(w, s). case w of None \<Rightarrow> tree_normal s | Some (th, reason) \<Rightarrow> Inr (th, reason, s)))"
      by (rule tot_mono) (auto intro: stepped_choice [OF ch])
    moreover have "running_threads_count s1 \<noteq> 0" using x(3) sched_inv_count [OF inv1] by simp
    ultimately show ?thesis using x(1) None by simp
  qed
qed

text \<open>Changing the remaining switches changes nothing the invariant reads.\<close>

lemma switches_simps [simp]:
  "score e (s\<lparr>switches_remain := k\<rparr>) = score e s" "lists_ok (s\<lparr>switches_remain := k\<rparr>) = lists_ok s"
  "sched_inv (s\<lparr>switches_remain := k\<rparr>) = sched_inv s" "replay_free (s\<lparr>switches_remain := k\<rparr>) = replay_free s"
  by (simp_all add: score_def owed_def waiters_def lists_ok_def parked_def sched_inv_def replay_free_def)

lemma inert_inv: "inert f \<Longrightarrow> sched_inv (upd_thread i f s) = sched_inv s"
  by (simp add: sched_inv_def lists_ok_def inert_simps)

lemma inert_replay: "replay_free (upd_thread i f s) = replay_free s"
  by (simp add: replay_free_def)

text \<open>
  The end of the step: \<open>switch_ok\<close> relates the remaining switches before and after. Under the
  context-bound scheduler a switch away from a thread that can run costs one.
\<close>

definition switch_ok :: "nat \<Rightarrow> sched \<Rightarrow> nat \<Rightarrow> sched \<Rightarrow> bool" where
  "switch_ok t s th s' \<longleftrightarrow> s_kind s = sched_bound \<longrightarrow>
     (if t \<noteq> th \<and> state_of s' t = thread_running
      then switches_remain s = Suc (switches_remain s') else switches_remain s' = switches_remain s)"

lemma tree_last_tot:
  assumes inv: "sched_inv s" and t: "t < s_n s" and b: "b \<longrightarrow> replay_free s"
    and r: "can_go s"
  shows "tot b (\<lambda>(th, r, s'). picked b s th s' \<and> switch_ok t s th s')
    (let (can, s) = can_switch t s
     in rbind (if can \<or> state_of s t \<noteq> thread_running then tree_choose s
               else Inr (st_index (s_threads s t), unpark_normal, s))
          (\<lambda>(thread_index, reason, s).
             if st_index (s_threads s t) = thread_index then Inr (thread_index, reason, s)
             else rbind (on_switch t s) (\<lambda>s. Inr (thread_index, reason, s))))"
proof -
  obtain can s1 where cs: "can_switch t s = (can, s1)" by (cases "can_switch t s")
  have s1: "sched_inv s1" "state_of s1 t = state_of s t" "s_n s1 = s_n s" "s_kind s1 = s_kind s"
    "replay_free s1 = replay_free s" "can_go s1 = can_go s" "s_params s1 = s_params s"
    "switches_remain s1 = switches_remain s" "s_thread s1 = s_thread s"
    "s_kind s = sched_bound \<longrightarrow> can = (switches_remain s \<noteq> 0)" "s_kind s \<noteq> sched_bound \<longrightarrow> can"
    using cs inv by (auto simp: can_switch_def can_go_def Let_def inert_inv inert_replay split: if_splits)
  have ix: "st_index (s_threads s' t) = t" if "sched_inv s'" "s_n s' = s_n s" for s'
    using that t scoreD(1) [of None s' t] by (simp add: sched_inv_def)
  show ?thesis
  proof (cases "can \<or> state_of s1 t \<noteq> thread_running")
    case False
    then show ?thesis
      using cs s1 ix [OF s1(1,3)] t b by (simp add: picked_def switch_ok_def)
  next
    case True
    have "tot b (\<lambda>(th, r, s'). picked b s th s' \<and> switch_ok t s th s')
      (rbind (tree_choose s1) (\<lambda>(thread_index, reason, s).
             if st_index (s_threads s t) = thread_index then Inr (thread_index, reason, s)
             else rbind (on_switch t s) (\<lambda>s. Inr (thread_index, reason, s))))"
    proof (rule tot_bind [OF tree_choose_tot [of s1 b t]])
      show "sched_inv s1" "can_go s1" "b \<longrightarrow> replay_free s1"
        using s1 r b by simp_all
      fix x assume "case x of (th, r, s') \<Rightarrow> stepped b s1 t th s'"
      then obtain th rs s2 where x: "x = (th, rs, s2)" "stepped b s1 t th s2" by (cases x) auto
      then have s2: "sched_inv s2" "s_n s2 = s_n s" "s_kind s2 = s_kind s" "picked b s th s2"
        "switches_remain s2 = switches_remain s" "t \<noteq> th \<Longrightarrow> state_of s2 t = state_of s1 t"
        using s1 by (simp_all add: stepped_def picked_def)
      show "tot b (\<lambda>(th, r, s'). picked b s th s' \<and> switch_ok t s th s')
        (case x of (thread_index, reason, s) \<Rightarrow>
             if st_index (s_threads s t) = thread_index then Inr (thread_index, reason, s)
             else rbind (on_switch t s) (\<lambda>s. Inr (thread_index, reason, s)))"
      proof (cases "t = th")
        case True
        then show ?thesis using x(1) s2 ix [OF s2(1,2)] by (simp add: switch_ok_def)
      next
        case ne: False
        then show ?thesis
          using x(1) s2 ix [OF s2(1,2)] True s1(10)
          by (auto simp: on_switch_def switch_ok_def picked_def inert_inv inert_replay inert_simps)
      qed
    qed
    then show ?thesis using cs True by simp
  qed
qed


section \<open>One scheduling step\<close>

text \<open>
  The states a scheduling step with a yield count may start from. With a count the debts are
  settled on the way, so that a timed thread is enough.
\<close>

definition can_step :: "nat \<Rightarrow> sched \<Rightarrow> bool" where
  "can_step yield s \<longleftrightarrow> can_go s \<or> (s_kind s = sched_random \<or> yield \<noteq> 0) \<and> timed_threads s \<noteq> []"

text \<open>The current thread has not finished, waits for no debt and is no thread still to be created.\<close>

definition settled :: "sched \<Rightarrow> bool" where
  "settled s \<longleftrightarrow> (\<exists>t. s_thread s = Some t \<and> state_of s t \<noteq> thread_finished_st \<and> waiters s t = {} \<and>
     t \<notin> set (dynamic_threads s))"

lemma sched_inv_frame: "sched_inv s \<Longrightarrow> score None s' \<Longrightarrow> sframe {} s s' \<Longrightarrow> sched_inv s'"
  using lists_ok_frame [of s s'] by (simp add: sched_inv_def)

lemma sched_inv_yielding:
  assumes "sched_inv s" "yielding t s s'" "t \<notin> set (dynamic_threads s)"
  shows "sched_inv s'"
proof -
  have "parked s' i \<longleftrightarrow> parked s i" for i using assms(2) by (cases "i = t") (auto simp: yielding_def sframe_def)
  moreover have "waiters s' i = {}" if "i \<in> set (dynamic_threads s)" for i
  proof (rule sframe_waiters)
    show "sframe {t} s s'" using assms(2) by (simp add: yielding_def)
    show "i \<notin> {t}" using assms(3) that by auto
    show "waiters s i = {}" using assms(1) that by (simp add: sched_inv_def lists_ok_def)
  qed
  ultimately show ?thesis using assms(1,2)
    by (simp add: sched_inv_def lists_ok_def yielding_def) (simp add: sframe_def)
qed

lemma timed_no_debts:
  assumes "sched_inv s" "\<forall>y < s_n s. \<forall>i < s_n s. prio s y i = 0" "timed_threads s \<noteq> []"
  shows "can_go s"
proof -
  have "blocks s i = 1" if "i \<in> set (timed_threads s)" for i
  proof -
    have p: "parked s i" using assms(1) that by (simp add: sched_inv_def lists_ok_def)
    then have "waiters s i = {}" using assms(2) by (auto simp: waiters_def parked_def)
    then show ?thesis using p by (simp add: parked_def)
  qed
  then show ?thesis using assms(3) by (simp add: can_go_def)
qed

text \<open>Paying debts keeps the timed threads ready that are ready.\<close>

lemma can_go_frame:
  assumes "sched_inv s" "can_go s" "score None s'" "sframe {} s s'"
  shows "can_go s'"
proof (cases "running_threads s = []")
  case False
  then show ?thesis using assms(4) by (auto simp: can_go_def sframe_def)
next
  case True
  have "blocks s' i = 1" if i: "i \<in> set (timed_threads s)" for i
  proof -
    have p: "parked s i" using assms(1) i by (simp add: sched_inv_def lists_ok_def)
    moreover have "blocks s i = 1" using True assms(2) i by (simp add: can_go_def)
    ultimately have "waiters s i = {}" by (simp add: parked_def)
    then have "waiters s' i = {}" "parked s' i" using assms(4) p sframe_waiters [OF assms(4)] by (auto simp: sframe_def)
    then show ?thesis by (simp add: parked_def)
  qed
  then show ?thesis using True assms(2,4) by (simp add: can_go_def sframe_def)
qed

lemma tree_schedule_tot:
  assumes inv: "sched_inv s" and t: "s_thread s = Some t" "t < s_n s" and go: "can_step yield s"
    and y: "yield \<noteq> 0 \<longrightarrow> settled s" and k: "s_kind s \<noteq> sched_random"
    and b: "b \<longrightarrow> replay_free s" and B: "debts_fit B s" "yield < B"
  shows "tot b (\<lambda>(th, r, s'). picked b s th s' \<and> switch_ok t s th s') (tree_schedule_impl yield s)"
proof -
  have c: "score None s" using inv by (simp add: sched_inv_def)
  obtain s1 where s1: "pay_yielders t s = Inr s1" "score None s1" "sframe {} s s1" "\<forall>y j. prio s1 y j \<le> prio s y j"
    using pay_yielders_inv [OF c t(2)] by blast
  have B1: "debts_fit B s1" by (rule debts_fit_le [OF B(1)]) (use s1(3,4) in \<open>simp_all add: sframe_n\<close>)
  have inv1: "sched_inv s1" using sched_inv_frame [OF inv s1(2,3)] .
  have f1: "s_thread s1 = Some t" "t < s_n s1" "s_kind s1 \<noteq> sched_random" "dynamic_threads s1 = dynamic_threads s"
    "timed_threads s1 = timed_threads s"
    using s1(3) t k by (simp_all add: sframe_def)
  have "\<exists>s2. (if yield \<noteq> 0 then yield_priority yield s1 else Inr s1) = Inr s2 \<and> sched_inv s2 \<and> can_go s2 \<and>
    s_n s2 = s_n s \<and> s_kind s2 = s_kind s \<and> s_thread s2 = s_thread s \<and> stree s2 = stree s \<and>
    stree_depth s2 = stree_depth s \<and> switches_remain s2 = switches_remain s"
  proof (cases "yield = 0")
    case True
    then have "can_go s" using go k by (simp add: can_step_def)
    then show ?thesis using True inv1 s1(3) can_go_frame [OF inv _ s1(2,3)] by (simp add: sframe_def)
  next
    case False
    then have st: "state_of s t \<noteq> thread_finished_st" "waiters s t = {}" "t \<notin> set (dynamic_threads s)"
      using y t(1) by (auto simp: settled_def)
    have st1: "state_of s1 t \<noteq> thread_finished_st" "waiters s1 t = {}"
      using st s1(3) sframe_waiters [OF s1(3) _ st(2)] by (simp_all add: sframe_def)
    obtain s2 where s2: "yield_priority yield s1 = Inr s2" "yielding t s1 s2"
      "running_threads s2 \<noteq> [] \<or> parked s1 t \<and> (\<forall>y < s_n s2. \<forall>i < s_n s2. prio s2 y i = 0)"
      using yield_priority_inv [OF s1(2) f1(1,2) st1 f1(3) False B1 B(2)] by blast
    have inv2: "sched_inv s2" using sched_inv_yielding [OF inv1 s2(2)] st(3) f1(4) by simp
    have f2: "sframe {t} s1 s2" using s2(2) by (simp add: yielding_def)
    have "can_go s2"
    proof (cases "running_threads s2 = []")
      case True
      then have p1: "parked s1 t" and z: "\<forall>y < s_n s2. \<forall>i < s_n s2. prio s2 y i = 0" using s2(3) by simp_all
      have tt: "timed_threads s2 = timed_threads s" using f2 f1(5) by (simp add: sframe_def)
      have "running_threads s = [] \<or> timed_threads s \<noteq> []"
      proof (rule disjCI)
        show "running_threads s = []"
        proof (rule ccontr)
          assume "running_threads s \<noteq> []"
          then obtain j where j: "j \<in> set (running_threads s)" by (cases "running_threads s") auto
          then have j1: "j \<in> set (running_threads s1)" using s1(3) unfolding sframe_def by blast
          then have "state_of s1 j = thread_running" using scoreD(3) [OF s1(2)] by blast
          then have "j \<noteq> t" using p1 by (auto simp: parked_def)
          then have "j \<in> set (running_threads s2)" using j1 f2 unfolding sframe_def by blast
          then show False using True by simp
        qed
      qed
      then have "timed_threads s2 \<noteq> []" using go tt by (auto simp: can_step_def can_go_def)
      then show ?thesis using timed_no_debts [OF inv2 z] by simp
    qed (simp add: can_go_def)
    then show ?thesis using False s2(1) inv2 f2 s1(3) by (simp add: sframe_def)
  qed
  then obtain s2 where s2: "(if yield \<noteq> 0 then yield_priority yield s1 else Inr s1) = Inr s2" "sched_inv s2" "can_go s2"
    "s_n s2 = s_n s" "s_kind s2 = s_kind s" "s_thread s2 = s_thread s" "stree s2 = stree s" "stree_depth s2 = stree_depth s"
    "switches_remain s2 = switches_remain s" by blast
  have "tot b (\<lambda>(th, r, s'). picked b s2 th s' \<and> switch_ok t s2 th s')
    (let (can, s) = can_switch t s2
     in rbind (if can \<or> state_of s t \<noteq> thread_running then tree_choose s
               else Inr (st_index (s_threads s t), unpark_normal, s))
          (\<lambda>(thread_index, reason, s).
             if st_index (s_threads s t) = thread_index then Inr (thread_index, reason, s)
             else rbind (on_switch t s) (\<lambda>s. Inr (thread_index, reason, s))))"
    using s2 t b by (intro tree_last_tot) (simp_all add: replay_free_def)
  moreover have "picked b s2 th s' \<and> switch_ok t s2 th s' \<longleftrightarrow> picked b s th s' \<and> switch_ok t s th s'" for th s'
    using s2(4-6,9) by (simp add: picked_def switch_ok_def)
  ultimately show ?thesis
    using s1(1) s2(1) t(1) by (simp add: tree_schedule_impl_def)
qed

lemma schedule_tot:
  assumes inv: "sched_inv s" and t: "s_thread s = Some t" "t < s_n s" and go: "can_step yield s"
    and y: "yield \<noteq> 0 \<longrightarrow> settled s" and b: "b \<longrightarrow> replay_free s" and B: "debts_fit B s" "yield < B"
  shows "tot b (\<lambda>(th, r, s'). sched_inv s' \<and> s_thread s' = Some th \<and> th < s_n s' \<and> state_of s' th = thread_running \<and>
    s_n s' = s_n s \<and> s_kind s' = s_kind s \<and> switch_ok t s th s' \<and> (b \<longrightarrow> replay_free s')) (sched_schedule yield s)"
  unfolding sched_schedule_def
proof (rule tot_bind [where Q = "\<lambda>(th, r, s'). picked b s th s' \<and> switch_ok t s th s'"])
  show "tot b (\<lambda>(th, r, s'). picked b s th s' \<and> switch_ok t s th s')
    (if s_kind s = sched_random then random_schedule_impl s else tree_schedule_impl (yield mod 2 ^ 32) s)"
  proof (cases "s_kind s = sched_random")
    case True
    have "tot b (\<lambda>(th, r, s'). picked b s th s') (random_schedule_impl s)"
      using go by (intro random_schedule_tot [OF inv _ b True]) (auto simp: can_go_def can_step_def)
    then have "tot b (\<lambda>(th, r, s'). picked b s th s' \<and> switch_ok t s th s') (random_schedule_impl s)"
      by (rule tot_mono) (auto simp: switch_ok_def True)
    then show ?thesis using True by simp
  next
    case False
    have "B * 1 \<le> B * s_n s" using t(2) by (intro mult_left_mono) simp_all
    then have "B \<le> 2 ^ 32" using B(1) unfolding debts_fit_def by linarith
    then have "yield mod 2 ^ 32 = yield" using B(2) by simp
    then show ?thesis using tree_schedule_tot [OF inv t go y False b B] False by simp
  qed
  have th: "sched_inv (x\<lparr>s_thread := u\<rparr>) = sched_inv x" for x u
    by (simp add: sched_inv_def lists_ok_def)
  fix x assume "case x of (th, r, s') \<Rightarrow> picked b s th s' \<and> switch_ok t s th s'"
  then show "tot b (\<lambda>(th, r, s'). sched_inv s' \<and> s_thread s' = Some th \<and> th < s_n s' \<and> state_of s' th = thread_running \<and>
    s_n s' = s_n s \<and> s_kind s' = s_kind s \<and> switch_ok t s th s' \<and> (b \<longrightarrow> replay_free s'))
    (case x of (th, reason, s) \<Rightarrow> rl_verify (state_of s th = thread_running) (Inr (th, reason, s\<lparr>s_thread := Some th\<rparr>)))"
    by (cases x) (auto simp: picked_def th switch_ok_def replay_free_def)
qed

section \<open>The start of an iteration\<close>

definition sched_idle :: "sched \<Rightarrow> bool" where
  "sched_idle s \<longleftrightarrow>
     total_dynamic_threads s < s_n s \<and> running_threads s = [] \<and> (\<forall>i < s_n s. st_index (s_threads s i) = i) \<and>
     (s_kind s = sched_random \<longrightarrow>
        (\<forall>y < s_n s. total_yield_priority (s_threads s y) = 0 \<and> (\<forall>i. prio s y i = 0)))"

definition begin_state :: "nat \<Rightarrow> sched \<Rightarrow> sched" where
  "begin_state it s = (let n = s_n s in
     s\<lparr>s_iter := it, running_threads_count := n, finished_thread_count := 0,
       timed_threads := [], spurious_threads := [], dynamic_threads := [],
       running_threads := running_threads s @ [0..<n],
       s_threads := (\<lambda>i. if i < n then reset_sched_thread n (s_kind s) (s_threads s i) else s_threads s i)\<rparr>)"

lemma begin_state_inv:
  assumes "sched_idle s"
  shows "sched_inv (begin_state it s) \<and> (\<forall>i < s_n s. state_of (begin_state it s) i = thread_running)"
proof -
  define s' where "s' = begin_state it s"
  have n: "s_n s' = s_n s" "s_kind s' = s_kind s" "running_threads s' = [0..< s_n s]" "running_threads_count s' = s_n s"
    "finished_thread_count s' = 0" "timed_threads s' = []" "spurious_threads s' = []" "dynamic_threads s' = []"
    using assms by (simp_all add: s'_def begin_state_def sched_idle_def Let_def)
  have th: "i < s_n s \<Longrightarrow> st_index (s_threads s' i) = i \<and> blocks s' i = 0 \<and> state_of s' i = thread_running \<and>
      total_yield_priority (s_threads s' i) = 0 \<and> (\<forall>j < s_n s. prio s' i j = 0)" for i
    using assms by (cases "s_kind s") (auto simp: s'_def begin_state_def reset_sched_thread_def sched_idle_def Let_def)
  then have w: "i < s_n s \<Longrightarrow> waiters s' i = {}" for i by (auto simp: waiters_def n)
  have "score None s'"
    by (rule scoreI) (use th w in \<open>auto simp: n owed_def\<close>)
  then show ?thesis using th by (simp add: sched_inv_def lists_ok_def n flip: s'_def)
qed

lemma block_dynamic_inv:
  assumes inv: "sched_inv s" and i: "i < s_n s" "state_of s i = thread_running"
  shows "\<exists>s'. block_thread i (s\<lparr>dynamic_threads := dynamic_threads s @ [i]\<rparr>) = Inr s' \<and> sched_inv s' \<and>
    sframe {i} (s\<lparr>dynamic_threads := dynamic_threads s @ [i]\<rparr>) s'"
proof -
  let ?s = "s\<lparr>dynamic_threads := dynamic_threads s @ [i]\<rparr>"
  have "score None ?s" using inv by (simp add: sched_inv_def)
  then obtain s' where s': "block_thread i ?s = Inr s'" "score None s'" "sframe {i} ?s s'" "parked s' i" "waiters s' i = {}"
    using block_inv [of ?s i] i by auto
  have l: "lists_ok s" using inv by (simp add: sched_inv_def)
  have ni: "i \<notin> set (timed_threads s) \<union> set (spurious_threads s) \<union> set (dynamic_threads s)"
    using l running_not_parked [OF i(2)] by (auto simp: lists_ok_def)
  have "parked s' j" if "j \<in> set (timed_threads s) \<union> set (spurious_threads s) \<union> set (dynamic_threads s) \<union> {i}" for j
    using that l s'(3,4) by (cases "j = i") (auto simp: lists_ok_def sframe_def)
  moreover have "waiters s' j = {}" if "j \<in> set (dynamic_threads s) \<union> {i}" for j
    using that ni l s'(5) sframe_waiters [OF s'(3), of j] by (cases "j = i") (auto simp: lists_ok_def)
  ultimately have "lists_ok s'"
    using l ni s'(3) unfolding lists_ok_def by (simp add: sframe_def)
  then show ?thesis using s' by (auto simp: sched_inv_def)
qed


lemma block_dynamics_inv:
  assumes inv: "sched_inv s" and run: "\<forall>i < s_n s. state_of s i = thread_running" and k: "0 < k" "k \<le> s_n s"
  shows "\<exists>s'. rfold (\<lambda>i s. block_thread i (s\<lparr>dynamic_threads := dynamic_threads s @ [i]\<rparr>)) [k..< s_n s] s = Inr s' \<and>
    sched_inv s' \<and> running_threads s' \<noteq> [] \<and> s_n s' = s_n s \<and> s_kind s' = s_kind s \<and> stree s' = stree s \<and>
    s_params s' = s_params s \<and> s_iter s' = s_iter s"
proof -
  let ?P = "\<lambda>rest s'. sched_inv s' \<and> s_n s' = s_n s \<and> s_kind s' = s_kind s \<and> stree s' = stree s \<and> s_params s' = s_params s \<and>
    s_iter s' = s_iter s \<and> distinct rest \<and> set rest \<subseteq> {k..< s_n s} \<and> {..<k} \<union> set rest \<subseteq> set (running_threads s')"
  let ?f = "\<lambda>i s. block_thread i (s\<lparr>dynamic_threads := dynamic_threads s @ [i]\<rparr>)"
  have "\<exists>s'. rfold ?f [k..< s_n s] s = Inr s' \<and> ?P [] s'"
  proof (rule rfold_total [where P = ?P])
    have "set (running_threads s) = {..< s_n s}"
    proof -
      have "score None s" using inv by (simp add: sched_inv_def)
      from scoreD(3) [OF this] run show ?thesis by (auto simp: set_eq_iff)
    qed
    moreover have "{..<k} \<union> {k..< s_n s} \<subseteq> {..< s_n s}" using k(2) by auto
    ultimately show "?P [k..< s_n s] s" using inv by simp
    fix i rest s1
    assume P: "?P (i # rest) s1"
    then have i: "i < s_n s1" "state_of s1 i = thread_running"
      using scoreD(3) [of None s1] by (auto simp: sched_inv_def)
    obtain s2 where s2: "?f i s1 = Inr s2" "sched_inv s2" "sframe {i} (s1\<lparr>dynamic_threads := dynamic_threads s1 @ [i]\<rparr>) s2"
      using block_dynamic_inv [OF _ i] P by blast
    then have "set (running_threads s1) - {i} \<subseteq> set (running_threads s2)" by (simp add: sframe_def)
    moreover have "i \<notin> {..<k}" "i \<notin> set rest" using P by auto
    ultimately show "\<exists>s2. ?f i s1 = Inr s2 \<and> ?P rest s2"
      using P s2 by (intro exI [of _ s2]) (auto simp: sframe_def)
  qed
  then obtain s' where s': "rfold ?f [k..< s_n s] s = Inr s'" "?P [] s'" by blast
  then have "0 \<in> set (running_threads s')" using k by auto
  then have "running_threads s' \<noteq> []" by auto
  with s' show ?thesis by blast
qed

lemma sched_inv_thread [simp]: "sched_inv (x\<lparr>s_thread := u\<rparr>) = sched_inv x"
  by (simp add: sched_inv_def lists_ok_def)

lemma sched_inv_choice_fields [simp]:
  "sched_inv (s\<lparr>s_rand := g\<rparr>) = sched_inv s" "sched_inv (s\<lparr>stree_depth := d\<rparr>) = sched_inv s"
  by (simp_all add: sched_inv_def score_def owed_def waiters_def lists_ok_def parked_def)

lemma tree_begin_tot:
  assumes inv: "sched_inv s" and r: "running_threads s \<noteq> []" and k: "s_kind s \<noteq> sched_random"
    and b: "b \<longrightarrow> stree s = []"
  shows "tot b (\<lambda>(th, s'). picked b s th s') (tree_iteration_begin_impl s)"
  unfolding tree_iteration_begin_impl_def
proof (rule tot_bind)
  let ?s = "s\<lparr>stree_depth := 0\<rparr>"
  have cnt: "running_threads_count s = length (running_threads s)" using inv by (rule sched_inv_count)
  have "sched_rand ?s (running_threads_count s) sched_type_sched = rand_impl ?s (running_threads_count s) sched_type_sched"
    using cnt r by (simp add: sched_rand_def)
  moreover have "tot b (\<lambda>(i, s'). i < running_threads_count s \<and> schoice ?s s' \<and> (b \<longrightarrow> replay_free s'))
      (sched_rand ?s (running_threads_count s) sched_type_sched)"
    using cnt r b by (intro sched_rand_tot) (simp_all add: replay_free_def)
  ultimately show "tot b (\<lambda>(i, s'). i < running_threads_count s \<and> schoice ?s s' \<and> (b \<longrightarrow> replay_free s'))
      (rand_impl ?s (running_threads_count s) sched_type_sched)" by simp
  fix x :: "nat \<times> sched"
  assume "case x of (i, s') \<Rightarrow> i < running_threads_count s \<and> schoice ?s s' \<and> (b \<longrightarrow> replay_free s')"
  then obtain i s1 where x: "x = (i, s1)" "i < running_threads_count s" "schoice ?s s1" "b \<longrightarrow> replay_free s1"
    by (cases x) auto
  have "sched_inv s1" using inv schoice_sched_inv [OF x(3)] by simp
  then show "tot b (\<lambda>(th, s'). picked b s th s') (case x of (index, s) \<Rightarrow> Inr (running_threads s ! index, s))"
    using nth_running [of s1 i] x cnt schoice_fields [OF x(3)] by (simp add: picked_def)
qed

lemma iteration_begin_tot:
  assumes idle: "sched_idle s" and b: "b \<longrightarrow> s_kind s = sched_random \<or> stree s = []"
  shows "tot b (\<lambda>(th, s'). sched_inv s' \<and> s_thread s' = Some th \<and> th < s_n s' \<and> state_of s' th = thread_running \<and>
    s_n s' = s_n s \<and> s_kind s' = s_kind s \<and> (b \<longrightarrow> replay_free s')) (sched_iteration_begin it s)"
proof -
  define s0 where "s0 = begin_state it s"
  have s0: "sched_inv s0" "\<forall>i < s_n s0. state_of s0 i = thread_running" "s_n s0 = s_n s" "s_kind s0 = s_kind s"
    "stree s0 = stree s" "total_dynamic_threads s0 = total_dynamic_threads s"
    using begin_state_inv [OF idle, of it] by (simp_all add: s0_def begin_state_def Let_def)
  let ?f = "\<lambda>i s. block_thread i (s\<lparr>dynamic_threads := dynamic_threads s @ [i]\<rparr>)"
  obtain s1 where s1: "rfold ?f [s_n s0 - total_dynamic_threads s0..< s_n s0] s0 = Inr s1" "sched_inv s1"
    "running_threads s1 \<noteq> []" "s_n s1 = s_n s" "s_kind s1 = s_kind s" "stree s1 = stree s"
    using block_dynamics_inv [OF s0(1,2), of "s_n s0 - total_dynamic_threads s0"] idle s0
    by (auto simp: sched_idle_def)
  have e: "sched_iteration_begin it s = rbind (rfold ?f [s_n s0 - total_dynamic_threads s0..< s_n s0] s0)
      (\<lambda>s. rbind (iteration_begin_impl s) (\<lambda>(th, s). Inr (th, s\<lparr>s_thread := Some th\<rparr>)))"
    by (simp add: sched_iteration_begin_def s0_def begin_state_def Let_def)
  have "tot b (\<lambda>(th, s'). sched_inv s' \<and> th < s_n s' \<and> state_of s' th = thread_running \<and>
    s_n s' = s_n s \<and> s_kind s' = s_kind s \<and> (b \<longrightarrow> replay_free s')) (iteration_begin_impl s1)"
  proof (cases "s_kind s1")
    case sched_random
    let ?s = "s1\<lparr>s_rand := rg_seed (of_nat (s_iter s1))\<rparr>"
    have "tot b (\<lambda>(th, r, s'). picked b ?s th s') (random_schedule_impl ?s)"
      using s1 sched_random by (intro random_schedule_tot) (simp_all add: replay_free_def)
    then have "tot b (\<lambda>(th, s'). picked b ?s th s') (iteration_begin_impl s1)"
      by (auto simp: iteration_begin_impl_def sched_random intro: tot_bind)
    then show ?thesis by (rule tot_mono) (use s1 in \<open>auto simp: picked_def\<close>)
  next
    case sched_bound
    let ?s = "s1\<lparr>switches_remain := context_bound (s_params s1)\<rparr>"
    have "tot b (\<lambda>(th, s'). picked b ?s th s') (tree_iteration_begin_impl ?s)"
      using s1 sched_bound b by (intro tree_begin_tot) simp_all
    then show ?thesis using sched_bound
      by (simp add: iteration_begin_impl_def) (erule tot_mono, use s1 in \<open>auto simp: picked_def\<close>)
  next
    case sched_full
    have "tot b (\<lambda>(th, s'). picked b s1 th s') (tree_iteration_begin_impl s1)"
      using s1 sched_full b by (intro tree_begin_tot) simp_all
    then show ?thesis using sched_full
      by (simp add: iteration_begin_impl_def) (erule tot_mono, use s1 in \<open>auto simp: picked_def\<close>)
  qed
  then have "tot b (\<lambda>(th, s'). sched_inv s' \<and> s_thread s' = Some th \<and> th < s_n s' \<and> state_of s' th = thread_running \<and>
    s_n s' = s_n s \<and> s_kind s' = s_kind s \<and> (b \<longrightarrow> replay_free s'))
    (rbind (iteration_begin_impl s1) (\<lambda>(th, s). Inr (th, s\<lparr>s_thread := Some th\<rparr>)))"
    by (rule tot_bind) (auto simp: replay_free_def)
  then show ?thesis by (simp add: e s1(1))
qed

end
