(* ===== verification/Scheduler_Props.thy ===== *)
theory Scheduler_Props
  imports Scheduler_Sched
begin

text \<open>
  The properties of the schedulers over everything a test can do in one iteration: the states
  reachable through the operations of the base class, with the guards their callers establish.
\<close>

section \<open>Reachable states\<close>

abbreviation current_running :: "sched \<Rightarrow> bool" where
  "current_running s \<equiv> state_of s (the (s_thread s)) = thread_running"

text \<open>
  \<open>sched_reach B s0 k s\<close>: from \<open>s0\<close> an iteration reaches \<open>s\<close> with \<open>k\<close> preemptions, and no yield of it is as large
  as \<open>B\<close>.
\<close>

inductive sched_reach :: "nat \<Rightarrow> sched \<Rightarrow> nat \<Rightarrow> sched \<Rightarrow> bool" for B s0 where
  reach_begin: "sched_iteration_begin it s0 = Inr (th, s) \<Longrightarrow> sched_reach B s0 0 s"
| reach_schedule: "sched_reach B s0 k s \<Longrightarrow> can_step yield s \<Longrightarrow> (yield \<noteq> 0 \<longrightarrow> settled s) \<Longrightarrow>
    sched_schedule yield s = Inr (th, r, s') \<Longrightarrow> yield < B \<Longrightarrow>
    sched_reach B s0 (if the (s_thread s) \<noteq> th \<and> state_of s' (the (s_thread s)) = thread_running then k + 1 else k) s'"
| reach_park: "sched_reach B s0 k s \<Longrightarrow> current_running s \<Longrightarrow> sched_park_current timed spur s = Inr (b, s') \<Longrightarrow>
    sched_reach B s0 k s'"
| reach_unpark: "sched_reach B s0 k s \<Longrightarrow> parked s th \<Longrightarrow> th \<notin> set (dynamic_threads s) \<Longrightarrow>
    sched_unpark th s = Inr s' \<Longrightarrow> sched_reach B s0 k s'"
| reach_finish: "sched_reach B s0 k s \<Longrightarrow> current_running s \<Longrightarrow> thread_finished s = Inr (fr, s') \<Longrightarrow> sched_reach B s0 k s'"
| reach_create: "sched_reach B s0 k s \<Longrightarrow> sched_create_thread s = Inr (th, s') \<Longrightarrow> sched_reach B s0 k s'"
| reach_rand: "sched_reach B s0 k s \<Longrightarrow> sched_rand s limit t = Inr (r, s') \<Longrightarrow> sched_reach B s0 k s'"

definition sched_ok :: "sched \<Rightarrow> bool" where
  "sched_ok s \<longleftrightarrow> sched_inv s \<and> (\<exists>t. s_thread s = Some t \<and> t < s_n s)"

lemma tot_False_Inr: "tot False Q m \<Longrightarrow> m = Inr x \<Longrightarrow> Q x"
  by (simp add: tot_def)

lemma rand_reach:
  assumes "sched_rand s limit t = Inr (r, s')"
  shows "r < limit \<and> schoice s s'"
proof -
  have "limit \<noteq> 0" using assms by (auto simp: sched_rand_def rl_verify_Inr)
  from tot_False_Inr [OF sched_rand_tot [OF this] assms] show ?thesis by simp
qed

lemma finished_thread_same:
  assumes "sched_inv s" "s_thread s = Some t" "t < s_n s" "current_running s" "thread_finished s = Inr (r, s')"
  shows "sched_inv s' \<and> finish_ok r s' \<and> s_n s' = s_n s"
  using finished_inv [OF assms(1-3)] assms(2,4,5) by auto

section \<open>What all operations keep\<close>

text \<open>Nothing here depends on the size of the debts.\<close>

definition roster :: "sched \<Rightarrow> bool" where
  "roster s \<longleftrightarrow> (\<forall>i < s_n s. st_index (s_threads s i) = i) \<and> set (running_threads s) \<subseteq> {..< s_n s} \<and>
     running_threads_count s = length (running_threads s)"

text \<open>The current thread changes in \<open>schedule\<close> and \<open>iteration_begin\<close> only.\<close>

definition kept :: "sched \<Rightarrow> sched \<Rightarrow> bool" where
  "kept s s' \<longleftrightarrow> s_thread s' = s_thread s \<and> switches_remain s' = switches_remain s \<and> s_params s' = s_params s \<and>
     s_kind s' = s_kind s \<and> s_n s' = s_n s \<and> (roster s \<longrightarrow> roster s')"

text \<open>No debt has grown.\<close>

definition lower :: "sched \<Rightarrow> sched \<Rightarrow> bool" where
  "lower s s' \<longleftrightarrow> kept s s' \<and> (\<forall>y i. prio s' y i \<le> prio s y i)"

lemma kept_refl [simp]: "kept s s" and lower_refl [simp]: "lower s s"
  by (simp_all add: kept_def lower_def)

lemma kept_trans: "kept s s' \<Longrightarrow> kept s' s'' \<Longrightarrow> kept s s''"
  by (auto simp: kept_def)

lemma lower_kept: "lower s s' \<Longrightarrow> kept s s'"
  by (simp add: lower_def)

lemma lower_fit: "lower s s' \<Longrightarrow> debts_fit B s \<Longrightarrow> debts_fit B s'"
  by (auto simp: lower_def kept_def intro: debts_fit_le)

lemma lower_lists [simp]:
  "lower s (s'\<lparr>dynamic_threads := d\<rparr>) = lower s s'" "lower s (s'\<lparr>timed_threads := d\<rparr>) = lower s s'"
  "lower s (s'\<lparr>spurious_threads := d\<rparr>) = lower s s'" "lower s (s'\<lparr>finished_thread_count := c\<rparr>) = lower s s'"
  "lower s (s'\<lparr>s_rand := g\<rparr>) = lower s s'" "lower s (s'\<lparr>stree := st\<rparr>) = lower s s'"
  "lower s (s'\<lparr>stree_depth := c\<rparr>) = lower s s'"
  by (simp_all add: lower_def kept_def roster_def)

lemma lower_upd:
  assumes "lower s s'" "\<And>x. st_index (f x) = st_index x" "\<And>x i. yield_prio (f x) i \<le> yield_prio x i"
  shows "lower s (upd_thread j f s')"
proof -
  have "roster (upd_thread j f s') = roster s'" using assms(2) by (auto simp: roster_def)
  moreover have "prio (upd_thread j f s') y i \<le> prio s y i" for y i
    using assms(1) le_trans [OF assms(3) [of "s_threads s' j" i]] by (simp add: lower_def)
  ultimately show ?thesis using assms(1) by (simp add: lower_def kept_def)
qed

lemma lower_drop:
  "lower s s' \<Longrightarrow> th \<in> set (take (running_threads_count s') (running_threads s')) \<Longrightarrow>
     lower s (s'\<lparr>running_threads := remove1 th (running_threads s'), running_threads_count := running_threads_count s' - 1\<rparr>)"
  by (auto simp: lower_def kept_def roster_def length_remove1 dest: notin_set_remove1 in_set_takeD)

lemma lower_add:
  "lower s s' \<Longrightarrow> th < s_n s' \<Longrightarrow>
     lower s (s'\<lparr>running_threads := running_threads s' @ [th], running_threads_count := running_threads_count s' + 1\<rparr>)"
  by (auto simp: lower_def kept_def roster_def)

lemma rfold_lower:
  assumes "rfold f is s1 = Inr s'" "lower s s1" "\<And>i s1 s2. f i s1 = Inr s2 \<Longrightarrow> lower s s1 \<Longrightarrow> lower s s2"
  shows "lower s s'"
  using rfold_invariant [where P = "lower s", OF assms(1,2)] assms(3) by blast

lemma unblock_lower:
  assumes "unblock_thread i s1 = Inr (b, s')" "lower s s1"
  shows "lower s s'" "i < s_n s"
proof -
  let ?s = "upd_thread i (\<lambda>t. t\<lparr>block_count := dec32 (blocks s1 i)\<rparr>) s1"
  have n: "i < s_n s1" using assms(1) by (simp add: unblock_thread_def rl_verify_Inr)
  then show "i < s_n s" using assms(2) by (simp add: lower_def kept_def)
  have "lower s ?s" by (rule lower_upd [OF assms(2)]) simp_all
  moreover have "lower s (upd_thread i (\<lambda>t. t\<lparr>st_state := thread_running\<rparr>)
      (?s\<lparr>running_threads := running_threads ?s @ [i], running_threads_count := running_threads_count ?s + 1\<rparr>))"
    by (intro lower_upd [OF lower_add [OF \<open>lower s ?s\<close>]]) (use n in simp_all)
  ultimately show "lower s s'" using assms(1) by (auto simp: unblock_thread_def Let_def rl_verify_Inr split: if_splits)
qed

lemma release_lower: "release_yielder y i s1 = Inr s' \<Longrightarrow> lower s s1 \<Longrightarrow> lower s s'"
  by (auto simp: release_yielder_def rbind_Inr split: if_splits intro!: lower_upd elim!: unblock_lower(1))

lemma on_thread_block_lower: "on_thread_block y s1 = Inr s' \<Longrightarrow> lower s s1 \<Longrightarrow> lower s s'"
  by (auto simp: on_thread_block_def split: if_splits intro: rfold_lower release_lower)

lemma block_lower:
  assumes "block_thread t s1 = Inr s'" "lower s s1"
  shows "lower s s'"
proof -
  let ?s = "upd_thread t (\<lambda>t. t\<lparr>block_count := inc32 (block_count t)\<rparr>) s1"
  have l: "lower s ?s" by (rule lower_upd [OF assms(2)]) simp_all
  have "lower s (upd_thread t (\<lambda>t. t\<lparr>st_state := thread_blocked\<rparr>)
      (?s\<lparr>running_threads := remove1 t (running_threads ?s), running_threads_count := running_threads_count ?s - 1\<rparr>))"
    if "t \<in> set (take (running_threads_count s1) (running_threads s1))"
    using that by (intro lower_upd [OF lower_drop [OF l]]) simp_all
  then show ?thesis using assms(1) l
    by (auto simp: block_thread_def Let_def rl_verify_Inr split: if_splits intro: on_thread_block_lower)
qed

lemma purge_lower: "purge_blocked_threads s1 = Inr s' \<Longrightarrow> lower s s1 \<Longrightarrow> lower s s'"
  by (auto simp: purge_blocked_threads_def split: if_splits intro: rfold_lower on_thread_block_lower)

lemma is_deadlock_lower: "is_deadlock s1 = Inr (d, s') \<Longrightarrow> lower s s1 \<Longrightarrow> lower s s'"
  by (auto simp: is_deadlock_def rbind_Inr split: if_splits intro: purge_lower)

lemma park_lower:
  assumes "sched_park_current timed spur s = Inr (b, s')"
  shows "lower s s'"
proof -
  define s1 where "s1 = (if timed then s\<lparr>timed_threads := timed_threads s @ [the (s_thread s)]\<rparr> else s)"
  define s2 where "s2 = (if spur then s1\<lparr>spurious_threads := spurious_threads s1 @ [the (s_thread s)]\<rparr> else s1)"
  obtain s3 d where "block_thread (the (s_thread s)) s2 = Inr s3" "is_deadlock s3 = Inr (d, s')"
    using assms unfolding sched_park_current_def Let_def s1_def [symmetric] s2_def [symmetric]
    by (auto simp: rl_verify_Inr rbind_Inr)
  moreover have "lower s s2" by (simp add: s1_def s2_def)
  ultimately show ?thesis using block_lower is_deadlock_lower by blast
qed

lemma unpark_lower: "sched_unpark th s1 = Inr s' \<Longrightarrow> lower s s1 \<Longrightarrow> lower s s' \<and> th < s_n s"
  by (auto simp: sched_unpark_def rbind_Inr dest: unblock_lower)

lemma create_lower: "sched_create_thread s = Inr (th, s') \<Longrightarrow> lower s s'"
  by (auto simp: sched_create_thread_def Let_def rl_verify_Inr rbind_Inr
      intro: unblock_lower(1) [where ?s1.0 = "s\<lparr>dynamic_threads := butlast (dynamic_threads s)\<rparr>"])

lemma release_dynamic_lower: "release_dynamic s1 = Inr s' \<Longrightarrow> lower s s1 \<Longrightarrow> lower s s'"
  unfolding release_dynamic_def
  by (erule rfold_lower) (auto simp: rbind_Inr dest!: unblock_lower(1))

lemma finish_retry_lower: "finish_retry k s1 = Inr (r, s') \<Longrightarrow> lower s s1 \<Longrightarrow> lower s s'"
proof (induction k arbitrary: s1)
  case (Suc k)
  show ?case
  proof (cases "finished_thread_count s1 = s_n s1")
    case True
    then show ?thesis using Suc.prems by simp
  next
    case False
    then obtain d s2 where d: "is_deadlock s1 = Inr (d, s2)"
      "(if d then (if dynamic_threads s2 \<noteq> [] then rbind (release_dynamic s2) (finish_retry k)
                   else Inr (finish_deadlock, s2)) else Inr (finish_normal, s2)) = Inr (r, s')"
      using Suc.prems(1) by (auto simp: rbind_Inr)
    have k2: "lower s s2" using is_deadlock_lower [OF d(1) Suc.prems(2)] .
    show ?thesis
    proof (cases "d \<and> dynamic_threads s2 \<noteq> []")
      case True
      then obtain s3 where "release_dynamic s2 = Inr s3" "finish_retry k s3 = Inr (r, s')"
        using d(2) by (auto simp: rbind_Inr)
      then show ?thesis using Suc.IH release_dynamic_lower k2 by blast
    next
      case False
      then show ?thesis using d(2) k2 by (auto split: if_splits)
    qed
  qed
qed simp

lemma finished_lower:
  assumes "thread_finished s = Inr (r, s')"
  shows "lower s s'"
proof -
  let ?t = "the (s_thread s)"
  obtain s1 where s1: "block_thread ?t s = Inr s1" "finish_retry 2 (upd_thread ?t (\<lambda>x. x\<lparr>st_state := thread_finished_st\<rparr>) s1
      \<lparr>finished_thread_count := finished_thread_count s1 + 1\<rparr>) = Inr (r, s')"
    using assms unfolding thread_finished_def Let_def by (auto simp: rl_verify_Inr rbind_Inr simp del: finish_retry.simps)
  have "lower s (upd_thread ?t (\<lambda>x. x\<lparr>st_state := thread_finished_st\<rparr>) s1)"
    by (rule lower_upd [OF block_lower [OF s1(1) lower_refl]]) simp_all
  then show ?thesis by (intro finish_retry_lower [OF s1(2)]) simp
qed

lemma schoice_lower: "schoice s1 s' \<Longrightarrow> lower s s1 \<Longrightarrow> lower s s'"
  by (auto simp: schoice_def)

lemma rand_lower: "sched_rand s1 limit t = Inr (r, s') \<Longrightarrow> lower s s1 \<Longrightarrow> lower s s' \<and> r < limit"
  using rand_reach [of s1 limit t r s'] schoice_lower by blast

section \<open>A scheduling step, whatever the debts\<close>

lemma wake_lower:
  "wake_picked th reason s1 = Inr (th', r, s') \<Longrightarrow> lower s s1 \<Longrightarrow> lower s s' \<and> th' < s_n s"
  by (auto simp: wake_picked_def rbind_Inr rl_verify_Inr dest: unpark_lower)

lemma tree_wake_lower:
  assumes "tree_wake cands cnt reason s1 = Inr (w, s')" "lower s s1"
  shows "lower s s' \<and> (\<forall>th r. w = Some (th, r) \<longrightarrow> th < s_n s)"
proof -
  obtain i s2 where s2: "sched_rand s1 cnt sched_type_user = Inr (i, s2)" "lower s s2"
    using assms(1) rand_lower [OF _ assms(2)] unfolding tree_wake_def rbind_Inr by (metis surj_pair)
  show ?thesis
  proof (cases "i < length cands \<and> 1 = blocks s2 (cands ! i)")
    case True
    then show ?thesis using assms(1) s2 wake_lower [OF _ s2(2)] by (auto simp: tree_wake_def rbind_Inr)
  next
    case False
    then show ?thesis using assms(1) s2 by (auto simp: tree_wake_def)
  qed
qed

lemma tree_timed_lower:
  "tree_timed s1 = Inr (w, s') \<Longrightarrow> lower s s1 \<Longrightarrow> lower s s' \<and> (\<forall>th r. w = Some (th, r) \<longrightarrow> th < s_n s)"
  by (auto simp: tree_timed_def split: if_splits dest: tree_wake_lower)

lemma tree_spurious_lower:
  "tree_spurious s1 = Inr (w, s') \<Longrightarrow> lower s s1 \<Longrightarrow> lower s s' \<and> (\<forall>th r. w = Some (th, r) \<longrightarrow> th < s_n s)"
  by (auto simp: tree_spurious_def split: if_splits dest: tree_wake_lower)

lemma tree_normal_lower:
  assumes "tree_normal s1 = Inr (th, r, s')" "lower s s1" "roster s"
  shows "lower s s' \<and> th < s_n s"
proof -
  have r1: "set (running_threads s1) \<subseteq> {..< s_n s}" "running_threads_count s1 = length (running_threads s1)"
    using assms(2,3) by (auto simp: lower_def kept_def roster_def)
  show ?thesis
  proof (cases "1 = running_threads_count s1")
    case True
    then have "running_threads s1 ! 0 \<in> set (running_threads s1)" using r1(2) by (intro nth_mem) linarith
    then show ?thesis using True assms(1,2) r1(1) by (auto simp: tree_normal_def)
  next
    case False
    then obtain i s2 where s2: "sched_rand s1 (running_threads_count s1) sched_type_sched = Inr (i, s2)"
      "th = running_threads s2 ! i" "s' = s2"
      using assms(1) by (auto simp: tree_normal_def rbind_Inr)
    have i: "i < running_threads_count s1" "schoice s1 s2" using rand_reach [OF s2(1)] by simp_all
    then have "th \<in> set (running_threads s1)" using s2(2) r1(2) by (simp add: schoice_fields [OF i(2)])
    then show ?thesis using r1(1) s2(3) schoice_lower [OF i(2) assms(2)] by auto
  qed
qed

lemma tree_choose_lower:
  assumes "tree_choose s1 = Inr (th, r, s')" "lower s s1" "roster s"
  shows "lower s s' \<and> th < s_n s"
proof -
  obtain w s2 where s2: "tree_timed s1 = Inr (w, s2)" "lower s s2" "\<forall>th r. w = Some (th, r) \<longrightarrow> th < s_n s"
    using assms(1) tree_timed_lower [OF _ assms(2)] unfolding tree_choose_def rbind_Inr by (metis surj_pair)
  show ?thesis
  proof (cases w)
    case (Some x)
    then show ?thesis using assms(1) s2 by (cases x) (auto simp: tree_choose_def rl_verify_Inr)
  next
    case None
    then obtain w2 s3 where s3: "tree_spurious s2 = Inr (w2, s3)"
      "(case w2 of Some (th, reason) \<Rightarrow> Inr (th, reason, s3) | None \<Rightarrow> tree_normal s3) = Inr (th, r, s')"
      using assms(1) s2(1) by (auto simp: tree_choose_def rl_verify_Inr rbind_Inr)
    note l3 = tree_spurious_lower [OF s3(1) s2(2)]
    then show ?thesis using s3(2) tree_normal_lower [OF _ _ assms(3)] by (cases w2) (auto split: prod.splits)
  qed
qed

lemma pay_yielder_lower: "pay_yielder t i s1 = Inr s' \<Longrightarrow> lower s s1 \<Longrightarrow> lower s s'"
  unfolding pay_yielder_def
  by (auto simp: rbind_Inr Let_def split: if_splits intro!: lower_upd elim!: unblock_lower(1))

lemma pay_yielders_lower: "pay_yielders t s1 = Inr s' \<Longrightarrow> lower s s1 \<Longrightarrow> lower s s'"
  by (auto simp: pay_yielders_def split: if_splits intro: rfold_lower pay_yielder_lower)

lemma yield_to_keeps:
  assumes "yield_to t yield i s1 = Inr s'" "kept s s1"
  shows "kept s s' \<and> (debts_fit B s1 \<and> yield < B \<longrightarrow> debts_fit B s')"
proof -
  let ?f = "\<lambda>y. y\<lparr>yield_prio := (yield_prio y)(t := yield), total_yield_priority := add32 (total_yield_priority y) yield\<rparr>"
  have u: "kept s1 (upd_thread i ?f s1)" "debts_fit B s1 \<and> yield < B \<longrightarrow> debts_fit B (upd_thread i ?f s1)"
    by (auto simp: kept_def roster_def debts_fit_def)
  obtain s2 where s2: "s2 = s1 \<or> block_thread t (upd_thread i ?f s1) = Inr s2"
    "s' = upd_thread i (\<lambda>y. y\<lparr>yield_sched_count := (yield_sched_count y)(t := 0)\<rparr>) s2"
    using assms(1) by (auto simp: yield_to_def rl_verify_Inr rbind_Inr split: if_splits)
  have l: "lower s2 s'" unfolding s2(2) by (rule lower_upd) simp_all
  have "kept s1 s2 \<and> (debts_fit B s1 \<and> yield < B \<longrightarrow> debts_fit B s2)"
  proof (cases "s2 = s1")
    case False
    then have "lower (upd_thread i ?f s1) s2" using s2(1) block_lower [OF _ lower_refl] by blast
    then show ?thesis using u lower_kept kept_trans lower_fit by blast
  qed simp
  then show ?thesis using l lower_kept kept_trans [OF assms(2)] kept_trans lower_fit by blast
qed

lemma yield_priority_keeps:
  assumes "yield_priority yield s = Inr s'"
  shows "kept s s' \<and> (debts_fit B s \<and> yield < B \<longrightarrow> debts_fit B s')"
proof -
  let ?P = "\<lambda>x. kept s x \<and> (debts_fit B s \<and> yield < B \<longrightarrow> debts_fit B x)"
  obtain s1 where s1: "rfold (yield_to (the (s_thread s)) yield) [0..< s_n s] s = Inr s1"
    "(if running_threads_count s1 = 0 then purge_blocked_threads s1 else Inr s1) = Inr s'"
    using assms by (auto simp: yield_priority_def rl_verify_Inr rbind_Inr)
  have "?P s1"
    by (rule rfold_invariant [where P = ?P, OF s1(1)]) (use yield_to_keeps [of "the (s_thread s)" yield _ _ _ s B] in auto)
  moreover have "lower s1 s'" using s1(2) purge_lower by (auto split: if_splits)
  ultimately show ?thesis using lower_kept kept_trans lower_fit by blast
qed

text \<open>Only \<open>on_switch\<close> spends a preemption.\<close>

lemma tree_schedule_keeps:
  assumes "tree_schedule_impl yield s = Inr (th, r, s')" "s_thread s = Some t" "t < s_n s" "roster s"
  shows "s_n s' = s_n s \<and> s_kind s' = s_kind s \<and> s_params s' = s_params s \<and> roster s' \<and> th < s_n s \<and> switch_ok t s th s' \<and>
    (debts_fit B s \<and> yield < B \<longrightarrow> debts_fit B s')"
proof -
  obtain s1 s2 where s1: "pay_yielders t s = Inr s1" and s2: "(if yield \<noteq> 0 then yield_priority yield s1 else Inr s1) = Inr s2"
    and e: "(let (can, s) = can_switch t s2
         in rbind (if can \<or> state_of s t \<noteq> thread_running then tree_choose s else Inr (st_index (s_threads s t), unpark_normal, s))
              (\<lambda>(thread_index, reason, s).
                 if st_index (s_threads s t) = thread_index then Inr (thread_index, reason, s)
                 else rbind (on_switch t s) (\<lambda>s. Inr (thread_index, reason, s)))) = Inr (th, r, s')"
    using assms(1,2) by (auto simp: tree_schedule_impl_def rbind_Inr)
  have l1: "lower s s1" by (rule pay_yielders_lower [OF s1 lower_refl])
  have k2: "kept s s2" "debts_fit B s \<and> yield < B \<longrightarrow> debts_fit B s2"
    using s2 yield_priority_keeps [of yield s1 s2 B] lower_kept [OF l1] lower_fit [OF l1]
      kept_trans [OF lower_kept [OF l1], of s2] by (auto split: if_splits)
  obtain can s3 where s3: "can_switch t s2 = (can, s3)" by (cases "can_switch t s2")
  have l3: "lower s2 s3" using s3 by (auto simp: can_switch_def Let_def split: if_splits intro!: lower_upd)
  have r2: "roster s2" "s_n s2 = s_n s" using k2(1) assms(4) by (simp_all add: kept_def)
  obtain s4 where s4: "(if can \<or> state_of s3 t \<noteq> thread_running then tree_choose s3
      else Inr (st_index (s_threads s3 t), unpark_normal, s3)) = Inr (th, r, s4)"
    "(if st_index (s_threads s4 t) = th then Inr (th, r, s4) else rbind (on_switch t s4) (\<lambda>s. Inr (th, r, s))) = Inr (th, r, s')"
    using e s3 by (auto simp: rbind_Inr split: if_splits prod.splits)
  have "lower s2 s4 \<and> th < s_n s"
  proof (cases "can \<or> state_of s3 t \<noteq> thread_running")
    case True
    then show ?thesis using s4(1) tree_choose_lower [OF _ l3 r2(1)] r2(2) by simp
  next
    case False
    then have "th = st_index (s_threads s3 t)" "s4 = s3" using s4(1) by auto
    moreover have "roster s3" "s_n s3 = s_n s" using l3 r2 by (simp_all add: lower_def kept_def)
    ultimately show ?thesis using l3 assms(3) by (simp add: roster_def)
  qed
  then have l4: "lower s2 s4" and th: "th < s_n s" by simp_all
  have k4: "kept s s4" "debts_fit B s \<and> yield < B \<longrightarrow> debts_fit B s4" using k2 l4 lower_kept kept_trans lower_fit by blast+
  have r4: "roster s4" "s_n s4 = s_n s" "st_index (s_threads s4 t) = t"
    using k4(1) assms(3,4) by (auto simp: kept_def roster_def)
  show ?thesis
  proof (cases "t = th")
    case True
    then show ?thesis using s4(2) r4 k4 th by (simp add: kept_def switch_ok_def)
  next
    case False
    then have o: "on_switch t s4 = Inr s'" using s4(2) r4(3) by (auto simp: rbind_Inr)
    then show ?thesis using False k4 r4 th
      by (auto simp: on_switch_def rl_verify_Inr kept_def switch_ok_def roster_def debts_fit_def split: if_splits)
  qed
qed

lemma random_lower:
  assumes "random_schedule_impl s = Inr (th, r, s')"
  shows "lower s s'"
proof -
  have pick: "lower s s2" if "random_pick s1 c = (i, s2)" "lower s s1" for s1 s2 c i
    using that by (auto simp: random_pick_def split: prod.splits)
  have normal: "lower s s2" if "random_normal c s1 = Inr (th, r, s2)" "lower s s1" for c s1 s2
    using that pick by (auto simp: random_normal_def rl_verify_Inr split: prod.splits)
  have spur: "lower s s2" if "random_spurious c s1 = Inr (th, r, s2)" "lower s s1" for c s1 s2
    using that normal pick wake_lower
    by (auto simp: random_spurious_def Let_def rl_verify_Inr split: if_splits prod.splits)
  show ?thesis
    using assms spur pick wake_lower
    by (auto simp: random_schedule_impl_def Let_def rl_verify_Inr split: if_splits prod.splits)
qed

lemma schedule_fit:
  assumes "sched_schedule yield s = Inr (th, r, s')" "s_thread s = Some t" "t < s_n s" "roster s" "debts_fit B s" "yield < B"
  shows "debts_fit B s'"
proof -
  have y: "yield mod 2 ^ 32 < B" using assms(6) le_less_trans [OF mod_less_eq_dividend] by blast
  obtain s1 where s1: "(if s_kind s = sched_random then random_schedule_impl s else tree_schedule_impl (yield mod 2 ^ 32) s) = Inr (th, r, s1)"
    "s' = s1\<lparr>s_thread := Some th\<rparr>"
    using assms(1) by (auto simp: sched_schedule_def rbind_Inr rl_verify_Inr)
  have "debts_fit B s1"
  proof (cases "s_kind s = sched_random")
    case True
    then show ?thesis using s1(1) lower_fit [OF random_lower assms(5)] by simp
  next
    case False
    then show ?thesis using s1(1) tree_schedule_keeps [OF _ assms(2-4), of "yield mod 2 ^ 32" th r s1 B] assms(5) y by simp
  qed
  then show ?thesis using s1(2) by (simp add: debts_fit_def)
qed

lemma inv_roster: "sched_inv s \<Longrightarrow> roster s"
  using scoreD(1,3,4) [of None s] by (auto simp: sched_inv_def roster_def)

section \<open>Every reachable state is well formed\<close>

lemma debts_fit_upd [simp]:
  "debts_fit B (s\<lparr>s_thread := th\<rparr>) = debts_fit B s" "debts_fit B (s\<lparr>s_rand := g\<rparr>) = debts_fit B s"
  "debts_fit B (s\<lparr>switches_remain := c\<rparr>) = debts_fit B s" "debts_fit B (s\<lparr>stree_depth := c\<rparr>) = debts_fit B s"
  "debts_fit B (s\<lparr>stree := tr\<rparr>) = debts_fit B s"
  by (simp_all add: debts_fit_def)

lemma iteration_begin_lower:
  assumes "sched_iteration_begin it s0 = Inr (th, s)"
  shows "\<exists>s1. lower (begin_state it s0) s1 \<and> rbind (iteration_begin_impl s1) (\<lambda>(th, s). Inr (th, s\<lparr>s_thread := Some th\<rparr>)) = Inr (th, s)"
proof -
  let ?f = "\<lambda>i s. block_thread i (s\<lparr>dynamic_threads := dynamic_threads s @ [i]\<rparr>)"
  obtain s1 where r: "rfold ?f [s_n s0 - total_dynamic_threads s0..< s_n s0] (begin_state it s0) = Inr s1"
    and e: "rbind (iteration_begin_impl s1) (\<lambda>(th, s). Inr (th, s\<lparr>s_thread := Some th\<rparr>)) = Inr (th, s)"
    using assms by (auto simp: sched_iteration_begin_def begin_state_def Let_def rbind_Inr)
  have "lower (begin_state it s0) s1" by (rule rfold_lower [OF r lower_refl]) (auto intro: block_lower)
  with e show ?thesis by blast
qed

lemma iteration_begin_fit:
  assumes b: "sched_iteration_begin it s0 = Inr (th, s)" and i: "sched_idle s0" and B: "0 < B" "B * s_n s0 \<le> 2 ^ 32"
  shows "debts_fit B s"
proof -
  obtain s1 where s1: "lower (begin_state it s0) s1"
    "rbind (iteration_begin_impl s1) (\<lambda>(th, s). Inr (th, s\<lparr>s_thread := Some th\<rparr>)) = Inr (th, s)"
    using iteration_begin_lower [OF b] by blast
  have "debts_fit B (begin_state it s0)" using B i
    by (auto simp: debts_fit_def begin_state_def Let_def sched_idle_def reset_sched_thread_def)
  then have f1: "debts_fit B s1" using s1(1) lower_fit by blast
  have rnd: "debts_fit B s'" if "random_schedule_impl (s1\<lparr>s_rand := g\<rparr>) = Inr (th, r, s')" for g r s'
    using lower_fit [OF random_lower [OF that]] f1 by simp
  show ?thesis using s1(2) f1 rnd
    by (auto simp: iteration_begin_impl_def tree_iteration_begin_impl_def rbind_Inr rand_impl_def Let_def rl_verify_Inr
        split: if_splits scheduler_type.splits)
qed

lemma reach_ok: "sched_reach B s0 k s \<Longrightarrow> sched_idle s0 \<Longrightarrow> 0 < B \<Longrightarrow> B * s_n s0 \<le> 2 ^ 32 \<Longrightarrow> sched_ok s \<and> debts_fit B s"
proof (induction rule: sched_reach.induct)
  case (reach_begin it th s)
  then show ?case
    using tot_False_Inr [OF iteration_begin_tot [of s0 False it] reach_begin(1)] iteration_begin_fit [OF reach_begin]
    by (simp add: sched_ok_def)
next
  case (reach_schedule k s yield th r s')
  then obtain t where t: "sched_inv s" "s_thread s = Some t" "t < s_n s" "debts_fit B s" by (auto simp: sched_ok_def)
  from tot_False_Inr [OF schedule_tot [OF t(1-3) reach_schedule(2,3) _ t(4) reach_schedule(5), of False] reach_schedule(4)]
  show ?case using t(4) reach_schedule(5) schedule_fit [OF reach_schedule(4) t(2,3) inv_roster [OF t(1)] t(4) reach_schedule(5)]
    by (simp add: sched_ok_def)
next
  case (reach_park k s timed spur b s')
  then obtain t where t: "sched_inv s" "s_thread s = Some t" "t < s_n s" "state_of s t = thread_running"
    by (auto simp: sched_ok_def)
  then show ?case using park_inv [OF t, of timed spur] reach_park lower_fit [OF park_lower [OF reach_park(3)]]
    by (auto simp: sched_ok_def)
next
  case (reach_unpark k s th s')
  then obtain t where t: "sched_inv s" "s_thread s = Some t" "t < s_n s" by (auto simp: sched_ok_def)
  moreover have "lower s s'" using unpark_lower [OF reach_unpark(4) lower_refl] by simp
  ultimately show ?case using unpark_inv [OF t(1) reach_unpark(2,3)] reach_unpark lower_fit by (auto simp: sched_ok_def)
next
  case (reach_finish k s fr s')
  then obtain t where t: "sched_inv s" "s_thread s = Some t" "t < s_n s" by (auto simp: sched_ok_def)
  then show ?case
    using finished_thread_same [OF t reach_finish(2,3)] lower_kept [OF finished_lower [OF reach_finish(3)]] reach_finish
      lower_fit [OF finished_lower [OF reach_finish(3)]]
    by (auto simp: sched_ok_def kept_def)
next
  case (reach_create k s th s')
  then obtain t where t: "sched_inv s" "s_thread s = Some t" "t < s_n s" by (auto simp: sched_ok_def)
  have "dynamic_threads s \<noteq> []" using reach_create(2) by (auto simp: sched_create_thread_def rl_verify_Inr)
  then show ?case using create_inv [OF t(1)] reach_create t lower_fit [OF create_lower [OF reach_create(2)]]
    by (auto simp: sched_ok_def)
next
  case (reach_rand k s limit t r s')
  moreover have "debts_fit B s'" using rand_lower [OF reach_rand(2) lower_refl] reach_rand lower_fit by blast
  ultimately show ?case
    using rand_reach [OF reach_rand(2)] schoice_sched_inv [of s s'] by (auto simp: sched_ok_def schoice_fields)
qed

text \<open>What the invariant says of a state, in the fields of the code.\<close>

lemma sched_ok_facts:
  assumes "sched_ok s"
  shows "distinct (running_threads s)"
    and "set (running_threads s) = {i. i < s_n s \<and> state_of s i = thread_running}"
    and "running_threads_count s = length (running_threads s)"
    and "i < s_n s \<Longrightarrow> state_of s i \<noteq> thread_finished_st \<Longrightarrow> blocks s i = 0 \<longleftrightarrow> state_of s i = thread_running"
proof -
  have c: "score None s" using assms by (simp add: sched_ok_def sched_inv_def)
  show "distinct (running_threads s)" "set (running_threads s) = {i. i < s_n s \<and> state_of s i = thread_running}"
    "running_threads_count s = length (running_threads s)"
    using scoreD(2-4) [OF c] by simp_all
  show "i < s_n s \<Longrightarrow> state_of s i \<noteq> thread_finished_st \<Longrightarrow> blocks s i = 0 \<longleftrightarrow> state_of s i = thread_running"
    using scoreD(5,6) [OF c, of i] by (cases "state_of s i") (auto simp: owed_def)
qed

section \<open>Preemptions\<close>

lemma iteration_begin_switches:
  assumes b: "sched_iteration_begin it s0 = Inr (th, s)" and i: "sched_idle s0" and k: "s_kind s0 = sched_bound"
  shows "switches_remain s = context_bound (s_params s0) \<and> s_kind s = sched_bound \<and> s_params s = s_params s0"
proof -
  obtain s1 where s1: "lower (begin_state it s0) s1"
    "rbind (iteration_begin_impl s1) (\<lambda>(th, s). Inr (th, s\<lparr>s_thread := Some th\<rparr>)) = Inr (th, s)"
    using iteration_begin_lower [OF b] by blast
  then have "s_kind s1 = sched_bound" "s_params s1 = s_params s0"
    using k by (simp_all add: lower_def kept_def begin_state_def Let_def)
  then show ?thesis
    using s1(2) by (auto simp: iteration_begin_impl_def tree_iteration_begin_impl_def rbind_Inr rand_impl_def Let_def
        rl_verify_Inr split: if_splits)
qed

definition spent :: "sched \<Rightarrow> nat \<Rightarrow> sched \<Rightarrow> bool" where
  "spent s0 k s \<longleftrightarrow> roster s \<and> (\<exists>t. s_thread s = Some t \<and> t < s_n s) \<and> s_kind s = sched_bound \<and>
     k + switches_remain s = context_bound (s_params s0)"

lemma spent_kept: "spent s0 k s \<Longrightarrow> kept s s' \<Longrightarrow> spent s0 k s'"
  by (auto simp: spent_def kept_def)

lemma spent_schedule:
  assumes "spent s0 k s" "sched_schedule yield s = Inr (th, r, s')"
  shows "spent s0 (if the (s_thread s) \<noteq> th \<and> state_of s' (the (s_thread s)) = thread_running then k + 1 else k) s'"
proof -
  obtain t where t: "s_thread s = Some t" "t < s_n s" "roster s" "s_kind s = sched_bound"
    "k + switches_remain s = context_bound (s_params s0)"
    using assms(1) by (auto simp: spent_def)
  obtain s1 where s1: "tree_schedule_impl (yield mod 2 ^ 32) s = Inr (th, r, s1)" "s' = s1\<lparr>s_thread := Some th\<rparr>"
    using assms(2) t(4) by (auto simp: sched_schedule_def rbind_Inr rl_verify_Inr)
  have "s_n s1 = s_n s \<and> s_kind s1 = s_kind s \<and> roster s1 \<and> th < s_n s \<and> switch_ok t s th s1"
    using tree_schedule_keeps [OF s1(1) t(1-3)] by blast
  then show ?thesis using t s1(2) by (auto simp: spent_def switch_ok_def roster_def split: if_splits)
qed

text \<open>Here the yields may be of any size.\<close>

lemma preemptions_spent: "sched_reach B s0 k s \<Longrightarrow> sched_idle s0 \<Longrightarrow> s_kind s0 = sched_bound \<Longrightarrow> spent s0 k s"
proof (induction rule: sched_reach.induct)
  case (reach_begin it th s)
  then show ?case
    using tot_False_Inr [OF iteration_begin_tot [of s0 False it] reach_begin(1)] iteration_begin_switches [OF reach_begin]
      inv_roster [of s] by (simp add: spent_def)
next
  case (reach_schedule k s yield th r s')
  then show ?case using spent_schedule [OF _ reach_schedule(4)] by blast
next
  case (reach_park k s timed spur b s')
  then show ?case using spent_kept lower_kept [OF park_lower [OF reach_park(3)]] by blast
next
  case (reach_unpark k s th s')
  then show ?case using spent_kept lower_kept unpark_lower [OF reach_unpark(4) lower_refl] by blast
next
  case (reach_finish k s fr s')
  then show ?case using spent_kept lower_kept [OF finished_lower [OF reach_finish(3)]] by blast
next
  case (reach_create k s th s')
  then show ?case using spent_kept lower_kept [OF create_lower [OF reach_create(2)]] by blast
next
  case (reach_rand k s limit t r s')
  then show ?case using spent_kept lower_kept rand_lower [OF reach_rand(2) lower_refl] by blast
qed

section \<open>A first state\<close>

lemma sched_ctor_idle: "d < n \<Longrightarrow> sched_idle (sched_ctor kind n params d)"
  by (simp add: sched_idle_def sched_ctor_def blank_sched_thread_def)

lemma ctor_begin:
  assumes "d < n"
  shows "\<exists>th s. sched_iteration_begin it (sched_ctor kind n params d) = Inr (th, s) \<and> sched_ok s \<and>
    state_of s th = thread_running \<and> s_thread s = Some th \<and> replay_free s \<and> s_n s = n"
  using iteration_begin_tot [OF sched_ctor_idle [OF assms], of True kind params it]
  by (auto simp: tot_def sched_ctor_def sched_ok_def)

section \<open>Properties\<close>

text \<open>
  C10. Every reachable state of every scheduler satisfies the invariant \<open>sched_inv\<close>, as long as no
  yield of the iteration is as large as some \<open>B\<close> for which the debts of all threads to one fit the
  \<open>unsigned\<close> counters. In the fields of the code: the vector \<open>running_threads\<close> holds each thread in
  state running exactly once, its counter is its length, and a thread that has not finished runs
  exactly when its \<open>block_count\<close> is zero.
\<close>

theorem scheduler_invariant:
  assumes "sched_idle s0" "sched_reach B s0 k s" "0 < B" "B * s_n s0 \<le> 2 ^ 32"
  shows "sched_inv s \<and> distinct (running_threads s) \<and> running_threads_count s = length (running_threads s) \<and>
    set (running_threads s) = {i. i < s_n s \<and> state_of s i = thread_running} \<and>
    (\<forall>i < s_n s. state_of s i = thread_finished_st \<or> (blocks s i = 0) = (state_of s i = thread_running))"
proof -
  have ok: "sched_ok s" using reach_ok [OF assms(2,1,3,4)] by blast
  show ?thesis using sched_ok_facts [OF ok] ok by (auto simp: sched_ok_def)
qed

theorem scheduler_invariant_witness:
  "\<exists>s. sched_reach 2 (sched_ctor sched_full 3 default_params 1) 0 s \<and>
     sched_inv s \<and> distinct (running_threads s) \<and> running_threads_count s = length (running_threads s) \<and>
     set (running_threads s) = {i. i < s_n s \<and> state_of s i = thread_running} \<and>
     (\<forall>i < s_n s. state_of s i = thread_finished_st \<or> (blocks s i = 0) = (state_of s i = thread_running))"
proof -
  obtain th s where "sched_iteration_begin 0 (sched_ctor sched_full 3 default_params 1) = Inr (th, s)"
    using ctor_begin [of 1 3 0 sched_full default_params] by auto
  then have r: "sched_reach 2 (sched_ctor sched_full 3 default_params 1) 0 s" by (rule reach_begin)
  show ?thesis using scheduler_invariant [OF sched_ctor_idle r] r by (auto simp: sched_ctor_def)
qed




text \<open>
  C12. Deadlock detection on parking is exact: \<open>park_current_thread\<close> returns true when the
  scheduling step \<open>schedule(1)\<close> that follows it can pick a thread, and false only when every
  unfinished thread is blocked by an operation of its own - no thread is left waiting for a yield
  debt - and no timed wait is pending. No yield before it is as large as a \<open>B\<close> for which the debts
  of all threads to one fit the \<open>unsigned\<close> counters; \<open>debts_wrap_deadlock\<close> shows what happens otherwise.
\<close>

theorem park_detects_deadlock:
  assumes "sched_idle s0" "sched_reach B s0 k s" "current_running s" "0 < B" "B * s_n s0 \<le> 2 ^ 32"
  shows "\<exists>b s'. sched_park_current is_timed spurious s = Inr (b, s') \<and> settled s' \<and> b = can_step 1 s' \<and>
    (b \<or> (\<forall>i < s_n s'. state_of s' i = thread_finished_st \<or> parked s' i))"
proof -
  obtain t where t: "sched_inv s" "s_thread s = Some t" "t < s_n s"
    using reach_ok [OF assms(2,1,4,5)] by (auto simp: sched_ok_def)
  obtain s' where s': "sched_park_current is_timed spurious s = Inr (running_threads s' \<noteq> [] \<or> timed_threads s' \<noteq> [], s')"
    "sched_inv s'" "running_threads s' = [] \<and> timed_threads s' = [] \<longrightarrow> (\<forall>y < s_n s'. \<forall>i < s_n s'. prio s' y i = 0)"
    "parked s' t" "waiters s' t = {}" "t \<notin> set (dynamic_threads s')" "s_thread s' = Some t"
    using park_inv [OF t, of is_timed spurious] assms(3) t(2) by auto
  have "settled s'" using s'(4-7) by (simp add: settled_def parked_def)
  moreover have "running_threads s' \<noteq> [] \<or> timed_threads s' \<noteq> [] \<longleftrightarrow> can_step 1 s'"
    by (auto simp: can_step_def can_go_def)
  moreover have "can_step 1 s' \<or> (\<forall>i < s_n s'. state_of s' i = thread_finished_st \<or> parked s' i)"
    using s'(2,3) all_parked [of s'] by (auto simp: can_step_def can_go_def sched_inv_def)
  ultimately show ?thesis using s'(1) by auto
qed

theorem park_detects_deadlock_witness:
  "\<exists>s b s'. sched_reach 2 (sched_ctor sched_random 2 default_params 0) 0 s \<and>
     sched_park_current False True s = Inr (b, s') \<and> settled s' \<and> b = can_step 1 s' \<and>
     (b \<or> (\<forall>i < s_n s'. state_of s' i = thread_finished_st \<or> parked s' i))"
proof -
  obtain th s where b: "sched_iteration_begin 7 (sched_ctor sched_random 2 default_params 0) = Inr (th, s)"
    "state_of s th = thread_running" "s_thread s = Some th"
    using ctor_begin [of 0 2 7 sched_random default_params] by auto
  from b(1) have r: "sched_reach 2 (sched_ctor sched_random 2 default_params 0) 0 s" by (rule reach_begin)
  show ?thesis using park_detects_deadlock [OF sched_ctor_idle r, of False True] b r by (auto simp: sched_ctor_def)
qed

text \<open>
  When a thread finishes, the answer is \<open>last\<close> exactly when all threads have finished,
  \<open>normal\<close> only when somebody can run or a timed wait is pending, and \<open>deadlock\<close> only when every unfinished
  thread is parked, no timed wait is pending and no dynamic thread is left to start.
\<close>

lemma finish_result:
  assumes "sched_idle s0" "sched_reach B s0 k s" "current_running s" "0 < B" "B * s_n s0 \<le> 2 ^ 32"
  shows "\<exists>r s'. thread_finished s = Inr (r, s') \<and> sched_inv s' \<and> finish_ok r s'"
proof -
  obtain t where t: "sched_inv s" "s_thread s = Some t" "t < s_n s"
    using reach_ok [OF assms(2,1,4,5)] by (auto simp: sched_ok_def)
  then show ?thesis using finished_inv [OF t] assms(3) by auto
qed

lemma finish_result_example:
  "\<exists>s r s'. sched_reach 2 (sched_ctor sched_full 1 default_params 0) 0 s \<and>
     thread_finished s = Inr (r, s') \<and> sched_inv s' \<and> finish_ok r s'"
proof -
  obtain th s where b: "sched_iteration_begin 0 (sched_ctor sched_full 1 default_params 0) = Inr (th, s)"
    "state_of s th = thread_running" "s_thread s = Some th"
    using ctor_begin [of 0 1 0 sched_full default_params] by auto
  from b(1) have r: "sched_reach 2 (sched_ctor sched_full 1 default_params 0) 0 s" by (rule reach_begin)
  show ?thesis using finish_result [OF sched_ctor_idle r] b r by (auto simp: sched_ctor_def)
qed

text \<open>
  C14. The context-bound scheduler keeps its promise: whatever the test does, an iteration has at
  most \<open>context_bound\<close> preemptions, that is switches away from a thread that could have gone on.
\<close>

theorem context_bound_respected:
  assumes "sched_idle s0" "s_kind s0 = sched_bound" "sched_reach B s0 k s"
  shows "k \<le> context_bound (s_params s0)"
  using preemptions_spent [OF assms(3,1,2)] by (simp add: spent_def)

theorem context_bound_respected_witness:
  "\<exists>s. sched_reach 2 (sched_ctor sched_bound 2 default_params 0) 0 s \<and> 0 \<le> context_bound default_params"
proof -
  obtain th s where "sched_iteration_begin 0 (sched_ctor sched_bound 2 default_params 0) = Inr (th, s)"
    using ctor_begin [of 0 2 0 sched_bound default_params] by auto
  then have r: "sched_reach 2 (sched_ctor sched_bound 2 default_params 0) 0 s" by (rule reach_begin)
  show ?thesis using context_bound_respected [OF sched_ctor_idle _ r] r by (auto simp: sched_ctor_def)
qed


end
