(* ===== verification/Tree_Search.thy ===== *)
theory Tree_Search
  imports Scheduler_Props
begin

text \<open>
  The exhaustive search of \<open>tree_search_scheduler\<close>: the vector \<open>stree_\<close> is an odometer over
  the choices of a deterministic test. A test is abstracted to the tree of the choices it asks
  for; one iteration walks down the tree through \<open>rand_impl\<close>, \<open>iteration_end_impl\<close> moves to
  the next leaf. The repetition visits every leaf exactly once, in lexicographic order, and then
  reports the end.
\<close>

section \<open>Deterministic tests\<close>

datatype choice_tree = Done | Choose nat sched_type "nat \<Rightarrow> choice_tree"

primrec wf_tree :: "choice_tree \<Rightarrow> bool" where
  "wf_tree Done = True"
| "wf_tree (Choose c t f) = (0 < c \<and> (\<forall>i<c. wf_tree (f i)))"

text \<open>All sequences of answers, in lexicographic order.\<close>

primrec paths :: "choice_tree \<Rightarrow> nat list list" where
  "paths Done = [[]]"
| "paths (Choose c t f) = concat (map (\<lambda>i. map ((#) i) (paths (f i))) [0..<c])"

primrec is_path :: "choice_tree \<Rightarrow> nat list \<Rightarrow> bool" where
  "is_path Done p = (p = [])"
| "is_path (Choose c t f) p = (case p of [] \<Rightarrow> False | i # p \<Rightarrow> i < c \<and> is_path (f i) p)"

lemma set_paths: "set (paths T) = {p. is_path T p}"
proof (induction T)
  case (Choose c t f)
  have IH: "set (paths (f i)) = {p. is_path (f i) p}" for i using Choose.IH [of "f i"] by simp
  have "p \<in> set (paths (Choose c t f)) \<longleftrightarrow> is_path (Choose c t f) p" for p
    by (cases p) (auto simp: IH)
  then show ?case by blast
qed simp

lemma distinct_paths: "distinct (paths T)"
proof (induction T)
  case (Choose c t f)
  have "distinct (concat (map (\<lambda>i. map ((#) i) (paths (f i))) [0..<m]))" for m
  proof (induction m)
    case (Suc m)
    have "set (concat (map (\<lambda>i. map ((#) i) (paths (f i))) [0..<m])) \<inter> (#) m ` set (paths (f m)) = {}"
      by auto
    then show ?case using Suc Choose.IH [of "f m"] by (auto simp: distinct_map)
  qed simp
  then show ?case by simp
qed simp

section \<open>Iterations\<close>

text \<open>One iteration of the test: each choice is a call of \<open>rand\<close>.\<close>

primrec run_tree :: "choice_tree \<Rightarrow> sched \<Rightarrow> fault + (nat list \<times> sched)" where
  "run_tree Done = (\<lambda>s. Inr ([], s))"
| "run_tree (Choose c t f) = (\<lambda>s. rbind (sched_rand s c t) (\<lambda>(r, s).
     rbind (run_tree (f r) s) (\<lambda>(p, s). Inr (r # p, s))))"

text \<open>Iterations until the scheduler reports the end, at most as many as the first argument.\<close>

fun explore :: "nat \<Rightarrow> choice_tree \<Rightarrow> sched \<Rightarrow> fault + (nat list list \<times> bool \<times> sched)" where
  "explore 0 T s = Inr ([], False, s)"
| "explore (Suc k) T s =
     rbind (run_tree T (s\<lparr>stree_depth := 0\<rparr>)) (\<lambda>(p, s).
       rbind (tree_iteration_end_impl s) (\<lambda>(finish, s).
         if finish then Inr ([p], True, s)
         else rbind (explore k T s) (\<lambda>(ps, finish, s). Inr (p # ps, finish, s))))"

section \<open>The nodes along a path\<close>

definition node :: "nat \<Rightarrow> nat \<Rightarrow> sched_type \<Rightarrow> stree_node" where
  "node c i t = \<lparr>n_count = c, n_index = i, n_type = t\<rparr>"

lemma node_simps [simp]:
  "n_count (node c i t) = c" "n_index (node c i t) = i" "n_type (node c i t) = t"
  "(node c i t)\<lparr>n_index := j\<rparr> = node c j t"
  by (simp_all add: node_def)

text \<open>Node lists that a run of the test can be replayed on, and their completion by the run.\<close>

primrec follows :: "choice_tree \<Rightarrow> stree_node list \<Rightarrow> bool" where
  "follows Done q = (q = [])"
| "follows (Choose c t f) q = (case q of [] \<Rightarrow> True
     | x # q \<Rightarrow> \<exists>i<c. x = node c i t \<and> follows (f i) q)"

primrec fill :: "choice_tree \<Rightarrow> stree_node list \<Rightarrow> stree_node list" where
  "fill Done q = []"
| "fill (Choose c t f) q = (case q of [] \<Rightarrow> node c 0 t # fill (f 0) [] | x # q \<Rightarrow> x # fill (f (n_index x)) q)"

lemma follows_Nil [simp]: "follows T []"
  by (cases T) simp_all

lemma run_tree_follows:
  assumes "follows T q" "wf_tree T" "stree s = pre @ q" "stree_depth s = length pre" "s_kind s \<noteq> sched_random"
  shows "run_tree T s = Inr (map n_index (fill T q),
    s\<lparr>stree := pre @ fill T q, stree_depth := length pre + length (fill T q)\<rparr>)"
  using assms
proof (induction T arbitrary: q pre s)
  case Done
  then show ?case by simp
next
  case (Choose c t f)
  show ?case
  proof (cases q)
    case Nil
    define s1 where "s1 = s\<lparr>stree := stree s @ [node c 0 t], stree_depth := stree_depth s + 1\<rparr>"
    have "sched_rand s c t = Inr (0, s1)"
      using Choose.prems Nil by (simp add: sched_rand_def rand_impl_def s1_def node_def)
    moreover have "run_tree (f 0) s1 = Inr (map n_index (fill (f 0) []),
        s1\<lparr>stree := (pre @ [node c 0 t]) @ fill (f 0) [], stree_depth := length (pre @ [node c 0 t]) + length (fill (f 0) [])\<rparr>)"
      using Choose.prems Nil by (intro Choose.IH) (auto simp: s1_def)
    ultimately show ?thesis using Nil Choose.prems(3) by (simp add: s1_def)
  next
    case (Cons x q')
    then obtain i where i: "i < c" "x = node c i t" "follows (f i) q'" using Choose.prems(1) by auto
    define s1 where "s1 = s\<lparr>stree_depth := stree_depth s + 1\<rparr>"
    have "sched_rand s c t = Inr (i, s1)"
      using Choose.prems Cons i by (simp add: sched_rand_def rand_impl_def s1_def)
    moreover have "run_tree (f i) s1 = Inr (map n_index (fill (f i) q'),
        s1\<lparr>stree := (pre @ [x]) @ fill (f i) q', stree_depth := length (pre @ [x]) + length (fill (f i) q')\<rparr>)"
      using Choose.prems Cons i by (intro Choose.IH) (auto simp: s1_def)
    ultimately show ?thesis using Cons i by (simp add: s1_def)
  qed
qed

section \<open>The odometer\<close>

text \<open>\<open>stree_next\<close> read from the front of the vector.\<close>

fun advance :: "stree_node list \<Rightarrow> stree_node list option" where
  "advance [] = None"
| "advance (x # xs) = (case advance xs of Some ys \<Rightarrow> Some (x # ys)
     | None \<Rightarrow> if n_index x \<noteq> n_count x - 1 then Some [x\<lparr>n_index := n_index x + 1\<rparr>] else None)"

lemma stree_next_append:
  "stree_next (xs @ ys) = (case stree_next xs of Some r \<Rightarrow> Some (r @ ys) | None \<Rightarrow> stree_next ys)"
  by (induction xs) auto

lemma advance_rev: "advance xs = map_option rev (stree_next (rev xs))"
  by (induction xs) (auto simp: stree_next_append split: option.splits)

definition next_leaf :: "choice_tree \<Rightarrow> stree_node list \<Rightarrow> stree_node list \<Rightarrow> bool" where
  "next_leaf T a b \<longleftrightarrow> (\<exists>q. advance a = Some q \<and> follows T q \<and> fill T q = b)"

primrec leaves :: "choice_tree \<Rightarrow> stree_node list list" where
  "leaves Done = [[]]"
| "leaves (Choose c t f) = concat (map (\<lambda>i. map ((#) (node c i t)) (leaves (f i))) [0..<c])"

lemma leaves_paths: "map (map n_index) (leaves T) = paths T"
proof (induction T)
  case (Choose c t f)
  have "map (map n_index) (concat (map (\<lambda>i. map ((#) (node c i t)) (leaves (f i))) xs)) =
      concat (map (\<lambda>i. map ((#) i) (paths (f i))) xs)" for xs
  proof (induction xs)
    case (Cons i xs)
    have "map (map n_index) (map ((#) (node c i t)) (leaves (f i))) = map ((#) i) (paths (f i))"
      using Choose.IH [of "f i"] by (simp flip: Choose.IH [of "f i", simplified])
    then show ?case using Cons by simp
  qed simp
  then show ?case by simp
qed simp

lemma leaves_fill: "wf_tree T \<Longrightarrow> a \<in> set (leaves T) \<Longrightarrow> follows T a \<and> fill T a = a"
proof (induction T arbitrary: a)
  case (Choose c t f)
  from Choose.prems(2) obtain i b where i: "i < c" "b \<in> set (leaves (f i))" "a = node c i t # b" by auto
  then have "follows (f i) b" "fill (f i) b = b" using Choose by auto
  then show ?case using i by auto
qed simp

lemma next_leaf_deeper:
  "next_leaf (f i) a b \<Longrightarrow> i < c \<Longrightarrow> next_leaf (Choose c t f) (node c i t # a) (node c i t # b)"
  unfolding next_leaf_def by (auto split: option.splits)

lemma next_leaf_over:
  "advance a = None \<Longrightarrow> Suc i < c \<Longrightarrow>
    next_leaf (Choose c t f) (node c i t # a) (node c (Suc i) t # fill (f (Suc i)) [])"
  unfolding next_leaf_def by auto

text \<open>The list of leaves is what the odometer walks through, from first to last.\<close>

definition odometer :: "choice_tree \<Rightarrow> stree_node list list \<Rightarrow> bool" where
  "odometer T ls \<longleftrightarrow> ls \<noteq> [] \<and> hd ls = fill T [] \<and> successively (next_leaf T) ls \<and> advance (last ls) = None"

lemma leaves_odometer: "wf_tree T \<Longrightarrow> odometer T (leaves T)"
proof (induction T)
  case (Choose c t f)
  define L where "L m = concat (map (\<lambda>i. map ((#) (node c i t)) (leaves (f i))) [0..<m])" for m
  have IH: "odometer (f i) (leaves (f i))" if "i < c" for i using Choose that by auto
  have step: "successively (next_leaf (Choose c t f)) (map ((#) (node c i t)) (leaves (f i)))" if "i < c" for i
    using IH [OF that] that
    by (auto simp: successively_map odometer_def intro: successively_mono next_leaf_deeper)
  have "m \<le> c \<Longrightarrow> 0 < m \<Longrightarrow> L m \<noteq> [] \<and> hd (L m) = fill (Choose c t f) [] \<and>
      successively (next_leaf (Choose c t f)) (L m) \<and> last (L m) = node c (m - 1) t # last (leaves (f (m - 1)))" for m
  proof (induction m)
    case (Suc m)
    have L: "L (Suc m) = L m @ map ((#) (node c m t)) (leaves (f m))" by (simp add: L_def)
    have f: "leaves (f m) \<noteq> []" "hd (leaves (f m)) = fill (f m) []"
      using IH [of m] Suc.prems by (auto simp: odometer_def)
    show ?case
    proof (cases m)
      case 0
      then show ?thesis using L f step [of 0] Suc.prems by (simp add: L_def hd_map last_map)
    next
      case (Suc k)
      have "advance (last (leaves (f k))) = None" using IH [of k] Suc Suc.prems by (simp add: odometer_def)
      then have "next_leaf (Choose c t f) (last (L m)) (hd (map ((#) (node c m t)) (leaves (f m))))"
        using Suc.IH Suc Suc.prems f next_leaf_over [of _ k c t f] by (simp add: hd_map)
      then show ?thesis using Suc.IH Suc Suc.prems L f step [of m]
        by (simp add: successively_append_iff last_map)
    qed
  qed simp
  from this [of c] Choose.prems show ?case
    using IH [of "c - 1"] by (simp add: odometer_def L_def)
qed (simp add: odometer_def)

lemma follows_index: "follows T q \<Longrightarrow> x \<in> set q \<Longrightarrow> n_index x < n_count x"
  by (induction T arbitrary: q) (fastforce split: list.splits)+

lemma stree_next_ne: "stree_next q \<noteq> Some []"
  by (induction q) auto

lemma iteration_end_advance:
  assumes "advance (stree s) = Some p" "follows T p" "stree_depth s = length (stree s)"
  shows "tree_iteration_end_impl s = Inr (False, s\<lparr>stree := p\<rparr>)"
proof -
  obtain z where z: "stree_next (rev (stree s)) = Some z" "p = rev z"
    using assms(1) by (auto simp: advance_rev)
  then have "hd z \<in> set p" using stree_next_ne [of "rev (stree s)"] by (cases z) auto
  then show ?thesis using follows_index [OF assms(2), of "hd z"] z assms(3)
    by (simp add: tree_iteration_end_impl_def)
qed

lemma explore_from:
  assumes "wf_tree T" "successively (next_leaf T) (a # ls)" "advance (last (a # ls)) = None"
    "stree s = q" "follows T q" "fill T q = a" "s_kind s \<noteq> sched_random"
  shows "\<exists>s'. explore (length (a # ls)) T s = Inr (map (map n_index) (a # ls), True, s')"
  using assms
proof (induction ls arbitrary: a q s)
  case Nil
  define s1 where "s1 = s\<lparr>stree := a, stree_depth := length a\<rparr>"
  have r: "run_tree T (s\<lparr>stree_depth := 0\<rparr>) = Inr (map n_index a, s1)"
    using run_tree_follows [of T q "s\<lparr>stree_depth := 0\<rparr>" "[]"] Nil.prems by (simp add: s1_def)
  show ?case using Nil.prems(3) by (simp add: r tree_iteration_end_impl_def advance_rev s1_def)
next
  case (Cons b ls)
  define s1 where "s1 = s\<lparr>stree := a, stree_depth := length a\<rparr>"
  have r: "run_tree T (s\<lparr>stree_depth := 0\<rparr>) = Inr (map n_index a, s1)"
    using run_tree_follows [of T q "s\<lparr>stree_depth := 0\<rparr>" "[]"] Cons.prems by (simp add: s1_def)
  from Cons.prems(2) obtain p where p: "advance a = Some p" "follows T p" "fill T p = b"
    by (auto simp: next_leaf_def)
  obtain s' where "explore (length (b # ls)) T (s1\<lparr>stree := p\<rparr>) = Inr (map (map n_index) (b # ls), True, s')"
    using Cons.IH [of b "s1\<lparr>stree := p\<rparr>" p] Cons.prems p by (auto simp: s1_def)
  moreover have "tree_iteration_end_impl s1 = Inr (False, s1\<lparr>stree := p\<rparr>)"
    using iteration_end_advance [of s1 p T] p by (simp add: s1_def)
  ultimately show ?case by (simp add: r)
qed

section \<open>The search is exhaustive\<close>

text \<open>C15. Started with an empty choice tree, the full search and the context-bound scheduler run a
  deterministic test once for every possible sequence of answers to its choices, in lexicographic
  order, and report the end of the search exactly after the last one: the answer sequences of the
  iterations are all paths of the test, each of them once.\<close>
theorem tree_search_exhaustive:
  assumes "wf_tree T" "s_kind s \<noteq> sched_random" "stree s = []"
  shows "\<exists>s'. explore (length (paths T)) T s = Inr (paths T, True, s') \<and>
    set (paths T) = {p. is_path T p} \<and> distinct (paths T)"
proof -
  obtain a ls where l: "leaves T = a # ls" "fill T [] = a"
    using leaves_odometer [OF assms(1)] by (cases "leaves T") (auto simp: odometer_def)
  then obtain s' where "explore (length (a # ls)) T s = Inr (map (map n_index) (a # ls), True, s')"
    using explore_from [of T a ls s "[]"] assms leaves_odometer [OF assms(1)] by (auto simp: odometer_def)
  moreover have "map (map n_index) (a # ls) = paths T" using leaves_paths [of T] l by simp
  moreover have "length (a # ls) = length (paths T)" using l(1) leaves_paths [of T] length_map by metis
  ultimately have "explore (length (paths T)) T s = Inr (paths T, True, s')" by (simp only:)
  then show ?thesis by (auto simp only: set_paths distinct_paths)
qed

text \<open>The property at a test with a three-way choice whose first branch asks again.\<close>

definition sample_test :: choice_tree where
  "sample_test = Choose 3 sched_type_user (\<lambda>i. if i = 0 then Choose 2 sched_type_sched (\<lambda>_. Done) else Done)"


theorem tree_search_exhaustive_witness:
  "(\<exists>s'. explore 4 sample_test (sched_ctor sched_full 2 default_params 0) =
      Inr ([[0, 0], [0, 1], [1], [2]], True, s')) \<and>
    paths sample_test = [[0, 0], [0, 1], [1], [2]]"
proof -
  have p: "paths sample_test = [[0, 0], [0, 1], [1], [2]]"
    by (simp add: sample_test_def upt_rec)
  have w: "wf_tree sample_test" by (simp add: sample_test_def)
  show ?thesis
    using tree_search_exhaustive [OF w, of "sched_ctor sched_full 2 default_params 0"] p
    by (auto simp: sched_ctor_def numeral_eq_Suc)
qed

end
