(* ===== verification/Scheduler_Stuck.thy ===== *)
theory Scheduler_Stuck
  imports Scheduler_Props
begin

text \<open>
  A run of the tree searching scheduler that trips an internal assertion. A thread that parks with
  a timeout yields as well, so it can be owed debts by threads that are blocked themselves; when
  the last running thread finishes, \<open>is_deadlock\<close> sees the pending timeout and does not forgive the
  debts, and the scheduling step that follows finds nobody to run.
\<close>

section \<open>Snapshots of the scheduler\<close>

definition tab :: "(nat \<Rightarrow> 'a) \<Rightarrow> 'a list \<Rightarrow> nat \<Rightarrow> 'a" where
  "tab d xs i = (if i < length xs then xs ! i else d i)"

lemma tab_upd: "i < length xs \<Longrightarrow> (tab d xs)(i := v) = tab d (xs[i := v])"
  by (auto simp: tab_def fun_eq_iff)

definition snap_thread :: "nat \<Rightarrow> nat \<Rightarrow> thread_state \<Rightarrow> nat list \<Rightarrow> nat \<Rightarrow> sched_thread" where
  "snap_thread i b st prios sum_prio =
     \<lparr>st_index = i, block_count = b, st_state = st, yield_sched_count = tab (\<lambda>_. 0) [0, 0, 0],
      yield_prio = tab (\<lambda>_. 0) prios, total_yield_priority = sum_prio, cb_sched_count = 0,
      forced_context_switch_count = 0\<rparr>"

definition snap ::
  "sched_thread list \<Rightarrow> nat \<Rightarrow> nat list \<Rightarrow> nat \<Rightarrow> nat list \<Rightarrow> stree_node list \<Rightarrow> sched" where
  "snap ths cur run fin timed tree =
     \<lparr>s_kind = sched_full, s_n = 3, s_params = default_params, total_dynamic_threads = 0, s_iter = 0,
      s_threads = tab blank_sched_thread ths, s_thread = Some cur, running_threads = run,
      running_threads_count = length run, finished_thread_count = fin, timed_threads = timed,
      spurious_threads = [], dynamic_threads = [], s_rand = \<lparr>rg_k = 0, rg_c = 0, rg_x = 0\<rparr>, stree = tree,
      stree_depth = length tree, switches_remain = 0\<rparr>"

definition pick3 :: "stree_node list" where
  "pick3 = [\<lparr>n_count = 3, n_index = 0, n_type = sched_type_sched\<rparr>]"

definition pick2 :: "stree_node list" where
  "pick2 = pick3 @ [\<lparr>n_count = 2, n_index = 0, n_type = sched_type_sched\<rparr>]"

definition snap0 :: sched where
  "snap0 = snap [snap_thread 0 0 thread_running [0, 0, 0] 0, snap_thread 1 0 thread_running [0, 0, 0] 0,
     snap_thread 2 0 thread_running [0, 0, 0] 0] 0 [0, 1, 2] 0 [] pick3"

definition snap1 :: sched where
  "snap1 = snap [snap_thread 0 1 thread_blocked [0, 0, 0] 0, snap_thread 1 0 thread_running [0, 0, 0] 0,
     snap_thread 2 0 thread_running [0, 0, 0] 0] 0 [1, 2] 0 [] pick3"

definition snap2 :: sched where
  "snap2 = snap [snap_thread 0 3 thread_blocked [0, 0, 0] 0, snap_thread 1 0 thread_running [1, 0, 0] 1,
     snap_thread 2 0 thread_running [1, 0, 0] 1] 1 [1, 2] 0 [] pick2"

definition snap3 :: sched where
  "snap3 = snap [snap_thread 0 2 thread_blocked [0, 0, 0] 0, snap_thread 1 1 thread_blocked [0, 0, 0] 0,
     snap_thread 2 0 thread_running [1, 0, 0] 1] 1 [2] 0 [1] pick2"

definition snap4 :: sched where
  "snap4 = snap [snap_thread 0 2 thread_blocked [0, 1, 0] 1, snap_thread 1 3 thread_blocked [0, 0, 0] 0,
     snap_thread 2 0 thread_running [1, 1, 0] 2] 2 [2] 0 [1]
     (pick2 @ [\<lparr>n_count = 2, n_index = 0, n_type = sched_type_user\<rparr>])"

definition snap5 :: sched where
  "snap5 = snap [snap_thread 0 1 thread_blocked [0, 1, 0] 1, snap_thread 1 2 thread_blocked [0, 0, 0] 0,
     snap_thread 2 1 thread_finished_st [0, 0, 0] 0] 2 [] 1 [1]
     (pick2 @ [\<lparr>n_count = 2, n_index = 0, n_type = sched_type_user\<rparr>])"

lemmas snap_defs = snap_def snap_thread_def pick2_def pick3_def

text \<open>The few values of the counters that occur, so that the modulus is never unfolded.\<close>

lemma counters_eval:
  "inc32 0 = Suc 0" "inc32 (Suc 0) = Suc (Suc 0)" "inc32 (Suc (Suc 0)) = Suc (Suc (Suc 0))"
  "dec32 (Suc 0) = 0" "dec32 (Suc (Suc 0)) = Suc 0" "dec32 (Suc (Suc (Suc 0))) = Suc (Suc 0)"
  "add32 0 (Suc 0) = Suc 0" "add32 (Suc 0) (Suc 0) = Suc (Suc 0)"
  "sub32 (Suc 0) (Suc 0) = 0" "sub32 (Suc (Suc 0)) (Suc 0) = Suc 0"
  by (simp_all add: inc32_def dec32_def add32_def sub32_def)

lemma schedule_eval:
  "sched_schedule 0 s = rbind (if s_kind s = sched_random then random_schedule_impl s else tree_schedule_impl 0 s)
     (\<lambda>(th, reason, s). rl_verify (state_of s th = thread_running) (Inr (th, reason, s\<lparr>s_thread := Some th\<rparr>)))"
  "sched_schedule 1 s = rbind (if s_kind s = sched_random then random_schedule_impl s else tree_schedule_impl 1 s)
     (\<lambda>(th, reason, s). rl_verify (state_of s th = thread_running) (Inr (th, reason, s\<lparr>s_thread := Some th\<rparr>)))"
  by (simp_all add: sched_schedule_def)

lemmas sched_eval = counters_eval schedule_eval [unfolded One_nat_def]
  Let_def upd_thread_def tab_upd upt_rec [of _ "Suc _"]
  sched_park_current_def block_thread_def unblock_thread_def on_thread_block_def release_yielder_def is_deadlock_def
  purge_blocked_threads_def tree_schedule_impl_def pay_yielders_def pay_yielder_def
  yield_priority_def yield_to_def can_switch_def on_switch_def tree_choose_def tree_timed_def tree_wake_def
  tree_spurious_def tree_normal_def sched_rand_def rand_impl_def thread_finished_def

lemma tab_nth: "i < length xs \<Longrightarrow> tab d xs i = xs ! i"
  by (simp add: tab_def)

lemma stuck_step1: "sched_park_current False False snap0 = Inr (True, snap1)"
  by (simp add: snap0_def snap1_def snap_defs sched_eval tab_nth numeral_eq_Suc)

lemma stuck_step2: "sched_schedule 1 snap1 = Inr (1, unpark_normal, snap2)"
  by (simp add: snap1_def snap2_def snap_defs sched_eval tab_nth numeral_eq_Suc)

lemma stuck_step3: "sched_park_current True False snap2 = Inr (True, snap3)"
  by (simp add: snap2_def snap3_def snap_defs sched_eval tab_nth numeral_eq_Suc)

lemma stuck_step4: "sched_schedule 1 snap3 = Inr (2, unpark_normal, snap4)"
  by (simp add: snap3_def snap4_def snap_defs sched_eval tab_nth numeral_eq_Suc)

lemma stuck_step5: "thread_finished snap4 = Inr (finish_normal, snap5)"
  by (simp add: snap4_def snap5_def snap_defs sched_eval tab_nth numeral_eq_Suc)

lemma stuck_step6: "sched_schedule 0 snap5 = Inl Verify_failed"
  by (simp add: snap5_def snap_defs sched_eval tab_nth numeral_eq_Suc)

section \<open>The run\<close>

lemma snap_blank: "snap_thread i 0 thread_running [0, 0, 0] 0 = blank_sched_thread i"
proof -
  have "tab (\<lambda>_. 0) [0, 0, 0] = (\<lambda>_ :: nat. 0 :: nat)"
    by (rule ext) (auto simp: tab_def nth_Cons split: nat.splits)
  then show ?thesis by (simp add: snap_thread_def blank_sched_thread_def)
qed

lemma stuck_step0: "sched_iteration_begin 0 (sched_ctor sched_full 3 default_params 0) = Inr (0, snap0)"
proof -
  have "tab blank_sched_thread (map blank_sched_thread [0, 1, 2]) = blank_sched_thread"
    by (rule ext) (auto simp: tab_def nth_Cons numeral_eq_Suc split: nat.splits)
  moreover have "reset_sched_thread 3 sched_full (blank_sched_thread i) = blank_sched_thread i" for i
    by (simp add: reset_sched_thread_def blank_sched_thread_def Let_def cong: if_cong)
  moreover have "[0..<3] = [0, 1, 2 :: nat]" by (simp add: upt_rec)
  ultimately show ?thesis
    by (simp add: sched_iteration_begin_def sched_ctor_def iteration_begin_impl_def tree_iteration_begin_impl_def
        rand_impl_def snap0_def snap_def snap_blank pick3_def cong: if_cong)
qed

lemma waiters3: "s_n s = 3 \<Longrightarrow> waiters s i = {y. y = 0 \<and> prio s 0 i \<noteq> 0 \<or> y = 1 \<and> prio s 1 i \<noteq> 0 \<or> y = 2 \<and> prio s 2 i \<noteq> 0}"
  by (auto simp: waiters_def less_Suc_eq numeral_eq_Suc)

lemma snap_waiters: "waiters snap1 0 = {}" "waiters snap3 1 = {}" "waiters snap5 1 = {0}"
proof -
  have "s_n snap1 = 3" "s_n snap3 = 3" "s_n snap5 = 3"
    by (simp_all add: snap1_def snap3_def snap5_def snap_defs)
  then show "waiters snap1 0 = {}" "waiters snap3 1 = {}" "waiters snap5 1 = {0}"
    by (simp_all add: waiters3) (simp_all add: snap1_def snap3_def snap5_def snap_defs tab_nth)
qed

lemma snap_settled: "settled snap1" "settled snap3"
proof -
  have "s_thread snap1 = Some 0 \<and> state_of snap1 0 \<noteq> thread_finished_st \<and> dynamic_threads snap1 = []"
    "s_thread snap3 = Some 1 \<and> state_of snap3 1 \<noteq> thread_finished_st \<and> dynamic_threads snap3 = []"
    by (simp_all add: snap1_def snap3_def snap_defs tab_nth)
  then show "settled snap1" "settled snap3" using snap_waiters by (simp_all add: settled_def)
qed

lemma snap_can_step: "can_step 1 snap1" "can_step 1 snap3"
  by (simp_all add: can_step_def can_go_def snap1_def snap3_def snap_defs)

lemma snap_reach: "\<exists>k. sched_reach 2 (sched_ctor sched_full 3 default_params 0) k snap4"
proof -
  have 0: "sched_reach 2 (sched_ctor sched_full 3 default_params 0) 0 snap0" using stuck_step0 by (rule reach_begin)
  have cr: "current_running snap0" "current_running snap2"
    by (simp_all add: snap0_def snap2_def snap_defs tab_nth)
  note 1 = reach_park [OF 0 cr(1) stuck_step1]
  obtain k where 2: "sched_reach 2 (sched_ctor sched_full 3 default_params 0) k snap2"
    using reach_schedule [OF 1 snap_can_step(1) _ stuck_step2] snap_settled(1) by fastforce
  note 3 = reach_park [OF 2 cr(2) stuck_step3]
  show ?thesis using reach_schedule [OF 3 snap_can_step(2) _ stuck_step4] snap_settled(2) by fastforce
qed

text \<open>
  C19. The tree searching schedulers can abort on an internal assertion: there is a run of an
  iteration - a thread parks, a second one parks with a timeout, the third finishes - after which
  \<open>thread_finished\<close> answers \<open>normal\<close> and the scheduling step it asks for fails
  \<open>RL_VERIFY(running_thread_count)\<close>, although the timed thread could be woken.
\<close>

theorem finish_then_schedule_aborts:
  "\<exists>k s s'. sched_reach 2 (sched_ctor sched_full 3 default_params 0) k s \<and> current_running s \<and>
     thread_finished s = Inr (finish_normal, s') \<and> timed_threads s' = [1] \<and> parked s' 1 \<and>
     sched_schedule 0 s' = Inl Verify_failed"
proof -
  have "current_running snap4" by (simp add: snap4_def snap_defs tab_nth)
  moreover have "card (waiters snap5 1) = 1" using snap_waiters(3) by simp
  then have "parked snap5 1" unfolding parked_def by (simp add: snap5_def snap_defs tab_nth)
  moreover have "timed_threads snap5 = [1]" by (simp add: snap5_def snap_defs)
  ultimately show ?thesis using snap_reach stuck_step5 stuck_step6 by blast
qed

section \<open>Debts that wrap around\<close>

text \<open>
  \<open>total_yield_priority_\<close> is \<open>unsigned\<close>. Two yields of \<open>2 ^ 31\<close> owed by one thread add up to zero.
\<close>

definition huge :: nat where
  "huge = 2 ^ 31"

definition snap_thread_c :: "nat \<Rightarrow> nat \<Rightarrow> thread_state \<Rightarrow> nat list \<Rightarrow> nat list \<Rightarrow> nat \<Rightarrow> sched_thread" where
  "snap_thread_c i b st counts prios sum_prio = (snap_thread i b st prios sum_prio)\<lparr>yield_sched_count := tab (\<lambda>_. 0) counts\<rparr>"

definition wrap1 :: sched where
  "wrap1 = snap [snap_thread 0 2 thread_blocked [0, 0, 0] 0, snap_thread 1 0 thread_running [huge, 0, 0] huge,
     snap_thread 2 0 thread_running [huge, 0, 0] huge] 1 [1, 2] 0 [] pick2"

definition wrap2 :: sched where
  "wrap2 = snap [snap_thread 0 1 thread_blocked [0, huge, 0] huge, snap_thread_c 1 2 thread_blocked [1, 0, 1] [0, 0, 0] 0,
     snap_thread 2 0 thread_running [huge, huge, 0] 0] 2 [2] 0 [] pick2"

definition wrap3 :: sched where
  "wrap3 = snap [snap_thread 0 1 thread_blocked [0, 0, 0] 0, snap_thread_c 1 1 thread_blocked [1, 0, 1] [0, 0, 0] 0,
     snap_thread 2 1 thread_blocked [huge, huge, 0] 0] 2 [] 0 [] pick2"

lemma huge_eval:
  "add32 0 huge = huge" "add32 huge huge = 0" "sub32 huge huge = 0" "0 < huge" "Suc 0 < huge" "\<not> huge \<le> Suc 0" "Suc 0 \<noteq> huge" "huge \<noteq> Suc 0"
  "dec32 huge = huge - Suc 0" "sub32 (huge - Suc 0) (huge - Suc 0) = 0" "0 < huge - Suc 0"
  by (simp_all add: huge_def add32_def sub32_def dec32_def)

lemma schedule_huge:
  "sched_schedule huge s = rbind (if s_kind s = sched_random then random_schedule_impl s else tree_schedule_impl huge s)
     (\<lambda>(th, reason, s). rl_verify (state_of s th = thread_running) (Inr (th, reason, s\<lparr>s_thread := Some th\<rparr>)))"
  by (simp add: sched_schedule_def huge_def)

lemma wrap_step1: "sched_schedule huge snap0 = Inr (1, unpark_normal, wrap1)"
  by (simp add: snap0_def wrap1_def snap_defs sched_eval tab_nth numeral_eq_Suc huge_eval schedule_huge)

lemma wrap_step2: "sched_schedule huge wrap1 = Inr (2, unpark_normal, wrap2)"
  by (simp add: wrap1_def wrap2_def snap_thread_c_def snap_defs sched_eval tab_nth numeral_eq_Suc huge_eval schedule_huge)

lemma wrap_step3: "sched_park_current False False wrap2 = Inr (False, wrap3)"
  by (simp add: wrap2_def wrap3_def snap_thread_c_def snap_defs sched_eval tab_nth numeral_eq_Suc huge_eval)

lemma wrap_waiters: "waiters snap0 0 = {}" "waiters wrap1 1 = {}"
proof -
  have "s_n snap0 = 3" "s_n wrap1 = 3" by (simp_all add: snap0_def wrap1_def snap_defs)
  then show "waiters snap0 0 = {}" "waiters wrap1 1 = {}"
    by (simp_all add: waiters3) (simp_all add: snap0_def wrap1_def snap_defs tab_nth)
qed

lemma wrap_settled: "settled snap0" "settled wrap1"
proof -
  have "s_thread snap0 = Some 0 \<and> state_of snap0 0 \<noteq> thread_finished_st \<and> dynamic_threads snap0 = []"
    "s_thread wrap1 = Some 1 \<and> state_of wrap1 1 \<noteq> thread_finished_st \<and> dynamic_threads wrap1 = []"
    by (simp_all add: snap0_def wrap1_def snap_defs tab_nth)
  then show "settled snap0" "settled wrap1" using wrap_waiters by (simp_all add: settled_def)
qed

lemma wrap_reach: "\<exists>k. sched_reach (huge + 1) (sched_ctor sched_full 3 default_params 0) k wrap2"
proof -
  have 0: "sched_reach (huge + 1) (sched_ctor sched_full 3 default_params 0) 0 snap0" using stuck_step0 by (rule reach_begin)
  have "can_step huge snap0" "can_step huge wrap1"
    by (simp_all add: can_step_def can_go_def snap0_def wrap1_def snap_defs)
  then obtain k where 1: "sched_reach (huge + 1) (sched_ctor sched_full 3 default_params 0) k wrap1" "can_step huge wrap1"
    using reach_schedule [OF 0 _ _ wrap_step1] wrap_settled(1) by fastforce
  show ?thesis using reach_schedule [OF 1 _ wrap_step2] wrap_settled(2) by fastforce
qed

text \<open>
  The bound on the yields in C10, C11 and C12 is needed: after two yields of \<open>2 ^ 31\<close>, parking the third
  thread reports a deadlock, although the other two are blocked by nothing but their debts to it.
\<close>

lemma debts_wrap_deadlock:
  "\<exists>k s s'. sched_reach (huge + 1) (sched_ctor sched_full 3 default_params 0) k s \<and> current_running s \<and>
     sched_park_current False False s = Inr (False, s') \<and>
     (\<forall>i \<in> {0, 1}. blocks s' i = 1 \<and> prio s' 2 i \<noteq> 0) \<and> parked s' 2"
proof -
  have "current_running wrap2" by (simp add: wrap2_def snap_defs tab_nth)
  moreover have "\<forall>i \<in> {0, 1}. blocks wrap3 i = 1 \<and> prio wrap3 2 i \<noteq> 0"
    using huge_eval(4) by (simp add: wrap3_def snap_thread_c_def snap_defs tab_nth numeral_eq_Suc)
  moreover have "waiters wrap3 2 = {}"
    by (subst waiters3) (simp_all add: wrap3_def snap_thread_c_def snap_defs tab_nth numeral_eq_Suc)
  then have "parked wrap3 2"
    unfolding parked_def by (simp add: wrap3_def snap_thread_c_def snap_defs tab_nth numeral_eq_Suc)
  ultimately show ?thesis using wrap_reach wrap_step3 by blast
qed

end
