(* ===== verification/Atomic_Cell.thy ===== *)
theory Atomic_Cell
  imports Memory_Order
begin

text \<open>
  The class \<open>generic_atomic\<close> and its proxies (\<^verbatim>\<open>atomic.hpp\<close>): the value of every record of
  the history is kept beside the record, loads go through the memory model, read-modify-writes
  and compare-and-swap see the newest value. Each operation is the body after its \<open>c.sched()\<close>.
  The wait and wake operations are in \<^theory_text>\<open>Condvar\<close>; \<^theory_text>\<open>Atomic_Log\<close> has the abstract
  specification: an atomic variable is a log of the values stored.
\<close>

section \<open>State\<close>

record 'a cell =
  c_value :: 'a
  c_history :: "nat \<Rightarrow> 'a"
  c_impl :: atomic_data
  c_last_index :: u32
  c_sign :: signature
  c_initialized :: bool
  c_already_failed :: bool

definition cell_magic :: u32 where
  "cell_magic = 987654321"

text \<open>
  The constructor runs on raw memory; \<open>strong_init\<close> is the template parameter, true for the
  Java and CLI wrappers, which store the default value at once.
\<close>

definition cell_ctor ::
  "nat \<Rightarrow> bool \<Rightarrow> bool \<Rightarrow> 64 word \<Rightarrow> atomic_data \<Rightarrow> thread_info \<Rightarrow> ('a :: zero) cell \<Rightarrow> fault + 'a cell" where
  "cell_ctor n ie strong_init this raw th x =
     rl_verify (\<not> ie)
       (let x = x\<lparr>c_impl := atomic_data_ctor n raw, c_sign := signature_ctor cell_magic this,
                  c_initialized := False, c_value := 0, c_already_failed := False\<rparr>
        in if strong_init
           then (let (index, impl) = atomic_init n th (c_impl x)
                 in Inr (x\<lparr>c_impl := impl, c_last_index := index, c_initialized := True,
                           c_history := (c_history x)(unat index := 0), c_value := 0\<rparr>))
           else Inr x)"

definition cell_dtor :: "bool \<Rightarrow> 'a cell \<Rightarrow> fault + 'a cell" where
  "cell_dtor ie x =
     rl_verify (\<not> ie)
       (rbind (signature_check cell_magic (c_sign x)) (\<lambda>_.
          rbind (signature_dtor cell_magic (c_sign x)) (\<lambda>g. Inr (x\<lparr>c_sign := g\<rparr>))))"

definition cell_debug_value :: "'a cell \<Rightarrow> fault + 'a" where
  "cell_debug_value x = rbind (signature_check cell_magic (c_sign x)) (\<lambda>_. Inr (c_value x))"

section \<open>Loads and stores\<close>

definition load_impl ::
  "nat \<Rightarrow> bool \<Rightarrow> bool \<Rightarrow> memory_order \<Rightarrow> 's rnd \<Rightarrow> thread_info \<Rightarrow> 'a cell \<Rightarrow> 's
     \<Rightarrow> fault + ('a \<times> thread_info \<times> 'a cell \<times> 's)" where
  "load_impl n ie rd mo rnd th x s =
     rbind (signature_check cell_magic (c_sign x)) (\<lambda>_.
       if \<not> ie
       then rbind (atomic_load n rd mo False rnd th (c_impl x) s) (\<lambda>(index, th, impl, s).
              rl_assert_impl (index \<noteq> -1) result_unitialized_access
                (Inr (c_history x (unat index), th, x\<lparr>c_impl := impl\<rparr>, s)))
       else rl_assert_impl (c_initialized x) result_unitialized_access (Inr (c_value x, th, x, s)))"

definition cell_load ::
  "nat \<Rightarrow> bool \<Rightarrow> bool \<Rightarrow> memory_order \<Rightarrow> 's rnd \<Rightarrow> thread_info \<Rightarrow> 'a cell \<Rightarrow> 's
     \<Rightarrow> fault + ('a \<times> thread_info \<times> 'a cell \<times> 's)" where
  "cell_load n ie rd mo rnd th x s =
     rl_verify (mo_release \<noteq> mo) (rl_verify (mo_acq_rel \<noteq> mo)
       (case mo of
          mo_relaxed \<Rightarrow> load_impl n ie rd mo_relaxed rnd th x s
        | mo_consume \<Rightarrow> load_impl n ie rd mo_acquire rnd th x s
        | mo_acquire \<Rightarrow> load_impl n ie rd mo_acquire rnd th x s
        | mo_seq_cst \<Rightarrow> load_impl n ie rd mo_seq_cst rnd th x s
        | _ \<Rightarrow> Inl Verify_failed))"

text \<open>The slots written by a store and by a read-modify-write.\<close>

definition put_value :: "u32 \<Rightarrow> 'a \<Rightarrow> atomic_data \<Rightarrow> 'a cell \<Rightarrow> 'a cell" where
  "put_value index v impl x =
     x\<lparr>c_impl := impl, c_last_index := index, c_history := (c_history x)(unat index := v), c_value := v\<rparr>"

definition store_impl ::
  "nat \<Rightarrow> bool \<Rightarrow> memory_order \<Rightarrow> thread_info \<Rightarrow> 'a cell \<Rightarrow> 'a \<Rightarrow> fault + (thread_info \<times> 'a cell)" where
  "store_impl n ie mo th x v =
     rl_verify (\<not> ie)
       (rbind (signature_check cell_magic (c_sign x)) (\<lambda>_.
          rbind (atomic_store n mo False th (c_impl x)) (\<lambda>(index, th, impl).
            Inr (th, (put_value index v impl x)\<lparr>c_initialized := True\<rparr>))))"

definition cell_store ::
  "nat \<Rightarrow> bool \<Rightarrow> memory_order \<Rightarrow> thread_info \<Rightarrow> 'a cell \<Rightarrow> 'a \<Rightarrow> fault + (thread_info \<times> 'a cell)" where
  "cell_store n ie mo th x v =
     rl_verify (mo_acquire \<noteq> mo) (rl_verify (mo_acq_rel \<noteq> mo)
       (case mo of
          mo_relaxed \<Rightarrow> store_impl n ie mo_relaxed th x v
        | mo_release \<Rightarrow> store_impl n ie mo_release th x v
        | mo_seq_cst \<Rightarrow> store_impl n ie mo_seq_cst th x v
        | _ \<Rightarrow> Inl Verify_failed))"

text \<open>The converting constructor of \<open>atomic<T>\<close>: construct, then a relaxed store.\<close>

definition atomic_ctor_value ::
  "nat \<Rightarrow> bool \<Rightarrow> 64 word \<Rightarrow> atomic_data \<Rightarrow> thread_info \<Rightarrow> ('a :: zero) cell \<Rightarrow> 'a
     \<Rightarrow> fault + (thread_info \<times> 'a cell)" where
  "atomic_ctor_value n ie this raw th x v =
     rbind (cell_ctor n ie False this raw th x) (\<lambda>x. cell_store n ie mo_relaxed th x v)"

section \<open>Compare and swap\<close>

text \<open>
  The two switches that choose the memory orders of the success and of the failure path, for
  one and for two given orders.
\<close>

fun cas_modes :: "memory_order \<Rightarrow> memory_order \<times> memory_order" where
  "cas_modes mo_relaxed = (mo_relaxed, mo_relaxed)"
| "cas_modes mo_consume = (mo_acquire, mo_acquire)"
| "cas_modes mo_acquire = (mo_acquire, mo_acquire)"
| "cas_modes mo_release = (mo_release, mo_relaxed)"
| "cas_modes mo_acq_rel = (mo_acq_rel, mo_acquire)"
| "cas_modes mo_seq_cst = (mo_seq_cst, mo_seq_cst)"

definition cas_modes2 :: "memory_order \<Rightarrow> memory_order \<Rightarrow> fault + (memory_order \<times> memory_order)" where
  "cas_modes2 mo failure_mo =
     (case mo of
        mo_relaxed \<Rightarrow> rl_verify (mo_relaxed = failure_mo) (Inr (mo_relaxed, mo_relaxed))
      | mo_consume \<Rightarrow> rl_verify (mo_relaxed = failure_mo \<or> mo_consume = failure_mo)
          (case failure_mo of
             mo_relaxed \<Rightarrow> Inr (mo_acquire, mo_relaxed)
           | mo_consume \<Rightarrow> Inr (mo_acquire, mo_acquire)
           | _ \<Rightarrow> Inl Verify_failed)
      | mo_acquire \<Rightarrow> rl_verify (mo_relaxed = failure_mo \<or> mo_consume = failure_mo \<or> mo_acquire = failure_mo)
          (case failure_mo of
             mo_relaxed \<Rightarrow> Inr (mo_acquire, mo_relaxed)
           | mo_consume \<Rightarrow> Inr (mo_acquire, mo_acquire)
           | mo_acquire \<Rightarrow> Inr (mo_acquire, mo_acquire)
           | _ \<Rightarrow> Inl Verify_failed)
      | mo_release \<Rightarrow> rl_verify (mo_relaxed = failure_mo) (Inr (mo_release, mo_relaxed))
      | mo_acq_rel \<Rightarrow> rl_verify (mo_relaxed = failure_mo \<or> mo_consume = failure_mo \<or> mo_acquire = failure_mo)
          (case failure_mo of
             mo_relaxed \<Rightarrow> Inr (mo_acq_rel, mo_relaxed)
           | mo_consume \<Rightarrow> Inr (mo_acq_rel, mo_acquire)
           | mo_acquire \<Rightarrow> Inr (mo_acq_rel, mo_acquire)
           | _ \<Rightarrow> Inl Verify_failed)
      | mo_seq_cst \<Rightarrow> rl_verify (mo_relaxed = failure_mo \<or> mo_consume = failure_mo \<or>
                                   mo_acquire = failure_mo \<or> mo_seq_cst = failure_mo)
          (case failure_mo of
             mo_relaxed \<Rightarrow> Inr (mo_seq_cst, mo_relaxed)
           | mo_consume \<Rightarrow> Inr (mo_seq_cst, mo_acquire)
           | mo_acquire \<Rightarrow> Inr (mo_seq_cst, mo_acquire)
           | mo_seq_cst \<Rightarrow> Inr (mo_seq_cst, mo_seq_cst)
           | _ \<Rightarrow> Inl Verify_failed))"

text \<open>Does a weak compare-and-swap whose comparison holds fail all the same?\<close>

definition cas_spurious :: "bool \<Rightarrow> bool \<Rightarrow> 's rnd \<Rightarrow> 'a cell \<Rightarrow> 's \<Rightarrow> fault + (bool \<times> 'a cell \<times> 's)" where
  "cas_spurious spurious_failures rd rnd x s =
     (if \<not> spurious_failures then Inr (False, x, s)
      else if rd then rbind (rnd s 4 sched_type_cas_fail) (\<lambda>(r, s). Inr (r = 0, x, s))
      else if \<not> c_already_failed x
      then rbind (rnd s 2 sched_type_cas_fail) (\<lambda>(r, s).
             Inr (r = 0, if r = 0 then x\<lparr>c_already_failed := True\<rparr> else x, s))
      else Inr (False, x, s))"

definition cas_fail ::
  "nat \<Rightarrow> bool \<Rightarrow> memory_order \<Rightarrow> 's rnd \<Rightarrow> thread_info \<Rightarrow> 'a cell \<Rightarrow> 's
     \<Rightarrow> fault + (bool \<times> 'a \<times> thread_info \<times> 'a cell \<times> 's)" where
  "cas_fail n rd failure_mo rnd th x s =
     rbind (atomic_load n rd failure_mo True rnd th (c_impl x) s) (\<lambda>(_, th, impl, s).
       Inr (False, c_value x, th, x\<lparr>c_impl := impl\<rparr>, s))"

text \<open>The result is the flag and the final value of the reference parameter \<open>cmp\<close>.\<close>

definition compare_swap_impl ::
  "nat \<Rightarrow> bool \<Rightarrow> bool \<Rightarrow> bool \<Rightarrow> memory_order \<Rightarrow> memory_order \<Rightarrow> 's rnd \<Rightarrow> thread_info \<Rightarrow> 'a cell
     \<Rightarrow> 'a \<Rightarrow> 'a \<Rightarrow> 's \<Rightarrow> fault + (bool \<times> 'a \<times> thread_info \<times> 'a cell \<times> 's)" where
  "compare_swap_impl n ie rd spurious_failures mo failure_mo rnd th x cmp xchg s =
     rl_verify (\<not> ie)
       (rbind (signature_check cell_magic (c_sign x)) (\<lambda>_.
          rl_assert_impl (c_initialized x) result_unitialized_access
            (if c_value x = cmp
             then rbind (cas_spurious spurious_failures rd rnd x s) (\<lambda>(spurious_failure, x, s).
                    if \<not> spurious_failure
                    then rbind (atomic_rmw n mo th (c_impl x)) (\<lambda>(index, aba, th, impl).
                           Inr (True, cmp, th, put_value index xchg impl x, s))
                    else cas_fail n rd failure_mo rnd th x s)
             else cas_fail n rd failure_mo rnd th x s)))"

definition compare_exchange ::
  "nat \<Rightarrow> bool \<Rightarrow> bool \<Rightarrow> bool \<Rightarrow> memory_order \<Rightarrow> 's rnd \<Rightarrow> thread_info \<Rightarrow> 'a cell
     \<Rightarrow> 'a \<Rightarrow> 'a \<Rightarrow> 's \<Rightarrow> fault + (bool \<times> 'a \<times> thread_info \<times> 'a cell \<times> 's)" where
  "compare_exchange n ie rd weak mo rnd th x cmp xchg s =
     (let (m, f) = cas_modes mo in compare_swap_impl n ie rd weak m f rnd th x cmp xchg s)"

definition compare_exchange2 ::
  "nat \<Rightarrow> bool \<Rightarrow> bool \<Rightarrow> bool \<Rightarrow> memory_order \<Rightarrow> memory_order \<Rightarrow> 's rnd \<Rightarrow> thread_info \<Rightarrow> 'a cell
     \<Rightarrow> 'a \<Rightarrow> 'a \<Rightarrow> 's \<Rightarrow> fault + (bool \<times> 'a \<times> thread_info \<times> 'a cell \<times> 's)" where
  "compare_exchange2 n ie rd weak mo failure_mo rnd th x cmp xchg s =
     rbind (cas_modes2 mo failure_mo) (\<lambda>(m, f). compare_swap_impl n ie rd weak m f rnd th x cmp xchg s)"

section \<open>Read-modify-writes\<close>

definition rmw_impl ::
  "nat \<Rightarrow> bool \<Rightarrow> memory_order \<Rightarrow> rmw_type \<Rightarrow> thread_info \<Rightarrow> 'b word cell \<Rightarrow> 'b :: len word
     \<Rightarrow> fault + ('b word \<times> thread_info \<times> 'b word cell)" where
  "rmw_impl n ie mo type th x op =
     rl_verify (\<not> ie)
       (rbind (signature_check cell_magic (c_sign x)) (\<lambda>_.
          rl_assert_impl (c_initialized x) result_unitialized_access
            (rbind (atomic_rmw n mo th (c_impl x)) (\<lambda>(index, aba, th, impl).
               let prev_value = c_value x; new_value = perform_rmw type prev_value op
               in Inr (prev_value, th, put_value index new_value impl x)))))"

definition cell_rmw ::
  "nat \<Rightarrow> bool \<Rightarrow> memory_order \<Rightarrow> rmw_type \<Rightarrow> thread_info \<Rightarrow> 'b word cell \<Rightarrow> 'b :: len word
     \<Rightarrow> fault + ('b word \<times> thread_info \<times> 'b word cell)" where
  "cell_rmw n ie mo type th x op =
     (case mo of
        mo_relaxed \<Rightarrow> rmw_impl n ie mo_relaxed type th x op
      | mo_consume \<Rightarrow> rmw_impl n ie mo_acquire type th x op
      | mo_acquire \<Rightarrow> rmw_impl n ie mo_acquire type th x op
      | mo_release \<Rightarrow> rmw_impl n ie mo_release type th x op
      | mo_acq_rel \<Rightarrow> rmw_impl n ie mo_acq_rel type th x op
      | mo_seq_cst \<Rightarrow> rmw_impl n ie mo_seq_cst type th x op)"

definition cell_exchange where
  "cell_exchange n ie mo th (x :: ('b :: len) word cell) v = cell_rmw n ie mo rmw_swap th x v"

definition cell_fetch_add where
  "cell_fetch_add n ie mo th (x :: ('b :: len) word cell) v = cell_rmw n ie mo rmw_add th x v"

definition cell_fetch_sub where
  "cell_fetch_sub n ie mo th (x :: ('b :: len) word cell) v = cell_rmw n ie mo rmw_sub th x v"

definition cell_fetch_and where
  "cell_fetch_and n ie mo th (x :: ('b :: len) word cell) v = cell_rmw n ie mo rmw_and th x v"

definition cell_fetch_or where
  "cell_fetch_or n ie mo th (x :: ('b :: len) word cell) v = cell_rmw n ie mo rmw_or th x v"

definition cell_fetch_xor where
  "cell_fetch_xor n ie mo th (x :: ('b :: len) word cell) v = cell_rmw n ie mo rmw_xor th x v"

text \<open>
  The operators of the proxy use the default order \<open>mo_seq_cst\<close>. Each applies an operation to
  the value the fetch returned; \<open>operator -=\<close> adds the operand back.
\<close>

definition proxy_result ::
  "('b word \<Rightarrow> 'b word) \<Rightarrow> fault + ('b :: len word \<times> thread_info \<times> 'b word cell)
     \<Rightarrow> fault + ('b word \<times> thread_info \<times> 'b word cell)" where
  "proxy_result f r = rbind r (\<lambda>(v, th, x). Inr (f v, th, x))"

definition cell_assign where
  "cell_assign n ie th (x :: 'a cell) v = rbind (cell_store n ie mo_seq_cst th x v) (\<lambda>(th, x). Inr (v, th, x))"

definition cell_postinc where
  "cell_postinc n ie th (x :: ('b :: len) word cell) = cell_fetch_add n ie mo_seq_cst th x 1"

definition cell_postdec where
  "cell_postdec n ie th (x :: ('b :: len) word cell) = cell_fetch_sub n ie mo_seq_cst th x 1"

definition cell_preinc where
  "cell_preinc n ie th (x :: ('b :: len) word cell) =
     proxy_result (\<lambda>v. v + 1) (cell_fetch_add n ie mo_seq_cst th x 1)"

definition cell_predec where
  "cell_predec n ie th (x :: ('b :: len) word cell) =
     proxy_result (\<lambda>v. v - 1) (cell_fetch_sub n ie mo_seq_cst th x 1)"

definition cell_add_assign where
  "cell_add_assign n ie th (x :: ('b :: len) word cell) value =
     proxy_result (\<lambda>v. v + value) (cell_fetch_add n ie mo_seq_cst th x value)"

definition cell_sub_assign where
  "cell_sub_assign n ie th (x :: ('b :: len) word cell) value =
     proxy_result (\<lambda>v. v + value) (cell_fetch_sub n ie mo_seq_cst th x value)"

definition cell_and_assign where
  "cell_and_assign n ie th (x :: ('b :: len) word cell) value =
     proxy_result (\<lambda>v. v AND value) (cell_fetch_and n ie mo_seq_cst th x value)"

definition cell_or_assign where
  "cell_or_assign n ie th (x :: ('b :: len) word cell) value =
     proxy_result (\<lambda>v. v OR value) (cell_fetch_or n ie mo_seq_cst th x value)"

definition cell_xor_assign where
  "cell_xor_assign n ie th (x :: ('b :: len) word cell) value =
     proxy_result (\<lambda>v. v XOR value) (cell_fetch_xor n ie mo_seq_cst th x value)"

end
