(* ===== verification/Atomic_Log.thy ===== *)
theory Atomic_Log
  imports Atomic_Cell
begin

text \<open>
  The abstract specification of an atomic variable: a log of the values stored, newest first.
  A store appends, a read-modify-write appends a function of the newest value, a load returns
  one of the newest values. The class \<open>atomic<T>\<close> refines it.
\<close>

section \<open>Positions in the history\<close>

lemma unat_hslot: "unat (of_nat (hslot i) :: u32) = hslot i"
  using hslot_less [of i] by (simp add: unat_of_nat take_bit_nat_eq_self)

lemma hslot_of_nat: "k < 2 ^ 32 \<Longrightarrow> hslot (of_nat k) = k mod 3"
  by (simp add: hslot_def atomic_history_size_def unat_of_nat take_bit_nat_eq_self)

lemma of_nat_not_top: "k < 2 ^ 32 - 1 \<Longrightarrow> (of_nat k :: u32) \<noteq> -1"
proof
  assume "k < 2 ^ 32 - 1" "(of_nat k :: u32) = -1"
  then have "unat (of_nat k :: u32) = 2 ^ 32 - 1" by (simp add: unsigned_minus_1_eq_mask mask_eq_exp_minus_1)
  with \<open>k < 2 ^ 32 - 1\<close> show False by (simp add: unat_of_nat take_bit_nat_eq_self)
qed

lemma slots_differ: "d < 2 \<Longrightarrow> d \<le> m \<Longrightarrow> (m - d) mod 3 \<noteq> Suc m mod 3"
proof -
  assume "d < 2" "d \<le> m"
  then consider "d = 0" | "d = 1" "1 \<le> m" by linarith
  then show ?thesis
  proof cases
    case 2
    then obtain k where "m = Suc k" by (cases m) auto
    then show ?thesis using 2 by (simp add: mod_Suc)
  qed (simp add: mod_Suc)
qed

section \<open>The log\<close>

text \<open>
  Position \<open>k\<close> of the log, counted from 1 at the oldest value, lives in slot \<open>k mod 3\<close>; slot 0
  is the empty one until the third store.
\<close>

definition cell_log :: "'a cell \<Rightarrow> 'a list \<Rightarrow> bool" where
  "cell_log x log \<longleftrightarrow>
     length log < 2 ^ 32 - 1 \<and> current_index (c_impl x) = of_nat (length log) \<and>
     c_initialized x = (log \<noteq> []) \<and> (log \<noteq> [] \<longrightarrow> c_value x = hd log) \<and>
     (\<forall>d<3. d < length log \<longrightarrow> busy (history (c_impl x) ((length log - d) mod 3)) \<and>
        c_history x ((length log - d) mod 3) = log ! d) \<and>
     (length log < 3 \<longrightarrow> \<not> busy (history (c_impl x) 0))"

lemma cell_log_current:
  "cell_log x log \<Longrightarrow> log \<noteq> [] \<Longrightarrow>
     busy (rec_at (c_impl x) (current_index (c_impl x))) \<and> current_index (c_impl x) \<noteq> -1"
  by (auto simp: cell_log_def rec_at_def hslot_of_nat of_nat_not_top dest: spec [of _ 0])

text \<open>What the memory model did to the records does not matter, as long as it kept the marks.\<close>

lemma cell_log_impl:
  assumes "cell_log x log" "current_index impl = current_index (c_impl x)"
    "\<And>k. k < 3 \<Longrightarrow> busy (history impl k) = busy (history (c_impl x) k)"
  shows "cell_log (x\<lparr>c_impl := impl\<rparr>) log"
  using assms by (simp add: cell_log_def)

lemma load_keeps_marks:
  assumes "atomic_load n rd mo rmw rnd th var s = Inr (j, th', var', s')"
  shows "busy (history var' k) = busy (history var k) \<and> current_index var' = current_index var"
  using assms
  by (auto simp: atomic_load_def fault_inv Let_def rec_at_def load_record_def split: if_splits prod.splits)

lemma cell_log_load:
  assumes "cell_log x log" "atomic_load n rd mo rmw rnd th (c_impl x) s = Inr (j, th', var', s')"
  shows "cell_log (x\<lparr>c_impl := var'\<rparr>) log"
  using assms(1) load_keeps_marks [OF assms(2)] by (intro cell_log_impl) auto

lemma store_marks:
  assumes "atomic_store n mo rmw th var = Inr (i, th', var')"
  shows "busy (history var' k) = (k = hslot (current_index var + 1) \<or> busy (history var k))"
proof -
  have "history var' k = history var k" if "k \<noteq> hslot (current_index var + 1)"
    using atomic_store_Inr(1) [OF assms] atomic_store_Inr(9) [OF assms, of k] that by simp
  moreover have "busy (history var' (hslot (current_index var + 1)))"
    using atomic_store_Inr(1,7) [OF assms] by (simp add: rec_at_def)
  ultimately show ?thesis by (cases "k = hslot (current_index var + 1)") simp_all
qed

lemma cell_log_put:
  assumes log: "cell_log x log" and room: "length log + 1 < 2 ^ 32 - 1"
    and cur: "current_index impl = current_index (c_impl x) + 1" "i = of_nat (hslot (current_index impl))"
    and marks: "\<And>k. busy (history impl k) = (k = hslot (current_index (c_impl x) + 1) \<or> busy (history (c_impl x) k))"
  shows "cell_log ((put_value i v impl x)\<lparr>c_initialized := True\<rparr>) (v # log)"
proof -
  let ?m = "length log"
  have c: "current_index impl = of_nat (Suc ?m)" using log cur by (simp add: cell_log_def add.commute)
  have h: "hslot (current_index (c_impl x) + 1) = Suc ?m mod 3"
  proof -
    have "current_index (c_impl x) + 1 = of_nat (Suc ?m)" using c cur(1) by simp
    then show ?thesis using hslot_of_nat [of "Suc ?m"] room by (simp only:)
  qed
  have i: "unat i = Suc ?m mod 3" using unat_hslot [of "current_index impl"] cur h by simp
  have entry: "busy (history impl ((Suc ?m - d) mod 3)) \<and>
      ((c_history x)(Suc ?m mod 3 := v)) ((Suc ?m - d) mod 3) = (v # log) ! d"
    if d: "d < 3" "d < Suc ?m" for d
  proof (cases d)
    case 0
    then show ?thesis using marks h by simp
  next
    case (Suc e)
    then have "e < 2" "e < ?m" using d by auto
    moreover from this have "busy (history (c_impl x) ((?m - e) mod 3)) \<and> c_history x ((?m - e) mod 3) = log ! e"
      using log by (auto simp: cell_log_def)
    ultimately show ?thesis using slots_differ [of e ?m] marks Suc by auto
  qed
  have "Suc ?m < 3 \<Longrightarrow> \<not> busy (history impl 0)"
  proof -
    assume "Suc ?m < 3"
    then have "Suc ?m mod 3 \<noteq> 0" by simp
    then show "\<not> busy (history impl 0)" using log h marks \<open>Suc ?m < 3\<close> by (auto simp: cell_log_def)
  qed
  with entry show ?thesis using c room by (simp add: cell_log_def put_value_def i)
qed

text \<open>A load that succeeds returns the value of a position inside the window.\<close>

lemma cell_log_read:
  assumes log: "cell_log x log"
    and load: "atomic_load n rd mo False rnd th (c_impl x) s = Inr (j, th', var', s')" "j \<noteq> -1"
  shows "\<exists>d\<le>load_limit rd. d < length log \<and> c_history x (unat j) = log ! d"
proof -
  let ?v = "c_impl x" and ?m = "length log"
  obtain index where g: "get_load_index n rd mo False rnd th ?v s = Inr (index, s')" "index \<noteq> -1"
    and j: "j = of_nat (hslot index)"
    using atomic_load_Inr [OF load] by blast
  obtain d where d: "busy (rec_at ?v index)" "d \<le> load_limit rd" "index = current_index ?v - of_nat d"
    "\<forall>e<d. passable n mo th ?v (current_index ?v - of_nat e)"
    using get_load_index_sound [OF g] by (auto simp: readable_def)
  have lim: "d < 3" using d(2) by (simp add: load_limit_def atomic_history_size_def split: if_splits)
  have pos: "current_index ?v - of_nat e = of_nat (?m - e)" if "e \<le> ?m" for e
    using log that by (simp add: cell_log_def of_nat_diff)
  have nb: "\<not> busy (rec_at ?v (current_index ?v - of_nat ?m))" if "?m < 3"
    using log that pos [of ?m] by (simp add: cell_log_def rec_at_def hslot_def)
  have "d < ?m"
  proof (rule ccontr)
    assume "\<not> d < ?m"
    then have "?m \<le> d" by simp
    then have "?m < 3" using lim by simp
    show False
    proof (cases "d = ?m")
      case True
      then show False using nb [OF \<open>?m < 3\<close>] d(1,3) by simp
    next
      case False
      then have "passable n mo th ?v (current_index ?v - of_nat ?m)" using d(4) \<open>?m \<le> d\<close> by simp
      then show False using nb [OF \<open>?m < 3\<close>] by (simp add: passable_def Let_def)
    qed
  qed
  moreover have "hslot index = (?m - d) mod 3"
  proof -
    have "index = of_nat (?m - d)" using pos [of d] \<open>d < ?m\<close> d(3) by simp
    moreover have "?m - d < 2 ^ 32" using log by (auto simp: cell_log_def)
    ultimately show ?thesis using hslot_of_nat by blast
  qed
  ultimately show ?thesis using log lim d(2) j unat_hslot [of index] by (auto simp: cell_log_def)
qed

lemma cell_log_rmw:
  assumes log: "cell_log x log" "log \<noteq> []" and room: "length log + 1 < 2 ^ 32 - 1"
    and rmw: "atomic_rmw n mo th (c_impl x) = Inr (i, aba, th', impl)"
  shows "cell_log (put_value i v impl x) (v # log)"
proof -
  obtain j th1 var1 where l: "atomic_load n False mo True (\<lambda>s _ _. Inr (0, s)) th (c_impl x) () = Inr (j, th1, var1, ())"
    and s: "atomic_store n mo True th1 var1 = Inr (i, th', impl)"
    using atomic_rmw_Inr [OF rmw] by blast
  have "cell_log ((put_value i v impl x)\<lparr>c_initialized := True\<rparr>) (v # log)"
    using load_keeps_marks [OF l] store_marks [OF s] atomic_store_Inr [OF s]
    by (intro cell_log_put log room) auto
  moreover have "c_initialized x" using log by (simp add: cell_log_def)
  then have "(put_value i v impl x)\<lparr>c_initialized := True\<rparr> = put_value i v impl x"
    by (simp add: put_value_def)
  ultimately show ?thesis by simp
qed

section \<open>Operations and the abstract step\<close>

datatype 'b cell_op = Op_load memory_order | Op_store memory_order 'b
  | Op_cas bool memory_order memory_order 'b 'b | Op_rmw memory_order rmw_type 'b

datatype 'b cell_res = R_unit | R_val 'b | R_cas bool 'b

fun cell_exec ::
  "nat \<Rightarrow> bool \<Rightarrow> ('b :: len) word cell_op \<Rightarrow> 's rnd \<Rightarrow> thread_info \<Rightarrow> 'b word cell \<Rightarrow> 's
     \<Rightarrow> fault + ('b word cell_res \<times> thread_info \<times> 'b word cell \<times> 's)" where
  "cell_exec n rd (Op_load mo) rnd th x s =
     rbind (cell_load n False rd mo rnd th x s) (\<lambda>(v, th, x, s). Inr (R_val v, th, x, s))"
| "cell_exec n rd (Op_store mo v) rnd th x s =
     rbind (cell_store n False mo th x v) (\<lambda>(th, x). Inr (R_unit, th, x, s))"
| "cell_exec n rd (Op_cas weak mo failure_mo cmp xchg) rnd th x s =
     rbind (compare_exchange2 n False rd weak mo failure_mo rnd th x cmp xchg s)
       (\<lambda>(b, cmp, th, x, s). Inr (R_cas b cmp, th, x, s))"
| "cell_exec n rd (Op_rmw mo type v) rnd th x s =
     rbind (cell_rmw n False mo type th x v) (\<lambda>(v, th, x). Inr (R_val v, th, x, s))"

fun log_step ::
  "bool \<Rightarrow> ('b :: len) word cell_op \<Rightarrow> 'b word list \<Rightarrow> 'b word cell_res \<Rightarrow> 'b word list \<Rightarrow> bool" where
  "log_step rd (Op_load mo) log r log' =
     (log' = log \<and> (\<exists>d\<le>load_limit rd. d < length log \<and> r = R_val (log ! d)))"
| "log_step rd (Op_store mo v) log r log' = (log' = v # log \<and> r = R_unit)"
| "log_step rd (Op_cas weak mo failure_mo cmp xchg) log r log' =
     (log \<noteq> [] \<and> (if r = R_cas True cmp \<and> log' = xchg # log then hd log = cmp
                   else log' = log \<and> r = R_cas False (hd log) \<and> (weak \<or> hd log \<noteq> cmp)))"
| "log_step rd (Op_rmw mo type v) log r log' =
     (log \<noteq> [] \<and> r = R_val (hd log) \<and> log' = perform_rmw type (hd log) v # log)"

lemma cell_log_load_impl:
  assumes "cell_log x log" "load_impl n False rd mo rnd th x s = Inr (v, th', x', s')"
  shows "cell_log x' log \<and> (\<exists>d\<le>load_limit rd. d < length log \<and> v = log ! d)"
proof -
  obtain j impl where l: "atomic_load n rd mo False rnd th (c_impl x) s = Inr (j, th', impl, s')" "j \<noteq> -1"
    and v: "v = c_history x (unat j)" "x' = x\<lparr>c_impl := impl\<rparr>"
    using assms(2) by (auto simp: load_impl_def fault_inv split: prod.splits)
  show ?thesis unfolding v
    using cell_log_load [OF assms(1) l(1)] cell_log_read [OF assms(1) l] by blast
qed

lemma cell_load_impl:
  "cell_load n ie rd mo rnd th x s = Inr r \<Longrightarrow> \<exists>m. load_impl n ie rd m rnd th x s = Inr r"
  by (cases mo) (auto simp: cell_load_def)

lemma cell_store_impl:
  "cell_store n ie mo th x v = Inr r \<Longrightarrow> store_impl n ie mo th x v = Inr r"
  by (cases mo) (auto simp: cell_store_def)

lemma cell_rmw_impl:
  "\<exists>m. cell_rmw n ie mo type th x v = rmw_impl n ie m type th x v"
  by (cases mo) (auto simp: cell_rmw_def)

lemma cell_log_store_impl:
  assumes "cell_log x log" "length log + 1 < 2 ^ 32 - 1" "store_impl n False mo th x v = Inr (th', x')"
  shows "cell_log x' (v # log)"
proof -
  obtain i impl where s: "atomic_store n mo False th (c_impl x) = Inr (i, th', impl)"
    and x': "x' = (put_value i v impl x)\<lparr>c_initialized := True\<rparr>"
    using assms(3) by (auto simp: store_impl_def fault_inv split: prod.splits)
  show ?thesis unfolding x'
    using atomic_store_Inr [OF s] store_marks [OF s] by (intro cell_log_put assms(1,2)) auto
qed

lemma cell_log_rmw_impl:
  assumes "cell_log x log" "length log + 1 < 2 ^ 32 - 1" "rmw_impl n False mo type th x v = Inr (r, th', x')"
  shows "log \<noteq> [] \<and> r = hd log \<and> cell_log x' (perform_rmw type (hd log) v # log)"
proof -
  obtain i aba impl where l: "atomic_rmw n mo th (c_impl x) = Inr (i, aba, th', impl)" "c_initialized x"
    and v: "r = c_value x" "x' = put_value i (perform_rmw type (c_value x) v) impl x"
    using assms(3) by (auto simp: rmw_impl_def fault_inv Let_def)
  have ne: "log \<noteq> []" "c_value x = hd log" using l(2) assms(1) by (auto simp: cell_log_def)
  show ?thesis unfolding v ne(2) using cell_log_rmw [OF assms(1) ne(1) assms(2) l(1)] ne(1) by blast
qed

lemma cell_log_cas_fail:
  assumes "cell_log x log" "log \<noteq> []" "cas_fail n rd mo rnd th x s = Inr (b, c, th', x', s')"
  shows "\<not> b \<and> c = hd log \<and> cell_log x' log"
proof -
  obtain j impl where l: "atomic_load n rd mo True rnd th (c_impl x) s = Inr (j, th', impl, s')"
    and v: "\<not> b" "c = c_value x" "x' = x\<lparr>c_impl := impl\<rparr>"
    using assms(3) by (auto simp: cas_fail_def rbind_Inr)
  show ?thesis unfolding v
    using cell_log_load [OF assms(1) l] v assms(1,2) by (simp add: cell_log_def [of x])
qed

lemma cell_log_failed [simp]: "cell_log (x\<lparr>c_already_failed := b\<rparr>) log = cell_log x log"
  by (simp add: cell_log_def)

lemma cas_spurious_cell:
  assumes "cas_spurious weak rd rnd x s = Inr (b, x', s')"
  shows "c_sign x' = c_sign x \<and> c_value x' = c_value x \<and> (b \<longrightarrow> weak) \<and> (cell_log x log \<longrightarrow> cell_log x' log)"
  using assms by (auto simp: cas_spurious_def rbind_Inr split: if_splits)

lemma cell_log_cas_impl:
  assumes log: "cell_log x log" "length log + 1 < 2 ^ 32 - 1"
    and run: "compare_swap_impl n False rd weak mo failure_mo rnd th x cmp xchg s = Inr (b, c, th', x', s')"
  shows "log \<noteq> [] \<and> (if b then c = cmp \<and> hd log = cmp \<and> cell_log x' (xchg # log)
     else c = hd log \<and> (weak \<or> hd log \<noteq> cmp) \<and> cell_log x' log)"
proof -
  have i: "c_initialized x" using run by (auto simp: compare_swap_impl_def fault_inv)
  with log have ne: "log \<noteq> []" "c_value x = hd log" by (auto simp: cell_log_def)
  show ?thesis
  proof (cases "hd log = cmp")
    case False
    then have "cas_fail n rd failure_mo rnd th x s = Inr (b, c, th', x', s')"
      using run ne by (simp add: compare_swap_impl_def fault_inv)
    from cell_log_cas_fail [OF log(1) ne(1) this] False ne show ?thesis by auto
  next
    case True
    then obtain sp x1 s1 where sp: "cas_spurious weak rd rnd x s = Inr (sp, x1, s1)"
      using run ne by (auto simp: compare_swap_impl_def fault_inv)
    note x1 = cas_spurious_cell [OF sp]
    show ?thesis
    proof (cases sp)
      case sT: True
      then have "cas_fail n rd failure_mo rnd th x1 s1 = Inr (b, c, th', x', s')"
        using run ne sp True by (auto simp: compare_swap_impl_def fault_inv)
      from cell_log_cas_fail [OF _ ne(1) this] x1 log sT ne show ?thesis by auto
    next
      case False
      then obtain i aba impl where r: "atomic_rmw n mo th (c_impl x1) = Inr (i, aba, th', impl)"
        and x': "b" "c = cmp" "x' = put_value i xchg impl x1"
        using run ne sp True by (auto simp: compare_swap_impl_def fault_inv)
      show ?thesis using cell_log_rmw [OF _ ne(1) log(2) r] x1 log(1) x' True ne by auto
    qed
  qed
qed

lemma cell_exec_refines:
  assumes "cell_log x log" "length log + 1 < 2 ^ 32 - 1" "cell_exec n rd op rnd th x s = Inr (r, th', x', s')"
  shows "\<exists>log'. log_step rd op log r log' \<and> cell_log x' log' \<and> length log' \<le> length log + 1"
proof (cases op)
  case (Op_load mo)
  then obtain m v where "load_impl n False rd m rnd th x s = Inr (v, th', x', s')" "r = R_val v"
    using assms(3) cell_load_impl by (fastforce simp: rbind_Inr)
  with cell_log_load_impl [OF assms(1) this(1)] Op_load show ?thesis by (intro exI [of _ log]) auto
next
  case (Op_store mo v)
  then have "store_impl n False mo th x v = Inr (th', x')" "r = R_unit"
    using assms(3) cell_store_impl by (fastforce simp: rbind_Inr)+
  with cell_log_store_impl [OF assms(1,2)] Op_store show ?thesis by (intro exI [of _ "v # log"]) auto
next
  case (Op_cas weak mo fmo cmp xchg)
  then obtain m f b c where i: "compare_swap_impl n False rd weak m f rnd th x cmp xchg s = Inr (b, c, th', x', s')"
    "r = R_cas b c"
    using assms(3) by (auto simp: compare_exchange2_def rbind_Inr)
  note c = cell_log_cas_impl [OF assms(1,2) i(1)]
  show ?thesis
    using c Op_cas i(2) by (intro exI [of _ "if b then xchg # log else log"]) (cases b; auto)
next
  case (Op_rmw mo type v)
  then obtain m y where i: "rmw_impl n False m type th x v = Inr (y, th', x')" "r = R_val y"
    using assms(3) by (cases mo) (auto simp: rbind_Inr cell_rmw_def)
  from cell_log_rmw_impl [OF assms(1,2) i(1)] Op_rmw i(2) show ?thesis
    by (intro exI [of _ "perform_rmw type (hd log) v # log"]) auto
qed

section \<open>Runs\<close>

text \<open>Operations of several threads in the order they are executed.\<close>

fun cell_run ::
  "nat \<Rightarrow> bool \<Rightarrow> (nat \<times> ('b :: len) word cell_op) list \<Rightarrow> 's rnd \<Rightarrow> (nat \<Rightarrow> thread_info) \<Rightarrow> 'b word cell \<Rightarrow> 's
     \<Rightarrow> fault + ('b word cell_res list \<times> (nat \<Rightarrow> thread_info) \<times> 'b word cell \<times> 's)" where
  "cell_run n rd [] rnd ths x s = Inr ([], ths, x, s)"
| "cell_run n rd ((t, op) # ops) rnd ths x s =
     rbind (cell_exec n rd op rnd (ths t) x s) (\<lambda>(r, th, x, s).
       rbind (cell_run n rd ops rnd (ths(t := th)) x s) (\<lambda>(rs, ths, x, s). Inr (r # rs, ths, x, s)))"

inductive log_run ::
  "bool \<Rightarrow> ('b :: len) word cell_op list \<Rightarrow> 'b word list \<Rightarrow> 'b word cell_res list \<Rightarrow> 'b word list \<Rightarrow> bool" for rd where
  log_done: "log_run rd [] log [] log"
| log_more: "log_step rd op log r log1 \<Longrightarrow> log_run rd ops log1 rs log2 \<Longrightarrow> log_run rd (op # ops) log (r # rs) log2"

inductive_simps log_run_Nil: "log_run rd [] log rs log'"
inductive_simps log_run_Cons: "log_run rd (op # ops) log rs log'"

text \<open>
  C16. An atomic variable is linearizable with the order of its stores: every run of loads,
  stores, compare-and-swaps and read-modify-writes by any threads, under every choice of the
  scheduler, is a run of the log. A load returns one of the newest values of the log, a
  read-modify-write reads the newest value and appends its result, a strong compare-and-swap
  succeeds exactly when the newest value is the expected one, and a failing one reports it.
\<close>

theorem atomic_refines_log:
  assumes "cell_log x log" "length log + length ops < 2 ^ 32 - 1"
    "cell_run n rd ops rnd ths x s = Inr (rs, ths', x', s')"
  shows "\<exists>log'. log_run rd (map snd ops) log rs log' \<and> cell_log x' log'"
  using assms
proof (induction ops arbitrary: x log ths s rs)
  case Nil
  then show ?case by (auto intro: log_done)
next
  case (Cons p ops)
  obtain t op where p: "p = (t, op)" by (cases p)
  with Cons.prems(3) obtain r th x1 s1 rs1 where e: "cell_exec n rd op rnd (ths t) x s = Inr (r, th, x1, s1)"
    and rest: "cell_run n rd ops rnd (ths(t := th)) x1 s1 = Inr (rs1, ths', x', s')" "rs = r # rs1"
    by (auto simp: rbind_Inr)
  obtain log1 where l1: "log_step rd op log r log1" "cell_log x1 log1" "length log1 \<le> length log + 1"
    using cell_exec_refines [OF Cons.prems(1) _ e] Cons.prems(2) by auto
  have "length log1 + length ops < 2 ^ 32 - 1" using l1(3) Cons.prems(2) by simp
  from Cons.IH [OF l1(2) this rest(1)] l1(1) p rest(2) show ?case by (auto intro: log_more)
qed

text \<open>The property at a constructed variable, two threads and every kind of operation.\<close>

definition sample_cell :: "32 word cell" where
  "sample_cell = \<lparr>c_value = 0, c_history = (\<lambda>_. 0), c_impl = atomic_data_ctor 2 blank_atomic, c_last_index = 0,
     c_sign = signature_ctor cell_magic 65536, c_initialized = False, c_already_failed = False\<rparr>"

lemma sample_cell_log: "cell_log sample_cell []"
  by (simp add: cell_log_def sample_cell_def atomic_data_ctor_def Let_def)

lemma rmw_cell_total:
  assumes "cell_log x log" "log \<noteq> []"
  shows "\<exists>i aba th' impl. atomic_rmw n mo th (c_impl x) = Inr (i, aba, th', impl)"
  using cell_log_current [OF assms] by (intro rmw_total) auto

lemma cas_fail_total:
  assumes "cell_log x log" "log \<noteq> []"
  shows "\<exists>r. cas_fail n rd mo rnd th x s = Inr r"
  using rmw_load_total [of "c_impl x" n rd mo rnd th s] cell_log_current [OF assms]
  by (auto simp: cas_fail_def)

lemma exec_store_total:
  "sig_ok cell_magic (c_sign x) \<Longrightarrow> mo \<in> {mo_relaxed, mo_release, mo_seq_cst} \<Longrightarrow>
     \<exists>r. cell_exec n rd (Op_store mo v) rnd th x s = Inr r"
  using atomic_store_total [of False mo n th "c_impl x"]
  by (auto simp: cell_store_def store_impl_def)

lemma cas_fail_sign: "cas_fail n rd f rnd th y s = Inr (b, c, th', x', s') \<Longrightarrow> c_sign x' = c_sign y"
  by (auto simp: cas_fail_def rbind_Inr)

lemma exec_keeps_sign:
  assumes "cell_exec n rd op rnd th x s = Inr (r, th', x', s')"
  shows "c_sign x' = c_sign x"
proof (cases op)
  case (Op_load mo)
  then show ?thesis using assms by (cases mo) (auto simp: cell_load_def load_impl_def fault_inv)
next
  case (Op_store mo v)
  then show ?thesis using assms
    by (cases mo) (auto simp: cell_store_def store_impl_def put_value_def fault_inv)
next
  case (Op_cas weak mo fmo cmp xchg)
  show ?thesis using assms Op_cas
    by (auto simp: compare_exchange2_def compare_swap_impl_def fault_inv put_value_def
        dest!: cas_fail_sign cas_spurious_cell split: if_splits)
next
  case (Op_rmw mo type v)
  then show ?thesis using assms
    by (cases mo) (auto simp: cell_rmw_def rmw_impl_def put_value_def fault_inv Let_def)
qed

lemma exec_outcome:
  assumes "cell_log x log" "sig_ok cell_magic (c_sign x)"
    "op = Op_rmw mo type v \<or> op = Op_cas False mo fmo cmp xchg \<and> (\<exists>m. cas_modes2 mo fmo = Inr m)"
  shows "if log = [] then cell_exec n rd op rnd th x s = Inl (Test_failed result_unitialized_access)
    else \<exists>r. cell_exec n rd op rnd th x s = Inr r"
proof -
  have i: "c_initialized x = (log \<noteq> [])" using assms(1) by (simp add: cell_log_def)
  show ?thesis
  proof (cases "op = Op_rmw mo type v")
    case True
    obtain m where m: "cell_rmw n False mo type th x v = rmw_impl n False m type th x v"
      using cell_rmw_impl by blast
    show ?thesis using rmw_cell_total [OF assms(1), of n m th] i assms(2) True
      by (auto simp: m rmw_impl_def Let_def)
  next
    case False
    then obtain m f where c: "op = Op_cas False mo fmo cmp xchg" "cas_modes2 mo fmo = Inr (m, f)"
      using assms(3) by auto
    show ?thesis
      using rmw_cell_total [OF assms(1), of n m th] cas_fail_total [OF assms(1), of n rd f rnd th s] i assms(2) c
      by (auto simp: compare_exchange2_def compare_swap_impl_def cas_spurious_def)
  qed
qed

text \<open>Two threads: a store, an addition and a compare-and-swap.\<close>

definition sample_ops :: "(nat \<times> 32 word cell_op) list" where
  "sample_ops = [(0, Op_store mo_release 5), (1, Op_rmw mo_acq_rel rmw_add 2), (0, Op_cas False mo_seq_cst mo_acquire 7 9)]"

lemma sample_sign: "sig_ok cell_magic (c_sign sample_cell)"
  by (simp add: sample_cell_def sig_ok_def signature_check_def signature_ctor_def Let_def)

lemma sample_step:
  assumes "cell_log x log" "length log < 100" "sig_ok cell_magic (c_sign x)" "\<exists>r. cell_exec 2 True op rnd th x s = Inr r"
  obtains r th' x' s' log' where "cell_exec 2 True op rnd th x s = Inr (r, th', x', s')" "log_step True op log r log'"
    "cell_log x' log'" "sig_ok cell_magic (c_sign x')" "length log' \<le> length log + 1"
proof -
  from assms(4) obtain r th' x' s' where e: "cell_exec 2 True op rnd th x s = Inr (r, th', x', s')" by auto
  show ?thesis using cell_exec_refines [OF assms(1) _ e] assms(2,3) exec_keeps_sign [OF e] that [OF e] by auto
qed

lemma sample_cell_run:
  fixes s :: nat
  shows "\<exists>rs ths' x' s'. cell_run 2 True sample_ops rnd (fresh_thread 2) sample_cell s = Inr (rs, ths', x', s')"
proof -
  obtain r1 th1 x1 s1 log1 where 1: "cell_exec 2 True (Op_store mo_release 5) rnd (fresh_thread 2 0) sample_cell s = Inr (r1, th1, x1, s1)"
    "log_step True (Op_store mo_release (5 :: 32 word)) [] r1 log1" "cell_log x1 log1" "sig_ok cell_magic (c_sign x1)" "length log1 \<le> 1"
  proof -
    have t: "\<exists>r. cell_exec 2 True (Op_store mo_release 5) rnd (fresh_thread 2 0) sample_cell s = Inr r"
      by (rule exec_store_total [OF sample_sign]) simp
    show ?thesis by (rule sample_step [OF sample_cell_log _ sample_sign t]) (auto intro: that)
  qed
  define T1 where "T1 = (fresh_thread 2)(0 := th1)"
  obtain r2 th2 x2 s2 log2 where 2: "cell_exec 2 True (Op_rmw mo_acq_rel rmw_add 2) rnd (T1 1) x1 s1 = Inr (r2, th2, x2, s2)"
    "log_step True (Op_rmw mo_acq_rel rmw_add (2 :: 32 word)) log1 r2 log2" "cell_log x2 log2" "sig_ok cell_magic (c_sign x2)" "length log2 \<le> 2"
    using sample_step [OF 1(3) _ 1(4), of "Op_rmw mo_acq_rel rmw_add 2" rnd "T1 1" s1]
      exec_outcome [OF 1(3,4), of "Op_rmw mo_acq_rel rmw_add 2" mo_acq_rel rmw_add 2 mo_relaxed 0 0 2 True rnd "T1 1" s1] 1(2,5) by auto
  define T2 where "T2 = T1(1 := th2)"
  have "log2 \<noteq> []" using 2(2) by auto
  then obtain r3 th3 x3 s3 where 3: "cell_exec 2 True (Op_cas False mo_seq_cst mo_acquire 7 9) rnd (T2 0) x2 s2 = Inr (r3, th3, x3, s3)"
    using exec_outcome [OF 2(3,4), of "Op_cas False mo_seq_cst mo_acquire 7 9" mo_seq_cst rmw_add 0 mo_acquire 7 9 2 True rnd "T2 0" s2]
    by (auto simp: cas_modes2_def simp del: cell_exec.simps)
  show ?thesis using 1(1) 2(1) 3(1) by (simp add: sample_ops_def T1_def T2_def)
qed

theorem atomic_refines_log_witness:
  "\<exists>rs ths' x' (s' :: nat) log'.
     cell_run 2 True sample_ops (\<lambda>s _ _. Inr (s, s)) (fresh_thread 2) sample_cell 0 = Inr (rs, ths', x', s') \<and>
     log_run True (map snd sample_ops) [] rs log' \<and> rs = [R_unit, R_val 5, R_cas True 7] \<and> log' = [9, 7, 5]"
proof -
  obtain rs ths' x' and s' :: nat where r: "cell_run 2 True sample_ops (\<lambda>s _ _. Inr (s, s)) (fresh_thread 2) sample_cell 0 =
      Inr (rs, ths', x', s')" using sample_cell_run by blast
  obtain log' where l: "log_run True (map snd sample_ops) [] rs log'"
    using atomic_refines_log [OF sample_cell_log _ r] by (auto simp: sample_ops_def)
  then have "rs = [R_unit, R_val 5, R_cas True 7] \<and> log' = [9, 7, 5]"
    by (auto simp: sample_ops_def log_run_Cons log_run_Nil split: if_splits)
  with r l show ?thesis by blast
qed

text \<open>
  On a live variable a read-modify-write and a strong compare-and-swap (with a legal pair of
  orders) never trip an internal assertion: they take the step of the log when a value has been
  stored and end the test with the uninitialized access result when none has.
\<close>

lemma rmw_and_cas_outcome:
  assumes "cell_log x log" "length log + 1 < 2 ^ 32 - 1" "sig_ok cell_magic (c_sign x)"
    "op = Op_rmw mo type v \<or> op = Op_cas False mo fmo cmp xchg \<and> (\<exists>m. cas_modes2 mo fmo = Inr m)"
  shows "if log = [] then cell_exec n rd op rnd th x s = Inl (Test_failed result_unitialized_access)
    else \<exists>r th' x' s' log'. cell_exec n rd op rnd th x s = Inr (r, th', x', s') \<and>
      log_step rd op log r log' \<and> cell_log x' log'"
proof (cases "log = []")
  case True
  then show ?thesis using exec_outcome [OF assms(1,3,4), of n rd rnd th s] by simp
next
  case False
  then obtain r th' x' s' where e: "cell_exec n rd op rnd th x s = Inr (r, th', x', s')"
    using exec_outcome [OF assms(1,3,4), of n rd rnd th s] by auto
  show ?thesis using cell_exec_refines [OF assms(1,2) e] e False by auto
qed

lemma rmw_and_cas_outcome_example:
  "cell_exec 2 True (Op_rmw mo_seq_cst rmw_add 1) (\<lambda>s _ _. Inr (s, s)) (fresh_thread 2 0) sample_cell (0 :: nat) =
     Inl (Test_failed result_unitialized_access)"
  using rmw_and_cas_outcome [OF sample_cell_log _ sample_sign, of "Op_rmw mo_seq_cst rmw_add 1" mo_seq_cst rmw_add 1]
  by simp

section \<open>The assignment operators\<close>

lemma rmw_impl_value:
  assumes "rmw_impl n ie mo type th x v = Inr (r, th', x')"
  shows "r = c_value x \<and> c_value x' = perform_rmw type (c_value x) v"
  using assms by (auto simp: rmw_impl_def fault_inv Let_def put_value_def)

lemma proxy_value:
  assumes "proxy_result f (cell_rmw n ie mo type th x v) = Inr (r, th', x')"
  shows "r = f (c_value x) \<and> c_value x' = perform_rmw type (c_value x) v"
proof -
  obtain m where m: "cell_rmw n ie mo type th x v = rmw_impl n ie m type th x v" using cell_rmw_impl by blast
  obtain y where "rmw_impl n ie m type th x v = Inr (y, th', x')" "r = f y"
    using assms by (auto simp: m proxy_result_def rbind_Inr)
  then show ?thesis using rmw_impl_value by blast
qed

lemmas proxy_defs = cell_preinc_def cell_predec_def cell_add_assign_def cell_sub_assign_def cell_and_assign_def
  cell_or_assign_def cell_xor_assign_def cell_fetch_add_def cell_fetch_sub_def cell_fetch_and_def
  cell_fetch_or_def cell_fetch_xor_def

text \<open>
  The compound assignments of an atomic variable return the value they store, all but
  \<open>-=\<close>: it stores the difference and returns the sum of the old value and the operand.
\<close>

lemma compound_assignment_results:
  fixes x :: "('b :: len) word cell"
  shows "(cell_add_assign n ie th x v = Inr (r, th', x') \<longrightarrow> r = c_value x') \<and>
    (cell_and_assign n ie th x v = Inr (r, th', x') \<longrightarrow> r = c_value x') \<and>
    (cell_or_assign n ie th x v = Inr (r, th', x') \<longrightarrow> r = c_value x') \<and>
    (cell_xor_assign n ie th x v = Inr (r, th', x') \<longrightarrow> r = c_value x') \<and>
    (cell_preinc n ie th x = Inr (r, th', x') \<longrightarrow> r = c_value x') \<and>
    (cell_predec n ie th x = Inr (r, th', x') \<longrightarrow> r = c_value x') \<and>
    (cell_sub_assign n ie th x v = Inr (r, th', x') \<longrightarrow> c_value x' = c_value x - v \<and> r = c_value x + v)"
  unfolding proxy_defs by (auto dest!: proxy_value)

lemma compound_assignment_example:
  "\<exists>th x th' x' r. cell_sub_assign 2 False th (x :: 32 word cell) 2 = Inr (r, th', x') \<and> c_value x = 5 \<and>
    c_value x' = 3 \<and> r = 7"
proof -
  have t: "\<exists>r. cell_exec 2 True (Op_store mo_release 5) (\<lambda>s _ _. Inr (s, s)) (fresh_thread 2 0) sample_cell (0 :: nat) = Inr r"
    by (rule exec_store_total [OF sample_sign]) simp
  obtain th1 and x1 :: "32 word cell" and log1 where x1: "cell_log x1 log1" "sig_ok cell_magic (c_sign x1)" "log1 = [5]"
    by (rule sample_step [OF sample_cell_log _ sample_sign t]) auto
  then have v: "c_value x1 = 5" by (simp add: cell_log_def)
  from exec_outcome [OF x1(1,2), of "Op_rmw mo_seq_cst rmw_sub 2" mo_seq_cst rmw_sub 2 mo_relaxed 0 0 2 True "\<lambda>s _ _. Inr (s, s)" "fresh_thread 2 1" "0 :: nat"]
  obtain r th' x' where "cell_rmw 2 False mo_seq_cst rmw_sub (fresh_thread 2 1) x1 2 = Inr (r, th', x')"
    using x1(3) by (auto simp: rbind_Inr)
  then have e: "cell_sub_assign 2 False (fresh_thread 2 1) x1 2 = Inr (r + 2, th', x')"
    by (simp add: cell_sub_assign_def cell_fetch_sub_def proxy_result_def)
  with compound_assignment_results [of 2 False "fresh_thread 2 1" x1 2 "r + 2" th' x'] v show ?thesis
    by (intro exI [of _ "fresh_thread 2 1"] exI [of _ x1] exI [of _ th'] exI [of _ x'] exI [of _ "r + 2"]) simp
qed

end
