(* ===== verification/Memory.thy ===== *)
theory Memory
  imports Relacy_Types
begin

text \<open>
  The heap a test sees: \<open>memory_mgr\<close> of \<^verbatim>\<open>memory.hpp\<close> in the configuration
  without garbage collection. A block obtained from \<open>malloc\<close> starts with a header that holds
  its size; the caller gets the address behind the header. Freed blocks go, at once or through a
  ring of 64 deferred ones, to a stack per size, from which the next allocation of that size is
  served. An address is a natural number, 0 is the null pointer, and the answer of the C
  library's \<open>malloc\<close> is an argument \<open>sys\<close> of the operations that may call it.
\<close>

section \<open>State and operations\<close>

definition alignment :: nat where
  "alignment = 16"

definition deferred_count :: nat where
  "deferred_count = 64"

record memory_mgr =
  alloc_cache :: "(nat \<times> nat list) list"
  deferred_index :: "64 word"
  deferred_free :: "nat \<Rightarrow> nat"
  deferred_free_size :: "nat \<Rightarrow> nat"
  allocs :: "nat \<rightharpoonup> nat"
  block_header :: "nat \<Rightarrow> nat"

definition memory_ctor :: memory_mgr where
  "memory_ctor = \<lparr>alloc_cache = [], deferred_index = 0, deferred_free = (\<lambda>_. 0),
     deferred_free_size = (\<lambda>_. 0), allocs = Map.empty, block_header = (\<lambda>_. 0)\<rparr>"

text \<open>The search of \<open>alloc\<close> in the cache; 0 when no block of that size is at hand.\<close>

fun cache_pop :: "nat \<Rightarrow> (nat \<times> nat list) list \<Rightarrow> nat \<times> (nat \<times> nat list) list" where
  "cache_pop sz [] = (0, [])"
| "cache_pop sz ((s, l) # rest) =
     (if s = sz then (case l of [] \<Rightarrow> (0, (s, l) # rest) | p # l' \<Rightarrow> (p, (s, l') # rest))
      else let (p, rest') = cache_pop sz rest in (p, (s, l) # rest'))"

fun rl_free_impl :: "nat \<Rightarrow> nat \<Rightarrow> (nat \<times> nat list) list \<Rightarrow> (nat \<times> nat list) list" where
  "rl_free_impl p sz [] = [(sz, [p])]"
| "rl_free_impl p sz ((s, l) # rest) =
     (if s = sz then (s, p # l) # rest else (s, l) # rl_free_impl p sz rest)"

definition memory_alloc :: "nat \<Rightarrow> nat \<Rightarrow> memory_mgr \<Rightarrow> fault + (nat \<times> memory_mgr)" where
  "memory_alloc sys sz m =
     (let (pp, cache) = cache_pop sz (alloc_cache m);
          pp = (if pp = 0 then sys else pp)
      in if pp \<noteq> 0
         then let p = pp + alignment
              in Inr (p, m\<lparr>alloc_cache := cache, block_header := (block_header m)(pp := sz),
                          allocs := (if allocs m p = None then (allocs m)(p \<mapsto> sz) else allocs m)\<rparr>)
         else Inl Bad_alloc)"

definition deferred_slot :: "64 word \<Rightarrow> nat" where
  "deferred_slot i = unat i mod deferred_count"

definition memory_free :: "nat \<Rightarrow> bool \<Rightarrow> memory_mgr \<Rightarrow> bool \<times> memory_mgr" where
  "memory_free pp defer m =
     (if pp = 0 then (True, m)
      else if allocs m pp = None then (False, m)
      else let m = m\<lparr>allocs := (allocs m)(pp := None)\<rparr>;
               p = pp - alignment;
               sz = block_header m p
           in if defer
              then let k = deferred_slot (deferred_index m);
                       k' = deferred_slot (deferred_index m + 1);
                       m = m\<lparr>deferred_free := (deferred_free m)(k := p),
                             deferred_free_size := (deferred_free_size m)(k := sz),
                             deferred_index := deferred_index m + 1\<rparr>;
                       p = deferred_free m k'; sz = deferred_free_size m k'
                   in (True, if p \<noteq> 0 then m\<lparr>alloc_cache := rl_free_impl p sz (alloc_cache m)\<rparr> else m)
              else (True, m\<lparr>alloc_cache := rl_free_impl p sz (alloc_cache m)\<rparr>))"

definition memory_iteration_end :: "memory_mgr \<Rightarrow> bool" where
  "memory_iteration_end m = (allocs m = Map.empty)"

section \<open>The invariant\<close>

text \<open>
  The blocks the manager knows are of three kinds: handed out, waiting in the ring, and free in
  the cache. The slot at \<open>deferred_index\<close> is stale: its block has moved to the cache.
\<close>

definition entries :: "(nat \<times> nat list) list \<Rightarrow> (nat \<times> nat) set" where
  "entries c = (\<Union>(s, l) \<in> set c. {s} \<times> set l)"

definition cached :: "(nat \<times> nat list) list \<Rightarrow> nat set" where
  "cached c = snd ` entries c"

definition ring :: "memory_mgr \<Rightarrow> nat \<Rightarrow> bool" where
  "ring m j \<longleftrightarrow> j < deferred_count \<and> j \<noteq> deferred_slot (deferred_index m) \<and> deferred_free m j \<noteq> 0"

definition waiting :: "memory_mgr \<Rightarrow> nat set" where
  "waiting m = deferred_free m ` {j. ring m j}"

definition handed_out :: "memory_mgr \<Rightarrow> nat set" where
  "handed_out m = {b. b + alignment \<in> dom (allocs m)}"

definition cache_ok :: "(nat \<times> nat list) list \<Rightarrow> bool" where
  "cache_ok c \<longleftrightarrow> distinct (concat (map snd c)) \<and> distinct (map fst c) \<and> 0 \<notin> cached c"

definition memory_ok :: "memory_mgr \<Rightarrow> bool" where
  "memory_ok m \<longleftrightarrow> cache_ok (alloc_cache m) \<and>
     inj_on (deferred_free m) {j. ring m j} \<and>
     (\<forall>p \<in> dom (allocs m). alignment < p) \<and>
     cached (alloc_cache m) \<inter> waiting m = {} \<and> cached (alloc_cache m) \<inter> handed_out m = {} \<and>
     waiting m \<inter> handed_out m = {} \<and>
     (\<forall>p s. allocs m p = Some s \<longrightarrow> block_header m (p - alignment) = s) \<and>
     (\<forall>j. ring m j \<longrightarrow> deferred_free_size m j = block_header m (deferred_free m j)) \<and>
     (\<forall>(s, p) \<in> entries (alloc_cache m). block_header m p = s)"

definition blocks_of :: "memory_mgr \<Rightarrow> nat set" where
  "blocks_of m = cached (alloc_cache m) \<union> waiting m \<union> handed_out m"


section \<open>The cache\<close>

lemma entries_simps [simp]: "entries [] = {}" "entries ((s, l) # r) = {s} \<times> set l \<union> entries r"
  by (auto simp: entries_def)

lemma cached_simps [simp]: "cached [] = {}" "cached ((s, l) # r) = set l \<union> cached r"
  by (auto simp: cached_def image_Un)

lemma cached_concat: "cached c = set (concat (map snd c))"
  by (induction c) auto

lemma entries_key: "(s, p) \<in> entries c \<Longrightarrow> s \<in> fst ` set c \<and> p \<in> cached c"
  by (force simp: entries_def cached_def)

lemma cache_ok_Nil [simp]: "cache_ok []"
  by (simp add: cache_ok_def)

lemma cache_ok_Cons:
  "cache_ok ((s, l) # r) \<longleftrightarrow>
     distinct l \<and> 0 \<notin> set l \<and> set l \<inter> cached r = {} \<and> s \<notin> fst ` set r \<and> cache_ok r"
  by (auto simp: cache_ok_def cached_concat)

lemma cache_pop_null: "cache_pop sz c = (0, c') \<Longrightarrow> cache_ok c \<Longrightarrow> c' = c"
  by (induction c arbitrary: c')
    (auto simp: cache_ok_Cons split: if_splits list.splits prod.splits)

lemma cache_pop_keys: "cache_pop sz c = (p, c') \<Longrightarrow> map fst c' = map fst c"
  by (induction c arbitrary: c') (auto split: if_splits list.splits prod.splits)

lemma keys_set: "map fst c' = map fst c \<Longrightarrow> fst ` set c' = fst ` set c"
  by (metis set_map)

lemma cache_pop_block:
  "cache_pop sz c = (p, c') \<Longrightarrow> p \<noteq> 0 \<Longrightarrow> cache_ok c \<Longrightarrow>
     (sz, p) \<in> entries c \<and> p \<in> cached c \<and> cached c' = cached c - {p} \<and> cache_ok c' \<and> entries c' \<subseteq> entries c"
proof (induction c arbitrary: c')
  case (Cons a c)
  obtain s l where a: "a = (s, l)" by (cases a)
  show ?case
  proof (cases "s = sz")
    case True
    then show ?thesis using Cons.prems a by (cases l) (auto simp: cache_ok_Cons)
  next
    case False
    then obtain c1 where c1: "cache_pop sz c = (p, c1)" "c' = (s, l) # c1"
      using Cons.prems(1) a by (auto split: prod.splits)
    have ok: "cache_ok c" "distinct l" "0 \<notin> set l" "set l \<inter> cached c = {}" "s \<notin> fst ` set c"
      using Cons.prems(3) a by (auto simp: cache_ok_Cons)
    have "s \<notin> fst ` set c1" using ok(5) keys_set [OF cache_pop_keys [OF c1(1)]] by simp
    then show ?thesis using Cons.IH [OF c1(1) Cons.prems(2) ok(1)] ok a c1(2)
      by (auto simp: cache_ok_Cons)
  qed
qed simp

lemma free_keys: "fst ` set (rl_free_impl p sz c) = insert sz (fst ` set c)"
  by (induction p sz c rule: rl_free_impl.induct) auto

lemma free_entries: "entries (rl_free_impl p sz c) = insert (sz, p) (entries c)"
  by (induction p sz c rule: rl_free_impl.induct) auto

lemma free_cached: "cached (rl_free_impl p sz c) = insert p (cached c)"
  by (simp add: cached_def free_entries)

lemma free_ok: "cache_ok c \<Longrightarrow> p \<notin> cached c \<Longrightarrow> p \<noteq> 0 \<Longrightarrow> cache_ok (rl_free_impl p sz c)"
  by (induction p sz c rule: rl_free_impl.induct)
    (auto simp: cache_ok_Cons free_keys free_cached)

section \<open>Allocating\<close>

lemma memory_ctor_ok: "memory_ok memory_ctor"
  by (simp add: memory_ok_def memory_ctor_def ring_def waiting_def handed_out_def)

lemma ring_alloc [simp]: "ring (m\<lparr>alloc_cache := c, block_header := h, allocs := a\<rparr>) = ring m"
  by (simp add: ring_def fun_eq_iff)

lemma ring_waiting: "ring m j \<Longrightarrow> deferred_free m j \<in> waiting m"
  by (simp add: waiting_def)

lemma handed_minus: "alignment < p \<Longrightarrow> p \<in> dom (allocs m) \<Longrightarrow> p - alignment \<in> handed_out m"
  by (simp add: handed_out_def)

text \<open>The block an allocation hands out was in the cache, or is new.\<close>

lemma memory_alloc_ok:
  assumes ok: "memory_ok m" and fresh: "sys \<notin> blocks_of m"
    and e: "memory_alloc sys sz m = Inr (p, m')"
  shows "memory_ok m' \<and> p \<notin> dom (allocs m) \<and> allocs m' = (allocs m)(p \<mapsto> sz) \<and> alignment < p \<and>
    blocks_of m' \<subseteq> insert sys (blocks_of m) \<and> waiting m' = waiting m"
proof -
  obtain q c where q: "cache_pop sz (alloc_cache m) = (q, c)" by fastforce
  define b where "b = (if q = 0 then sys else q)"
  have c0: "cache_ok (alloc_cache m)" using ok by (simp add: memory_ok_def)
  have new: "b \<notin> waiting m" "b \<notin> handed_out m" "b \<notin> cached c" "cached c \<subseteq> cached (alloc_cache m)"
    "cache_ok c" "entries c \<subseteq> entries (alloc_cache m)" "b \<in> insert sys (cached (alloc_cache m))"
    using cache_pop_null [of sz "alloc_cache m" c] cache_pop_block [OF q _ c0] c0 q fresh ok
    by (auto simp: b_def blocks_of_def memory_ok_def)
  have e': "b \<noteq> 0" "p = b + alignment"
    and m': "m' = m\<lparr>alloc_cache := c, block_header := (block_header m)(b := sz),
        allocs := (if allocs m p = None then (allocs m)(p \<mapsto> sz) else allocs m)\<rparr>"
    using e q by (auto simp: memory_alloc_def b_def Let_def split: if_splits)
  have np: "allocs m p = None" using new(2) e'(2) by (auto simp: handed_out_def)
  have w: "waiting m' = waiting m" by (simp add: m' waiting_def)
  have h: "handed_out m' = insert b (handed_out m)"
    using e' np by (auto simp: m' handed_out_def)
  have hdr: "block_header m' x = block_header m x" if "x \<noteq> b" for x
    using that by (simp add: m')
  have "memory_ok m'" unfolding memory_ok_def
  proof (intro conjI)
    show "\<forall>p s. allocs m' p = Some s \<longrightarrow> block_header m' (p - alignment) = s"
    proof (intro allI impI)
      fix x s assume x: "allocs m' x = Some s"
      show "block_header m' (x - alignment) = s"
      proof (cases "x = p")
        case True then show ?thesis using x np e' by (simp add: m')
      next
        case False
        then have x': "allocs m x = Some s" using x np by (simp add: m')
        then have "alignment < x" using ok by (auto simp: memory_ok_def)
        then have "x - alignment \<noteq> b" using False e'(2) by auto
        then show ?thesis using x' ok hdr by (auto simp: memory_ok_def)
      qed
    qed
    show "\<forall>j. ring m' j \<longrightarrow> deferred_free_size m' j = block_header m' (deferred_free m' j)"
    proof (intro allI impI)
      fix j assume "ring m' j"
      then have r: "ring m j" by (simp add: m')
      then have "deferred_free m j \<noteq> b" using new(1) ring_waiting by metis
      then show "deferred_free_size m' j = block_header m' (deferred_free m' j)"
        using ok r by (simp add: m' memory_ok_def)
    qed
    show "\<forall>(s, p) \<in> entries (alloc_cache m'). block_header m' p = s"
    proof (intro ballI, clarify)
      fix s x assume x: "(s, x) \<in> entries (alloc_cache m')"
      then have "x \<noteq> b" using new(3) by (auto simp: m' dest: entries_key)
      then show "block_header m' x = s" using x new(6) ok hdr by (auto simp: m' memory_ok_def)
    qed
    show "cached (alloc_cache m') \<inter> waiting m' = {}" "cached (alloc_cache m') \<inter> handed_out m' = {}"
      "waiting m' \<inter> handed_out m' = {}"
      using ok new unfolding w h by (auto simp: m' memory_ok_def)
    show "\<forall>p \<in> dom (allocs m'). alignment < p" using ok e' np by (auto simp: m' memory_ok_def)
    show "cache_ok (alloc_cache m')" using new(5) by (simp add: m')
    show "inj_on (deferred_free m') {j. ring m' j}" using ok by (simp add: m' memory_ok_def)
  qed
  moreover have "blocks_of m' \<subseteq> insert sys (blocks_of m)"
    using new(4,7) unfolding blocks_of_def w h by (auto simp: m')
  ultimately show ?thesis using np e' w by (auto simp: m')
qed

section \<open>Freeing\<close>

lemma deferred_slot_Suc: "deferred_slot (i + 1) = Suc (deferred_slot i) mod deferred_count"
proof -
  have "unat (i + 1) = (unat i + 1) mod 2 ^ 64"
    by (simp add: unat_word_ariths)
  then show ?thesis
    by (simp add: deferred_slot_def deferred_count_def mod_mod_cancel mod_Suc_eq)
qed

lemma deferred_slot_next: "deferred_slot (i + 1) \<noteq> deferred_slot i" "deferred_slot i < deferred_count"
  unfolding deferred_slot_Suc by (auto simp: deferred_slot_def deferred_count_def mod_Suc)

text \<open>A block joins the cache.\<close>

lemma to_cache_ok:
  assumes ok: "memory_ok m" and p: "p \<noteq> 0" "p \<notin> cached (alloc_cache m)" "p \<notin> waiting m" "p \<notin> handed_out m"
    and m': "m' = m\<lparr>alloc_cache := rl_free_impl p (block_header m p) (alloc_cache m)\<rparr>"
  shows "memory_ok m' \<and> blocks_of m' = insert p (blocks_of m)"
proof -
  have eq: "waiting m' = waiting m" "handed_out m' = handed_out m" "ring m' = ring m"
    by (auto simp: m' waiting_def handed_out_def ring_def fun_eq_iff)
  show ?thesis
    using ok p free_ok [of "alloc_cache m" p] unfolding memory_ok_def blocks_of_def eq
    by (auto simp: m' free_cached free_entries)
qed

lemma free_live:
  assumes ok: "memory_ok m" and a: "allocs m pp = Some sz"
  shows "memory_ok (m\<lparr>allocs := (allocs m)(pp := None)\<rparr>) \<and>
    pp - alignment \<notin> blocks_of (m\<lparr>allocs := (allocs m)(pp := None)\<rparr>) \<and> pp - alignment \<noteq> 0 \<and>
    block_header m (pp - alignment) = sz \<and>
    blocks_of m = insert (pp - alignment) (blocks_of (m\<lparr>allocs := (allocs m)(pp := None)\<rparr>))"
proof -
  define m1 where "m1 = m\<lparr>allocs := (allocs m)(pp := None)\<rparr>"
  have pp: "alignment < pp" using ok a by (auto simp: memory_ok_def)
  have h: "handed_out m = insert (pp - alignment) (handed_out m1)" "pp - alignment \<notin> handed_out m1"
    using pp a by (auto simp: handed_out_def m1_def)
  have eq: "waiting m1 = waiting m" "ring m1 = ring m"
    by (auto simp: m1_def waiting_def ring_def fun_eq_iff)
  have "memory_ok m1"
    using ok h unfolding memory_ok_def eq by (auto simp: m1_def)
  moreover have "pp - alignment \<notin> blocks_of m1"
    using ok h unfolding memory_ok_def blocks_of_def eq by (auto simp: m1_def)
  moreover have "blocks_of m = insert (pp - alignment) (blocks_of m1)"
    using h unfolding blocks_of_def eq by (auto simp: m1_def)
  ultimately show ?thesis using pp ok a unfolding m1_def by (auto simp: memory_ok_def)
qed

text \<open>A block enters the ring; the one in the next slot leaves it.\<close>

lemma to_ring_ok:
  assumes ok: "memory_ok m" and p: "p \<noteq> 0" "p \<notin> blocks_of m"
    and m': "m' = m\<lparr>deferred_free := (deferred_free m)(deferred_slot (deferred_index m) := p),
        deferred_free_size := (deferred_free_size m)(deferred_slot (deferred_index m) := block_header m p),
        deferred_index := deferred_index m + 1\<rparr>"
    and q: "q = deferred_free m' (deferred_slot (deferred_index m + 1))"
  shows "memory_ok m' \<and> blocks_of m' = insert p (blocks_of m) - (if q = 0 then {} else {q}) \<and>
    (q \<noteq> 0 \<longrightarrow> q \<in> waiting m \<and> q \<notin> blocks_of m' \<and>
      deferred_free_size m' (deferred_slot (deferred_index m + 1)) = block_header m q)"
proof -
  define k where "k = deferred_slot (deferred_index m)"
  define k' where "k' = deferred_slot (deferred_index m + 1)"
  have kk: "k' \<noteq> k" "k < deferred_count" "k' < deferred_count"
    using deferred_slot_next by (auto simp: k_def k'_def)
  have qm: "q = deferred_free m k'" using kk by (simp add: q m' k_def k'_def)
  have ring: "ring m' j \<longleftrightarrow> j = k \<or> ring m j \<and> j \<noteq> k'" for j
    using kk p(1) by (auto simp: ring_def m' k_def k'_def)
  have rk: "\<not> ring m k" by (simp add: ring_def k_def)
  have inj: "inj_on (deferred_free m) {j. ring m j}" using ok by (simp add: memory_ok_def)
  have df: "deferred_free m' j = (if j = k then p else deferred_free m j)" for j
    by (simp add: m' k_def)
  have dfs: "deferred_free_size m' j = (if j = k then block_header m p else deferred_free_size m j)" for j
    by (simp add: m' k_def)
  have rq: "q \<noteq> 0 \<longrightarrow> ring m k'" using kk qm by (auto simp: ring_def k_def)
  have w: "waiting m' = insert p (waiting m - (if q = 0 then {} else {q}))"
  proof -
    have "waiting m' = insert p (deferred_free m ` {j. ring m j \<and> j \<noteq> k'})"
      using rk by (auto simp: waiting_def ring df)
    also have "deferred_free m ` {j. ring m j \<and> j \<noteq> k'} = waiting m - (if q = 0 then {} else {q})"
    proof (cases "ring m k'")
      case True
      have "deferred_free m ` ({j. ring m j} - {k'}) = deferred_free m ` {j. ring m j} - deferred_free m ` {k'}"
        using inj True by (intro inj_on_image_set_diff) auto
      moreover have "{j. ring m j \<and> j \<noteq> k'} = {j. ring m j} - {k'}" by auto
      moreover have "q \<noteq> 0" using True qm by (simp add: ring_def)
      ultimately show ?thesis using qm by (simp add: waiting_def)
    next
      case False
      then have "{j. ring m j \<and> j \<noteq> k'} = {j. ring m j}" by auto
      then show ?thesis using False rq by (simp add: waiting_def)
    qed
    finally show ?thesis .
  qed
  have pw: "p \<notin> waiting m" "p \<notin> cached (alloc_cache m)" "p \<notin> handed_out m"
    using p(2) by (auto simp: blocks_of_def)
  have eq: "handed_out m' = handed_out m" "alloc_cache m' = alloc_cache m" "allocs m' = allocs m"
    "block_header m' = block_header m"
    by (simp_all add: m' handed_out_def)
  have "inj_on (deferred_free m') {j. ring m' j}"
    using inj pw(1) rk by (auto simp: inj_on_def ring df waiting_def)
  moreover have "\<forall>j. ring m' j \<longrightarrow> deferred_free_size m' j = block_header m' (deferred_free m' j)"
    using ok rk unfolding eq by (simp add: ring df dfs memory_ok_def)
  moreover have "waiting m' \<subseteq> insert p (waiting m)" unfolding w by auto
  then have "cached (alloc_cache m) \<inter> waiting m' = {}" "waiting m' \<inter> handed_out m = {}"
    using ok pw unfolding memory_ok_def by blast+
  ultimately have ok': "memory_ok m'"
    using ok unfolding memory_ok_def eq by blast
  have qw: "q \<noteq> 0 \<longrightarrow> q \<in> waiting m" using rq qm by (auto simp: waiting_def)
  have disj: "waiting m \<inter> cached (alloc_cache m) = {}" "waiting m \<inter> handed_out m = {}"
    using ok by (auto simp: memory_ok_def)
  have "deferred_free_size m' k' = block_header m q" if "q \<noteq> 0"
    using rq ok kk that qm by (auto simp: memory_ok_def m' k_def)
  then show ?thesis
    using ok' qw disj pw unfolding blocks_of_def w eq k'_def [symmetric] by (auto split: if_splits)
qed

lemma memory_free_ok:
  assumes ok: "memory_ok m"
  shows "fst (memory_free pp defer m) = (pp = 0 \<or> pp \<in> dom (allocs m)) \<and>
    memory_ok (snd (memory_free pp defer m)) \<and>
    allocs (snd (memory_free pp defer m)) = (allocs m)(pp := None) \<and>
    blocks_of (snd (memory_free pp defer m)) = blocks_of m"
proof (cases "pp = 0 \<or> allocs m pp = None")
  case True
  have "0 \<notin> dom (allocs m)" using ok by (auto simp: memory_ok_def)
  then show ?thesis using True ok by (auto simp: memory_free_def fun_upd_idem)
next
  case False
  then obtain sz where sz: "allocs m pp = Some sz" "pp \<noteq> 0" by auto
  define m1 where "m1 = m\<lparr>allocs := (allocs m)(pp := None)\<rparr>"
  define p where "p = pp - alignment"
  have 1: "memory_ok m1" "p \<notin> blocks_of m1" "p \<noteq> 0" "blocks_of m = insert p (blocks_of m1)"
    using free_live [OF ok sz(1)] by (auto simp: m1_def p_def)
  have hd: "block_header m1 = block_header m" by (simp add: m1_def)
  show ?thesis
  proof (cases "defer")
    case False
    define m2 where "m2 = m1\<lparr>alloc_cache := rl_free_impl p (block_header m1 p) (alloc_cache m1)\<rparr>"
    have 2: "memory_free pp defer m = (True, m2)"
      using sz False by (simp add: memory_free_def m2_def m1_def p_def Let_def)
    have "memory_ok m2 \<and> blocks_of m2 = insert p (blocks_of m1)"
      by (rule to_cache_ok [OF 1(1,3) _ _ _ m2_def]) (use 1(2) in \<open>auto simp: blocks_of_def\<close>)
    then show ?thesis using 2 1(4) sz by (auto simp: m2_def m1_def)
  next
    case True
    define m2 where "m2 = m1\<lparr>deferred_free := (deferred_free m1)(deferred_slot (deferred_index m1) := p),
        deferred_free_size := (deferred_free_size m1)(deferred_slot (deferred_index m1) := block_header m1 p),
        deferred_index := deferred_index m1 + 1\<rparr>"
    define q where "q = deferred_free m2 (deferred_slot (deferred_index m1 + 1))"
    define m3 where "m3 = (if q \<noteq> 0 then m2\<lparr>alloc_cache := rl_free_impl q
        (deferred_free_size m2 (deferred_slot (deferred_index m1 + 1))) (alloc_cache m2)\<rparr> else m2)"
    have 3: "memory_free pp defer m = (True, m3)"
      using sz True by (simp add: memory_free_def m3_def q_def m2_def m1_def p_def Let_def)
    have 2: "memory_ok m2" "blocks_of m2 = insert p (blocks_of m1) - (if q = 0 then {} else {q})"
      "q \<noteq> 0 \<longrightarrow> q \<in> waiting m1 \<and> q \<notin> blocks_of m2 \<and>
         deferred_free_size m2 (deferred_slot (deferred_index m1 + 1)) = block_header m1 q"
      using to_ring_ok [OF 1(1,3,2) m2_def q_def] by auto
    have "memory_ok m3 \<and> blocks_of m3 = insert p (blocks_of m1)"
    proof (cases "q = 0")
      case True then show ?thesis using 2 by (simp add: m3_def)
    next
      case False
      have h2: "block_header m2 = block_header m1" by (simp add: m2_def)
      have "m3 = m2\<lparr>alloc_cache := rl_free_impl q (block_header m2 q) (alloc_cache m2)\<rparr>"
        using False 2(3) by (simp add: m3_def h2)
      then have "memory_ok m3 \<and> blocks_of m3 = insert q (blocks_of m2)"
        by (rule to_cache_ok [OF 2(1) False, rotated 3]) (use 2(3) False in \<open>auto simp: blocks_of_def\<close>)
      moreover have "q \<in> blocks_of m1" using 2(3) False by (auto simp: blocks_of_def)
      ultimately show ?thesis using 2(2) False by auto
    qed
    moreover have "allocs m3 = (allocs m)(pp := None)" by (simp add: m3_def m2_def m1_def)
    ultimately show ?thesis using 3 1(4) sz by auto
  qed
qed


section \<open>Refinement of an abstract heap\<close>

datatype mem_op = M_alloc nat nat | M_free nat bool

datatype mem_res = MR_addr nat | MR_freed bool

text \<open>
  A run of the manager. What the C library promises is a hypothesis of the allocation step:
  \<open>malloc\<close> never answers with a block the manager still holds.
\<close>

inductive mem_run :: "memory_mgr \<Rightarrow> mem_op list \<Rightarrow> mem_res list \<Rightarrow> memory_mgr \<Rightarrow> bool" where
  mem_done: "mem_run m [] [] m"
| mem_alloc: "sys \<notin> blocks_of m \<Longrightarrow> memory_alloc sys sz m = Inr (p, m1) \<Longrightarrow> mem_run m1 ops rs m'
    \<Longrightarrow> mem_run m (M_alloc sys sz # ops) (MR_addr p # rs) m'"
| mem_free: "memory_free p defer m = (b, m1) \<Longrightarrow> mem_run m1 ops rs m'
    \<Longrightarrow> mem_run m (M_free p defer # ops) (MR_freed b # rs) m'"

text \<open>
  The block an allocation puts into use is as long as asked for: a block of the cache has that size already,
  and the other one is the answer of \<open>malloc\<close>.
\<close>

lemma memory_alloc_block:
  assumes ok: "memory_ok m" and e: "memory_alloc sys sz m = Inr (p, m')"
  shows "\<exists>b. p = b + alignment \<and> block_header m' = (block_header m)(b := sz) \<and> blocks_of m' \<subseteq> insert b (blocks_of m) \<and>
    (b \<in> blocks_of m \<and> block_header m b = sz \<or> b = sys)"
proof -
  obtain q c where q: "cache_pop sz (alloc_cache m) = (q, c)" by fastforce
  define b where "b = (if q = 0 then sys else q)"
  have c0: "cache_ok (alloc_cache m)" using ok by (simp add: memory_ok_def)
  have c: "cached c \<subseteq> cached (alloc_cache m)" and b: "b = sys \<or> (sz, b) \<in> entries (alloc_cache m)"
    using cache_pop_null [of sz "alloc_cache m" c] cache_pop_block [OF q _ c0] c0 q by (auto simp: b_def)
  have m': "p = b + alignment" "m' = m\<lparr>alloc_cache := c, block_header := (block_header m)(b := sz),
        allocs := (if allocs m p = None then (allocs m)(p \<mapsto> sz) else allocs m)\<rparr>"
    using e q by (auto simp: memory_alloc_def b_def Let_def split: if_splits)
  have "waiting m' = waiting m" by (simp add: m'(2) waiting_def)
  moreover have "handed_out m' \<subseteq> insert b (handed_out m)" by (auto simp: m' handed_out_def)
  ultimately have "blocks_of m' \<subseteq> insert b (blocks_of m)" using c by (auto simp: blocks_of_def m'(2))
  moreover have "b \<in> blocks_of m \<and> block_header m b = sz" if "(sz, b) \<in> entries (alloc_cache m)"
    using that ok entries_key by (auto simp: blocks_of_def memory_ok_def)
  ultimately show ?thesis using b m' by auto
qed

text \<open>
  The bytes of a block, its header first. \<open>malloc\<close> answers with a range of the requested length, header
  included, that shares no byte with a block the manager still holds.
\<close>

definition extent :: "nat \<Rightarrow> nat \<Rightarrow> nat set" where
  "extent b sz = {b..< b + alignment + sz}"

definition spaced :: "memory_mgr \<Rightarrow> bool" where
  "spaced m \<longleftrightarrow> (\<forall>b \<in> blocks_of m. \<forall>b' \<in> blocks_of m.
     b \<noteq> b' \<longrightarrow> extent b (block_header m b) \<inter> extent b' (block_header m b') = {})"

definition malloc_ok :: "nat \<Rightarrow> nat \<Rightarrow> memory_mgr \<Rightarrow> bool" where
  "malloc_ok sys sz m \<longleftrightarrow> (\<forall>b \<in> blocks_of m. extent sys sz \<inter> extent b (block_header m b) = {})"

lemma malloc_ok_fresh: "malloc_ok sys sz m \<Longrightarrow> sys \<notin> blocks_of m"
  by (fastforce simp: malloc_ok_def extent_def alignment_def)

inductive malloc_run :: "memory_mgr \<Rightarrow> mem_op list \<Rightarrow> mem_res list \<Rightarrow> memory_mgr \<Rightarrow> bool" where
  malloc_done: "malloc_run m [] [] m"
| malloc_alloc: "malloc_ok sys sz m \<Longrightarrow> memory_alloc sys sz m = Inr (p, m1) \<Longrightarrow> malloc_run m1 ops rs m'
    \<Longrightarrow> malloc_run m (M_alloc sys sz # ops) (MR_addr p # rs) m'"
| malloc_free: "memory_free p defer m = (b, m1) \<Longrightarrow> malloc_run m1 ops rs m'
    \<Longrightarrow> malloc_run m (M_free p defer # ops) (MR_freed b # rs) m'"

lemma alloc_spaced:
  assumes ok: "memory_ok m" "spaced m" and sys: "malloc_ok sys sz m" and e: "memory_alloc sys sz m = Inr (p, m')"
  shows "spaced m'"
proof -
  obtain b where b: "p = b + alignment" "block_header m' = (block_header m)(b := sz)" "blocks_of m' \<subseteq> insert b (blocks_of m)"
    "b \<in> blocks_of m \<and> block_header m b = sz \<or> b = sys"
    using memory_alloc_block [OF ok(1) e] by blast
  have other: "extent b sz \<inter> extent x (block_header m x) = {}" if "x \<in> blocks_of m" "x \<noteq> b" for x
    using b(4) that ok(2) sys by (auto simp: spaced_def malloc_ok_def)
  show ?thesis unfolding spaced_def b(2)
  proof (intro ballI impI)
    fix x y assume xy: "x \<in> blocks_of m'" "y \<in> blocks_of m'" "x \<noteq> y"
    then have "x = b \<or> x \<in> blocks_of m" "y = b \<or> y \<in> blocks_of m" using b(3) by auto
    then show "extent x (((block_header m)(b := sz)) x) \<inter> extent y (((block_header m)(b := sz)) y) = {}"
      using other [of x] other [of y] xy(3) ok(2) [unfolded spaced_def, rule_format, of x y]
      by (cases "x = b"; cases "y = b") (simp_all add: Int_commute)
  qed
qed

lemma memory_free_header: "block_header (snd (memory_free p defer m)) = block_header m"
  by (simp add: memory_free_def Let_def)

lemma free_spaced: "memory_ok m \<Longrightarrow> spaced m \<Longrightarrow> spaced (snd (memory_free p df m))"
  using memory_free_ok [of m p df] by (simp add: spaced_def memory_free_header)

text \<open>
  The abstract heap: the live addresses with their sizes. An allocation finds room: none of its bytes
  belongs to a live block.
\<close>

inductive heap_run :: "(nat \<rightharpoonup> nat) \<Rightarrow> mem_op list \<Rightarrow> mem_res list \<Rightarrow> (nat \<rightharpoonup> nat) \<Rightarrow> bool" where
  heap_done: "heap_run h [] [] h"
| heap_alloc: "p \<noteq> 0 \<Longrightarrow> p \<notin> dom h \<Longrightarrow> (\<forall>q s. h q = Some s \<longrightarrow> {p..< p + sz} \<inter> {q..< q + s} = {}) \<Longrightarrow> heap_run (h(p \<mapsto> sz)) ops rs h'
    \<Longrightarrow> heap_run h (M_alloc sys sz # ops) (MR_addr p # rs) h'"
| heap_free: "b = (p = 0 \<or> p \<in> dom h) \<Longrightarrow> heap_run (h(p := None)) ops rs h'
    \<Longrightarrow> heap_run h (M_free p defer # ops) (MR_freed b # rs) h'"

lemma alloc_apart:
  assumes ok: "memory_ok m" "spaced m" and sys: "malloc_ok sys sz m" and e: "memory_alloc sys sz m = Inr (p, m')"
    and q: "allocs m q = Some s"
  shows "{p..< p + sz} \<inter> {q..< q + s} = {}"
proof -
  obtain b where b: "p = b + alignment" "b \<in> blocks_of m \<and> block_header m b = sz \<or> b = sys"
    using memory_alloc_block [OF ok(1) e] by blast
  have d: "alignment < q" "block_header m (q - alignment) = s" "p \<noteq> q"
    using ok(1) q memory_alloc_ok [OF ok(1) malloc_ok_fresh [OF sys] e] by (auto simp: memory_ok_def)
  have "q - alignment \<in> blocks_of m" using handed_minus [OF d(1)] q by (auto simp: blocks_of_def)
  moreover have "b \<noteq> q - alignment" using b(1) d(1,3) by auto
  ultimately have "extent b sz \<inter> extent (q - alignment) s = {}"
    using b(2) d(2) ok(2) sys by (auto simp: spaced_def malloc_ok_def)
  moreover have "{p..< p + sz} \<subseteq> extent b sz" "{q..< q + s} \<subseteq> extent (q - alignment) s"
    using d(1) by (auto simp: extent_def b(1))
  ultimately show ?thesis by blast
qed

lemma malloc_run_heap:
  "malloc_run m ops rs m' \<Longrightarrow> memory_ok m \<Longrightarrow> spaced m \<Longrightarrow> heap_run (allocs m) ops rs (allocs m') \<and> memory_ok m' \<and> spaced m'"
proof (induction rule: malloc_run.induct)
  case (malloc_alloc sys sz m p m1 ops rs m')
  note a = memory_alloc_ok [OF malloc_alloc.prems(1) malloc_ok_fresh [OF malloc_alloc.hyps(1)] malloc_alloc.hyps(2)]
  have h: "heap_run ((allocs m)(p \<mapsto> sz)) ops rs (allocs m')" "memory_ok m'" "spaced m'"
    using malloc_alloc.IH a alloc_spaced [OF malloc_alloc.prems malloc_alloc.hyps(1,2)] by metis+
  have "p \<noteq> 0" "p \<notin> dom (allocs m)" using a by simp_all
  then show ?case
    using heap_run.heap_alloc [OF _ _ _ h(1)] h(2,3) alloc_apart [OF malloc_alloc.prems malloc_alloc.hyps(1,2)] by blast
next
  case (malloc_free p df m b m1 ops rs m')
  note f = memory_free_ok [OF malloc_free.prems(1), of p df] free_spaced [OF malloc_free.prems, of p df]
  have h: "heap_run ((allocs m)(p := None)) ops rs (allocs m')" "memory_ok m'" "spaced m'"
    "b = (p = 0 \<or> p \<in> dom (allocs m))"
    using malloc_free.IH malloc_free.hyps(1) f by (metis fst_conv snd_conv)+
  show ?case using heap_run.heap_free [OF h(4,1)] h(2,3) by blast
qed (auto intro: heap_done)

text \<open>
  How long a deferred block stays out of circulation: it sits in slot \<open>k\<close>, and the index has
  moved \<open>d\<close> slots past it.
\<close>

definition aged :: "nat \<Rightarrow> nat \<Rightarrow> nat \<Rightarrow> memory_mgr \<Rightarrow> bool" where
  "aged b k d m \<longleftrightarrow> k < deferred_count \<and> 0 < d \<and> d < deferred_count \<and> deferred_free m k = b \<and> b \<noteq> 0 \<and>
     deferred_slot (deferred_index m) = (k + d) mod deferred_count"

lemma aged_slot: "aged b k d m \<Longrightarrow> deferred_slot (deferred_index m) \<noteq> k"
  unfolding aged_def deferred_count_def by (auto simp: mod_if split: if_splits)

lemma aged_waiting: "aged b k d m \<Longrightarrow> b \<in> waiting m"
  using aged_slot [of b k d m] by (auto simp: aged_def waiting_def ring_def)

lemma aged_alloc: "aged b k d m \<Longrightarrow> memory_alloc sys sz m = Inr (p, m') \<Longrightarrow> aged b k d m'"
  by (auto simp: aged_def memory_alloc_def Let_def split: prod.splits if_splits)

lemma aged_free:
  assumes "aged b k d m" "Suc d < deferred_count"
  shows "\<exists>d'. d' \<le> (if defer then Suc d else d) \<and> aged b k d' (snd (memory_free p defer m))"
proof -
  have slot: "deferred_slot (deferred_index m + 1) = (k + Suc d) mod deferred_count"
    using assms(1) by (simp add: aged_def deferred_slot_Suc mod_Suc_eq)
  have ne: "deferred_slot (deferred_index m) \<noteq> k" by (rule aged_slot [OF assms(1)])
  show ?thesis
  proof (cases "p = 0 \<or> allocs m p = None \<or> \<not> defer")
    case True
    then have "aged b k d (snd (memory_free p defer m))"
      using assms by (auto simp: memory_free_def aged_def Let_def)
    then show ?thesis by (intro exI [of _ d]) auto
  next
    case False
    then have "aged b k (Suc d) (snd (memory_free p defer m))"
      using assms slot ne by (auto simp: memory_free_def aged_def Let_def)
    then show ?thesis using False by auto
  qed
qed

fun deferrals :: "mem_op list \<Rightarrow> nat" where
  "deferrals [] = 0"
| "deferrals (M_free p True # ops) = Suc (deferrals ops)"
| "deferrals (_ # ops) = deferrals ops"

lemma aged_run:
  "mem_run m ops rs m' \<Longrightarrow> memory_ok m \<Longrightarrow> aged b k d m \<Longrightarrow> d + deferrals ops < deferred_count \<Longrightarrow>
     MR_addr (b + alignment) \<notin> set rs"
proof (induction arbitrary: d rule: mem_run.induct)
  case (mem_alloc sys m sz p m1 ops rs m')
  note a = memory_alloc_ok [OF mem_alloc.prems(1) mem_alloc.hyps(1,2)]
  have "p \<in> dom (allocs m1)" using a by simp
  moreover have "b \<in> waiting m1" using a aged_waiting [OF mem_alloc.prems(2)] by simp
  ultimately have "p \<noteq> b + alignment" using a by (auto simp: memory_ok_def handed_out_def)
  then show ?case
    using mem_alloc.IH [OF _ aged_alloc [OF mem_alloc.prems(2) mem_alloc.hyps(2)]] a mem_alloc.prems(3) by simp
next
  case (mem_free p df m c m1 ops rs m')
  have n: "(if df then Suc d else d) + deferrals ops = d + deferrals (M_free p df # ops)"
    by (cases df) auto
  show ?case
  proof (cases "Suc d < deferred_count")
    case True
    then obtain d' where d': "d' \<le> (if df then Suc d else d)" "aged b k d' m1"
      using aged_free [OF mem_free.prems(2), of df p] mem_free.hyps(1) by auto
    then show ?thesis
      using mem_free.IH [OF _ d'(2)] memory_free_ok [OF mem_free.prems(1), of p df] mem_free.hyps(1)
        mem_free.prems(3) n by auto
  next
    case False
    then have "\<not> df" using mem_free.prems(3) n by (cases df) auto
    then have "aged b k d m1"
      using mem_free.prems(2) mem_free.hyps(1)
      by (auto simp: memory_free_def aged_def Let_def split: if_splits)
    then show ?thesis
      using mem_free.IH memory_free_ok [OF mem_free.prems(1), of p df] mem_free.hyps(1)
        mem_free.prems(3) n \<open>\<not> df\<close> by auto
  qed
qed simp

section \<open>The properties\<close>

text \<open>
  C20. The memory manager implements a heap. Over every run of allocations and frees, an allocation of
  \<open>sz\<close> bytes returns an address that is not live and from which on \<open>sz\<close> bytes belong to no live block - whether
  the block is new or a freed one used again -, a free answers true exactly for the null pointer
  and the live addresses - so a double free or a foreign pointer is always reported - and the
  leak check at the end of the iteration passes exactly when nothing is live. What is assumed of \<open>malloc\<close>
  is that its answers share no byte with the blocks not given back to it.
\<close>

theorem memory_refines_heap:
  assumes "memory_ok m" "spaced m" "malloc_run m ops rs m'"
  shows "heap_run (allocs m) ops rs (allocs m') \<and> memory_ok m' \<and> spaced m' \<and>
    memory_iteration_end m' = (dom (allocs m') = {})"
  using malloc_run_heap [OF assms(3,1,2)] by (auto simp: memory_iteration_end_def)

theorem memory_refines_heap_witness:
  "malloc_run memory_ctor [M_alloc 100 8, M_free 116 False, M_free 116 False, M_alloc 200 24, M_alloc 300 8]
     [MR_addr 116, MR_freed True, MR_freed False, MR_addr 216, MR_addr 116]
     (memory_ctor\<lparr>alloc_cache := [(8, [])], allocs := [216 \<mapsto> 24, 116 \<mapsto> 8], block_header := (\<lambda>_. 0)(100 := 8, 200 := 24)\<rparr>) \<and>
   heap_run Map.empty [M_alloc 100 8, M_free 116 False, M_free 116 False, M_alloc 200 24, M_alloc 300 8]
     [MR_addr 116, MR_freed True, MR_freed False, MR_addr 216, MR_addr 116] [216 \<mapsto> 24, 116 \<mapsto> 8]"
  (is "malloc_run _ ?ops ?rs ?m \<and> _")
proof -
  have r: "malloc_run memory_ctor ?ops ?rs ?m"
    by (intro malloc_run.intros)
      (auto simp: malloc_ok_def extent_def blocks_of_def memory_ctor_def waiting_def ring_def handed_out_def memory_alloc_def
        memory_free_def alignment_def fun_upd_twist intro: malloc_done split: if_splits)
  have "spaced memory_ctor" by (simp add: spaced_def blocks_of_def waiting_def ring_def handed_out_def memory_ctor_def)
  then show ?thesis
    using memory_refines_heap [OF memory_ctor_ok _ r] r by (simp add: memory_ctor_def)
qed

text \<open>
  C21. A block freed with deferral stays out of circulation: no allocation returns its address
  before 63 further deferred frees, so that a stale pointer to it is not hidden by reuse.
\<close>

theorem deferred_block_kept:
  assumes "memory_ok m" "p \<noteq> 0" "memory_free p True m = (True, m1)"
    "mem_run m1 ops rs m2" "deferrals ops < 63"
  shows "MR_addr p \<notin> set rs"
proof -
  obtain sz where sz: "allocs m p = Some sz" using memory_free_ok [OF assms(1), of p True] assms(2,3) by auto
  have p: "alignment < p" using assms(1) sz by (auto simp: memory_ok_def)
  have "aged (p - alignment) (deferred_slot (deferred_index m)) 1 m1"
    using assms(2,3) sz p deferred_slot_next [of "deferred_index m"]
    by (auto simp: memory_free_def aged_def Let_def deferred_slot_Suc deferred_count_def)
  moreover have "memory_ok m1" using memory_free_ok [OF assms(1), of p True] assms(3) by simp
  ultimately show ?thesis
    using aged_run [OF assms(4)] assms(5) p by (fastforce simp: deferred_count_def)
qed

theorem deferred_block_kept_witness:
  "\<exists>m1 m2. memory_free 116 True (memory_ctor\<lparr>allocs := [116 \<mapsto> 8], block_header := (\<lambda>_. 0)(100 := 8)\<rparr>) = (True, m1) \<and>
     mem_run m1 [M_alloc 200 8] [MR_addr 216] m2 \<and> MR_addr 116 \<notin> set [MR_addr 216]"
proof -
  define m where "m = memory_ctor\<lparr>allocs := [116 \<mapsto> 8], block_header := (\<lambda>_. 0)(100 := 8)\<rparr>"
  obtain m1 where m1: "memory_free 116 True m = (True, m1)" "allocs m1 = Map.empty" "alloc_cache m1 = []"
    "deferred_free m1 = (\<lambda>_. 0)(0 := 100)"
    by (simp add: memory_free_def m_def memory_ctor_def Let_def alignment_def deferred_slot_def deferred_count_def)
  obtain m2 where a: "memory_alloc 200 8 m1 = Inr (216, m2)"
    using m1 by (simp add: memory_alloc_def alignment_def)
  have "200 \<notin> blocks_of m1" using m1 by (auto simp: blocks_of_def waiting_def handed_out_def)
  then have r: "mem_run m1 [M_alloc 200 8] [MR_addr 216] m2" using a by (auto intro: mem_run.intros)
  have ok: "memory_ok m"
    by (auto simp: m_def memory_ok_def memory_ctor_def ring_def waiting_def handed_out_def alignment_def)
  show ?thesis
    using deferred_block_kept [OF ok _ m1(1) r] m1(1) r unfolding m_def by auto
qed

end
