(* ===== verification/Slab.thy ===== *)
theory Slab
  imports Relacy_Types
begin

text \<open>
  \<open>slab_allocator\<close> of \<^verbatim>\<open>slab_allocator.hpp\<close>, from which the detector's own
  objects come: batches of 128 elements, threaded on a free list through the first word of each
  free element. The words are the function \<open>word_at\<close>; an element in use keeps its \<open>ctx\<close>
  tag there. The element size \<open>es\<close> is a parameter (it is the object's size plus a word,
  rounded up to 16).
\<close>

section \<open>State and operations\<close>

definition batch_size :: nat where
  "batch_size = 128"

definition ptr_size :: nat where
  "ptr_size = 8"

record slab_allocator =
  slab_freelist :: nat
  slab_blocks :: nat
  alloc_count :: "64 word"
  word_at :: "nat \<Rightarrow> nat"

definition slab_ctor :: slab_allocator where
  "slab_ctor = \<lparr>slab_freelist = 0, slab_blocks = 0, alloc_count = 0, word_at = (\<lambda>_. 0)\<rparr>"

definition slab_take :: "nat \<Rightarrow> slab_allocator \<Rightarrow> nat \<times> slab_allocator" where
  "slab_take ctx s =
     (let p = slab_freelist s
      in (p + ptr_size, s\<lparr>slab_freelist := word_at s p, alloc_count := alloc_count s + 1, word_at := (word_at s)(p := ctx)\<rparr>))"

text \<open>
  \<open>alloc_batch\<close> threads the new elements on the free list and calls \<open>alloc()\<close> again, with
  the default tag 0.
\<close>

definition slab_thread :: "nat \<Rightarrow> slab_allocator \<Rightarrow> slab_allocator" where
  "slab_thread p s = s\<lparr>word_at := (word_at s)(p := slab_freelist s), slab_freelist := p\<rparr>"

definition batch_elems :: "nat \<Rightarrow> nat \<Rightarrow> nat list" where
  "batch_elems es b = map (\<lambda>i. b + es * (i + 1)) [0..<batch_size]"

definition alloc_batch :: "nat \<Rightarrow> nat \<Rightarrow> slab_allocator \<Rightarrow> fault + (nat \<times> slab_allocator)" where
  "alloc_batch es sys s =
     (if sys = 0 then Inl Bad_alloc
      else Inr (slab_take 0
        (fold slab_thread (batch_elems es sys)
           (s\<lparr>word_at := (word_at s)(sys := slab_blocks s), slab_blocks := sys\<rparr>))))"

definition slab_alloc :: "nat \<Rightarrow> nat \<Rightarrow> nat \<Rightarrow> slab_allocator \<Rightarrow> fault + (nat \<times> slab_allocator)" where
  "slab_alloc es sys ctx s = (if slab_freelist s \<noteq> 0 then Inr (slab_take ctx s) else alloc_batch es sys s)"

definition slab_free :: "nat \<Rightarrow> slab_allocator \<Rightarrow> slab_allocator" where
  "slab_free p s =
     (let pos = p - ptr_size
      in s\<lparr>word_at := (word_at s)(pos := slab_freelist s), slab_freelist := pos, alloc_count := alloc_count s - 1\<rparr>)"

definition slab_iteration_end :: "slab_allocator \<Rightarrow> bool" where
  "slab_iteration_end s = (alloc_count s = 0)"

text \<open>
  \<open>output_allocs\<close> prints the tag of every element of every batch that is not on the free list.
  Its two loops follow a chain of words to the null pointer; a cyclic chain would not end.
\<close>

partial_function (option) slab_walk :: "(nat \<Rightarrow> nat) \<Rightarrow> nat \<Rightarrow> nat list option" where
  "slab_walk l p = (if p = 0 then Some [] else Option.bind (slab_walk l (l p)) (\<lambda>xs. Some (p # xs)))"

definition output_allocs :: "nat \<Rightarrow> slab_allocator \<Rightarrow> nat list option" where
  "output_allocs es s =
     Option.bind (slab_walk (word_at s) (slab_blocks s)) (\<lambda>bs.
     Option.bind (slab_walk (word_at s) (slab_freelist s)) (\<lambda>avail.
       Some (map (word_at s) (sorted_list_of_set (set (concat (map (batch_elems es) bs)) - set avail)))))"

section \<open>Chains of words\<close>

fun linked :: "(nat \<Rightarrow> nat) \<Rightarrow> nat \<Rightarrow> nat list \<Rightarrow> bool" where
  "linked l p [] = (p = 0)"
| "linked l p (x # xs) = (p = x \<and> x \<noteq> 0 \<and> linked l (l x) xs)"

lemma linked_walk: "linked l p xs \<Longrightarrow> slab_walk l p = Some xs"
  by (induction l p xs rule: linked.induct) (simp_all add: slab_walk.simps)

lemma linked_cong: "linked l p xs \<Longrightarrow> (\<And>x. x \<in> set xs \<Longrightarrow> l' x = l x) \<Longrightarrow> linked l' p xs"
  by (induction l p xs rule: linked.induct) auto

lemma linked_upd: "linked l p xs \<Longrightarrow> x \<notin> set xs \<Longrightarrow> linked (l(x := v)) p xs"
  by (erule linked_cong) auto

lemma linked_cons: "linked l p xs \<Longrightarrow> x \<noteq> 0 \<Longrightarrow> x \<notin> set xs \<Longrightarrow> linked (l(x := p)) x (x # xs)"
  by (simp add: linked_upd)

section \<open>The invariant\<close>

definition slab_elems :: "nat \<Rightarrow> nat list \<Rightarrow> nat set" where
  "slab_elems es bs = set (concat (map (batch_elems es) bs))"

text \<open>
  With the batches \<open>bs\<close> and the elements \<open>used\<close> that are handed out: the free list is a chain
  of the other elements, and the counter counts the used ones.
\<close>

definition slab_ok :: "nat \<Rightarrow> nat list \<Rightarrow> nat set \<Rightarrow> slab_allocator \<Rightarrow> bool" where
  "slab_ok es bs used s \<longleftrightarrow>
     (\<exists>free. linked (word_at s) (slab_freelist s) free \<and> distinct free \<and> set free \<inter> used = {} \<and>
        set free \<union> used = slab_elems es bs) \<and>
     linked (word_at s) (slab_blocks s) bs \<and> set bs \<inter> slab_elems es bs = {} \<and> alloc_count s = of_nat (card used)"

lemma slab_elems_finite [simp]: "finite (slab_elems es bs)"
  by (simp add: slab_elems_def)

lemma slab_elems_simps [simp]: "slab_elems es [] = {}" "slab_elems es (b # bs) = set (batch_elems es b) \<union> slab_elems es bs"
  by (simp_all add: slab_elems_def)

lemma slab_okI:
  assumes "linked (word_at s) (slab_freelist s) free" "distinct free" "set free \<inter> used = {}"
    "set free \<union> used = slab_elems es bs" "linked (word_at s) (slab_blocks s) bs" "set bs \<inter> slab_elems es bs = {}"
    "alloc_count s = of_nat (card used)"
  shows "slab_ok es bs used s"
  using assms unfolding slab_ok_def by blast

lemma slab_okE:
  assumes "slab_ok es bs used s"
  obtains free where "linked (word_at s) (slab_freelist s) free" "distinct free" "set free \<inter> used = {}"
    "set free \<union> used = slab_elems es bs" "linked (word_at s) (slab_blocks s) bs" "set bs \<inter> slab_elems es bs = {}"
    "alloc_count s = of_nat (card used)" "finite used"
  using assms unfolding slab_ok_def by (metis slab_elems_finite finite_Un)

lemma slab_ctor_ok: "slab_ok es [] {} slab_ctor"
  by (simp add: slab_ok_def slab_ctor_def)

lemma slab_take_ok:
  assumes ok: "slab_ok es bs used s" and p: "slab_freelist s \<noteq> 0"
  shows "slab_freelist s \<notin> used \<and> slab_freelist s \<in> slab_elems es bs \<and> slab_ok es bs (insert (slab_freelist s) used) (snd (slab_take ctx s))"
proof -
  obtain free where f: "linked (word_at s) (slab_freelist s) free" "distinct free" "set free \<inter> used = {}"
    "set free \<union> used = slab_elems es bs" "linked (word_at s) (slab_blocks s) bs" "set bs \<inter> slab_elems es bs = {}"
    "alloc_count s = of_nat (card used)" "finite used" using ok by (rule slab_okE)
  then obtain x r where x: "free = x # r" "slab_freelist s = x" using p by (cases free) auto
  have xb: "x \<notin> set bs" "x \<notin> set r" "x \<notin> used" "x \<in> slab_elems es bs" "linked (word_at s) (word_at s x) r" "distinct r"
    "set r \<inter> insert x used = {}" "set r \<union> insert x used = slab_elems es bs"
    using f(1-4,6) unfolding x(1) by auto
  define s' where "s' = snd (slab_take ctx s)"
  have s': "word_at s' = (word_at s)(x := ctx)" "slab_freelist s' = word_at s x" "slab_blocks s' = slab_blocks s" "alloc_count s' = alloc_count s + 1"
    by (simp_all add: s'_def slab_take_def Let_def x(2))
  have "alloc_count s' = of_nat (card (insert x used))"
    unfolding s' using f(7,8) xb(3) by simp
  moreover have "linked (word_at s') (slab_freelist s') r" unfolding s' by (rule linked_upd [OF xb(5,2)])
  moreover have "linked (word_at s') (slab_blocks s') bs" unfolding s' by (rule linked_upd [OF f(5) xb(1)])
  ultimately have "slab_ok es bs (insert x used) s'"
    using xb(6-8) f(6) by (intro slab_okI [of _ r])
  then show ?thesis using xb x unfolding s'_def by simp
qed

lemma slab_free_ok:
  assumes ok: "slab_ok es bs used s" and p: "p \<in> used" "p \<noteq> 0"
  shows "slab_ok es bs (used - {p}) (slab_free (p + ptr_size) s)"
proof -
  obtain free where f: "linked (word_at s) (slab_freelist s) free" "distinct free" "set free \<inter> used = {}"
    "set free \<union> used = slab_elems es bs" "linked (word_at s) (slab_blocks s) bs" "set bs \<inter> slab_elems es bs = {}"
    "alloc_count s = of_nat (card used)" "finite used" using ok by (rule slab_okE)
  have nb: "p \<notin> set bs" "p \<notin> set free" using f p by auto
  have eq: "slab_free (p + ptr_size) s =
      s\<lparr>word_at := (word_at s)(p := slab_freelist s), slab_freelist := p, alloc_count := alloc_count s - 1\<rparr>"
    by (simp add: slab_free_def Let_def)
  have "card used = Suc (card (used - {p}))" using p(1) f(8) by (simp only: card_Suc_Diff1)
  then have c: "alloc_count s - 1 = of_nat (card (used - {p}))" using f(7) by (simp only:) simp
  have d: "linked ((word_at s)(p := slab_freelist s)) p (p # free)"
    using f(1) p(2) nb(2) by (rule linked_cons)
  show ?thesis unfolding eq
    by (rule slab_okI [of _ "p # free"])
      (use f p nb c d in \<open>auto simp del: linked.simps intro: linked_upd\<close>)
qed

text \<open>What the C library promises about a new batch: it does not overlap the ones there are.\<close>

definition batch_fresh :: "nat \<Rightarrow> nat list \<Rightarrow> nat \<Rightarrow> bool" where
  "batch_fresh es bs sys \<longleftrightarrow> (\<forall>a \<in> insert sys (set (batch_elems es sys)). a \<notin> slab_elems es bs \<union> set bs)"

lemma batch_elems_facts:
  assumes "0 < es"
  shows "distinct (batch_elems es b)" "b \<notin> set (batch_elems es b)" "0 \<notin> set (batch_elems es b)" "batch_elems es b \<noteq> []"
  using assms by (auto simp: batch_elems_def distinct_map inj_on_def batch_size_def)

lemma thread_fold:
  "linked (word_at s) (slab_freelist s) free \<Longrightarrow> distinct ps \<Longrightarrow> 0 \<notin> set ps \<Longrightarrow> set ps \<inter> set free = {} \<Longrightarrow>
     (let s' = fold slab_thread ps s
      in linked (word_at s') (slab_freelist s') (rev ps @ free) \<and> slab_blocks s' = slab_blocks s \<and> alloc_count s' = alloc_count s \<and>
         (\<forall>a. a \<notin> set ps \<longrightarrow> word_at s' a = word_at s a))"
proof (induction ps arbitrary: s free)
  case (Cons p ps)
  have "linked (word_at (slab_thread p s)) (slab_freelist (slab_thread p s)) (p # free)"
    using Cons.prems by (simp add: slab_thread_def linked_upd)
  from Cons.IH [OF this] show ?case using Cons.prems by (simp add: slab_thread_def Let_def)
qed simp

lemma slab_batch_ok:
  assumes ok: "slab_ok es bs used s" and e: "slab_freelist s = 0" "0 < es" "sys \<noteq> 0" "batch_fresh es bs sys"
    and s': "s' = fold slab_thread (batch_elems es sys) (s\<lparr>word_at := (word_at s)(sys := slab_blocks s), slab_blocks := sys\<rparr>)"
  shows "slab_ok es (sys # bs) used s' \<and> slab_freelist s' \<noteq> 0"
proof -
  define s1 where "s1 = s\<lparr>word_at := (word_at s)(sys := slab_blocks s), slab_blocks := sys\<rparr>"
  note be = batch_elems_facts [OF e(2), of sys]
  have "linked (word_at s1) (slab_freelist s1) []" using e(1) by (simp add: s1_def)
  from thread_fold [OF this, of "batch_elems es sys"]
  have th: "linked (word_at s') (slab_freelist s') (rev (batch_elems es sys))"
    "slab_blocks s' = sys" "alloc_count s' = alloc_count s"
    "\<forall>a. a \<notin> set (batch_elems es sys) \<longrightarrow> word_at s' a = ((word_at s)(sys := slab_blocks s)) a"
    using be unfolding s1_def [symmetric] s' Let_def by (auto simp: s1_def)
  obtain free where f: "linked (word_at s) (slab_freelist s) free" "distinct free" "set free \<inter> used = {}"
    "set free \<union> used = slab_elems es bs" "linked (word_at s) (slab_blocks s) bs" "set bs \<inter> slab_elems es bs = {}"
    "alloc_count s = of_nat (card used)" "finite used" using ok by (rule slab_okE)
  have used: "used = slab_elems es bs" using f(1,4) e(1) by (cases free) auto
  have fr: "\<forall>a \<in> set (batch_elems es sys). a \<notin> slab_elems es bs \<and> a \<notin> set bs" "sys \<notin> slab_elems es bs" "sys \<notin> set bs"
    using e(4) by (auto simp: batch_fresh_def)
  have "linked (word_at s') (slab_blocks s) bs"
    by (rule linked_cong [OF f(5)]) (use th(4) fr in auto)
  moreover have "word_at s' sys = slab_blocks s" using th(4) be(2) by auto
  ultimately have b: "linked (word_at s') (slab_blocks s') (sys # bs)" using th(2) e(3) by simp
  have "slab_ok es (sys # bs) used s'"
    by (rule slab_okI [OF th(1)])
      (use be fr used f b th(3) in \<open>auto simp del: linked.simps\<close>)
  moreover have "slab_freelist s' \<noteq> 0"
    using th(1) be(4) by (cases "rev (batch_elems es sys)") auto
  ultimately show ?thesis by blast
qed

section \<open>Refinement of an abstract pool\<close>

text \<open>
  The abstract pool maps each element handed out to its tag, and has a capacity, which grows by a
  batch when it is pool_exhausted. A new element's tag is the caller's, but 0 when the pool had to grow.
\<close>

datatype slab_op = S_alloc nat nat | S_free nat

definition slab_holds :: "nat \<Rightarrow> nat list \<Rightarrow> (nat \<rightharpoonup> nat) \<Rightarrow> slab_allocator \<Rightarrow> bool" where
  "slab_holds es bs pool s \<longleftrightarrow> slab_ok es bs (dom pool) s \<and> (\<forall>p \<in> dom pool. pool p = Some (word_at s p)) \<and> 0 \<notin> dom pool \<and>
     card (slab_elems es bs) = batch_size * length bs"

inductive slab_run :: "nat \<Rightarrow> nat list \<Rightarrow> slab_allocator \<Rightarrow> slab_op list \<Rightarrow> nat list \<Rightarrow> nat list \<Rightarrow> slab_allocator \<Rightarrow> bool"
  for es where
  srun_done: "slab_run es bs s [] [] bs s"
| srun_take: "slab_freelist s \<noteq> 0 \<Longrightarrow> slab_alloc es sys ctx s = Inr (p, s1) \<Longrightarrow> slab_run es bs s1 ops rs bs' s'
    \<Longrightarrow> slab_run es bs s (S_alloc sys ctx # ops) (p # rs) bs' s'"
| srun_batch: "slab_freelist s = 0 \<Longrightarrow> batch_fresh es bs sys \<Longrightarrow> slab_alloc es sys ctx s = Inr (p, s1)
    \<Longrightarrow> slab_run es (sys # bs) s1 ops rs bs' s' \<Longrightarrow> slab_run es bs s (S_alloc sys ctx # ops) (p # rs) bs' s'"
| srun_free: "slab_run es bs (slab_free p s) ops rs bs' s' \<Longrightarrow> slab_run es bs s (S_free p # ops) (p # rs) bs' s'"

inductive pool_run :: "nat \<Rightarrow> (nat \<rightharpoonup> nat) \<Rightarrow> slab_op list \<Rightarrow> nat list \<Rightarrow> nat \<Rightarrow> (nat \<rightharpoonup> nat) \<Rightarrow> bool" where
  pool_done: "pool_run cap pool [] [] cap pool"
| pool_alloc: "e \<noteq> 0 \<Longrightarrow> e \<notin> dom pool \<Longrightarrow> card (dom pool) < cap \<Longrightarrow> pool_run cap (pool(e \<mapsto> ctx)) ops rs cap' pool'
    \<Longrightarrow> pool_run cap pool (S_alloc sys ctx # ops) ((e + ptr_size) # rs) cap' pool'"
| pool_grow: "e \<noteq> 0 \<Longrightarrow> e \<notin> dom pool \<Longrightarrow> card (dom pool) = cap \<Longrightarrow>
    pool_run (cap + batch_size) (pool(e \<mapsto> 0)) ops rs cap' pool'
    \<Longrightarrow> pool_run cap pool (S_alloc sys ctx # ops) ((e + ptr_size) # rs) cap' pool'"
| pool_free: "e \<in> dom pool \<Longrightarrow> pool_run cap (pool(e := None)) ops rs cap' pool'
    \<Longrightarrow> pool_run cap pool (S_free (e + ptr_size) # ops) ((e + ptr_size) # rs) cap' pool'"

text \<open>The client's side of the contract: it gives back only what it was given.\<close>

fun frees_held :: "nat set \<Rightarrow> slab_op list \<Rightarrow> nat list \<Rightarrow> bool" where
  "frees_held held (S_alloc sys ctx # ops) (p # rs) = frees_held (insert p held) ops rs"
| "frees_held held (S_free p # ops) (q # rs) = (p \<in> held \<and> frees_held (held - {p}) ops rs)"
| "frees_held held _ _ = True"

text \<open>The free list is empty exactly when the pool is pool_exhausted.\<close>

lemma pool_exhausted:
  assumes "slab_holds es bs pool s"
  shows "(slab_freelist s = 0) = (card (dom pool) = batch_size * length bs) \<and> card (dom pool) \<le> batch_size * length bs"
proof -
  have ok: "slab_ok es bs (dom pool) s" "card (slab_elems es bs) = batch_size * length bs"
    using assms by (auto simp: slab_holds_def)
  obtain free where f: "linked (word_at s) (slab_freelist s) free" "distinct free" "set free \<inter> dom pool = {}"
    "set free \<union> dom pool = slab_elems es bs" "linked (word_at s) (slab_blocks s) bs" "set bs \<inter> slab_elems es bs = {}"
    "alloc_count s = of_nat (card (dom pool))" "finite (dom pool)" using ok(1) by (rule slab_okE)
  have "card (slab_elems es bs) = length free + card (dom pool)"
    using card_Un_disjoint [of "set free" "dom pool"] f(2,3,8) unfolding f(4) by (simp add: distinct_card)
  moreover have "slab_freelist s = 0 \<longleftrightarrow> free = []" using f(1) by (cases free) auto
  ultimately show ?thesis using ok(2) by auto
qed

lemma take_holds:
  assumes "slab_holds es bs pool s" "slab_freelist s \<noteq> 0"
  shows "slab_holds es bs (pool(slab_freelist s \<mapsto> ctx)) (snd (slab_take ctx s)) \<and> slab_freelist s \<notin> dom pool"
proof -
  have "slab_ok es bs (dom pool) s" using assms(1) by (simp add: slab_holds_def)
  note t = slab_take_ok [OF this assms(2), of ctx]
  have "word_at (snd (slab_take ctx s)) = (word_at s)(slab_freelist s := ctx)" by (simp add: slab_take_def Let_def)
  then show ?thesis using t assms by (auto simp: slab_holds_def)
qed

lemma batch_holds:
  assumes "slab_holds es bs pool s" "slab_freelist s = 0" "0 < es" "sys \<noteq> 0" "batch_fresh es bs sys"
    and s': "s' = fold slab_thread (batch_elems es sys) (s\<lparr>word_at := (word_at s)(sys := slab_blocks s), slab_blocks := sys\<rparr>)"
  shows "slab_holds es (sys # bs) pool s' \<and> slab_freelist s' \<noteq> 0"
proof -
  have ok: "slab_ok es bs (dom pool) s" using assms(1) by (simp add: slab_holds_def)
  have k: "word_at (fold slab_thread ps r) a = word_at r a" if "a \<notin> set ps" for ps r a
    using that by (induction ps arbitrary: r) (auto simp: slab_thread_def)
  have "a \<notin> set (batch_elems es sys) \<and> a \<noteq> sys" if "a \<in> dom pool" for a
    using ok that assms(5) unfolding slab_ok_def batch_fresh_def by blast
  then have l: "word_at s' a = word_at s a" if "a \<in> dom pool" for a using that unfolding s' by (simp add: k)
  have "card (set (batch_elems es sys)) = batch_size"
    using batch_elems_facts(1) [OF assms(3), of sys] by (simp add: distinct_card) (simp add: batch_elems_def)
  moreover have "set (batch_elems es sys) \<inter> slab_elems es bs = {}" using assms(5) by (auto simp: batch_fresh_def)
  ultimately have "card (slab_elems es (sys # bs)) = batch_size * length (sys # bs)"
    using assms(1) by (simp add: card_Un_disjoint slab_holds_def)
  then show ?thesis using slab_batch_ok [OF ok assms(2-5) s'] assms(1) l by (simp add: slab_holds_def)
qed

lemma free_holds:
  assumes "slab_holds es bs pool s" "e \<in> dom pool"
  shows "slab_holds es bs (pool(e := None)) (slab_free (e + ptr_size) s)"
proof -
  have "slab_ok es bs (dom pool) s" "e \<noteq> 0" using assms by (auto simp: slab_holds_def)
  note f = slab_free_ok [OF this(1) assms(2) this(2)]
  have "word_at (slab_free (e + ptr_size) s) = (word_at s)(e := slab_freelist s)" by (simp add: slab_free_def Let_def)
  moreover have "dom (pool(e := None)) = dom pool - {e}" by auto
  ultimately show ?thesis using f assms(1) by (auto simp: slab_holds_def)
qed

lemma slab_run_pool:
  "slab_run es bs s ops rs bs' s' \<Longrightarrow> 0 < es \<Longrightarrow> slab_holds es bs pool s \<Longrightarrow>
     frees_held ((\<lambda>e. e + ptr_size) ` dom pool) ops rs \<Longrightarrow>
     \<exists>pool'. pool_run (batch_size * length bs) pool ops rs (batch_size * length bs') pool' \<and> slab_holds es bs' pool' s'"
proof (induction arbitrary: pool rule: slab_run.induct)
  case (srun_done bs s)
  then show ?case by (auto intro: pool_done)
next
  case (srun_take s sys ctx p s1 bs ops rs bs' s')
  have e: "p = slab_freelist s + ptr_size" "s1 = snd (slab_take ctx s)"
    using srun_take.hyps(1,2) by (auto simp: slab_alloc_def slab_take_def Let_def)
  note t = take_holds [OF srun_take.prems(2) srun_take.hyps(1), of ctx]
  have "frees_held ((\<lambda>e. e + ptr_size) ` dom (pool(slab_freelist s \<mapsto> ctx))) ops rs"
    using srun_take.prems(3) e by (simp only: dom_fun_upd frees_held.simps) simp
  then obtain pool' where "pool_run (batch_size * length bs) (pool(slab_freelist s \<mapsto> ctx)) ops rs (batch_size * length bs') pool'" "slab_holds es bs' pool' s'"
    using srun_take.IH [OF srun_take.prems(1)] t e by blast
  moreover have "card (dom pool) < batch_size * length bs"
    using pool_exhausted [OF srun_take.prems(2)] srun_take.hyps(1) by auto
  ultimately show ?case using pool_alloc [OF srun_take.hyps(1)] t e by blast
next
  case (srun_batch s bs sys ctx p s1 ops rs bs' s')
  define s2 where "s2 = fold slab_thread (batch_elems es sys) (s\<lparr>word_at := (word_at s)(sys := slab_blocks s), slab_blocks := sys\<rparr>)"
  have sys: "sys \<noteq> 0" and e: "p = slab_freelist s2 + ptr_size" "s1 = snd (slab_take 0 s2)"
    using srun_batch.hyps(1,3) by (auto simp: slab_alloc_def alloc_batch_def slab_take_def Let_def s2_def split: if_splits)
  note b = batch_holds [OF srun_batch.prems(2) srun_batch.hyps(1) srun_batch.prems(1) sys srun_batch.hyps(2) s2_def]
  note t = take_holds [OF conjunct1 [OF b] conjunct2 [OF b], of 0]
  have len: "batch_size * length (sys # bs) = batch_size * length bs + batch_size" by simp
  have "frees_held ((\<lambda>e. e + ptr_size) ` dom (pool(slab_freelist s2 \<mapsto> 0))) ops rs"
    using srun_batch.prems(3) e by (simp only: dom_fun_upd frees_held.simps) simp
  then obtain pool' where "pool_run (batch_size * length bs + batch_size) (pool(slab_freelist s2 \<mapsto> 0)) ops rs (batch_size * length bs') pool'" "slab_holds es bs' pool' s'"
    using srun_batch.IH [OF srun_batch.prems(1)] t e len by metis
  moreover have "card (dom pool) = batch_size * length bs"
    using pool_exhausted [OF srun_batch.prems(2)] srun_batch.hyps(1) by auto
  ultimately show ?case using pool_grow [OF conjunct2 [OF b]] t e by blast
next
  case (srun_free bs p s ops rs bs' s')
  then obtain e where e: "p = e + ptr_size" "e \<in> dom pool" by auto
  note f = free_holds [OF srun_free.prems(2) e(2)]
  have "(\<lambda>e. e + ptr_size) ` dom (pool(e := None)) = (\<lambda>e. e + ptr_size) ` dom pool - {p}"
    using e by auto
  then have "frees_held ((\<lambda>e. e + ptr_size) ` dom (pool(e := None))) ops rs"
    using srun_free.prems(3) by simp
  then obtain pool' where "pool_run (batch_size * length bs) (pool(e := None)) ops rs (batch_size * length bs') pool'" "slab_holds es bs' pool' s'"
    using srun_free.IH [OF srun_free.prems(1)] f e by blast
  then show ?case using pool_free [OF e(2)] e(1) by blast
qed

lemma output_allocs_pool:
  assumes "slab_holds es bs pool s"
  shows "output_allocs es s = Some (map (\<lambda>e. the (pool e)) (sorted_list_of_set (dom pool)))"
proof -
  have ok: "slab_ok es bs (dom pool) s" and tag: "\<forall>p \<in> dom pool. pool p = Some (word_at s p)"
    using assms by (auto simp: slab_holds_def)
  obtain free where f: "linked (word_at s) (slab_freelist s) free" "distinct free" "set free \<inter> dom pool = {}"
    "set free \<union> dom pool = slab_elems es bs" "linked (word_at s) (slab_blocks s) bs" "set bs \<inter> slab_elems es bs = {}"
    "alloc_count s = of_nat (card (dom pool))" "finite (dom pool)" using ok by (rule slab_okE)
  have "slab_elems es bs - set free = dom pool" using f(3,4) by blast
  then show ?thesis
    using linked_walk [OF f(1)] linked_walk [OF f(5)] tag f(8) by (simp add: output_allocs_def slab_elems_def)
qed

section \<open>The property\<close>

text \<open>
  C22. The slab allocator implements a pool of elements, whatever batches \<open>malloc\<close> supplies: an
  element handed out is not in use, the leak check at the end of an iteration passes exactly when
  every element has been given back, and the leak report lists exactly the elements in use, each
  with its tag - the caller's, but 0 for the first element of a batch, whose tag
  \<open>alloc_batch\<close> loses.
\<close>

theorem slab_refines_pool:
  assumes "0 < es" "slab_run es [] slab_ctor ops rs bs s" "frees_held {} ops rs"
  shows "\<exists>pool. pool_run 0 Map.empty ops rs (batch_size * length bs) pool \<and>
    (card (dom pool) < 2 ^ 64 \<longrightarrow> slab_iteration_end s = (dom pool = {})) \<and>
    output_allocs es s = Some (map (\<lambda>e. the (pool e)) (sorted_list_of_set (dom pool)))"
proof -
  have "slab_holds es [] Map.empty slab_ctor" by (simp add: slab_holds_def slab_ctor_ok)
  then obtain pool where p: "pool_run 0 Map.empty ops rs (batch_size * length bs) pool" "slab_holds es bs pool s"
    using slab_run_pool [OF assms(2,1)] assms(3) by fastforce
  have "alloc_count s = of_nat (card (dom pool))" "finite (dom pool)"
    using p(2) by (auto simp: slab_holds_def elim: slab_okE)
  then have "slab_iteration_end s = (dom pool = {})" if "card (dom pool) < 2 ^ 64"
    using that by (auto simp: slab_iteration_end_def word_of_nat_eq_0_iff dest!: dvd_imp_le)
  then show ?thesis using p output_allocs_pool by blast
qed

inductive_cases pool_run_nilE: "pool_run cap pool [] rs cap' pool'"
inductive_cases pool_run_allocE: "pool_run cap pool (S_alloc sys ctx # ops) rs cap' pool'"

theorem slab_refines_pool_witness:
  "\<exists>p s. slab_run 16 [] slab_ctor [S_alloc 4096 7] [p] [4096] s \<and> \<not> slab_iteration_end s \<and>
     output_allocs 16 s = Some [0]"
proof -
  obtain p s where e: "slab_alloc 16 4096 7 slab_ctor = Inr (p, s)"
    by (simp add: slab_alloc_def slab_ctor_def alloc_batch_def slab_take_def Let_def)
  have r: "slab_run 16 [] slab_ctor [S_alloc 4096 7] [p] [4096] s"
    by (rule srun_batch [OF _ _ e srun_done]) (simp_all add: slab_ctor_def batch_fresh_def)
  then obtain pool where pool: "pool_run 0 Map.empty [S_alloc 4096 7] [p] batch_size pool"
    "card (dom pool) < 2 ^ 64 \<longrightarrow> slab_iteration_end s = (dom pool = {})"
    "output_allocs 16 s = Some (map (\<lambda>e. the (pool e)) (sorted_list_of_set (dom pool)))"
    using slab_refines_pool [OF _ r] by auto
  obtain x where "pool = [x \<mapsto> 0]"
    using pool(1) by (elim pool_run_allocE pool_run_nilE) auto
  then show ?thesis using pool(2,3) r by auto
qed

end
