(* ===== verification/Context.thy ===== *)
theory Context
  imports Scheduler Thread_Mem Memory Slab
begin

text \<open>
  The execution context, \<open>context_impl\<close> of \<^verbatim>\<open>context.hpp\<close> with its bases
  \<^verbatim>\<open>context_base.hpp\<close>, \<^verbatim>\<open>thread_local_ctx.hpp\<close> and
  \<^verbatim>\<open>context_addr_hash.hpp\<close>: one state that holds the scheduler, the threads, the
  wait sets and the allocators.

  A test thread is a fiber; control moves between fibers inside \<open>switch_to_fiber\<close>. An operation
  is therefore modelled in the pieces a fiber runs without giving up control: a function here
  ends where its fiber is switched away, with \<open>threadx\<close> naming the fiber that runs next, and the
  rest of the operation is a second function, which that fiber runs when it is switched back in.
  The test's own code that the context calls - the invariant - is a parameter.
\<close>

section \<open>State\<close>

text \<open>What a thread can wait on; a number names the object of its kind.\<close>

datatype waitable = W_sema nat | W_event nat | W_mutex nat | W_thread nat

text \<open>
  An entry of a wait set (\<^verbatim>\<open>waitset.hpp\<close>). A wait on one object has \<open>d_count = 0\<close>
  and null pointers; a wait on several holds the arrays of wait sets and of objects.
\<close>

record thread_desc =
  d_th :: nat
  d_count :: nat
  d_ws :: "nat list option"
  d_wo :: "waitable list option"
  d_wait_all :: bool
  d_do_switch :: bool

record tls_entry =
  tls_alive :: bool
  tls_value :: "nat \<Rightarrow> int"
  tls_dtor :: "nat option"

datatype slab_kind = Slab_atomic | Slab_var | Slab_mutex | Slab_condvar | Slab_sema | Slab_event

record ctx =
  cx_n :: nat
  cx_static :: nat
  cx_params :: test_params
  cx_sched :: sched
  cx_threads :: "nat \<Rightarrow> thread_info"
  threadx :: "nat option"
  seq_cst_fence_order :: vclock
  disable_preempt :: u32
  special_function_executing :: bool
  invariant_executing :: bool
  sched_count :: nat
  first_thread :: bool
  suite_constructed :: bool
  waitsets :: "nat \<Rightarrow> thread_desc list"
  cx_memory :: memory_mgr
  cx_slabs :: "slab_kind \<Rightarrow> slab_allocator"
  disable_alloc :: int
  prev_alloc_size :: nat
  hash_map :: "nat \<rightharpoonup> nat"
  hash_seq :: nat
  tls_entries :: "tls_entry list"

text \<open>
  Components built on the context extend the record, so the operations work on every extension.
\<close>

definition cur :: "'a ctx_scheme \<Rightarrow> nat" where
  "cur c = the (threadx c)"

definition cur_thread :: "'a ctx_scheme \<Rightarrow> thread_info" where
  "cur_thread c = cx_threads c (cur c)"

definition upd_th :: "nat \<Rightarrow> (thread_info \<Rightarrow> thread_info) \<Rightarrow> 'a ctx_scheme \<Rightarrow> 'a ctx_scheme" where
  "upd_th i f c = c\<lparr>cx_threads := (cx_threads c)(i := f (cx_threads c i))\<rparr>"

definition upd_cur :: "(thread_info \<Rightarrow> thread_info) \<Rightarrow> 'a ctx_scheme \<Rightarrow> 'a ctx_scheme" where
  "upd_cur f c = upd_th (cur c) f c"

definition switch_to_fiber :: "nat \<Rightarrow> 'a ctx_scheme \<Rightarrow> 'a ctx_scheme" where
  "switch_to_fiber th c = c\<lparr>threadx := Some th\<rparr>"

definition switch_to_main_fiber :: "'a ctx_scheme \<Rightarrow> 'a ctx_scheme" where
  "switch_to_main_fiber c = c\<lparr>threadx := None\<rparr>"

section \<open>Failing a test\<close>

text \<open>
  \<open>fail_test\<close> builds the text of the result, which asserts for the one result that has none, and
  leaves the fiber for good.
\<close>

definition fail_test :: "test_result \<Rightarrow> 'a ctx_scheme \<Rightarrow> fault + 'b" where
  "fail_test res c =
     rl_verify (res \<noteq> result_success)
       (let test_result = (if res = result_user_assert_failed \<and> invariant_executing c
                           then result_user_invariant_failed else res)
        in rbind (test_result_str test_result) (\<lambda>_. Inl (Test_failed test_result)))"

definition ensure :: "bool \<Rightarrow> test_result \<Rightarrow> 'a ctx_scheme \<Rightarrow> fault + 'a ctx_scheme" where
  "ensure cond res c = (if \<not> cond then fail_test res c else Inr c)"

definition rl_until :: "'a ctx_scheme \<Rightarrow> fault + 'b" where
  "rl_until c = Inl (Test_failed result_until_condition_hit)"

section \<open>Preemption\<close>

definition disable_preemption :: "'a ctx_scheme \<Rightarrow> 'a ctx_scheme" where
  "disable_preemption c = c\<lparr>disable_preempt := disable_preempt c + 1\<rparr>"

definition enable_preemption :: "'a ctx_scheme \<Rightarrow> 'a ctx_scheme" where
  "enable_preemption c = c\<lparr>disable_preempt := disable_preempt c - 1\<rparr>"

text \<open>\<open>preemption_disabler\<close>: the constructor and the destructor around a block.\<close>

definition with_preemption_disabled ::
  "('a ctx_scheme \<Rightarrow> fault + ('b \<times> 'a ctx_scheme)) \<Rightarrow> 'a ctx_scheme \<Rightarrow> fault + ('b \<times> 'a ctx_scheme)" where
  "with_preemption_disabled f c =
     rbind (f (disable_preemption c)) (\<lambda>(x, c). Inr (x, enable_preemption c))"

definition get_errno :: "'a ctx_scheme \<Rightarrow> fault + int" where
  "get_errno c = rl_verify (threadx c \<noteq> None) (Inr (th_errno (cur_thread c)))"

definition set_errno :: "int \<Rightarrow> 'a ctx_scheme \<Rightarrow> fault + 'a ctx_scheme" where
  "set_errno v c = rl_verify (threadx c \<noteq> None) (Inr (upd_cur (\<lambda>t. t\<lparr>th_errno := v\<rparr>) c))"

section \<open>Scheduling\<close>

text \<open>The user's invariant, called with the two flags set.\<close>

definition check_invariant ::
  "('a ctx_scheme \<Rightarrow> fault + 'a ctx_scheme) \<Rightarrow> 'a ctx_scheme \<Rightarrow> fault + 'a ctx_scheme" where
  "check_invariant user_inv c =
     rbind (user_inv (c\<lparr>special_function_executing := True, invariant_executing := True\<rparr>)) (\<lambda>c.
       Inr (c\<lparr>invariant_executing := False, special_function_executing := False\<rparr>))"

text \<open>
  \<open>schedule\<close> up to the switch. While a special function runs it returns to its caller, and
  \<open>threadx\<close> does not change. \<open>schedule_end\<close> is what the fiber does when it is switched back in.
\<close>

definition schedule ::
  "('a ctx_scheme \<Rightarrow> fault + 'a ctx_scheme) \<Rightarrow> nat \<Rightarrow> 'a ctx_scheme \<Rightarrow> fault + 'a ctx_scheme" where
  "schedule user_inv yield c =
     rl_verify (temp_switch_from (cur_thread c) = -1) (rl_verify (disable_preempt c = 0)
       (if special_function_executing c
        then Inr (upd_cur (\<lambda>t. t\<lparr>th_unpark_reason := unpark_normal\<rparr>) c)
        else rbind (check_invariant user_inv c) (\<lambda>c.
          let c = (if yield \<noteq> 0 then upd_cur (\<lambda>t. t\<lparr>last_yield := own_order t\<rparr>) c else c)
          in rbind (sched_schedule yield (cx_sched c)) (\<lambda>(th, reason, s).
               Inr (switch_to_fiber th
                 (upd_th th (\<lambda>t. t\<lparr>th_unpark_reason := reason\<rparr>) (c\<lparr>cx_sched := s\<rparr>)))))))"

definition schedule_end :: "'a ctx_scheme \<Rightarrow> fault + 'a ctx_scheme" where
  "schedule_end c = rl_verify (0 = disable_preempt c) (Inr c)"

definition count_sched :: "'a ctx_scheme \<Rightarrow> fault + 'a ctx_scheme" where
  "count_sched c =
     (let c' = c\<lparr>sched_count := sched_count c + 1\<rparr>
      in if sched_count c > execution_depth_limit (cx_params c) then fail_test result_livelock c' else Inr c')"

definition ctx_yield ::
  "('a ctx_scheme \<Rightarrow> fault + 'a ctx_scheme) \<Rightarrow> nat \<Rightarrow> 'a ctx_scheme \<Rightarrow> fault + 'a ctx_scheme" where
  "ctx_yield user_inv cnt c =
     rl_verify (cnt \<noteq> 0) (rbind (count_sched c) (\<lambda>c. schedule user_inv cnt c))"

definition ctx_sched ::
  "('a ctx_scheme \<Rightarrow> fault + 'a ctx_scheme) \<Rightarrow> 'a ctx_scheme \<Rightarrow> fault + 'a ctx_scheme" where
  "ctx_sched user_inv c =
     rbind (count_sched c) (\<lambda>c. if disable_preempt c \<noteq> 0 then Inr c else schedule user_inv 0 c)"

definition ctx_rand :: "nat \<Rightarrow> sched_type \<Rightarrow> 'a ctx_scheme \<Rightarrow> fault + (nat \<times> 'a ctx_scheme)" where
  "ctx_rand limit t c = rbind (sched_rand (cx_sched c) limit t) (\<lambda>(r, s). Inr (r, c\<lparr>cx_sched := s\<rparr>))"

section \<open>Parking\<close>

text \<open>
  \<open>park_current_thread\<close> up to the switch: the local \<open>dp\<close> and the parameter \<open>do_switch\<close> stay on
  the parked fiber's stack. \<open>park_end\<close> is the rest.
\<close>

definition park_current_thread ::
  "('a ctx_scheme \<Rightarrow> fault + 'a ctx_scheme) \<Rightarrow> bool \<Rightarrow> bool \<Rightarrow> bool \<Rightarrow> 'a ctx_scheme \<Rightarrow> fault + 'a ctx_scheme" where
  "park_current_thread user_inv is_timed allow_spurious_wakeup do_switch c =
     rl_verify (\<not> special_function_executing c)
     (rl_verify (saved_disable_preemption (cur_thread c) = -1)
       (let dp = disable_preempt c;
            c = (upd_cur (\<lambda>t. t\<lparr>park_dp := dp, park_switch := do_switch\<rparr>) c)\<lparr>disable_preempt := 0\<rparr>
        in rbind (sched_park_current is_timed allow_spurious_wakeup (cx_sched c)) (\<lambda>(ok, s).
             let c = c\<lparr>cx_sched := s\<rparr>
             in if \<not> ok then fail_test result_deadlock c else schedule user_inv 1 c)))"

definition park_end :: "'a ctx_scheme \<Rightarrow> fault + (unpark_reason \<times> 'a ctx_scheme)" where
  "park_end c =
     rbind (schedule_end c) (\<lambda>c.
       let t = cur_thread c
       in rl_verify (saved_disable_preemption t = -1)
            (Inr (th_unpark_reason t,
               if \<not> park_switch t \<or> th_unpark_reason t \<noteq> unpark_normal
               then c\<lparr>disable_preempt := park_dp t\<rparr>
               else upd_cur (\<lambda>t. t\<lparr>saved_disable_preemption := sint (park_dp t)\<rparr>) c)))"

text \<open>
  \<open>unpark_thread\<close>. With \<open>do_switch\<close> the woken fiber runs at once, from the end of its parking to
  its \<open>switch_back\<close>; that code is the argument \<open>wake\<close>.
\<close>

definition unpark_thread ::
  "('a ctx_scheme \<Rightarrow> fault + 'a ctx_scheme) \<Rightarrow> nat \<Rightarrow> bool \<Rightarrow> 'a ctx_scheme \<Rightarrow> fault + 'a ctx_scheme" where
  "unpark_thread wake th do_switch c =
     rl_verify (\<not> special_function_executing c)
       (rbind (sched_unpark th (cx_sched c)) (\<lambda>s.
          let c = c\<lparr>cx_sched := s\<rparr>
          in if do_switch
             then wake (switch_to_fiber th
                    (upd_th th (\<lambda>t. t\<lparr>th_unpark_reason := unpark_normal,
                                      temp_switch_from := int (th_index (cur_thread c))\<rparr>) c))
             else Inr c))"

definition switch_back :: "'a ctx_scheme \<Rightarrow> fault + 'a ctx_scheme" where
  "switch_back c =
     (let t = cur_thread c
      in rl_verify (saved_disable_preemption t \<noteq> -1) (rl_verify (temp_switch_from t \<noteq> -1)
           (Inr (switch_to_fiber (nat (temp_switch_from t)) (upd_cur (\<lambda>t. t\<lparr>temp_switch_from := -1\<rparr>) c)))))"

definition switch_back_end :: "'a ctx_scheme \<Rightarrow> fault + 'a ctx_scheme" where
  "switch_back_end c =
     (let t = cur_thread c
      in rl_verify (saved_disable_preemption t \<noteq> -1)
           (Inr (upd_cur (\<lambda>t. t\<lparr>saved_disable_preemption := -1\<rparr>)
                  (c\<lparr>disable_preempt := word_of_int (saved_disable_preemption t)\<rparr>))))"

section \<open>Fences\<close>

definition rl_global_fence :: "'a ctx_scheme \<Rightarrow> 'a ctx_scheme" where
  "rl_global_fence c =
     (let max_acq_rel = fold (\<lambda>i m. if acq_rel_order (cx_threads c i) i > m then acq_rel_order (cx_threads c i) i else m)
                          [0..<cx_n c] 0
      in c\<lparr>cx_threads := (\<lambda>i. if i < cx_n c
             then (cx_threads c i)\<lparr>acq_rel_order := (\<lambda>j. if j < cx_n c then max_acq_rel else acq_rel_order (cx_threads c i) j)\<rparr>
             else cx_threads c i)\<rparr>)"

definition atomic_thread_fence_acquire :: "'a ctx_scheme \<Rightarrow> 'a ctx_scheme" where
  "atomic_thread_fence_acquire c = upd_cur (fence_acquire (cx_n c)) c"

definition atomic_thread_fence_release :: "'a ctx_scheme \<Rightarrow> 'a ctx_scheme" where
  "atomic_thread_fence_release c = upd_cur (fence_release (cx_n c)) c"

definition atomic_thread_fence_acq_rel :: "'a ctx_scheme \<Rightarrow> 'a ctx_scheme" where
  "atomic_thread_fence_acq_rel c = upd_cur (fence_acq_rel (cx_n c)) c"

text \<open>The call of \<open>sched()\<close> comes first; this is the rest.\<close>

definition atomic_thread_fence_seq_cst :: "'a ctx_scheme \<Rightarrow> 'a ctx_scheme" where
  "atomic_thread_fence_seq_cst c =
     (let (t, f) = fence_seq_cst (cx_n c) (cur_thread c) (seq_cst_fence_order c)
      in upd_cur (\<lambda>_. t) (c\<lparr>seq_cst_fence_order := f\<rparr>))"

section \<open>Memory\<close>

definition is_random_sched :: "'a ctx_scheme \<Rightarrow> bool" where
  "is_random_sched c = (search_type (cx_params c) = sched_random)"

definition ctx_alloc :: "nat \<Rightarrow> nat \<Rightarrow> 'a ctx_scheme \<Rightarrow> fault + (nat \<times> 'a ctx_scheme)" where
  "ctx_alloc sys sz c =
     rbind (memory_alloc sys sz (cx_memory c)) (\<lambda>(p, m). Inr (p, c\<lparr>cx_memory := m\<rparr>))"

definition ctx_free :: "nat \<Rightarrow> 'a ctx_scheme \<Rightarrow> fault + 'a ctx_scheme" where
  "ctx_free p c =
     rbind (ctx_rand (if is_random_sched c then 4 else 2) sched_type_mem_realloc c) (\<lambda>(r, c).
       let (ok, m) = memory_free p (r = 0) (cx_memory c);
           c = c\<lparr>cx_memory := m\<rparr>
       in if \<not> ok then fail_test result_double_free c else Inr c)"

text \<open>The allocation functions behind the global operators \<open>new\<close> and \<open>delete\<close>.\<close>

definition ctx_new :: "nat \<Rightarrow> nat \<Rightarrow> 'a ctx_scheme \<Rightarrow> fault + (nat \<times> 'a ctx_scheme)" where
  "ctx_new sys sz c =
     (if disable_alloc c \<noteq> 0 then Inr (sys, c) else ctx_alloc sys sz (c\<lparr>prev_alloc_size := sz\<rparr>))"

definition ctx_delete :: "nat \<Rightarrow> 'a ctx_scheme \<Rightarrow> fault + 'a ctx_scheme" where
  "ctx_delete p c = (if disable_alloc c \<noteq> 0 then Inr c else ctx_free p c)"

definition take_prev_alloc_size :: "'a ctx_scheme \<Rightarrow> nat \<times> 'a ctx_scheme" where
  "take_prev_alloc_size c = (prev_alloc_size c, c\<lparr>prev_alloc_size := 0\<rparr>)"

definition object_alloc :: "nat \<Rightarrow> nat \<Rightarrow> slab_kind \<Rightarrow> nat \<Rightarrow> 'a ctx_scheme \<Rightarrow> fault + (nat \<times> 'a ctx_scheme)" where
  "object_alloc es sys k tag c =
     rbind (slab_alloc es sys tag (cx_slabs c k)) (\<lambda>(p, a). Inr (p, c\<lparr>cx_slabs := (cx_slabs c)(k := a)\<rparr>))"

definition object_free :: "slab_kind \<Rightarrow> nat \<Rightarrow> 'a ctx_scheme \<Rightarrow> 'a ctx_scheme" where
  "object_free k p c = c\<lparr>cx_slabs := (cx_slabs c)(k := slab_free p (cx_slabs c k))\<rparr>"

section \<open>Address hashes and thread local storage\<close>

definition get_addr_hash :: "nat \<Rightarrow> 'a ctx_scheme \<Rightarrow> nat \<times> 'a ctx_scheme" where
  "get_addr_hash p c =
     (case hash_map c p of
        Some h \<Rightarrow> (h, c)
      | None \<Rightarrow> (hash_seq c, c\<lparr>hash_seq := hash_seq c + 1, hash_map := (hash_map c)(p \<mapsto> hash_seq c)\<rparr>))"

definition hash_ptr :: "nat \<Rightarrow> nat \<Rightarrow> 'a ctx_scheme \<Rightarrow> nat \<times> 'a ctx_scheme" where
  "hash_ptr p sz c = (let (h, c) = get_addr_hash p c in (h mod sz, c))"

definition thread_local_alloc :: "nat option \<Rightarrow> 'a ctx_scheme \<Rightarrow> nat \<times> 'a ctx_scheme" where
  "thread_local_alloc dtor c =
     (length (tls_entries c),
      c\<lparr>tls_entries := tls_entries c @ [\<lparr>tls_alive = True, tls_value = (\<lambda>_. 0), tls_dtor = dtor\<rparr>]\<rparr>)"

text \<open>The calls of the destructor are returned as the list of the values it is applied to.\<close>

definition thread_local_free :: "int \<Rightarrow> 'a ctx_scheme \<Rightarrow> fault + ((nat \<times> int) list \<times> 'a ctx_scheme)" where
  "thread_local_free index c =
     rl_verify (index \<ge> 0 \<and> nat index < length (tls_entries c))
       (let ent = tls_entries c ! nat index
        in rl_verify (tls_alive ent)
             (Inr (case tls_dtor ent of
                     None \<Rightarrow> []
                   | Some d \<Rightarrow> map (\<lambda>i. (d, tls_value ent i)) (filter (\<lambda>i. tls_value ent i \<noteq> 0) [0..<cx_n c]),
                   c\<lparr>tls_entries := (tls_entries c)[nat index := ent\<lparr>tls_alive := False\<rparr>]\<rparr>)))"

definition thread_local_set :: "int \<Rightarrow> int \<Rightarrow> 'a ctx_scheme \<Rightarrow> fault + 'a ctx_scheme" where
  "thread_local_set index v c =
     rl_verify (index \<ge> 0 \<and> nat index < length (tls_entries c))
       (let ent = tls_entries c ! nat index
        in rl_verify (tls_alive ent)
             (Inr (c\<lparr>tls_entries := (tls_entries c)
                       [nat index := ent\<lparr>tls_value := (tls_value ent)(cur c := v)\<rparr>]\<rparr>)))"

definition thread_local_get :: "int \<Rightarrow> 'a ctx_scheme \<Rightarrow> fault + int" where
  "thread_local_get index c =
     rl_verify (index \<ge> 0 \<and> nat index < length (tls_entries c))
       (let ent = tls_entries c ! nat index
        in rl_verify (tls_alive ent) (Inr (tls_value ent (cur c))))"

section \<open>Iterations\<close>

definition addr_hash_iteration_begin :: "'a ctx_scheme \<Rightarrow> 'a ctx_scheme" where
  "addr_hash_iteration_begin c = c\<lparr>hash_map := Map.empty, hash_seq := 0\<rparr>"

definition tls_iteration_begin :: "'a ctx_scheme \<Rightarrow> 'a ctx_scheme" where
  "tls_iteration_begin c =
     (let c = addr_hash_iteration_begin c
      in c\<lparr>tls_entries := map (\<lambda>e. e\<lparr>tls_value := (\<lambda>i. if i < cx_n c then 0 else tls_value e i)\<rparr>) (tls_entries c)\<rparr>)"

text \<open>
  \<open>iteration\<close> up to the switch to the first fiber. A thread's own \<open>iteration_begin\<close> asserts that
  nobody waits for it.
\<close>

definition iteration :: "nat \<Rightarrow> 'a ctx_scheme \<Rightarrow> fault + 'a ctx_scheme" where
  "iteration iter c =
     (let c = c\<lparr>first_thread := True, disable_preempt := 0, sched_count := 0,
                cx_threads := (\<lambda>i. if i < cx_n c then reset_thread (cx_n c) (cx_threads c i) else cx_threads c i),
                seq_cst_fence_order := foreach1 (cx_n c) (seq_cst_fence_order c) assign_zero\<rparr>;
          c = tls_iteration_begin c
      in rbind (rfold (\<lambda>i c. rl_verify (waitsets c (so_ws (cx_threads c i)) = [])
                   (Inr (upd_th i (thread_iteration_begin (cx_n c)) c))) [0..<cx_n c] c) (\<lambda>c.
           rbind (sched_iteration_begin iter (cx_sched c)) (\<lambda>(th, s).
             Inr (switch_to_fiber th (c\<lparr>cx_sched := s\<rparr>)))))"

end
