(* ===== verification/Waitset.thy ===== *)
theory Waitset
  imports Context
begin

text \<open>
  Wait sets, \<^verbatim>\<open>waitset.hpp\<close>: the threads parked on an object, in the order they
  came, each with a note of how it waits. A wait set is named by its address in the store
  \<open>waitsets\<close> of the context, since a thread that waits on several objects is in several sets.
  Two things lie outside this component and are arguments: \<open>sig\<close>, the object's own answer to
  \<open>is_signaled\<close>, and \<open>wake\<close>, the code a woken fiber runs before it switches back.
\<close>

section \<open>Entering\<close>

definition ws_push :: "nat \<Rightarrow> thread_desc \<Rightarrow> 'a ctx_scheme \<Rightarrow> fault + 'a ctx_scheme" where
  "ws_push a d c =
     rl_verify (length (waitsets c a) < cx_n c)
       (Inr (c\<lparr>waitsets := (waitsets c)(a := waitsets c a @ [d])\<rparr>))"

text \<open>The loop of \<open>remove\<close>: the first entry of the thread goes, the later ones move up.\<close>

fun remove_desc :: "nat \<Rightarrow> thread_desc list \<Rightarrow> thread_desc list option" where
  "remove_desc th [] = None"
| "remove_desc th (d # ds) = (if d_th d = th then Some ds else map_option ((#) d) (remove_desc th ds))"

definition ws_remove :: "nat \<Rightarrow> nat \<Rightarrow> 'a ctx_scheme \<Rightarrow> fault + 'a ctx_scheme" where
  "ws_remove th a c =
     (case remove_desc th (waitsets c a) of
        None \<Rightarrow> Inl Verify_failed
      | Some ds \<Rightarrow> Inr (c\<lparr>waitsets := (waitsets c)(a := ds)\<rparr>))"

definition ws_remove_all :: "nat \<Rightarrow> nat list \<Rightarrow> 'a ctx_scheme \<Rightarrow> fault + 'a ctx_scheme" where
  "ws_remove_all th ws c = rfold (ws_remove th) ws c"

definition park_current ::
  "('a ctx_scheme \<Rightarrow> fault + 'a ctx_scheme) \<Rightarrow> nat \<Rightarrow> bool \<Rightarrow> bool \<Rightarrow> bool \<Rightarrow> 'a ctx_scheme \<Rightarrow> fault + 'a ctx_scheme" where
  "park_current user_inv a is_timed allow_spurious_wakeup do_switch c =
     rbind (ws_push a \<lparr>d_th = cur c, d_count = 0, d_ws = None, d_wo = None, d_wait_all = False,
                       d_do_switch = do_switch\<rparr> c)
       (park_current_thread user_inv is_timed allow_spurious_wakeup do_switch)"

text \<open>After the switch: a normal wake-up has already taken the entry out, any other one has not.\<close>

definition check_switched :: "'a ctx_scheme \<Rightarrow> fault + 'a ctx_scheme" where
  "check_switched c =
     (if park_switch (cur_thread c) then rl_verify (temp_switch_from (cur_thread c) \<noteq> -1) (Inr c)
      else rl_verify (temp_switch_from (cur_thread c) = -1) (Inr c))"

definition park_current_end :: "nat \<Rightarrow> 'a ctx_scheme \<Rightarrow> fault + (unpark_reason \<times> 'a ctx_scheme)" where
  "park_current_end a c =
     rbind (park_end c) (\<lambda>(reason, c).
       rbind (if reason = unpark_normal then check_switched c else ws_remove (cur c) a c) (\<lambda>c.
         Inr (reason, c)))"

definition park_current_many ::
  "('a ctx_scheme \<Rightarrow> fault + 'a ctx_scheme) \<Rightarrow> nat list \<Rightarrow> waitable list \<Rightarrow> bool \<Rightarrow> bool \<Rightarrow> bool \<Rightarrow>
     'a ctx_scheme \<Rightarrow> fault + 'a ctx_scheme" where
  "park_current_many user_inv ws wo wait_all is_timed do_switch c =
     (let desc = \<lparr>d_th = cur c, d_count = length ws, d_ws = Some ws, d_wo = Some wo, d_wait_all = wait_all,
                  d_do_switch = do_switch\<rparr>
      in rbind (rfold (\<lambda>a. ws_push a desc) ws c)
           (park_current_thread user_inv is_timed False do_switch))"

definition park_current_many_end :: "nat list \<Rightarrow> 'a ctx_scheme \<Rightarrow> fault + (unpark_reason \<times> 'a ctx_scheme)" where
  "park_current_many_end ws c =
     rbind (park_end c) (\<lambda>(reason, c).
       rbind (if reason = unpark_normal then check_switched c else ws_remove_all (cur c) ws c) (\<lambda>c.
         Inr (reason, c)))"

section \<open>Waking\<close>

type_synonym 'c sig_fun = "waitable \<Rightarrow> 'c \<Rightarrow> fault + bool"

fun all_signaled :: "'c sig_fun \<Rightarrow> waitable list \<Rightarrow> 'c \<Rightarrow> fault + bool" where
  "all_signaled sig [] c = Inr True"
| "all_signaled sig (o1 # os) c = rbind (sig o1 c) (\<lambda>b. if \<not> b then Inr False else all_signaled sig os c)"

definition try_remove ::
  "'a ctx_scheme sig_fun \<Rightarrow> (nat \<Rightarrow> 'a ctx_scheme \<Rightarrow> fault + 'a ctx_scheme) \<Rightarrow> nat \<Rightarrow> nat \<Rightarrow> 'a ctx_scheme
     \<Rightarrow> fault + (bool \<times> 'a ctx_scheme)" where
  "try_remove sig wake a idx c =
     rl_verify (idx < length (waitsets c a))
       (let d = waitsets c a ! idx
        in rbind (if d_count d \<noteq> 0 \<and> d_wait_all d then all_signaled sig (the (d_wo d)) c else Inr True) (\<lambda>ready.
           if \<not> ready then Inr (False, c)
           else rbind (case d_ws d of Some ws \<Rightarrow> ws_remove_all (d_th d) ws c | None \<Rightarrow> ws_remove (d_th d) a c) (\<lambda>c.
                rbind (unpark_thread (wake (d_th d)) (d_th d) (d_do_switch d) c) (\<lambda>c. Inr (True, c)))))"

fun unpark_scan ::
  "'a ctx_scheme sig_fun \<Rightarrow> (nat \<Rightarrow> 'a ctx_scheme \<Rightarrow> fault + 'a ctx_scheme) \<Rightarrow> nat \<Rightarrow> nat list \<Rightarrow> 'a ctx_scheme
     \<Rightarrow> fault + (bool \<times> 'a ctx_scheme)" where
  "unpark_scan sig wake a [] c = Inr (False, c)"
| "unpark_scan sig wake a (idx # is) c =
     rbind (try_remove sig wake a idx c) (\<lambda>(ok, c). if ok then Inr (True, c) else unpark_scan sig wake a is c)"

definition unpark_one ::
  "'a ctx_scheme sig_fun \<Rightarrow> (nat \<Rightarrow> 'a ctx_scheme \<Rightarrow> fault + 'a ctx_scheme) \<Rightarrow> nat \<Rightarrow> 'a ctx_scheme
     \<Rightarrow> fault + (bool \<times> 'a ctx_scheme)" where
  "unpark_one sig wake a c =
     (if length (waitsets c a) = 0 then Inr (False, c)
      else rbind (ctx_rand (length (waitsets c a)) sched_type_user c) (\<lambda>(idx, c).
           rbind (try_remove sig wake a idx c) (\<lambda>(ok, c).
             if ok then Inr (True, c) else unpark_scan sig wake a [0..<length (waitsets c a)] c)))"

text \<open>
  The loop of \<open>unpark_all\<close>. Each round wakes an entry, which shortens the set, or passes one, so
  as many rounds as there are entries are enough (lemma \<open>unpark_all_empties\<close>); the value of a loop
  that is cut off is a fault.
\<close>

fun unpark_all_loop ::
  "'a ctx_scheme sig_fun \<Rightarrow> (nat \<Rightarrow> 'a ctx_scheme \<Rightarrow> fault + 'a ctx_scheme) \<Rightarrow> nat \<Rightarrow> nat \<Rightarrow> nat \<Rightarrow> nat \<Rightarrow> 'a ctx_scheme
     \<Rightarrow> fault + (nat \<times> 'a ctx_scheme)" where
  "unpark_all_loop sig wake a 0 idx cnt c =
     (if idx = length (waitsets c a) then Inr (cnt, c) else Inl Verify_failed)"
| "unpark_all_loop sig wake a (Suc k) idx cnt c =
     (if idx = length (waitsets c a) then Inr (cnt, c)
      else rbind (try_remove sig wake a idx c) (\<lambda>(ok, c).
             if ok then unpark_all_loop sig wake a k idx (cnt + 1) c
             else unpark_all_loop sig wake a k (idx + 1) cnt c))"

definition unpark_all ::
  "'a ctx_scheme sig_fun \<Rightarrow> (nat \<Rightarrow> 'a ctx_scheme \<Rightarrow> fault + 'a ctx_scheme) \<Rightarrow> nat \<Rightarrow> 'a ctx_scheme
     \<Rightarrow> fault + (nat \<times> 'a ctx_scheme)" where
  "unpark_all sig wake a c = unpark_all_loop sig wake a (length (waitsets c a)) 0 0 c"

end
