(* ===== verification/Wait_Contract.thy ===== *)
theory Wait_Contract
  imports Waitset Scheduler_Props
begin

text \<open>
  The contract between a wait set and the object it belongs to. The set promises that waking goes
  through - an entry's thread is parked, so nothing inside the scheduler asserts - as long as the
  object can serve the thread it wakes; \<open>waker\<close> states that promise for an object that may run
  out, \<open>broadcaster\<close> for one that does not. The objects' theories interpret them.
\<close>

section \<open>Waiting threads are parked\<close>

definition entry_ok :: "'a ctx_scheme \<Rightarrow> thread_desc \<Rightarrow> bool" where
  "entry_ok c d \<longleftrightarrow>
     d_th d < cx_n c \<and> d_th d \<noteq> cur c \<and> parked (cx_sched c) (d_th d) \<and> d_th d \<notin> set (dynamic_threads (cx_sched c)) \<and>
     (d_do_switch d \<longrightarrow>
        saved_disable_preemption (cx_threads c (d_th d)) = -1 \<and> temp_switch_from (cx_threads c (d_th d)) = -1 \<and>
        park_switch (cx_threads c (d_th d)) \<and> sint (park_dp (cx_threads c (d_th d))) \<noteq> -1)"

definition waits_ok :: "'a ctx_scheme \<Rightarrow> bool" where
  "waits_ok c \<longleftrightarrow>
     (\<forall>a. distinct (map d_th (waitsets c a))) \<and> (\<forall>a. \<forall>d \<in> set (waitsets c a). entry_ok c d) \<and>
     (\<forall>a b. \<forall>d \<in> set (waitsets c a). \<forall>e \<in> set (waitsets c b). d_th d = d_th e \<longrightarrow> d_ws d = None \<longrightarrow> a = b)"

text \<open>Fiber \<open>t\<close> runs test code and may wake others.\<close>

definition calm :: "nat \<Rightarrow> 'a ctx_scheme \<Rightarrow> bool" where
  "calm t c \<longleftrightarrow>
     threadx c = Some t \<and> t < cx_n c \<and> (\<forall>i < cx_n c. th_index (cx_threads c i) = i) \<and>
     \<not> special_function_executing c \<and> disable_preempt c = 0 \<and>
     sched_inv (cx_sched c) \<and> s_n (cx_sched c) = cx_n c \<and> replay_free (cx_sched c) \<and> waits_ok c"

definition drop_nth :: "nat \<Rightarrow> 'b list \<Rightarrow> 'b list" where
  "drop_nth i xs = take i xs @ drop (Suc i) xs"

lemma drop_nth_Cons: "drop_nth i (x # xs) = (case i of 0 \<Rightarrow> xs | Suc j \<Rightarrow> x # drop_nth j xs)"
  by (simp add: drop_nth_def split: nat.split)

lemma drop_nth_facts:
  "set (drop_nth i xs) \<subseteq> set xs" "i < length xs \<Longrightarrow> length (drop_nth i xs) = length xs - 1"
  by (auto simp: drop_nth_def dest: in_set_takeD in_set_dropD)

lemma drop_nth_distinct:
  "distinct (map f xs) \<Longrightarrow> distinct (map f (drop_nth i xs))"
  "distinct (map f xs) \<Longrightarrow> i < length xs \<Longrightarrow> x \<in> set (drop_nth i xs) \<Longrightarrow> f x \<noteq> f (xs ! i)"
proof (induction xs arbitrary: i)
  case (Cons y xs)
  case 1
  then show ?case using Cons.IH(1) drop_nth_facts(1) by (fastforce simp: drop_nth_Cons split: nat.split)
  case 2
  then show ?case using Cons.IH(2) drop_nth_facts(1) nth_mem
    by (fastforce simp: drop_nth_Cons image_iff split: nat.splits)
qed (simp_all add: drop_nth_def)

lemma remove_desc_nth:
  "distinct (map d_th ws) \<Longrightarrow> i < length ws \<Longrightarrow> remove_desc (d_th (ws ! i)) ws = Some (drop_nth i ws)"
proof (induction ws arbitrary: i)
  case (Cons d ws)
  show ?case
  proof (cases i)
    case (Suc j)
    then have "d_th d \<noteq> d_th (ws ! j)" using Cons.prems nth_mem [of j ws] by (auto simp: image_iff)
    then show ?thesis using Cons Suc by (simp add: drop_nth_Cons)
  qed (simp add: drop_nth_Cons)
qed simp

lemma calm_cur [simp]: "calm t c \<Longrightarrow> cur c = t"
  by (simp add: calm_def cur_def)

text \<open>Taking one entry out and unparking its thread keeps the rest in order.\<close>

lemma calm_unpark:
  assumes c: "calm t c" and i: "i < length (waitsets c a)" and d: "d = waitsets c a ! i" "d_ws d = None"
  shows "\<exists>s'. ws_remove (d_th d) a c = Inr (c\<lparr>waitsets := (waitsets c)(a := drop_nth i (waitsets c a))\<rparr>) \<and>
    sched_unpark (d_th d) (cx_sched c) = Inr s' \<and> \<not> parked s' (d_th d) \<and>
    (\<forall>j. j \<noteq> d_th d \<longrightarrow> parked s' j = parked (cx_sched c) j) \<and>
    calm t (c\<lparr>waitsets := (waitsets c)(a := drop_nth i (waitsets c a)), cx_sched := s'\<rparr>)"
proof -
  have w: "waits_ok c" and inv: "sched_inv (cx_sched c)" using c by (auto simp: calm_def)
  have dm: "d \<in> set (waitsets c a)" using i d(1) by simp
  have e: "entry_ok c d" using w dm by (auto simp: waits_ok_def)
  then obtain s' where s': "sched_unpark (d_th d) (cx_sched c) = Inr s'" "sched_inv s'" "\<not> parked s' (d_th d)"
    "s_n s' = s_n (cx_sched c)" "s_kind s' = s_kind (cx_sched c)" "stree s' = stree (cx_sched c)"
    "stree_depth s' = stree_depth (cx_sched c)" "dynamic_threads s' = dynamic_threads (cx_sched c)"
    "\<forall>j. j \<noteq> d_th d \<longrightarrow> parked s' j = parked (cx_sched c) j"
    using unpark_inv [OF inv, of "d_th d"] by (auto simp: entry_ok_def)
  define c' where "c' = c\<lparr>waitsets := (waitsets c)(a := drop_nth i (waitsets c a)), cx_sched := s'\<rparr>"
  have ds: "distinct (map d_th (waitsets c b))" for b using w by (simp add: waits_ok_def)
  have sub: "x \<in> set (waitsets c' b) \<Longrightarrow> x \<in> set (waitsets c b) \<and> d_th x \<noteq> d_th d" for x b
  proof (cases "b = a")
    case True
    then show "x \<in> set (waitsets c' b) \<Longrightarrow> ?thesis"
      using drop_nth_facts(1) [of i "waitsets c a"] drop_nth_distinct(2) [OF ds i] d(1) by (auto simp: c'_def)
  next
    case False
    assume x: "x \<in> set (waitsets c' b)"
    then have "x \<in> set (waitsets c b)" using False by (simp add: c'_def)
    then show ?thesis using w dm d(2) False unfolding waits_ok_def by metis
  qed
  have ent: "entry_ok c' x" if "x \<in> set (waitsets c' b)" for x b
  proof -
    have "entry_ok c x" "d_th x \<noteq> d_th d" using sub [OF that] w by (auto simp: waits_ok_def)
    then show ?thesis using s'(8,9) by (simp add: entry_ok_def c'_def cur_def)
  qed
  have "distinct (map d_th (waitsets c' b))" for b
    using ds drop_nth_distinct(1) [OF ds] by (simp add: c'_def)
  then have "waits_ok c'" using ent sub w unfolding waits_ok_def by metis
  then have "calm t c'" using c s' by (simp add: calm_def c'_def replay_free_def)
  then show ?thesis using s' remove_desc_nth [OF ds i] d(1) by (auto simp: ws_remove_def c'_def)
qed

lemma calm_rand:
  assumes "calm t c" "limit \<noteq> 0"
  shows "\<exists>r s'. ctx_rand limit sty c = Inr (r, c\<lparr>cx_sched := s'\<rparr>) \<and> r < limit \<and> calm t (c\<lparr>cx_sched := s'\<rparr>) \<and>
    (\<forall>j. parked s' j = parked (cx_sched c) j)"
proof -
  have "replay_free (cx_sched c)" using assms(1) by (simp add: calm_def)
  with sched_rand_tot [OF assms(2), of True "cx_sched c" sty]
  obtain r s' where r: "sched_rand (cx_sched c) limit sty = Inr (r, s')" "r < limit" "schoice (cx_sched c) s'" "replay_free s'"
    by (auto simp: tot_def split: sum.splits)
  have p: "parked s' j = parked (cx_sched c) j" for j
    using r(3) by (auto simp: schoice_def parked_def waiters_def)
  have f: "dynamic_threads s' = dynamic_threads (cx_sched c)" "s_n s' = s_n (cx_sched c)"
    using r(3) by (auto simp: schoice_def)
  have "waits_ok c" using assms(1) by (simp add: calm_def)
  then have "waits_ok (c\<lparr>cx_sched := s'\<rparr>)"
    using p f by (simp add: waits_ok_def entry_ok_def cur_def)
  then have "calm t (c\<lparr>cx_sched := s'\<rparr>)"
    using assms(1) r schoice_sched_inv [OF r(3)] f by (simp add: calm_def)
  then show ?thesis using r p by (auto simp: ctx_rand_def)
qed

section \<open>Waking a fiber that is switched to\<close>

lemma calm_thread:
  assumes "calm t c" "\<not> parked (cx_sched c) th" "th_index x = th_index (cx_threads c th)"
  shows "calm t (c\<lparr>cx_threads := (cx_threads c)(th := x)\<rparr>)"
proof -
  have w: "waits_ok c" using assms(1) by (simp add: calm_def)
  have "d_th d \<noteq> th" if "d \<in> set (waitsets c a)" for a d
    using w that assms(2) by (auto simp: waits_ok_def entry_ok_def)
  then have "waits_ok (c\<lparr>cx_threads := (cx_threads c)(th := x)\<rparr>)"
    using w by (simp add: waits_ok_def entry_ok_def cur_def)
  then show ?thesis using assms by (simp add: calm_def)
qed

text \<open>The state in which a woken fiber starts, and what the end of its parking makes of it.\<close>

definition woken_state :: "nat \<Rightarrow> 'a ctx_scheme \<Rightarrow> 'a ctx_scheme" where
  "woken_state th c = switch_to_fiber th
     (upd_th th (\<lambda>t. t\<lparr>th_unpark_reason := unpark_normal, temp_switch_from := int (th_index (cur_thread c))\<rparr>) c)"

definition woken_thread :: "nat \<Rightarrow> thread_info \<Rightarrow> thread_info" where
  "woken_thread t x = x\<lparr>th_unpark_reason := unpark_normal, temp_switch_from := int t,
     saved_disable_preemption := sint (park_dp x)\<rparr>"

lemma woken_park_end:
  assumes "calm t c" "saved_disable_preemption (cx_threads c th) = -1" "park_switch (cx_threads c th)" "th \<noteq> t"
  shows "park_current_end a (woken_state th c) =
    Inr (unpark_normal, c\<lparr>cx_threads := (cx_threads c)(th := woken_thread t (cx_threads c th)), threadx := Some th\<rparr>)"
  using assms
  by (simp add: park_current_end_def park_end_def schedule_end_def woken_state_def switch_to_fiber_def upd_th_def
      upd_cur_def cur_thread_def cur_def calm_def Let_def check_switched_def woken_thread_def)

lemma woken_switch_back:
  assumes "cx_threads c th = (woken_thread t x)\<lparr>acq_rel_order := clk\<rparr>" "threadx c = Some th" "sint (park_dp x) \<noteq> -1"
  shows "switch_back c = Inr (c\<lparr>threadx := Some t,
      cx_threads := (cx_threads c)(th := (woken_thread t x)\<lparr>acq_rel_order := clk, temp_switch_from := -1\<rparr>)\<rparr>)"
  using assms
  by (simp add: switch_back_def switch_to_fiber_def upd_cur_def upd_th_def cur_thread_def cur_def Let_def woken_thread_def)


lemma try_remove_switch:
  assumes c: "calm t c" and i: "i < length (waitsets c a)" and d: "d = waitsets c a ! i" "d_ws d = None" "d_count d = 0"
    "d_do_switch d"
  shows "\<exists>s'. calm t (c\<lparr>waitsets := (waitsets c)(a := drop_nth i (waitsets c a)), cx_sched := s'\<rparr>) \<and>
    \<not> parked s' (d_th d) \<and> (\<forall>j. j \<noteq> d_th d \<longrightarrow> parked s' j = parked (cx_sched c) j) \<and>
    try_remove sig wk a i c = rbind (wk (d_th d) (woken_state (d_th d)
        (c\<lparr>waitsets := (waitsets c)(a := drop_nth i (waitsets c a)), cx_sched := s'\<rparr>))) (\<lambda>c. Inr (True, c))"
proof -
  obtain s' where s': "ws_remove (d_th d) a c = Inr (c\<lparr>waitsets := (waitsets c)(a := drop_nth i (waitsets c a))\<rparr>)"
    "sched_unpark (d_th d) (cx_sched c) = Inr s'" "\<not> parked s' (d_th d)"
    "\<forall>j. j \<noteq> d_th d \<longrightarrow> parked s' j = parked (cx_sched c) j"
    "calm t (c\<lparr>waitsets := (waitsets c)(a := drop_nth i (waitsets c a)), cx_sched := s'\<rparr>)"
    using calm_unpark [OF c i d(1,2)] by blast
  have "\<not> special_function_executing c" using c by (simp add: calm_def)
  then show ?thesis using s' i d
    by (intro exI [of _ s']) (simp add: try_remove_def Let_def unpark_thread_def woken_state_def)
qed

section \<open>The contract\<close>

text \<open>
  \<open>good\<close> is what the object keeps, \<open>ready\<close> that it can serve a waiter now. Serving the entry at any
  index goes through and takes exactly that entry out; drawing a random number disturbs nothing.
\<close>

locale waker =
  fixes sig :: "'a ctx_scheme sig_fun"
    and wake :: "nat \<Rightarrow> 'a ctx_scheme \<Rightarrow> fault + 'a ctx_scheme"
    and a :: nat
    and good :: "'a ctx_scheme \<Rightarrow> bool"
    and ready :: "'a ctx_scheme \<Rightarrow> bool"
  assumes serve: "good c \<Longrightarrow> ready c \<Longrightarrow> i < length (waitsets c a) \<Longrightarrow>
      \<exists>c'. try_remove sig wake a i c = Inr (True, c') \<and> good c' \<and> waitsets c' a = drop_nth i (waitsets c a)"
    and draw: "good c \<Longrightarrow> limit \<noteq> 0 \<Longrightarrow>
      \<exists>r c'. ctx_rand limit sched_type_user c = Inr (r, c') \<and> r < limit \<and> good c' \<and>
        waitsets c' = waitsets c \<and> ready c' = ready c"
begin

lemma one_served:
  assumes "good c" "ready c"
  shows "\<exists>c'. unpark_one sig wake a c = Inr (waitsets c a \<noteq> [], c') \<and> good c' \<and>
    length (waitsets c' a) = length (waitsets c a) - 1 \<and> set (waitsets c' a) \<subseteq> set (waitsets c a) \<and>
    (waitsets c a = [] \<longrightarrow> c' = c)"
proof (cases "waitsets c a = []")
  case True
  then show ?thesis using assms by (simp add: unpark_one_def)
next
  case False
  obtain r c1 where r: "ctx_rand (length (waitsets c a)) sched_type_user c = Inr (r, c1)"
    "r < length (waitsets c a)" "good c1" "waitsets c1 = waitsets c" "ready c1 = ready c"
    using draw [OF assms(1), of "length (waitsets c a)"] False by auto
  obtain c2 where c2: "try_remove sig wake a r c1 = Inr (True, c2)" "good c2"
    "waitsets c2 a = drop_nth r (waitsets c a)"
    using serve [OF r(3), of r] r assms(2) by auto
  then show ?thesis using False r drop_nth_facts [of r "waitsets c a"] by (auto simp: unpark_one_def)
qed

lemma one_woken:
  assumes "good c" "ready c" "unpark_one sig wake a c = Inr (b, c')"
  shows "b = (waitsets c a \<noteq> []) \<and> good c' \<and> length (waitsets c' a) = length (waitsets c a) - 1"
  using one_served [OF assms(1,2)] assms(3) by auto

end

text \<open>An object that stays ready serves everybody.\<close>

locale broadcaster = waker +
  assumes stays_ready: "good c \<Longrightarrow> ready c \<Longrightarrow> i < length (waitsets c a) \<Longrightarrow>
    try_remove sig wake a i c = Inr (True, c') \<Longrightarrow> ready c'"
begin

lemma loop_served:
  assumes "good c" "ready c" "length (waitsets c a) \<le> k"
  shows "\<exists>c'. unpark_all_loop sig wake a k 0 cnt c = Inr (cnt + length (waitsets c a), c') \<and> good c' \<and>
    waitsets c' a = [] \<and> ready c'"
  using assms
proof (induction k arbitrary: c cnt)
  case (Suc k)
  show ?case
  proof (cases "waitsets c a = []")
    case True
    then show ?thesis using Suc.prems by simp
  next
    case False
    obtain c1 where c1: "try_remove sig wake a 0 c = Inr (True, c1)" "good c1" "waitsets c1 a = drop_nth 0 (waitsets c a)"
      using serve [OF Suc.prems(1,2), of 0] False by auto
    have "ready c1" using stays_ready [OF Suc.prems(1,2) _ c1(1)] False by simp
    moreover have l: "length (waitsets c a) = Suc (length (waitsets c1 a))"
      using False c1(3) drop_nth_facts(2) [of 0 "waitsets c a"] by simp
    ultimately obtain c2 where "unpark_all_loop sig wake a k 0 (cnt + 1) c1 = Inr (cnt + 1 + length (waitsets c1 a), c2)"
      "good c2" "waitsets c2 a = []" "ready c2"
      using Suc.IH [OF c1(2), of "cnt + 1"] Suc.prems(3) by auto
    then show ?thesis using False c1(1) l by auto
  qed
qed simp

lemma all_served:
  assumes "good c" "ready c"
  shows "\<exists>c'. unpark_all sig wake a c = Inr (length (waitsets c a), c') \<and> good c' \<and> waitsets c' a = [] \<and> ready c'"
  using loop_served [OF assms order_refl, of 0] by (simp add: unpark_all_def)

end

section \<open>Plain waiters\<close>

text \<open>
  The wait sets of mutexes, condition variables, futexes and finishing threads: single waits that
  do not ask to be switched to. Nothing of the object is needed to wake them.
\<close>

definition plain :: "thread_desc \<Rightarrow> bool" where
  "plain d \<longleftrightarrow> d_count d = 0 \<and> d_ws d = None \<and> \<not> d_do_switch d"

text \<open>
  \<open>plain_good t a core c\<close>: fiber \<open>t\<close> is waking the plain waiters of \<open>a\<close>; apart from the scheduler
  and the wait sets the state is that of \<open>core\<close>, and whoever left the set is no longer parked.
\<close>

definition plain_good :: "nat \<Rightarrow> nat \<Rightarrow> 'a ctx_scheme \<Rightarrow> 'a ctx_scheme \<Rightarrow> bool" where
  "plain_good t a core c \<longleftrightarrow>
     calm t c \<and> (\<forall>d \<in> set (waitsets c a). plain d) \<and>
     (\<exists>s ws. c = core\<lparr>cx_sched := s, waitsets := (waitsets core)(a := ws)\<rparr>) \<and>
     set (waitsets c a) \<subseteq> set (waitsets core a) \<and>
     (\<forall>j. parked (cx_sched c) j = (parked (cx_sched core) j \<and> j \<notin> d_th ` (set (waitsets core a) - set (waitsets c a))))"


lemma drop_nth_set: "distinct xs \<Longrightarrow> i < length xs \<Longrightarrow> set (drop_nth i xs) = set xs - {xs ! i}"
proof (induction xs arbitrary: i)
  case (Cons x xs)
  then show ?case by (cases i) (auto simp: drop_nth_Cons)
qed simp

lemma calm_distinct: "calm t c \<Longrightarrow> distinct (waitsets c a)"
  using distinct_map by (auto simp: calm_def waits_ok_def)

lemma plain_start: "calm t c \<Longrightarrow> \<forall>d \<in> set (waitsets c a). plain d \<Longrightarrow> plain_good t a c c"
  unfolding plain_good_def by (auto intro!: exI [of _ "cx_sched c"] exI [of _ "waitsets c a"])

lemma plain_serve:
  assumes g: "plain_good t a core c" and i: "i < length (waitsets c a)"
  shows "\<exists>c'. try_remove sig wake a i c = Inr (True, c') \<and> plain_good t a core c' \<and> waitsets c' a = drop_nth i (waitsets c a)"
proof -
  define d where "d = waitsets c a ! i"
  have c: "calm t c" and pl: "plain d"
    using g i by (auto simp: plain_good_def d_def)
  obtain s' where s': "ws_remove (d_th d) a c = Inr (c\<lparr>waitsets := (waitsets c)(a := drop_nth i (waitsets c a))\<rparr>)"
    "sched_unpark (d_th d) (cx_sched c) = Inr s'" "\<not> parked s' (d_th d)"
    "\<forall>j. j \<noteq> d_th d \<longrightarrow> parked s' j = parked (cx_sched c) j"
    "calm t (c\<lparr>waitsets := (waitsets c)(a := drop_nth i (waitsets c a)), cx_sched := s'\<rparr>)"
    using calm_unpark [OF c i d_def] pl by (auto simp: plain_def)
  define c' where "c' = c\<lparr>waitsets := (waitsets c)(a := drop_nth i (waitsets c a)), cx_sched := s'\<rparr>"
  have e: "try_remove sig wake a i c = Inr (True, c')"
    using i pl s'(1,2) c
    by (simp add: try_remove_def Let_def d_def [symmetric] plain_def unpark_thread_def calm_def c'_def)
  have st: "set (drop_nth i (waitsets c a)) = set (waitsets c a) - {d}"
    using drop_nth_set [OF calm_distinct [OF c] i] by (simp add: d_def)
  have dm: "d \<in> set (waitsets c a)" using i by (simp add: d_def)
  have sub: "set (waitsets c a) \<subseteq> set (waitsets core a)"
    and pk: "\<forall>j. parked (cx_sched c) j = (parked (cx_sched core) j \<and> j \<notin> d_th ` (set (waitsets core a) - set (waitsets c a)))"
    using g by (simp_all add: plain_good_def)
  obtain s ws where eq: "c = core\<lparr>cx_sched := s, waitsets := (waitsets core)(a := ws)\<rparr>"
    using g by (auto simp: plain_good_def)
  have "set (waitsets core a) - (set (waitsets c a) - {d}) = insert d (set (waitsets core a) - set (waitsets c a))"
    using dm sub by blast
  then have rest: "set (waitsets core a) - set (waitsets c' a) = insert d (set (waitsets core a) - set (waitsets c a))"
    using st by (simp add: c'_def)
  have "parked (cx_sched c') j = (parked (cx_sched core) j \<and> j \<notin> d_th ` (set (waitsets core a) - set (waitsets c' a)))" for j
  proof (cases "j = d_th d")
    case True
    then show ?thesis using s'(3) unfolding rest by (simp add: c'_def)
  next
    case False
    then show ?thesis using s'(4) pk unfolding rest by (simp add: c'_def)
  qed
  moreover have "\<exists>s ws. c' = core\<lparr>cx_sched := s, waitsets := (waitsets core)(a := ws)\<rparr>"
    by (intro exI [of _ s'] exI [of _ "drop_nth i ws"]) (simp add: c'_def eq)
  moreover have "calm t c'" using s'(5) by (simp add: c'_def)
  moreover have "set (waitsets c' a) \<subseteq> set (waitsets core a)" using sub st by (auto simp: c'_def)
  moreover have "\<forall>d \<in> set (waitsets c' a). plain d" using g st by (simp add: plain_good_def c'_def)
  ultimately have "plain_good t a core c'" unfolding plain_good_def by blast
  then show ?thesis using e by (auto simp: c'_def)
qed

lemma plain_draw:
  assumes g: "plain_good t a core c" and l: "limit \<noteq> 0"
  shows "\<exists>r c'. ctx_rand limit sty c = Inr (r, c') \<and> r < limit \<and> plain_good t a core c' \<and> waitsets c' = waitsets c"
proof -
  obtain r s' where r: "ctx_rand limit sty c = Inr (r, c\<lparr>cx_sched := s'\<rparr>)" "r < limit" "calm t (c\<lparr>cx_sched := s'\<rparr>)"
    "\<forall>j. parked s' j = parked (cx_sched c) j"
    using calm_rand [OF conjunct1 [OF g [unfolded plain_good_def]] l] by metis
  obtain s ws where eq: "c = core\<lparr>cx_sched := s, waitsets := (waitsets core)(a := ws)\<rparr>"
    using g by (auto simp: plain_good_def)
  have "c\<lparr>cx_sched := s'\<rparr> = core\<lparr>cx_sched := s', waitsets := (waitsets core)(a := ws)\<rparr>"
    by (simp add: eq)
  then have "\<exists>s ws. c\<lparr>cx_sched := s'\<rparr> = core\<lparr>cx_sched := s, waitsets := (waitsets core)(a := ws)\<rparr>" by blast
  then have "plain_good t a core (c\<lparr>cx_sched := s'\<rparr>)"
    using r(3,4) g unfolding plain_good_def by simp
  then show ?thesis using r(1,2) by auto
qed

interpretation plain_waiters: broadcaster sig wake a "plain_good t a core" "\<lambda>_. True" for sig wake a t core
  by unfold_locales (use plain_serve plain_draw in \<open>blast+\<close>)

text \<open>What that means for one wake-up and for a broadcast.\<close>

definition wakes_only :: "nat \<Rightarrow> nat \<Rightarrow> 'a ctx_scheme \<Rightarrow> 'a ctx_scheme \<Rightarrow> bool" where
  "wakes_only t a c c' \<longleftrightarrow> calm t c' \<and> (\<exists>s ws. c' = c\<lparr>cx_sched := s, waitsets := (waitsets c)(a := ws)\<rparr>)"

lemma wakes_only_trans: "wakes_only t a c c1 \<Longrightarrow> wakes_only t a c1 c2 \<Longrightarrow> wakes_only t a c c2"
proof -
  assume a: "wakes_only t a c c1" "wakes_only t a c1 c2"
  then obtain s ws s' ws' where "c1 = c\<lparr>cx_sched := s, waitsets := (waitsets c)(a := ws)\<rparr>"
    "c2 = c1\<lparr>cx_sched := s', waitsets := (waitsets c1)(a := ws')\<rparr>" by (auto simp: wakes_only_def)
  then have "c2 = c\<lparr>cx_sched := s', waitsets := (waitsets c)(a := ws')\<rparr>" by simp
  then show ?thesis using a(2) unfolding wakes_only_def by blast
qed

lemma plain_good_only: "plain_good t a c c' \<Longrightarrow> wakes_only t a c c'"
  by (simp add: plain_good_def wakes_only_def)

lemma plain_one:
  assumes c: "calm t c" and p: "\<forall>d \<in> set (waitsets c a). plain d"
  shows "\<exists>c'. unpark_one sig wk a c = Inr (waitsets c a \<noteq> [], c') \<and> wakes_only t a c c' \<and>
    (if waitsets c a = [] then c' = c
     else \<exists>d \<in> set (waitsets c a). set (waitsets c' a) = set (waitsets c a) - {d} \<and> \<not> parked (cx_sched c') (d_th d) \<and>
            length (waitsets c' a) = length (waitsets c a) - 1)"
proof (cases "waitsets c a = []")
  case True
  then show ?thesis using plain_good_only [OF plain_start [OF c p]] by (simp add: unpark_one_def)
next
  case False
  obtain r c2 where r: "ctx_rand (length (waitsets c a)) sched_type_user c = Inr (r, c2)"
    "r < length (waitsets c a)" "plain_good t a c c2" "waitsets c2 = waitsets c"
    using plain_draw [OF plain_start [OF c p], of "length (waitsets c a)" sched_type_user] False by auto
  obtain c3 where c3: "try_remove sig wk a r c2 = Inr (True, c3)" "plain_good t a c c3"
    "waitsets c3 a = drop_nth r (waitsets c2 a)"
    using plain_serve [OF r(3), of r] r(2,4) by fastforce
  define d where "d = waitsets c a ! r"
  have dm: "d \<in> set (waitsets c a)" using r(2) by (simp add: d_def)
  have st: "set (waitsets c3 a) = set (waitsets c a) - {d}"
    using drop_nth_set [OF calm_distinct [OF c], of r a] r(2,4) c3(3) by (simp add: d_def)
  then have "d \<in> set (waitsets c a) - set (waitsets c3 a)" using dm by simp
  then have "\<not> parked (cx_sched c3) (d_th d)" using c3(2) by (auto simp: plain_good_def)
  moreover have "length (waitsets c3 a) = length (waitsets c a) - 1" using c3(3) r(2,4) drop_nth_facts(2) by simp
  ultimately show ?thesis using False r(1) c3(1) st dm plain_good_only [OF c3(2)]
    by (intro exI [of _ c3]) (auto simp: unpark_one_def)
qed

lemma plain_all:
  assumes "calm t c" "\<forall>d \<in> set (waitsets c a). plain d"
  shows "\<exists>c'. unpark_all sig wk a c = Inr (length (waitsets c a), c') \<and> wakes_only t a c c' \<and> waitsets c' a = [] \<and>
    (\<forall>d \<in> set (waitsets c a). \<not> parked (cx_sched c') (d_th d))"
proof -
  obtain c' where c': "unpark_all sig wk a c = Inr (length (waitsets c a), c')" "plain_good t a c c'" "waitsets c' a = []"
    using plain_waiters.all_served [OF plain_start [OF assms]] by blast
  have "\<not> parked (cx_sched c') (d_th d)" if "d \<in> set (waitsets c a)" for d
    using c'(2,3) that by (simp add: plain_good_def)
  then show ?thesis using c' plain_good_only by blast
qed

section \<open>A sample\<close>

text \<open>A scheduler with thread 0 running and thread 1 parked.\<close>

definition sample_sched :: sched where
  "sample_sched = (sched_ctor sched_random 2 default_params 0)
     \<lparr>s_threads := blank_sched_thread(1 := (blank_sched_thread 1)\<lparr>block_count := 1, st_state := thread_blocked\<rparr>),
      s_thread := Some 0, running_threads := [0], running_threads_count := 1\<rparr>"

lemma less_two: "(i :: nat) < 2 \<longleftrightarrow> i = 0 \<or> i = 1"
  by auto

lemma sample_sched_ok: "sched_inv sample_sched" "parked sample_sched 1" "replay_free sample_sched"
proof -
  have f: "s_n sample_sched = 2" "s_kind sample_sched = sched_random" "running_threads sample_sched = [0]"
    "running_threads_count sample_sched = 1" "finished_thread_count sample_sched = 0" "timed_threads sample_sched = []"
    "spurious_threads sample_sched = []" "dynamic_threads sample_sched = []"
    "s_threads sample_sched i = (if i = 1 then (blank_sched_thread 1)\<lparr>block_count := 1, st_state := thread_blocked\<rparr>
                                 else blank_sched_thread i)" for i
    by (simp_all add: sample_sched_def sched_ctor_def)
  have p: "prio sample_sched y i = 0" for y i by (simp add: f blank_sched_thread_def)
  then have w: "waiters sample_sched i = {}" for i by (simp add: waiters_def)
  show "parked sample_sched 1" by (simp add: parked_def w f)
  show "replay_free sample_sched" by (simp add: replay_free_def f)
  have "score None sample_sched"
    by (rule scoreI) (auto simp: f p w less_two owed_def blank_sched_thread_def)
  then show "sched_inv sample_sched" by (simp add: sched_inv_def lists_ok_def f)
qed

end
