(* ===== verification/Waitable.thy ===== *)
theory Waitable
  imports Wait_Contract Plain_Var
begin

text \<open>
  The blocking objects of \<^verbatim>\<open>stdlib/semaphore.hpp\<close>, \<^verbatim>\<open>stdlib/event.hpp\<close>,
  \<^verbatim>\<open>stdlib/mutex.hpp\<close> and \<^verbatim>\<open>dyn_thread_ctx.hpp\<close>: their state and the
  waiting half of their operations, then \<open>wait_for_multiple_objects\<close>, and from these the code a
  woken fiber runs, \<open>wake\<close>. The signalling halves, which call \<open>wake\<close>, are in the theories
  that build on this one.

  Every operation of the repository starts with \<open>c.sched()\<close>; a definition here is the part after
  that call, unless its text says otherwise. A wait that parks returns \<open>None\<close>: control is with
  another fiber, and the operation goes on in its \<open>resume\<close> part.
\<close>

section \<open>State\<close>

record sema =
  sm_sign :: signature
  sm_spurious_wakeups :: bool
  sm_count :: u32
  sm_max_count :: u32
  sm_ws :: nat
  sm_sync :: vclock

record event =
  ev_sign :: signature
  ev_manual_reset :: bool
  ev_state :: bool
  ev_ws :: nat
  ev_sync :: vclock

record mutex =
  mx_sign :: signature
  mx_is_rw :: bool
  mx_is_exclusive_recursive :: bool
  mx_is_shared_recursive :: bool
  mx_failing_try_lock :: bool
  mx_sync :: vclock
  exclusive_owner :: int
  exclusive_recursion_count :: u32
  exclusive_waitset :: nat
  shared_waitset :: nat
  shared_owner :: "nat \<Rightarrow> timestamp"
  shared_lock_count :: u32
  try_lock_failed :: bool

record condvar =
  cv_ws :: nat
  cv_sign :: signature
  spurious_wakeup_limit :: int

text \<open>
  The objects a test declares (\<open>semaphore\<close>, \<open>generic_event\<close>, \<open>generic_mutex\<close>, \<open>condvar\<close>) hold
  a pointer to the implementation and a signature.
\<close>

record handle =
  hd_impl :: "nat option"
  hd_sign :: signature

text \<open>What a fiber is waiting in: the frame on its stack that \<open>park_current\<close> returns to.\<close>

datatype frame = F_sema nat bool | F_event nat | F_wfmo "waitable list" "nat list" bool

record world = ctx +
  w_semas :: "nat \<Rightarrow> sema"
  w_events :: "nat \<Rightarrow> event"
  w_mutexes :: "nat \<Rightarrow> mutex"
  w_condvars :: "nat \<Rightarrow> condvar"
  w_sema_handle :: "nat \<Rightarrow> handle"
  w_event_handle :: "nat \<Rightarrow> handle"
  w_mutex_handle :: "nat \<Rightarrow> handle"
  w_condvar_handle :: "nat \<Rightarrow> handle"
  w_frame :: "nat \<Rightarrow> frame option"

type_synonym user_fun = "world \<Rightarrow> fault + world"

definition sema_magic :: u32 where "sema_magic = 0xaabb6634"
definition event_magic :: u32 where "event_magic = 0xdada1234"
definition mutex_magic :: u32 where "mutex_magic = 0xbabaf1f1"
definition sema_handle_magic :: u32 where "sema_handle_magic = 0x228855dd"
definition event_handle_magic :: u32 where "event_handle_magic = 0x3390eeaa"
definition mutex_handle_magic :: u32 where "mutex_handle_magic = 0x6A6cB03A"
definition condvar_magic :: u32 where "condvar_magic = 0xc0ffe3ad"
definition condvar_handle_magic :: u32 where "condvar_handle_magic = 0xbadc0ffe"

definition int_max :: u32 where "int_max = 0x7fffffff"

definition upd_sema :: "nat \<Rightarrow> (sema \<Rightarrow> sema) \<Rightarrow> world \<Rightarrow> world" where
  "upd_sema a f w = w\<lparr>w_semas := (w_semas w)(a := f (w_semas w a))\<rparr>"

definition upd_event :: "nat \<Rightarrow> (event \<Rightarrow> event) \<Rightarrow> world \<Rightarrow> world" where
  "upd_event a f w = w\<lparr>w_events := (w_events w)(a := f (w_events w a))\<rparr>"

definition upd_mutex :: "nat \<Rightarrow> (mutex \<Rightarrow> mutex) \<Rightarrow> world \<Rightarrow> world" where
  "upd_mutex a f w = w\<lparr>w_mutexes := (w_mutexes w)(a := f (w_mutexes w a))\<rparr>"

definition set_frame :: "frame \<Rightarrow> world \<Rightarrow> world" where
  "set_frame f w = w\<lparr>w_frame := (w_frame w)(cur w := Some f)\<rparr>"

lemma calm_world [simp]:
  "calm t (w\<lparr>w_semas := x\<rparr>) = calm t w" "calm t (w\<lparr>w_events := y\<rparr>) = calm t w"
  "calm t (w\<lparr>w_mutexes := z\<rparr>) = calm t w" "calm t (w\<lparr>w_frame := f\<rparr>) = calm t w"
  "calm t (w\<lparr>w_condvars := v\<rparr>) = calm t w"
  by (simp_all add: calm_def waits_ok_def entry_ok_def cur_def)

text \<open>An operation of a \<open>sync_var\<close> by the current thread.\<close>

definition sync_clock ::
  "(nat \<Rightarrow> nat \<Rightarrow> vclock \<Rightarrow> vclock \<Rightarrow> vclock \<times> vclock) \<Rightarrow> vclock \<Rightarrow> 'a ctx_scheme \<Rightarrow> vclock" where
  "sync_clock op ord c = fst (op (cx_n c) (th_index (cur_thread c)) (acq_rel_order (cur_thread c)) ord)"

definition sync_order ::
  "(nat \<Rightarrow> nat \<Rightarrow> vclock \<Rightarrow> vclock \<Rightarrow> vclock \<times> vclock) \<Rightarrow> vclock \<Rightarrow> 'a ctx_scheme \<Rightarrow> vclock" where
  "sync_order op ord c = snd (op (cx_n c) (th_index (cur_thread c)) (acq_rel_order (cur_thread c)) ord)"

definition set_clock :: "vclock \<Rightarrow> 'a ctx_scheme \<Rightarrow> 'a ctx_scheme" where
  "set_clock clk c = upd_cur (\<lambda>t. t\<lparr>acq_rel_order := clk\<rparr>) c"

lemma calm_clock [simp]: "calm t (set_clock clk w) = calm t w"
  by (auto simp: calm_def set_clock_def upd_cur_def upd_th_def waits_ok_def entry_ok_def cur_def)

section \<open>Semaphores: waiting\<close>

definition sema_ctor :: "bool \<Rightarrow> u32 \<Rightarrow> u32 \<Rightarrow> nat \<Rightarrow> world \<Rightarrow> fault + world" where
  "sema_ctor spurious_wakeups initial_count max_count a w =
     rl_verify (max_count \<le> int_max)
       (Inr ((upd_sema a (\<lambda>_. \<lparr>sm_sign = signature_ctor sema_magic (of_nat a),
                sm_spurious_wakeups = spurious_wakeups, sm_count = initial_count, sm_max_count = max_count,
                sm_ws = a, sm_sync = (\<lambda>_. 0)\<rparr>) w)
             \<lparr>waitsets := (waitsets w)(a := [])\<rparr>))"

text \<open>The destructor: that of the signature clears the mark of a live object.\<close>

definition sema_dtor :: "nat \<Rightarrow> world \<Rightarrow> fault + world" where
  "sema_dtor a w =
     rbind (signature_dtor sema_magic (sm_sign (w_semas w a))) (\<lambda>s. Inr (upd_sema a (\<lambda>m. m\<lparr>sm_sign := s\<rparr>) w))"

definition sema_sync ::
  "(nat \<Rightarrow> nat \<Rightarrow> vclock \<Rightarrow> vclock \<Rightarrow> vclock \<times> vclock) \<Rightarrow> nat \<Rightarrow> world \<Rightarrow> world" where
  "sema_sync op a w =
     (let ord = sm_sync (w_semas w a)
      in set_clock (sync_clock op ord w) (upd_sema a (\<lambda>m. m\<lparr>sm_sync := sync_order op ord w\<rparr>) w))"

text \<open>\<open>count_ -= 1; sync_.acq_rel(c.threadx_)\<close>.\<close>

definition sema_take :: "nat \<Rightarrow> world \<Rightarrow> world" where
  "sema_take a w = sema_sync sync_acq_rel a (upd_sema a (\<lambda>m. m\<lparr>sm_count := sm_count m - 1\<rparr>) w)"

definition sema_wait :: "user_fun \<Rightarrow> nat \<Rightarrow> bool \<Rightarrow> bool \<Rightarrow> world \<Rightarrow> fault + (wakeup_reason option \<times> world)" where
  "sema_wait user_inv a try_wait is_timed w =
     rbind (signature_check sema_magic (sm_sign (w_semas w a))) (\<lambda>_.
       if sm_count (w_semas w a) \<noteq> 0 then Inr (Some wakeup_success, sema_take a w)
       else if try_wait then Inr (Some wakeup_failed, sema_sync sync_acquire a w)
       else rbind (park_current user_inv (sm_ws (w_semas w a)) is_timed (sm_spurious_wakeups (w_semas w a)) True
                     (set_frame (F_sema a is_timed) w)) (\<lambda>w. Inr (None, w)))"

text \<open>
  From the return of \<open>park_current\<close>. After a normal wake-up the fiber switches back to the one that
  woke it (\<open>None\<close>) and returns success when it runs again (\<open>wait_done\<close>).
\<close>

definition sema_wait_resume :: "nat \<Rightarrow> bool \<Rightarrow> world \<Rightarrow> fault + (wakeup_reason option \<times> world)" where
  "sema_wait_resume a is_timed w =
     rbind (park_current_end (sm_ws (w_semas w a)) w) (\<lambda>(wr, w).
       case wr of
         unpark_timeout \<Rightarrow> rl_verify is_timed (Inr (Some wakeup_timeout, sema_sync sync_acquire a w))
       | unpark_spurious \<Rightarrow> rl_verify (sm_spurious_wakeups (w_semas w a))
                             (Inr (Some wakeup_spurious, sema_sync sync_acquire a w))
       | unpark_normal \<Rightarrow> rl_verify (sm_count (w_semas w a) > 0)
                           (rbind (switch_back (sema_take a w)) (\<lambda>w. Inr (None, w))))"

definition wait_done :: "world \<Rightarrow> fault + (wakeup_reason option \<times> world)" where
  "wait_done w = rbind (switch_back_end w) (\<lambda>w. Inr (Some wakeup_success, w))"

definition sema_is_signaled :: "nat \<Rightarrow> world \<Rightarrow> bool" where
  "sema_is_signaled a w = (sm_count (w_semas w a) > 0)"

definition sema_memory_acquire :: "nat \<Rightarrow> world \<Rightarrow> world" where
  "sema_memory_acquire a w = sema_sync sync_acquire a w"

definition sema_prepare_wait :: "nat \<Rightarrow> world \<Rightarrow> nat" where
  "sema_prepare_wait a w = sm_ws (w_semas w a)"

section \<open>Events: waiting\<close>

definition event_ctor :: "bool \<Rightarrow> bool \<Rightarrow> nat \<Rightarrow> world \<Rightarrow> world" where
  "event_ctor manual_reset initial_state a w =
     (upd_event a (\<lambda>_. \<lparr>ev_sign = signature_ctor event_magic (of_nat a), ev_manual_reset = manual_reset,
                        ev_state = initial_state, ev_ws = a, ev_sync = (\<lambda>_. 0)\<rparr>) w)
     \<lparr>waitsets := (waitsets w)(a := [])\<rparr>"

definition event_dtor :: "nat \<Rightarrow> world \<Rightarrow> fault + world" where
  "event_dtor a w =
     rbind (signature_dtor event_magic (ev_sign (w_events w a))) (\<lambda>s. Inr (upd_event a (\<lambda>m. m\<lparr>ev_sign := s\<rparr>) w))"

definition event_sync ::
  "(nat \<Rightarrow> nat \<Rightarrow> vclock \<Rightarrow> vclock \<Rightarrow> vclock \<times> vclock) \<Rightarrow> nat \<Rightarrow> world \<Rightarrow> world" where
  "event_sync op a w =
     (let ord = ev_sync (w_events w a)
      in set_clock (sync_clock op ord w) (upd_event a (\<lambda>m. m\<lparr>ev_sync := sync_order op ord w\<rparr>) w))"

definition event_take :: "nat \<Rightarrow> world \<Rightarrow> world" where
  "event_take a w =
     (if ev_manual_reset (w_events w a) then event_sync sync_acquire a w
      else event_sync sync_acq_rel a (upd_event a (\<lambda>m. m\<lparr>ev_state := False\<rparr>) w))"

definition event_wait :: "user_fun \<Rightarrow> nat \<Rightarrow> bool \<Rightarrow> bool \<Rightarrow> world \<Rightarrow> fault + (wakeup_reason option \<times> world)" where
  "event_wait user_inv a try_wait is_timed w =
     rbind (signature_check event_magic (ev_sign (w_events w a))) (\<lambda>_.
       if ev_state (w_events w a) then Inr (Some wakeup_success, event_take a w)
       else if try_wait then Inr (Some wakeup_failed, event_sync sync_acquire a w)
       else rbind (park_current user_inv (ev_ws (w_events w a)) is_timed False True
                     (set_frame (F_event a) w)) (\<lambda>w. Inr (None, w)))"

definition event_wait_resume :: "nat \<Rightarrow> world \<Rightarrow> fault + (wakeup_reason option \<times> world)" where
  "event_wait_resume a w =
     rbind (park_current_end (ev_ws (w_events w a)) w) (\<lambda>(wr, w).
       case wr of
         unpark_timeout \<Rightarrow> Inr (Some wakeup_timeout, event_sync sync_acquire a w)
       | unpark_normal \<Rightarrow> rl_verify (ev_state (w_events w a) = True)
                           (rbind (switch_back (event_take a w)) (\<lambda>w. Inr (None, w)))
       | unpark_spurious \<Rightarrow> Inl Verify_failed)"

definition event_is_signaled :: "nat \<Rightarrow> world \<Rightarrow> bool" where
  "event_is_signaled a w = ev_state (w_events w a)"

definition event_memory_acquire :: "nat \<Rightarrow> world \<Rightarrow> world" where
  "event_memory_acquire a w = event_sync sync_acquire a w"

definition event_prepare_wait :: "nat \<Rightarrow> world \<Rightarrow> nat" where
  "event_prepare_wait a w = ev_ws (w_events w a)"

section \<open>Mutexes: locking\<close>

definition state_shared :: int where "state_shared = -1"
definition state_free :: int where "state_free = -2"

definition mutex_ctor :: "bool \<Rightarrow> bool \<Rightarrow> bool \<Rightarrow> bool \<Rightarrow> nat \<Rightarrow> world \<Rightarrow> fault + world" where
  "mutex_ctor is_rw is_exclusive_recursive is_shared_recursive failing_try_lock a w =
     rl_verify (\<not> invariant_executing w)
       (Inr ((upd_mutex a (\<lambda>_. \<lparr>mx_sign = signature_ctor mutex_magic (of_nat a), mx_is_rw = is_rw,
                mx_is_exclusive_recursive = is_exclusive_recursive, mx_is_shared_recursive = is_shared_recursive,
                mx_failing_try_lock = failing_try_lock, mx_sync = (\<lambda>_. 0), exclusive_owner = state_free,
                exclusive_recursion_count = 0, exclusive_waitset = a, shared_waitset = a + 1,
                shared_owner = (\<lambda>_. 0), shared_lock_count = 0, try_lock_failed = False\<rparr>) w)
             \<lparr>waitsets := (waitsets w)(a := [], a + 1 := [])\<rparr>))"

definition mutex_dtor :: "nat \<Rightarrow> world \<Rightarrow> fault + world" where
  "mutex_dtor a w =
     rl_verify (\<not> invariant_executing w)
       (let m = w_mutexes w a
        in if exclusive_owner m \<noteq> state_free \<or> waitsets w (exclusive_waitset m) \<noteq> [] \<or> waitsets w (shared_waitset m) \<noteq> []
           then fail_test result_destroying_owned_mutex w
           else rbind (signature_dtor mutex_magic (mx_sign m)) (\<lambda>s. Inr (upd_mutex a (\<lambda>m. m\<lparr>mx_sign := s\<rparr>) w)))"

definition mutex_sync ::
  "(nat \<Rightarrow> nat \<Rightarrow> vclock \<Rightarrow> vclock \<Rightarrow> vclock \<times> vclock) \<Rightarrow> nat \<Rightarrow> world \<Rightarrow> world" where
  "mutex_sync op a w =
     (let ord = mx_sync (w_mutexes w a)
      in set_clock (sync_clock op ord w) (upd_mutex a (\<lambda>m. m\<lparr>mx_sync := sync_order op ord w\<rparr>) w))"

definition my_id :: "world \<Rightarrow> int" where
  "my_id w = int (th_index (cur_thread w))"

definition shares :: "nat \<Rightarrow> world \<Rightarrow> bool" where
  "shares a w \<longleftrightarrow> exclusive_owner (w_mutexes w a) = state_shared \<and> shared_owner (w_mutexes w a) (th_index (cur_thread w)) \<noteq> 0"

text \<open>The signature check and the assertion at the head of every operation of a mutex.\<close>

definition mutex_enter :: "nat \<Rightarrow> world \<Rightarrow> fault + 'b \<Rightarrow> fault + 'b" where
  "mutex_enter a w k =
     rbind (signature_check mutex_magic (mx_sign (w_mutexes w a))) (\<lambda>_. rl_verify (\<not> invariant_executing w) k)"

text \<open>The checks of the two exclusive locks: upgrading, then recursion.\<close>

definition lock_checks :: "nat \<Rightarrow> world \<Rightarrow> fault + (bool option \<times> world) \<Rightarrow> fault + (bool option \<times> world)" where
  "lock_checks a w k =
     (if shares a w then fail_test result_mutex_read_to_write_upgrade w
      else if exclusive_owner (w_mutexes w a) = my_id w
      then if mx_is_exclusive_recursive (w_mutexes w a)
           then Inr (Some True, upd_mutex a (\<lambda>m. m\<lparr>exclusive_recursion_count := exclusive_recursion_count m + 1\<rparr>) w)
           else fail_test result_recursion_on_nonrecursive_mutex w
      else k)"

text \<open>Taking the free mutex.\<close>

definition own_exclusive :: "nat \<Rightarrow> world \<Rightarrow> world" where
  "own_exclusive a w =
     upd_mutex a (\<lambda>m. m\<lparr>exclusive_recursion_count := 1, exclusive_owner := my_id w\<rparr>) (mutex_sync sync_acquire a w)"

text \<open>One round of the loop of \<open>lock_exclusive\<close>.\<close>

definition lock_exclusive_round :: "user_fun \<Rightarrow> nat \<Rightarrow> bool \<Rightarrow> world \<Rightarrow> fault + (bool option \<times> world)" where
  "lock_exclusive_round user_inv a is_timed w =
     (let m = w_mutexes w a
      in if exclusive_owner m = state_free
         then rl_verify (exclusive_recursion_count m = 0) (Inr (Some True, own_exclusive a w))
         else rl_verify (my_id w \<noteq> exclusive_owner m)
                (rbind (park_current user_inv (exclusive_waitset m) is_timed False False w) (\<lambda>w. Inr (None, w))))"

definition lock_exclusive :: "user_fun \<Rightarrow> nat \<Rightarrow> bool \<Rightarrow> world \<Rightarrow> fault + (bool option \<times> world)" where
  "lock_exclusive user_inv a is_timed w =
     mutex_enter a w (lock_checks a w (lock_exclusive_round user_inv a is_timed w))"

definition lock_exclusive_resume :: "user_fun \<Rightarrow> nat \<Rightarrow> bool \<Rightarrow> world \<Rightarrow> fault + (bool option \<times> world)" where
  "lock_exclusive_resume user_inv a is_timed w =
     rbind (park_current_end (exclusive_waitset (w_mutexes w a)) w) (\<lambda>(reason, w).
       rl_verify (reason \<noteq> unpark_spurious)
         (if reason = unpark_timeout then Inr (Some False, mutex_sync sync_acquire a w)
          else lock_exclusive_round user_inv a is_timed w))"

text \<open>Does a try-lock that could succeed fail spuriously? It does so at most once per mutex.\<close>

definition try_lock_fails :: "nat \<Rightarrow> world \<Rightarrow> fault + (bool \<times> world)" where
  "try_lock_fails a w =
     (if mx_failing_try_lock (w_mutexes w a) \<and> \<not> try_lock_failed (w_mutexes w a)
      then rbind (ctx_rand 2 sched_type_user w) (\<lambda>(r, w).
             Inr (r \<noteq> 0, if r \<noteq> 0 then upd_mutex a (\<lambda>m. m\<lparr>try_lock_failed := True\<rparr>) w else w))
      else Inr (False, w))"

definition try_lock_exclusive :: "nat \<Rightarrow> world \<Rightarrow> fault + (bool option \<times> world)" where
  "try_lock_exclusive a w =
     mutex_enter a w (lock_checks a w
       (if exclusive_owner (w_mutexes w a) = state_free
        then rl_verify (exclusive_recursion_count (w_mutexes w a) = 0)
               (rbind (try_lock_fails a w) (\<lambda>(failed, w).
                  if failed then Inr (Some False, w) else Inr (Some True, own_exclusive a w)))
        else rl_verify (my_id w \<noteq> exclusive_owner (w_mutexes w a)) (Inr (Some False, w))))"

definition mutex_is_signaled :: "nat \<Rightarrow> world \<Rightarrow> bool" where
  "mutex_is_signaled a w = (exclusive_owner (w_mutexes w a) = state_free)"

definition mutex_memory_acquire :: "nat \<Rightarrow> world \<Rightarrow> world" where
  "mutex_memory_acquire a w = mutex_sync sync_acquire a w"

definition mutex_prepare_wait :: "nat \<Rightarrow> world \<Rightarrow> nat" where
  "mutex_prepare_wait a w = exclusive_waitset (w_mutexes w a)"


section \<open>A sample\<close>

text \<open>
  Two threads and no objects: thread 0 runs, thread 1 is parked and has asked to be switched to.
  The witnesses of the objects' properties put their objects into it.
\<close>

definition sample_thread :: "nat \<Rightarrow> thread_info" where
  "sample_thread i = \<lparr>th_index = i, acq_rel_order = (\<lambda>_. 0), acquire_fence_order = (\<lambda>_. 0), release_fence_order = (\<lambda>_. 0),
     last_yield = 0, th_unpark_reason = unpark_normal, temp_switch_from = -1, saved_disable_preemption = -1, th_errno = 0,
     dynamic_thread_func = None, dynamic_thread_param = 0, so_finished = False, so_ws = 4 * i, so_sync = (\<lambda>_. 0),
     park_dp = 0, park_switch = True\<rparr>"

definition parked_sample :: world where
  "parked_sample = \<lparr>cx_n = 2, cx_static = 2, cx_params = default_params, cx_sched = sample_sched,
     cx_threads = sample_thread, threadx = Some 0, seq_cst_fence_order = (\<lambda>_. 0), disable_preempt = 0,
     special_function_executing = False, invariant_executing = False, sched_count = 0, first_thread = False,
     suite_constructed = True, waitsets = (\<lambda>_. []), cx_memory = memory_ctor, cx_slabs = (\<lambda>_. slab_ctor),
     disable_alloc = 0, prev_alloc_size = 0, hash_map = Map.empty, hash_seq = 0, tls_entries = [],
     w_semas = undefined, w_events = undefined, w_mutexes = undefined,
     w_condvars = undefined, w_sema_handle = undefined, w_event_handle = undefined, w_mutex_handle = undefined,
     w_condvar_handle = undefined, w_frame = (\<lambda>_. None)\<rparr>"

lemma parked_sample_calm:
  assumes "d_th d = 1" "d_ws d = None"
  shows "calm 0 (parked_sample\<lparr>waitsets := (\<lambda>_. [])(a := [d])\<rparr>)"
proof -
  have "dynamic_threads sample_sched = []" "s_n sample_sched = 2"
    by (simp_all add: sample_sched_def sched_ctor_def)
  then show ?thesis using sample_sched_ok assms
    by (auto simp: calm_def parked_sample_def sample_thread_def waits_ok_def entry_ok_def cur_def)
qed

end
