(* ===== verification/Wfmo.thy ===== *)
theory Wfmo
  imports Waitable
begin

text \<open>
  The interface \<open>win_waitable_object\<close> of \<^verbatim>\<open>stdlib/semaphore.hpp\<close> on the four kinds of
  objects that implement it, \<open>wait_for_multiple_objects\<close> over that interface, and \<open>wake\<close>: what
  a fiber runs between being woken and switching back.
\<close>

section \<open>Threads as objects\<close>

definition thread_sync ::
  "(nat \<Rightarrow> nat \<Rightarrow> vclock \<Rightarrow> vclock \<Rightarrow> vclock \<times> vclock) \<Rightarrow> nat \<Rightarrow> world \<Rightarrow> world" where
  "thread_sync op t w =
     (let ord = so_sync (cx_threads w t)
      in set_clock (sync_clock op ord w) (upd_th t (\<lambda>x. x\<lparr>so_sync := sync_order op ord w\<rparr>) w))"

text \<open>No \<open>sched()\<close> comes first here.\<close>

definition thread_wait :: "user_fun \<Rightarrow> nat \<Rightarrow> bool \<Rightarrow> bool \<Rightarrow> world \<Rightarrow> fault + (wakeup_reason option \<times> world)" where
  "thread_wait user_inv t try_wait is_timed w =
     (if so_finished (cx_threads w t) then Inr (Some wakeup_success, thread_sync sync_acquire t w)
      else if try_wait then Inr (Some wakeup_failed, thread_sync sync_acquire t w)
      else rbind (park_current user_inv (so_ws (cx_threads w t)) is_timed False False w) (\<lambda>w. Inr (None, w)))"

definition thread_wait_resume :: "nat \<Rightarrow> world \<Rightarrow> fault + (wakeup_reason option \<times> world)" where
  "thread_wait_resume t w =
     rbind (park_current_end (so_ws (cx_threads w t)) w) (\<lambda>(reason, w).
       let w = thread_sync sync_acquire t w
       in case reason of
            unpark_normal \<Rightarrow> Inr (Some wakeup_success, w)
          | unpark_timeout \<Rightarrow> Inr (Some wakeup_timeout, w)
          | unpark_spurious \<Rightarrow> Inl Verify_failed)"

definition thread_signal :: "nat \<Rightarrow> world \<Rightarrow> fault + (bool \<times> world)" where
  "thread_signal t w = fail_test result_thread_signal w"

text \<open>
  \<open>test_result_str\<close> has no text for this result, so that the report of the misuse is itself an
  internal assertion.
\<close>

lemma thread_signal_asserts: "thread_signal t w = Inl Verify_failed"
  by (simp add: thread_signal_def fail_test_def)

section \<open>The interface\<close>

definition sema_check :: "nat \<Rightarrow> world \<Rightarrow> fault + nat" where
  "sema_check h w =
     (case hd_impl (w_sema_handle w h) of
        None \<Rightarrow> fail_test result_usage_of_non_initialized_semaphore w
      | Some a \<Rightarrow> rbind (signature_check sema_handle_magic (hd_sign (w_sema_handle w h))) (\<lambda>_. Inr a))"

definition event_check :: "nat \<Rightarrow> world \<Rightarrow> fault + nat" where
  "event_check h w =
     (case hd_impl (w_event_handle w h) of
        None \<Rightarrow> fail_test result_usage_of_non_initialized_event w
      | Some a \<Rightarrow> rbind (signature_check event_handle_magic (hd_sign (w_event_handle w h))) (\<lambda>_. Inr a))"

definition mutex_check :: "nat \<Rightarrow> world \<Rightarrow> fault + nat" where
  "mutex_check h w =
     (case hd_impl (w_mutex_handle w h) of
        None \<Rightarrow> fail_test result_usage_of_non_initialized_mutex w
      | Some a \<Rightarrow> rbind (signature_check mutex_handle_magic (hd_sign (w_mutex_handle w h))) (\<lambda>_. Inr a))"

definition lock_reason :: "wakeup_reason \<Rightarrow> fault + (bool option \<times> world) \<Rightarrow> fault + (wakeup_reason option \<times> world)" where
  "lock_reason no r =
     rbind r (\<lambda>(b, w). Inr (map_option (\<lambda>b. if b then wakeup_success else no) b, w))"

text \<open>
  \<open>wait(true, false)\<close> as \<open>wait_for_multiple_objects\<close> calls it, with preemption disabled, so that
  the \<open>sched()\<close> at the head only counts.
\<close>

fun wo_try_wait :: "user_fun \<Rightarrow> waitable \<Rightarrow> world \<Rightarrow> fault + (wakeup_reason option \<times> world)" where
  "wo_try_wait user_inv (W_sema h) w =
     rbind (sema_check h w) (\<lambda>a. rbind (ctx_sched user_inv w) (\<lambda>w. sema_wait user_inv a True False w))"
| "wo_try_wait user_inv (W_event h) w =
     rbind (event_check h w) (\<lambda>a. rbind (ctx_sched user_inv w) (\<lambda>w. event_wait user_inv a True False w))"
| "wo_try_wait user_inv (W_mutex h) w =
     rbind (mutex_check h w) (\<lambda>a. rbind (ctx_sched user_inv w) (\<lambda>w.
       lock_reason wakeup_failed (try_lock_exclusive a w)))"
| "wo_try_wait user_inv (W_thread t) w = thread_wait user_inv t True False w"

fun wo_is_signaled :: "waitable \<Rightarrow> world \<Rightarrow> fault + bool" where
  "wo_is_signaled (W_sema h) w = rbind (sema_check h w) (\<lambda>a. Inr (sema_is_signaled a w))"
| "wo_is_signaled (W_event h) w = rbind (event_check h w) (\<lambda>a. Inr (event_is_signaled a w))"
| "wo_is_signaled (W_mutex h) w = rbind (mutex_check h w) (\<lambda>a. Inr (mutex_is_signaled a w))"
| "wo_is_signaled (W_thread t) w = Inr (so_finished (cx_threads w t))"

fun wo_memory_acquire :: "waitable \<Rightarrow> world \<Rightarrow> fault + world" where
  "wo_memory_acquire (W_sema h) w = rbind (sema_check h w) (\<lambda>a. Inr (sema_memory_acquire a w))"
| "wo_memory_acquire (W_event h) w = rbind (event_check h w) (\<lambda>a. Inr (event_memory_acquire a w))"
| "wo_memory_acquire (W_mutex h) w = rbind (mutex_check h w) (\<lambda>a. Inr (mutex_memory_acquire a w))"
| "wo_memory_acquire (W_thread t) w = Inr (thread_sync sync_acquire t w)"

fun wo_prepare_wait :: "waitable \<Rightarrow> world \<Rightarrow> fault + nat" where
  "wo_prepare_wait (W_sema h) w = rbind (sema_check h w) (\<lambda>a. Inr (sema_prepare_wait a w))"
| "wo_prepare_wait (W_event h) w = rbind (event_check h w) (\<lambda>a. Inr (event_prepare_wait a w))"
| "wo_prepare_wait (W_mutex h) w = rbind (mutex_check h w) (\<lambda>a. Inr (mutex_prepare_wait a w))"
| "wo_prepare_wait (W_thread t) w = Inr (so_ws (cx_threads w t))"

section \<open>Waiting for several objects\<close>

definition wfmo_max_objects :: nat where
  "wfmo_max_objects = 32"

text \<open>The first signaled object, or the number of objects.\<close>

fun first_signaled :: "waitable list \<Rightarrow> world \<Rightarrow> fault + nat" where
  "first_signaled [] w = Inr 0"
| "first_signaled (o1 # os) w =
     rbind (wo_is_signaled o1 w) (\<lambda>b. if b then Inr 0 else rbind (first_signaled os w) (\<lambda>i. Inr (Suc i)))"

definition take_one :: "user_fun \<Rightarrow> waitable \<Rightarrow> world \<Rightarrow> fault + world" where
  "take_one user_inv o1 w =
     rbind (wo_try_wait user_inv o1 w) (\<lambda>(r, w). rl_verify (r = Some wakeup_success) (Inr w))"

text \<open>The loop over all objects; a woken fiber also asserts that each is signaled.\<close>

definition take_all :: "user_fun \<Rightarrow> bool \<Rightarrow> waitable list \<Rightarrow> world \<Rightarrow> fault + world" where
  "take_all user_inv after_wake wo w =
     rfold (\<lambda>o1 w. rbind (if after_wake then wo_is_signaled o1 w else Inr True) (\<lambda>b.
       rl_verify b (take_one user_inv o1 w))) wo w"

definition no_preempt :: "(world \<Rightarrow> fault + world) \<Rightarrow> world \<Rightarrow> fault + world" where
  "no_preempt f w =
     rbind (with_preemption_disabled (\<lambda>w. rbind (f w) (\<lambda>w. Inr ((), w))) w) (\<lambda>(_, w). Inr w)"

definition wfmo_acquire :: "waitable list \<Rightarrow> world \<Rightarrow> fault + world" where
  "wfmo_acquire wo w = rfold wo_memory_acquire wo w"

fun prepare_waits :: "waitable list \<Rightarrow> world \<Rightarrow> fault + nat list" where
  "prepare_waits [] w = Inr []"
| "prepare_waits (o1 # os) w = rbind (wo_prepare_wait o1 w) (\<lambda>a. rbind (prepare_waits os w) (\<lambda>as. Inr (a # as)))"

text \<open>A failed try: acquire from every object and report a timeout. Otherwise park on all of them.\<close>

definition wfmo_block ::
  "user_fun \<Rightarrow> waitable list \<Rightarrow> bool \<Rightarrow> bool \<Rightarrow> bool \<Rightarrow> world \<Rightarrow> fault + ((wakeup_reason \<times> nat) option \<times> world)" where
  "wfmo_block user_inv wo wait_all try_wait is_timed w =
     (if try_wait then rbind (wfmo_acquire wo w) (\<lambda>w. Inr (Some (wakeup_timeout, 0), w))
      else rbind (prepare_waits wo w) (\<lambda>ws.
           rbind (park_current_many user_inv ws wo wait_all is_timed True (set_frame (F_wfmo wo ws wait_all) w)) (\<lambda>w.
             Inr (None, w))))"

definition wait_for_multiple_objects ::
  "user_fun \<Rightarrow> waitable list \<Rightarrow> bool \<Rightarrow> bool \<Rightarrow> bool \<Rightarrow> world \<Rightarrow> fault + ((wakeup_reason \<times> nat) option \<times> world)" where
  "wait_for_multiple_objects user_inv wo wait_all try_wait is_timed w =
     rl_verify (length wo \<le> wfmo_max_objects)
       (if wait_all
        then rbind (all_signaled wo_is_signaled wo w) (\<lambda>ready.
               if ready
               then rbind (no_preempt (take_all user_inv False wo) w) (\<lambda>w. Inr (Some (wakeup_success, 0), w))
               else wfmo_block user_inv wo wait_all try_wait is_timed w)
        else rbind (first_signaled wo w) (\<lambda>i.
               if i \<noteq> length wo
               then rbind (no_preempt (take_one user_inv (wo ! i)) w) (\<lambda>w. Inr (Some (wakeup_success, i), w))
               else wfmo_block user_inv wo wait_all try_wait is_timed w))"

text \<open>
  From the return of \<open>wfmo_park\<close>. A woken fiber takes what it waited for and switches back; the
  number is the index \<open>signaled\<close> it will return.
\<close>

definition wfmo_resume ::
  "user_fun \<Rightarrow> waitable list \<Rightarrow> nat list \<Rightarrow> bool \<Rightarrow> world \<Rightarrow> fault + ((wakeup_reason \<times> nat) option \<times> nat \<times> world)" where
  "wfmo_resume user_inv wo ws wait_all w =
     rbind (park_current_many_end ws w) (\<lambda>(reason, w).
       case reason of
         unpark_spurious \<Rightarrow> Inl Verify_failed
       | unpark_timeout \<Rightarrow> rbind (wfmo_acquire wo w) (\<lambda>w. Inr (Some (wakeup_timeout, 0), 0, w))
       | unpark_normal \<Rightarrow>
           if wait_all
           then rbind (no_preempt (take_all user_inv True wo) w) (\<lambda>w.
                rbind (switch_back w) (\<lambda>w. Inr (None, 0, w)))
           else rbind (first_signaled wo w) (\<lambda>i. rl_verify (i \<noteq> length wo)
                (rbind (no_preempt (take_one user_inv (wo ! i)) w) (\<lambda>w.
                 rbind (switch_back w) (\<lambda>w. Inr (None, i, w))))))"

section \<open>Waking\<close>

text \<open>
  The code \<open>unpark_thread(th, true)\<close> switches to: the rest of the wait the fiber is in, up to its
  \<open>switch_back\<close>. Waits that do not ask for the switch are not in this table.
\<close>

definition wake :: "user_fun \<Rightarrow> nat \<Rightarrow> world \<Rightarrow> fault + world" where
  "wake user_inv th w =
     (case w_frame w th of
        Some (F_sema a is_timed) \<Rightarrow> rbind (sema_wait_resume a is_timed w) (\<lambda>(_, w). Inr w)
      | Some (F_event a) \<Rightarrow> rbind (event_wait_resume a w) (\<lambda>(_, w). Inr w)
      | Some (F_wfmo wo ws wait_all) \<Rightarrow> rbind (wfmo_resume user_inv wo ws wait_all w) (\<lambda>(_, _, w). Inr w)
      | None \<Rightarrow> Inl Verify_failed)"

abbreviation wake_one :: "user_fun \<Rightarrow> nat \<Rightarrow> world \<Rightarrow> fault + (bool \<times> world)" where
  "wake_one user_inv \<equiv> unpark_one wo_is_signaled (wake user_inv)"

abbreviation wake_all :: "user_fun \<Rightarrow> nat \<Rightarrow> world \<Rightarrow> fault + (nat \<times> world)" where
  "wake_all user_inv \<equiv> unpark_all wo_is_signaled (wake user_inv)"

end
