(* ===== verification/Semaphore.thy ===== *)
theory Semaphore
  imports Wfmo
begin

text \<open>
  Semaphores, \<open>sema_data_impl\<close> and \<open>semaphore\<close> of \<^verbatim>\<open>stdlib/semaphore.hpp\<close>: the
  signalling half, the declared object, and what a post does to the waiting threads.
\<close>

section \<open>Posting\<close>

text \<open>The loop of \<open>post\<close>: at most \<open>count\<close> threads are woken, fewer when the set runs empty.\<close>

fun sema_wake_loop :: "user_fun \<Rightarrow> nat \<Rightarrow> nat \<Rightarrow> nat \<Rightarrow> world \<Rightarrow> fault + (nat \<times> world)" where
  "sema_wake_loop user_inv a 0 unblocked w = Inr (unblocked, w)"
| "sema_wake_loop user_inv a (Suc k) unblocked w =
     rbind (wake_one user_inv (sm_ws (w_semas w a)) w) (\<lambda>(ok, w).
       if \<not> ok then Inr (unblocked, w) else sema_wake_loop user_inv a k (unblocked + 1) w)"

text \<open>The result: did it post, the count before, the number of threads woken.\<close>

definition sema_post :: "user_fun \<Rightarrow> nat \<Rightarrow> u32 \<Rightarrow> world \<Rightarrow> fault + (bool \<times> u32 \<times> nat \<times> world)" where
  "sema_post user_inv a count w =
     rbind (signature_check sema_magic (sm_sign (w_semas w a))) (\<lambda>_.
       let prev_count = sm_count (w_semas w a)
       in if \<not> (count \<ge> int_max \<or> count + prev_count > sm_max_count (w_semas w a))
          then rbind (sema_wake_loop user_inv a (unat count) 0
                        (sema_sync sync_acq_rel a (upd_sema a (\<lambda>m. m\<lparr>sm_count := sm_count m + count\<rparr>) w)))
                 (\<lambda>(unblocked, w). Inr (True, prev_count, unblocked, w))
          else Inr (False, prev_count, 0, sema_sync sync_acquire a w))"

definition sema_get_value :: "nat \<Rightarrow> world \<Rightarrow> fault + (int \<times> world)" where
  "sema_get_value a w =
     rbind (signature_check sema_magic (sm_sign (w_semas w a))) (\<lambda>_.
       rl_verify (sm_count (w_semas w a) \<le> int_max)
         (Inr (sint (sm_count (w_semas w a)) - int (length (waitsets w (sm_ws (w_semas w a)))),
               sema_sync sync_acquire a w)))"

section \<open>The declared object\<close>

definition semaphore_init :: "nat \<Rightarrow> nat \<Rightarrow> nat \<Rightarrow> bool \<Rightarrow> u32 \<Rightarrow> u32 \<Rightarrow> world \<Rightarrow> fault + world" where
  "semaphore_init es sys h spurious_wakeups initial_count max_count w =
     (if hd_impl (w_sema_handle w h) \<noteq> None then fail_test result_double_initialization_of_semaphore w
      else rbind (signature_check sema_handle_magic (hd_sign (w_sema_handle w h))) (\<lambda>_.
           rbind (object_alloc es sys Slab_sema 0 w) (\<lambda>(a, w).
           rbind (sema_ctor spurious_wakeups initial_count max_count a w) (\<lambda>w.
             Inr (w\<lparr>w_sema_handle := (w_sema_handle w)(h := (w_sema_handle w h)\<lparr>hd_impl := Some a\<rparr>)\<rparr>)))))"

definition semaphore_deinit :: "nat \<Rightarrow> world \<Rightarrow> fault + world" where
  "semaphore_deinit h w =
     rbind (sema_check h w) (\<lambda>a. rbind (sema_dtor a w) (\<lambda>w.
       let w = object_free Slab_sema a w
       in Inr (w\<lparr>w_sema_handle := (w_sema_handle w)(h := (w_sema_handle w h)\<lparr>hd_impl := None\<rparr>)\<rparr>)))"

text \<open>
  The operations of the object check it and call the implementation, whose \<open>sched()\<close> hands control
  over; so the check is one piece and the implementation's part the next.
\<close>

definition semaphore_wait :: "user_fun \<Rightarrow> nat \<Rightarrow> world \<Rightarrow> fault + (nat \<times> world)" where
  "semaphore_wait user_inv h w = rbind (sema_check h w) (\<lambda>a. rbind (ctx_sched user_inv w) (\<lambda>w. Inr (a, w)))"

section \<open>The state of one semaphore\<close>

text \<open>Bounds of the counter, which is an \<open>unsigned\<close>: no operation wraps it.\<close>

definition count_ok :: "sema \<Rightarrow> bool" where
  "count_ok m \<longleftrightarrow> sm_count m \<le> sm_max_count m \<and> sm_max_count m \<le> int_max"

lemma post_no_wrap:
  assumes "count_ok m" "\<not> (count \<ge> int_max \<or> count + sm_count m > sm_max_count m)"
  shows "unat (sm_count m + count) = unat (sm_count m) + unat count"
    "count_ok (m\<lparr>sm_count := sm_count m + count\<rparr>)"
proof -
  have "unat (sm_count m) \<le> 2147483647" "unat count < 2147483647"
    using assms by (auto simp: count_ok_def int_max_def word_le_nat_alt word_less_nat_alt)
  then show "unat (sm_count m + count) = unat (sm_count m) + unat count"
    by (simp add: unat_word_ariths)
  show "count_ok (m\<lparr>sm_count := sm_count m + count\<rparr>)"
    using assms by (simp add: count_ok_def add.commute not_less)
qed

lemma take_no_wrap:
  assumes "count_ok m" "sm_count m \<noteq> 0"
  shows "unat (sm_count m - 1) = unat (sm_count m) - 1" "count_ok (m\<lparr>sm_count := sm_count m - 1\<rparr>)"
proof -
  have "sm_count m \<ge> 1" using assms(2) by (simp add: word_le_nat_alt unat_gt_0 Suc_le_eq)
  then show u: "unat (sm_count m - 1) = unat (sm_count m) - 1" by (simp add: unat_sub)
  have "sm_count m - 1 \<le> sm_count m" using u by (simp add: word_le_nat_alt)
  then show "count_ok (m\<lparr>sm_count := sm_count m - 1\<rparr>)"
    using assms(1) by (auto simp: count_ok_def intro: order_trans)
qed

section \<open>Waking the waiters\<close>

text \<open>Every waiter of the semaphore waits for it alone, in \<open>sema_wait\<close>.\<close>

definition sema_waiting :: "nat \<Rightarrow> world \<Rightarrow> bool" where
  "sema_waiting a w \<longleftrightarrow>
     (\<forall>d \<in> set (waitsets w (sm_ws (w_semas w a))). d_count d = 0 \<and> d_ws d = None \<and> d_do_switch d \<and>
        (\<exists>is_timed. w_frame w (d_th d) = Some (F_sema a is_timed)))"

lemma sema_served:
  assumes c: "calm t w" and w: "w_frame w th = Some (F_sema a is_timed)" and th: "th \<noteq> t" "\<not> parked (cx_sched w) th"
    and x: "saved_disable_preemption (cx_threads w th) = -1" "park_switch (cx_threads w th)"
      "sint (park_dp (cx_threads w th)) \<noteq> -1"
    and n: "sm_count (w_semas w a) \<noteq> 0"
  shows "\<exists>clk ord. wake user_inv th (woken_state th w) = Inr (w\<lparr>
     cx_threads := (cx_threads w)(th := (woken_thread t (cx_threads w th))\<lparr>acq_rel_order := clk, temp_switch_from := -1\<rparr>),
     w_semas := (w_semas w)(a := (w_semas w a)\<lparr>sm_count := sm_count (w_semas w a) - 1, sm_sync := ord\<rparr>)\<rparr>)"
proof -
  define w1 where "w1 = w\<lparr>cx_threads := (cx_threads w)(th := woken_thread t (cx_threads w th)), threadx := Some th\<rparr>"
  have f: "w_frame (woken_state th w) = w_frame w" "sm_ws (w_semas (woken_state th w) a) = sm_ws (w_semas w a)"
    by (simp_all add: woken_state_def switch_to_fiber_def upd_th_def)
  have pe: "park_current_end b (woken_state th w) = Inr (unpark_normal, w1)" for b
    using woken_park_end [OF c x(1,2) th(1)] by (simp add: w1_def)
  define w2 where "w2 = upd_sema a (\<lambda>m. m\<lparr>sm_count := sm_count m - 1\<rparr>) w1"
  define clk where "clk = sync_clock sync_acq_rel (sm_sync (w_semas w2 a)) w2"
  define ord where "ord = sync_order sync_acq_rel (sm_sync (w_semas w2 a)) w2"
  have st: "sema_take a w1 = w1\<lparr>
     cx_threads := (cx_threads w)(th := (woken_thread t (cx_threads w th))\<lparr>acq_rel_order := clk\<rparr>),
     w_semas := (w_semas w)(a := (w_semas w a)\<lparr>sm_count := sm_count (w_semas w a) - 1, sm_sync := ord\<rparr>)\<rparr>"
    unfolding sema_take_def sema_sync_def w2_def [symmetric] Let_def clk_def [symmetric] ord_def [symmetric]
    by (simp add: w2_def set_clock_def upd_sema_def upd_cur_def upd_th_def w1_def cur_def)
  have sb: "switch_back (sema_take a w1) = Inr (w\<lparr>
     cx_threads := (cx_threads w)(th := (woken_thread t (cx_threads w th))\<lparr>acq_rel_order := clk, temp_switch_from := -1\<rparr>),
     w_semas := (w_semas w)(a := (w_semas w a)\<lparr>sm_count := sm_count (w_semas w a) - 1, sm_sync := ord\<rparr>)\<rparr>)"
  proof -
    have "threadx w = Some t" using c by (simp add: calm_def)
    then show ?thesis unfolding st
      by (subst woken_switch_back [where t = t and x = "cx_threads w th" and clk = clk and th = th])
        (use x(3) in \<open>simp_all add: w1_def\<close>)
  qed
  have "sm_count (w_semas w1 a) > 0" using n by (simp add: w1_def word_gt_0)
  then show ?thesis using w sb by (auto simp: wake_def f sema_wait_resume_def pe)
qed


text \<open>
  What the wake-ups of one post keep: in particular the difference between the count and the
  number of waiters, since every wake-up takes one of each.
\<close>

definition sema_value :: "nat \<Rightarrow> world \<Rightarrow> int" where
  "sema_value a w = int (unat (sm_count (w_semas w a))) - int (length (waitsets w (sm_ws (w_semas w a))))"

definition sema_good :: "nat \<Rightarrow> nat \<Rightarrow> nat \<Rightarrow> u32 \<Rightarrow> int \<Rightarrow> world \<Rightarrow> bool" where
  "sema_good t a b mx v w \<longleftrightarrow>
     calm t w \<and> sm_ws (w_semas w a) = b \<and> sm_max_count (w_semas w a) = mx \<and> sema_waiting a w \<and>
     count_ok (w_semas w a) \<and> sema_value a w = v"

lemma sema_serve:
  assumes g: "sema_good t a b mx v w" and n: "sm_count (w_semas w a) \<noteq> 0" and i: "i < length (waitsets w b)"
  shows "\<exists>w'. try_remove wo_is_signaled (wake user_inv) b i w = Inr (True, w') \<and> sema_good t a b mx v w' \<and>
    waitsets w' b = drop_nth i (waitsets w b)"
proof -
  define d where "d = waitsets w b ! i"
  have c: "calm t w" and b: "sm_ws (w_semas w a) = b" using g by (auto simp: sema_good_def)
  have dm: "d \<in> set (waitsets w b)" using i by (simp add: d_def)
  then obtain is_timed where d: "d_count d = 0" "d_ws d = None" "d_do_switch d" "w_frame w (d_th d) = Some (F_sema a is_timed)"
    using g b by (auto simp: sema_good_def sema_waiting_def)
  have e: "entry_ok w d" using c dm by (auto simp: calm_def waits_ok_def)
  obtain s' where s': "calm t (w\<lparr>waitsets := (waitsets w)(b := drop_nth i (waitsets w b)), cx_sched := s'\<rparr>)"
    "\<not> parked s' (d_th d)"
    "try_remove wo_is_signaled (wake user_inv) b i w = rbind (wake user_inv (d_th d) (woken_state (d_th d)
        (w\<lparr>waitsets := (waitsets w)(b := drop_nth i (waitsets w b)), cx_sched := s'\<rparr>))) (\<lambda>c. Inr (True, c))"
    using try_remove_switch [OF c i d_def d(2,1,3)] by blast
  define w1 where "w1 = w\<lparr>waitsets := (waitsets w)(b := drop_nth i (waitsets w b)), cx_sched := s'\<rparr>"
  obtain clk ord where k: "wake user_inv (d_th d) (woken_state (d_th d) w1) = Inr (w1\<lparr>
     cx_threads := (cx_threads w1)(d_th d := (woken_thread t (cx_threads w1 (d_th d)))\<lparr>acq_rel_order := clk, temp_switch_from := -1\<rparr>),
     w_semas := (w_semas w1)(a := (w_semas w1 a)\<lparr>sm_count := sm_count (w_semas w1 a) - 1, sm_sync := ord\<rparr>)\<rparr>)"
    using sema_served [of t w1 "d_th d" a is_timed user_inv] s'(1,2) d(3,4) e n c
    by (auto simp: w1_def entry_ok_def calm_def cur_def)
  define w' where "w' = w1\<lparr>
     cx_threads := (cx_threads w1)(d_th d := (woken_thread t (cx_threads w1 (d_th d)))\<lparr>acq_rel_order := clk, temp_switch_from := -1\<rparr>),
     w_semas := (w_semas w1)(a := (w_semas w1 a)\<lparr>sm_count := sm_count (w_semas w1 a) - 1, sm_sync := ord\<rparr>)\<rparr>"
  have "calm t w1" using s'(1) by (simp add: w1_def)
  then have "calm t (w1\<lparr>cx_threads := (cx_threads w1)(d_th d := (woken_thread t (cx_threads w1 (d_th d)))
      \<lparr>acq_rel_order := clk, temp_switch_from := -1\<rparr>)\<rparr>)"
    by (rule calm_thread) (use s'(2) in \<open>simp_all add: w1_def woken_thread_def\<close>)
  then have cw: "calm t w'" by (simp add: w'_def)
  have tn: "unat (sm_count (w_semas w a) - 1) = unat (sm_count (w_semas w a)) - 1"
    "count_ok ((w_semas w a)\<lparr>sm_count := sm_count (w_semas w a) - 1\<rparr>)"
    using take_no_wrap [OF _ n] g by (auto simp: sema_good_def)
  have ws: "waitsets w' b = drop_nth i (waitsets w b)" "w_frame w' = w_frame w" by (simp_all add: w'_def w1_def)
  have sm: "w_semas w' a = (w_semas w a)\<lparr>sm_count := sm_count (w_semas w a) - 1, sm_sync := ord\<rparr>"
    by (simp add: w'_def w1_def)
  have n1: "unat (sm_count (w_semas w a)) \<noteq> 0" using n by (simp add: unat_eq_0)
  have "sema_value a w' = sema_value a w"
    using tn(1) n1 i by (simp add: sema_value_def sm b ws drop_nth_facts(2))
  moreover have "sema_waiting a w'"
    using g b drop_nth_facts(1) [of i "waitsets w b"] by (auto simp: sema_good_def sema_waiting_def sm ws)
  moreover have "count_ok (w_semas w' a)" using tn(2) by (simp add: sm count_ok_def)
  ultimately have "sema_good t a b mx v w'"
    using cw g by (simp add: sema_good_def sm)
  moreover have "try_remove wo_is_signaled (wake user_inv) b i w = Inr (True, w')"
    using s'(3) k by (simp add: w1_def [symmetric] w'_def)
  ultimately show ?thesis using ws(1) by blast
qed

lemma sema_draw:
  assumes g: "sema_good t a b mx v w" and l: "limit \<noteq> 0"
  shows "\<exists>r w'. ctx_rand limit sty w = Inr (r, w') \<and> r < limit \<and> sema_good t a b mx v w' \<and> waitsets w' = waitsets w \<and>
    (sm_count (w_semas w' a) \<noteq> 0) = (sm_count (w_semas w a) \<noteq> 0)"
proof -
  obtain r s' where "ctx_rand limit sty w = Inr (r, w\<lparr>cx_sched := s'\<rparr>)" "r < limit" "calm t (w\<lparr>cx_sched := s'\<rparr>)"
    using calm_rand [OF conjunct1 [OF g [unfolded sema_good_def]] l] by blast
  then show ?thesis using g by (auto simp: sema_good_def sema_waiting_def sema_value_def)
qed

interpretation sema_waiters: waker wo_is_signaled "wake user_inv" b "sema_good t a b mx v"
  "\<lambda>w. sm_count (w_semas w a) \<noteq> 0" for user_inv b t a mx v
  by unfold_locales (use sema_serve sema_draw in \<open>blast+\<close>)

lemma sema_wake_loop_served:
  "sema_good t a b mx v w \<Longrightarrow> k \<le> unat (sm_count (w_semas w a)) \<Longrightarrow>
    \<exists>w'. sema_wake_loop user_inv a k j w = Inr (j + min k (length (waitsets w b)), w') \<and> sema_good t a b mx v w' \<and>
      length (waitsets w' b) = length (waitsets w b) - k"
proof (induction k arbitrary: w j)
  case (Suc k)
  have n: "sm_count (w_semas w a) \<noteq> 0" using Suc.prems(2) by (auto simp: unat_eq_0 [symmetric])
  have b: "sm_ws (w_semas w a) = b" using Suc.prems(1) by (simp add: sema_good_def)
  obtain w1 where w1: "wake_one user_inv b w = Inr (waitsets w b \<noteq> [], w1)" "sema_good t a b mx v w1"
    "length (waitsets w1 b) = length (waitsets w b) - 1" "waitsets w b = [] \<longrightarrow> w1 = w"
    using sema_waiters.one_served [OF Suc.prems(1) n] by blast
  show ?case
  proof (cases "waitsets w b = []")
    case True
    then show ?thesis using w1 b by simp
  next
    case False
    then have "length (waitsets w b) = Suc (length (waitsets w1 b))" using w1(3) by simp
    moreover have "sema_value a w1 = sema_value a w" using w1(2) Suc.prems(1) by (simp add: sema_good_def)
    moreover have "sm_ws (w_semas w1 a) = b" using w1(2) by (simp add: sema_good_def)
    ultimately have "k \<le> unat (sm_count (w_semas w1 a))" using Suc.prems(2) b
      unfolding sema_value_def by (simp only:)
    then show ?thesis
      using Suc.IH [OF w1(2), of "Suc j"] w1(1) b False \<open>length (waitsets w b) = Suc (length (waitsets w1 b))\<close> by auto
  qed
qed simp


section \<open>A semaphore is a counter\<close>

text \<open>No token lies around while somebody waits.\<close>

definition sema_settled :: "nat \<Rightarrow> world \<Rightarrow> bool" where
  "sema_settled a w \<longleftrightarrow> sm_count (w_semas w a) = 0 \<or> waitsets w (sm_ws (w_semas w a)) = []"

lemma sema_sync_keeps [simp]:
  "calm t (sema_sync op a w) = calm t w" "waitsets (sema_sync op a w) = waitsets w"
  "sm_count (w_semas (sema_sync op a w) b) = sm_count (w_semas w b)"
  "sm_max_count (w_semas (sema_sync op a w) b) = sm_max_count (w_semas w b)"
  "sm_ws (w_semas (sema_sync op a w) b) = sm_ws (w_semas w b)" "w_frame (sema_sync op a w) = w_frame w"
  by (simp_all add: sema_sync_def Let_def upd_sema_def)
    (simp_all add: set_clock_def upd_cur_def upd_th_def upd_sema_def)

lemma upd_sema_keeps [simp]:
  "calm t (upd_sema a f w) = calm t w" "waitsets (upd_sema a f w) = waitsets w" "w_frame (upd_sema a f w) = w_frame w"
  "w_semas (upd_sema a f w) b = (if b = a then f (w_semas w a) else w_semas w b)"
  by (simp_all add: upd_sema_def)

lemma post_value:
  assumes c: "calm t w" "sema_waiting a w" "count_ok (w_semas w a)" "sig_ok sema_magic (sm_sign (w_semas w a))"
    and ok: "count < int_max" "count + sm_count (w_semas w a) \<le> sm_max_count (w_semas w a)"
  shows "\<exists>w'. sema_post user_inv a count w = Inr (True, sm_count (w_semas w a),
      min (unat count) (length (waitsets w (sm_ws (w_semas w a)))), w') \<and>
    sema_value a w' = sema_value a w + uint count \<and> sm_ws (w_semas w' a) = sm_ws (w_semas w a) \<and>
    length (waitsets w' (sm_ws (w_semas w a))) = length (waitsets w (sm_ws (w_semas w a))) - unat count \<and>
    calm t w' \<and> sema_waiting a w' \<and> count_ok (w_semas w' a)"
proof -
  define b where "b = sm_ws (w_semas w a)"
  define w1 where "w1 = sema_sync sync_acq_rel a (upd_sema a (\<lambda>m. m\<lparr>sm_count := sm_count m + count\<rparr>) w)"
  have nw: "\<not> (int_max \<le> count \<or> sm_max_count (w_semas w a) < count + sm_count (w_semas w a))"
    using ok by auto
  note n = post_no_wrap [OF c(3) nw]
  have v: "sema_value a w1 = sema_value a w + uint count"
    using n(1) by (simp add: sema_value_def w1_def)
  have "sema_good t a b (sm_max_count (w_semas w a)) (sema_value a w + uint count) w1"
    using c n(2) v by (simp add: sema_good_def w1_def b_def sema_waiting_def count_ok_def)
  moreover have "unat count \<le> unat (sm_count (w_semas w1 a))" using n(1) by (simp add: w1_def)
  ultimately obtain w' where w': "sema_wake_loop user_inv a (unat count) 0 w1 = Inr (min (unat count) (length (waitsets w1 b)), w')"
    "sema_good t a b (sm_max_count (w_semas w a)) (sema_value a w + uint count) w'"
    "length (waitsets w' b) = length (waitsets w1 b) - unat count"
    using sema_wake_loop_served [of t a b "sm_max_count (w_semas w a)" _ w1 "unat count" user_inv 0] by auto
  have "waitsets w1 b = waitsets w b" by (simp add: w1_def)
  then show ?thesis
    using w' nw c(4) unfolding b_def
    by (auto simp: sema_post_def Let_def w1_def [symmetric] sema_good_def)
qed

text \<open>
  C23. A semaphore is a bounded counter that never loses a wake-up. Its value is the number of
  tokens less the number of waiting threads, and this is what \<open>get_value\<close> returns. A post within
  the maximum adds to the value, wakes exactly as many waiters as it adds tokens for, and leaves
  no token behind while somebody waits; nothing asserts, the counter does not wrap and control
  comes back to the poster. A post beyond the maximum changes nothing and reports failure.
\<close>

theorem semaphore_counts:
  assumes "calm t w" "sema_waiting a w" "count_ok (w_semas w a)" "sig_ok sema_magic (sm_sign (w_semas w a))"
    "sema_settled a w"
  shows "(\<exists>w'. sema_get_value a w = Inr (sema_value a w, w') \<and> sema_value a w' = sema_value a w) \<and>
    (if count < int_max \<and> count + sm_count (w_semas w a) \<le> sm_max_count (w_semas w a)
     then \<exists>w'. sema_post user_inv a count w = Inr (True, sm_count (w_semas w a),
              min (unat count) (length (waitsets w (sm_ws (w_semas w a)))), w') \<and>
            sema_value a w' = sema_value a w + uint count \<and> sema_settled a w' \<and> count_ok (w_semas w' a) \<and>
            threadx w' = Some t
     else \<exists>w'. sema_post user_inv a count w = Inr (False, sm_count (w_semas w a), 0, w') \<and>
            sema_value a w' = sema_value a w \<and> sema_settled a w')"
proof -
  have "sint (sm_count (w_semas w a)) = uint (sm_count (w_semas w a))"
  proof -
    have "uint (sm_count (w_semas w a)) \<le> 2147483647"
      using assms(3) by (auto simp: count_ok_def int_max_def word_le_def)
    moreover have "- (2 ^ 31) \<le> uint (sm_count (w_semas w a))" by (rule order_trans [of _ 0]) simp_all
    ultimately show ?thesis by (simp add: sint_uint signed_take_bit_int_eq_self)
  qed
  moreover have le: "sm_count (w_semas w a) \<le> int_max" using assms(3) by (auto simp: count_ok_def)
  ultimately have g: "\<exists>w'. sema_get_value a w = Inr (sema_value a w, w') \<and> sema_value a w' = sema_value a w"
    using assms(4) le by (auto simp: sema_get_value_def sema_value_def)
  show ?thesis
  proof (cases "count < int_max \<and> count + sm_count (w_semas w a) \<le> sm_max_count (w_semas w a)")
    case True
    then obtain w' where w': "sema_post user_inv a count w = Inr (True, sm_count (w_semas w a),
        min (unat count) (length (waitsets w (sm_ws (w_semas w a)))), w')"
      "sema_value a w' = sema_value a w + uint count" "sm_ws (w_semas w' a) = sm_ws (w_semas w a)"
      "length (waitsets w' (sm_ws (w_semas w a))) = length (waitsets w (sm_ws (w_semas w a))) - unat count"
      "calm t w'" "count_ok (w_semas w' a)"
      using post_value [OF assms(1-4), of count user_inv] by blast
    have "sema_settled a w'"
    proof (cases "waitsets w' (sm_ws (w_semas w' a)) = []")
      case False
      then have l: "unat count < length (waitsets w (sm_ws (w_semas w a)))" using w'(3,4) by (cases "waitsets w' (sm_ws (w_semas w' a))") auto
      then have "sm_count (w_semas w a) = 0" using assms(5) by (auto simp: sema_settled_def)
      then have "int (unat (sm_count (w_semas w' a))) = 0"
        using w'(2,3,4) l unfolding sema_value_def by (simp add: of_nat_diff)
      then show ?thesis by (simp add: sema_settled_def uint_0_iff)
    qed (simp add: sema_settled_def)
    moreover have "threadx w' = Some t" using w'(5) by (simp add: calm_def)
    ultimately show ?thesis using g True w' by auto
  next
    case False
    then have "\<exists>w'. sema_post user_inv a count w = Inr (False, sm_count (w_semas w a), 0, w') \<and>
            sema_value a w' = sema_value a w \<and> sema_settled a w'"
      using assms(4,5) by (auto simp: sema_post_def Let_def not_less not_le sema_value_def sema_settled_def)
    then show ?thesis using g False by auto
  qed
qed


text \<open>Two threads: thread 0 posts 3 to an empty semaphore on which thread 1 waits.\<close>

definition sema_sample :: world where
  "sema_sample = parked_sample\<lparr>
     waitsets := (\<lambda>_. [])(8192 := [\<lparr>d_th = 1, d_count = 0, d_ws = None, d_wo = None, d_wait_all = False, d_do_switch = True\<rparr>]),
     w_semas := (\<lambda>_. \<lparr>sm_sign = signature_ctor sema_magic 8192, sm_spurious_wakeups = False, sm_count = 0,
                      sm_max_count = 10, sm_ws = 8192, sm_sync = (\<lambda>_. 0)\<rparr>),
     w_frame := (\<lambda>_. Some (F_sema 8192 False))\<rparr>"

lemma sema_sample_ok:
  "calm 0 sema_sample" "sema_waiting 8192 sema_sample" "count_ok (w_semas sema_sample 8192)"
  "sig_ok sema_magic (sm_sign (w_semas sema_sample 8192))" "sema_settled 8192 sema_sample"
  by (simp_all add: sema_sample_def parked_sample_calm)
    (auto simp: sema_waiting_def count_ok_def int_max_def sig_ok_def signature_check_def signature_ctor_def sema_settled_def)

theorem semaphore_counts_witness:
  "\<exists>w'. sema_post (\<lambda>w. Inr w) 8192 3 sema_sample = Inr (True, 0, 1, w') \<and> sema_value 8192 w' = 2 \<and>
     sema_settled 8192 w' \<and> threadx w' = Some 0"
proof -
  have v: "sema_value 8192 sema_sample = -1" "sm_count (w_semas sema_sample 8192) = 0"
    "sm_max_count (w_semas sema_sample 8192) = 10" "length (waitsets sema_sample (sm_ws (w_semas sema_sample 8192))) = 1"
    by (simp_all add: sema_value_def sema_sample_def)
  show ?thesis
    using semaphore_counts [OF sema_sample_ok, of 3 "\<lambda>w. Inr w"] by (simp add: v int_max_def) blast
qed

end
