(* ===== verification/Event.thy ===== *)
theory Event
  imports Wfmo
begin

text \<open>
  Events, \<open>event_data_impl\<close> and \<open>generic_event\<close> of \<^verbatim>\<open>stdlib/event.hpp\<close>: the signalling
  half, the declared object, and what setting and pulsing do to the waiting threads.
\<close>

section \<open>Operations\<close>

text \<open>\<open>sync_.release(c.threadx_); state_ = true\<close>.\<close>

definition event_raise :: "nat \<Rightarrow> world \<Rightarrow> world" where
  "event_raise a w = upd_event a (\<lambda>e. e\<lparr>ev_state := True\<rparr>) (event_sync sync_release a w)"

text \<open>The results are the numbers of threads woken.\<close>

definition event_set :: "user_fun \<Rightarrow> nat \<Rightarrow> world \<Rightarrow> fault + (nat \<times> world)" where
  "event_set user_inv a w =
     rbind (signature_check event_magic (ev_sign (w_events w a))) (\<lambda>_.
       if ev_state (w_events w a)
       then rl_verify (waitsets w (ev_ws (w_events w a)) = []) (Inr (0, w))
       else if ev_manual_reset (w_events w a) then wake_all user_inv (ev_ws (w_events w a)) (event_raise a w)
       else rbind (wake_one user_inv (ev_ws (w_events w a)) (event_raise a w)) (\<lambda>(ok, w).
              Inr (if ok then 1 else 0, w)))"

definition event_reset :: "nat \<Rightarrow> world \<Rightarrow> fault + world" where
  "event_reset a w =
     rbind (signature_check event_magic (ev_sign (w_events w a))) (\<lambda>_.
       if ev_state (w_events w a)
       then rl_verify (waitsets w (ev_ws (w_events w a)) = [])
              (Inr (upd_event a (\<lambda>e. e\<lparr>ev_state := False\<rparr>) (event_sync sync_release a w)))
       else Inr w)"

definition event_pulse :: "user_fun \<Rightarrow> nat \<Rightarrow> world \<Rightarrow> fault + (nat \<times> world)" where
  "event_pulse user_inv a w =
     rbind (signature_check event_magic (ev_sign (w_events w a))) (\<lambda>_.
       if ev_state (w_events w a)
       then rl_verify (waitsets w (ev_ws (w_events w a)) = []) (Inr (0, w))
       else rbind (wake_all user_inv (ev_ws (w_events w a))
                     (event_raise a w)) (\<lambda>(unblocked, w).
              Inr (unblocked, upd_event a (\<lambda>e. e\<lparr>ev_state := False\<rparr>) w)))"

definition generic_event_init :: "nat \<Rightarrow> nat \<Rightarrow> nat \<Rightarrow> bool \<Rightarrow> bool \<Rightarrow> world \<Rightarrow> fault + world" where
  "generic_event_init es sys h manual_reset initial_state w =
     (if hd_impl (w_event_handle w h) \<noteq> None then fail_test result_double_initialization_of_event w
      else rbind (signature_check event_handle_magic (hd_sign (w_event_handle w h))) (\<lambda>_.
           rbind (object_alloc es sys Slab_event 0 w) (\<lambda>(a, w).
             let w = event_ctor manual_reset initial_state a w
             in Inr (w\<lparr>w_event_handle := (w_event_handle w)(h := (w_event_handle w h)\<lparr>hd_impl := Some a\<rparr>)\<rparr>))))"

definition generic_event_deinit :: "nat \<Rightarrow> world \<Rightarrow> fault + world" where
  "generic_event_deinit h w =
     rbind (event_check h w) (\<lambda>a. rbind (event_dtor a w) (\<lambda>w.
       let w = object_free Slab_event a w
       in Inr (w\<lparr>w_event_handle := (w_event_handle w)(h := (w_event_handle w h)\<lparr>hd_impl := None\<rparr>)\<rparr>)))"

section \<open>Waking the waiters\<close>

definition event_waiting :: "nat \<Rightarrow> world \<Rightarrow> bool" where
  "event_waiting a w \<longleftrightarrow>
     (\<forall>d \<in> set (waitsets w (ev_ws (w_events w a))). d_count d = 0 \<and> d_ws d = None \<and> d_do_switch d \<and>
        w_frame w (d_th d) = Some (F_event a))"

lemma event_sync_keeps [simp]:
  "calm t (event_sync op a w) = calm t w" "waitsets (event_sync op a w) = waitsets w"
  "ev_state (w_events (event_sync op a w) b) = ev_state (w_events w b)"
  "ev_manual_reset (w_events (event_sync op a w) b) = ev_manual_reset (w_events w b)"
  "ev_ws (w_events (event_sync op a w) b) = ev_ws (w_events w b)" "w_frame (event_sync op a w) = w_frame w"
  by (simp_all add: event_sync_def Let_def upd_event_def)
    (simp_all add: set_clock_def upd_cur_def upd_th_def upd_event_def)

lemma upd_event_keeps [simp]:
  "calm t (upd_event a f w) = calm t w" "waitsets (upd_event a f w) = waitsets w" "w_frame (upd_event a f w) = w_frame w"
  "w_events (upd_event a f w) b = (if b = a then f (w_events w a) else w_events w b)"
  by (simp_all add: upd_event_def)

text \<open>
  The woken fiber ends the wait: it consumes an auto-reset event, and it asserts that the event is
  set.
\<close>

lemma event_served:
  assumes c: "calm t w" and w: "w_frame w th = Some (F_event a)" and th: "th \<noteq> t"
    and x: "saved_disable_preemption (cx_threads w th) = -1" "park_switch (cx_threads w th)"
      "sint (park_dp (cx_threads w th)) \<noteq> -1"
  shows "\<exists>clk ord. wake user_inv th (woken_state th w) = rl_verify (ev_state (w_events w a)) (Inr (w\<lparr>
     cx_threads := (cx_threads w)(th := (woken_thread t (cx_threads w th))\<lparr>acq_rel_order := clk, temp_switch_from := -1\<rparr>),
     w_events := (w_events w)(a := (w_events w a)\<lparr>ev_state := ev_manual_reset (w_events w a), ev_sync := ord\<rparr>)\<rparr>))"
proof (cases "ev_state (w_events w a)")
  case True
  define w1 where "w1 = w\<lparr>cx_threads := (cx_threads w)(th := woken_thread t (cx_threads w th)), threadx := Some th\<rparr>"
  have f: "w_frame (woken_state th w) = w_frame w" "ev_ws (w_events (woken_state th w) a) = ev_ws (w_events w a)"
    by (simp_all add: woken_state_def switch_to_fiber_def upd_th_def)
  have pe: "park_current_end b (woken_state th w) = Inr (unpark_normal, w1)" for b
    using woken_park_end [OF c x(1,2) th(1)] by (simp add: w1_def)
  define op where "op = (if ev_manual_reset (w_events w a) then sync_acquire else sync_acq_rel)"
  define w2 where "w2 = upd_event a (\<lambda>m. m\<lparr>ev_state := ev_manual_reset m\<rparr>) w1"
  define clk where "clk = sync_clock op (ev_sync (w_events w2 a)) w2"
  define ord where "ord = sync_order op (ev_sync (w_events w2 a)) w2"
  have w2: "w2 = (if ev_manual_reset (w_events w a) then w1 else upd_event a (\<lambda>m. m\<lparr>ev_state := False\<rparr>) w1)"
    using True by (auto simp: w2_def upd_event_def w1_def fun_eq_iff intro!: world.equality)
  have e: "event_take a w1 = event_sync op a w2"
    by (simp add: event_take_def w2 op_def w1_def)
  have st: "event_take a w1 = w1\<lparr>
     cx_threads := (cx_threads w)(th := (woken_thread t (cx_threads w th))\<lparr>acq_rel_order := clk\<rparr>),
     w_events := (w_events w)(a := (w_events w a)\<lparr>ev_state := ev_manual_reset (w_events w a), ev_sync := ord\<rparr>)\<rparr>"
    unfolding e event_sync_def Let_def clk_def [symmetric] ord_def [symmetric]
    by (simp add: w2_def set_clock_def upd_event_def upd_cur_def upd_th_def w1_def cur_def)
  have sb: "switch_back (event_take a w1) = Inr (w\<lparr>
     cx_threads := (cx_threads w)(th := (woken_thread t (cx_threads w th))\<lparr>acq_rel_order := clk, temp_switch_from := -1\<rparr>),
     w_events := (w_events w)(a := (w_events w a)\<lparr>ev_state := ev_manual_reset (w_events w a), ev_sync := ord\<rparr>)\<rparr>)"
  proof -
    have "threadx w = Some t" using c by (simp add: calm_def)
    then show ?thesis unfolding st
      by (subst woken_switch_back [where t = t and x = "cx_threads w th" and clk = clk and th = th])
        (use x(3) in \<open>simp_all add: w1_def\<close>)
  qed
  have "ev_state (w_events w1 a)" using True by (simp add: w1_def)
  then show ?thesis using w sb True by (auto simp: wake_def f event_wait_resume_def pe)
next
  case False
  have f: "w_frame (woken_state th w) = w_frame w"
    by (simp add: woken_state_def switch_to_fiber_def upd_th_def)
  show ?thesis
    using w False woken_park_end [OF c x(1,2) th(1)] by (simp add: wake_def f event_wait_resume_def)
qed

text \<open>
  What the wake-ups of one call keep. An auto-reset event is worth one wake-up while it is set, so
  the difference to the number of waiters does not change.
\<close>

definition event_value :: "nat \<Rightarrow> world \<Rightarrow> int" where
  "event_value a w = (if ev_state (w_events w a) then 1 else 0) - int (length (waitsets w (ev_ws (w_events w a))))"

definition event_good :: "nat \<Rightarrow> nat \<Rightarrow> nat \<Rightarrow> bool \<Rightarrow> int \<Rightarrow> world \<Rightarrow> bool" where
  "event_good t a b mr v w \<longleftrightarrow>
     calm t w \<and> ev_ws (w_events w a) = b \<and> ev_manual_reset (w_events w a) = mr \<and> event_waiting a w \<and>
     (\<not> mr \<longrightarrow> event_value a w = v)"

lemma event_try:
  assumes g: "event_good t a b mr v w" and i: "i < length (waitsets w b)"
  shows "if ev_state (w_events w a)
    then \<exists>w'. try_remove wo_is_signaled (wake user_inv) b i w = Inr (True, w') \<and> event_good t a b mr v w' \<and>
      ev_state (w_events w' a) = mr \<and> waitsets w' b = drop_nth i (waitsets w b)
    else try_remove wo_is_signaled (wake user_inv) b i w = Inl Verify_failed"
proof -
  define d where "d = waitsets w b ! i"
  have c: "calm t w" and b: "ev_ws (w_events w a) = b" using g by (auto simp: event_good_def)
  have dm: "d \<in> set (waitsets w b)" using i by (simp add: d_def)
  then have d: "d_count d = 0" "d_ws d = None" "d_do_switch d" "w_frame w (d_th d) = Some (F_event a)"
    using g b by (auto simp: event_good_def event_waiting_def)
  have e: "entry_ok w d" using c dm by (auto simp: calm_def waits_ok_def)
  obtain s' where s': "calm t (w\<lparr>waitsets := (waitsets w)(b := drop_nth i (waitsets w b)), cx_sched := s'\<rparr>)"
    "\<not> parked s' (d_th d)"
    "try_remove wo_is_signaled (wake user_inv) b i w = rbind (wake user_inv (d_th d) (woken_state (d_th d)
        (w\<lparr>waitsets := (waitsets w)(b := drop_nth i (waitsets w b)), cx_sched := s'\<rparr>))) (\<lambda>c. Inr (True, c))"
    using try_remove_switch [OF c i d_def d(2,1,3)] by blast
  define w1 where "w1 = w\<lparr>waitsets := (waitsets w)(b := drop_nth i (waitsets w b)), cx_sched := s'\<rparr>"
  obtain clk ord where k: "wake user_inv (d_th d) (woken_state (d_th d) w1) = rl_verify (ev_state (w_events w1 a)) (Inr (w1\<lparr>
     cx_threads := (cx_threads w1)(d_th d := (woken_thread t (cx_threads w1 (d_th d)))\<lparr>acq_rel_order := clk, temp_switch_from := -1\<rparr>),
     w_events := (w_events w1)(a := (w_events w1 a)\<lparr>ev_state := ev_manual_reset (w_events w1 a), ev_sync := ord\<rparr>)\<rparr>))"
    using event_served [of t w1 "d_th d" a user_inv] s'(1) d(3,4) e c
    by (auto simp: w1_def entry_ok_def calm_def cur_def)
  have ev1: "w_events w1 = w_events w" by (simp add: w1_def)
  show ?thesis
  proof (cases "ev_state (w_events w a)")
    case False
    then show ?thesis using s'(3) k ev1 by (simp add: w1_def [symmetric])
  next
    case True
    define w' where "w' = w1\<lparr>
     cx_threads := (cx_threads w1)(d_th d := (woken_thread t (cx_threads w1 (d_th d)))\<lparr>acq_rel_order := clk, temp_switch_from := -1\<rparr>),
     w_events := (w_events w1)(a := (w_events w1 a)\<lparr>ev_state := ev_manual_reset (w_events w1 a), ev_sync := ord\<rparr>)\<rparr>"
    have "calm t w1" using s'(1) by (simp add: w1_def)
    then have "calm t (w1\<lparr>cx_threads := (cx_threads w1)(d_th d := (woken_thread t (cx_threads w1 (d_th d)))
        \<lparr>acq_rel_order := clk, temp_switch_from := -1\<rparr>)\<rparr>)"
      by (rule calm_thread) (use s'(2) in \<open>simp_all add: w1_def woken_thread_def\<close>)
    then have cw: "calm t w'" by (simp add: w'_def)
    have ws: "waitsets w' b = drop_nth i (waitsets w b)" "w_frame w' = w_frame w" by (simp_all add: w'_def w1_def)
    have ev: "w_events w' a = (w_events w a)\<lparr>ev_state := ev_manual_reset (w_events w a), ev_sync := ord\<rparr>"
      by (simp add: w'_def w1_def)
    have "event_waiting a w'"
      using g b drop_nth_facts(1) [of i "waitsets w b"] by (auto simp: event_good_def event_waiting_def ev ws)
    moreover have "\<not> mr \<longrightarrow> event_value a w' = v"
      using True g b i by (auto simp: event_good_def event_value_def ev ws drop_nth_facts(2))
    ultimately have "event_good t a b mr v w'"
      using cw g by (simp add: event_good_def ev)
    moreover have "try_remove wo_is_signaled (wake user_inv) b i w = Inr (True, w')"
      using s'(3) k True ev1 by (simp add: w1_def [symmetric] w'_def)
    ultimately show ?thesis using ws(1) ev g True by (auto simp: event_good_def)
  qed
qed

lemma event_draw:
  assumes g: "event_good t a b mr v w" and l: "limit \<noteq> 0"
  shows "\<exists>r w'. ctx_rand limit sty w = Inr (r, w') \<and> r < limit \<and> event_good t a b mr v w' \<and> waitsets w' = waitsets w \<and>
    ev_state (w_events w' a) = ev_state (w_events w a)"
proof -
  obtain r s' where "ctx_rand limit sty w = Inr (r, w\<lparr>cx_sched := s'\<rparr>)" "r < limit" "calm t (w\<lparr>cx_sched := s'\<rparr>)"
    using calm_rand [OF conjunct1 [OF g [unfolded event_good_def]] l] by blast
  then show ?thesis using g by (auto simp: event_good_def event_waiting_def event_value_def)
qed

lemma event_serve:
  assumes "event_good t a b mr v w" "ev_state (w_events w a)" "i < length (waitsets w b)"
  shows "\<exists>w'. try_remove wo_is_signaled (wake user_inv) b i w = Inr (True, w') \<and> event_good t a b mr v w' \<and>
    waitsets w' b = drop_nth i (waitsets w b)"
  using event_try [OF assms(1,3), of user_inv] assms(2) by auto

lemma manual_stays:
  assumes "event_good t a b True v w" "ev_state (w_events w a)" "i < length (waitsets w b)"
    "try_remove wo_is_signaled (wake user_inv) b i w = Inr (True, w')"
  shows "ev_state (w_events w' a)"
  using event_try [OF assms(1,3), of user_inv] assms(2,4) by auto

text \<open>
  An auto-reset event can serve one waiter, a manual-reset one all of them.
\<close>

interpretation event_waiters: waker wo_is_signaled "wake user_inv" b "event_good t a b mr v"
  "\<lambda>w. ev_state (w_events w a)" for user_inv b t a mr v
  by unfold_locales (use event_serve event_draw in \<open>blast+\<close>)

interpretation manual_waiters: broadcaster wo_is_signaled "wake user_inv" b "event_good t a b True v"
  "\<lambda>w. ev_state (w_events w a)" for user_inv b t a v
  by unfold_locales (use manual_stays in \<open>blast+\<close>)

section \<open>Setting, resetting and pulsing\<close>

text \<open>While the event is set nobody waits for it.\<close>

definition event_settled :: "nat \<Rightarrow> world \<Rightarrow> bool" where
  "event_settled a w \<longleftrightarrow> (ev_state (w_events w a) \<longrightarrow> waitsets w (ev_ws (w_events w a)) = [])"

text \<open>The state in which the waiters are woken.\<close>

lemma raised_good:
  assumes "calm t w" "event_waiting a w"
    and w1: "w1 = event_raise a w"
  shows "event_good t a (ev_ws (w_events w a)) (ev_manual_reset (w_events w a))
      (1 - int (length (waitsets w (ev_ws (w_events w a))))) w1 \<and>
    ev_state (w_events w1 a) \<and> waitsets w1 = waitsets w"
  using assms by (auto simp: event_raise_def event_good_def event_waiting_def event_value_def)

lemma set_manual:
  assumes "calm t w" "event_waiting a w" "sig_ok event_magic (ev_sign (w_events w a))"
    "\<not> ev_state (w_events w a)" "ev_manual_reset (w_events w a)"
  shows "\<exists>w'. event_set user_inv a w = Inr (length (waitsets w (ev_ws (w_events w a))), w') \<and>
    waitsets w' (ev_ws (w_events w a)) = [] \<and> ev_state (w_events w' a) \<and> calm t w'"
proof -
  define w1 where "w1 = event_raise a w"
  obtain v where g: "event_good t a (ev_ws (w_events w a)) True v w1" "ev_state (w_events w1 a)" "waitsets w1 = waitsets w"
    using raised_good [OF assms(1,2) w1_def] assms(5) by auto
  show ?thesis
    using manual_waiters.all_served [OF g(1,2), of user_inv] g(3) assms(3-5)
    by (auto simp: event_set_def w1_def event_good_def)
qed

lemma set_auto:
  assumes "calm t w" "event_waiting a w" "sig_ok event_magic (ev_sign (w_events w a))"
    "\<not> ev_state (w_events w a)" "\<not> ev_manual_reset (w_events w a)"
  shows "\<exists>w'. event_set user_inv a w = Inr (if waitsets w (ev_ws (w_events w a)) = [] then 0 else 1, w') \<and>
    length (waitsets w' (ev_ws (w_events w a))) = length (waitsets w (ev_ws (w_events w a))) - 1 \<and>
    ev_ws (w_events w' a) = ev_ws (w_events w a) \<and>
    ev_state (w_events w' a) = (waitsets w (ev_ws (w_events w a)) = []) \<and> calm t w'"
proof -
  define b where "b = ev_ws (w_events w a)"
  define w1 where "w1 = event_raise a w"
  have g: "event_good t a b False (1 - int (length (waitsets w b))) w1" "ev_state (w_events w1 a)" "waitsets w1 = waitsets w"
    using raised_good [OF assms(1,2) w1_def] assms(5) by (auto simp: b_def)
  obtain w' where w': "wake_one user_inv b w1 = Inr (waitsets w b \<noteq> [], w')"
    "event_good t a b False (1 - int (length (waitsets w b))) w'" "length (waitsets w' b) = length (waitsets w b) - 1"
    using event_waiters.one_served [OF g(1,2), of user_inv] g(3) by auto
  have "ev_state (w_events w' a) = (waitsets w b = [])"
    using w'(2,3) by (cases "waitsets w b") (auto simp: event_good_def event_value_def split: if_splits)
  then show ?thesis
    using w' assms(3-5) unfolding b_def
    by (auto simp: event_set_def w1_def event_good_def)
qed

lemma pulse_manual:
  assumes "calm t w" "event_waiting a w" "sig_ok event_magic (ev_sign (w_events w a))"
    "\<not> ev_state (w_events w a)" "ev_manual_reset (w_events w a)"
  shows "\<exists>w'. event_pulse user_inv a w = Inr (length (waitsets w (ev_ws (w_events w a))), w') \<and>
    waitsets w' (ev_ws (w_events w a)) = [] \<and> \<not> ev_state (w_events w' a) \<and> calm t w'"
proof -
  define w1 where "w1 = event_raise a w"
  obtain v where g: "event_good t a (ev_ws (w_events w a)) True v w1" "ev_state (w_events w1 a)" "waitsets w1 = waitsets w"
    using raised_good [OF assms(1,2) w1_def] assms(5) by auto
  show ?thesis
    using manual_waiters.all_served [OF g(1,2), of user_inv] g(3) assms(3-5)
    by (auto simp: event_pulse_def w1_def event_good_def)
qed

text \<open>
  C24. An event wakes exactly whom it should. Setting a manual-reset event wakes every waiter and
  leaves it set; setting an auto-reset event wakes one waiter and leaves the event set only when
  there was none; pulsing a manual-reset event wakes every waiter and leaves it reset; setting or
  pulsing a set event and resetting wake nobody. None of this asserts, and control comes back.
\<close>

theorem event_wakes:
  assumes "calm t w" "event_waiting a w" "sig_ok event_magic (ev_sign (w_events w a))" "event_settled a w"
  shows "let b = ev_ws (w_events w a); waiting = length (waitsets w b) in
    (if ev_state (w_events w a)
     then event_set user_inv a w = Inr (0, w) \<and> event_pulse user_inv a w = Inr (0, w)
     else if ev_manual_reset (w_events w a)
     then (\<exists>w'. event_set user_inv a w = Inr (waiting, w') \<and> waitsets w' b = [] \<and> ev_state (w_events w' a) \<and> threadx w' = Some t) \<and>
       (\<exists>w'. event_pulse user_inv a w = Inr (waiting, w') \<and> waitsets w' b = [] \<and> \<not> ev_state (w_events w' a) \<and> threadx w' = Some t)
     else \<exists>w'. event_set user_inv a w = Inr (min 1 waiting, w') \<and> length (waitsets w' b) = waiting - 1 \<and>
       ev_state (w_events w' a) = (waiting = 0) \<and> threadx w' = Some t) \<and>
    (\<exists>w'. event_reset a w = Inr w' \<and> waitsets w' = waitsets w \<and> \<not> ev_state (w_events w' a))"
proof -
  have r: "\<exists>w'. event_reset a w = Inr w' \<and> waitsets w' = waitsets w \<and> \<not> ev_state (w_events w' a)"
    using assms by (auto simp: event_reset_def event_settled_def)
  have th: "threadx w' = Some t" if "calm t w'" for w' :: world using that by (simp add: calm_def)
  show ?thesis
  proof (cases "ev_state (w_events w a)")
    case True
    then show ?thesis using r assms by (simp add: event_set_def event_pulse_def event_settled_def Let_def)
  next
    case False
    then show ?thesis
      using set_manual [OF assms(1-3) False] pulse_manual [OF assms(1-3) False] set_auto [OF assms(1-3) False] r th
      unfolding Let_def by (cases "ev_manual_reset (w_events w a)"; cases "waitsets w (ev_ws (w_events w a))") fastforce+
  qed
qed

text \<open>Thread 0 sets an auto-reset event on which thread 1 waits.\<close>

definition event_sample :: world where
  "event_sample = parked_sample\<lparr>
     waitsets := (\<lambda>_. [])(8192 := [\<lparr>d_th = 1, d_count = 0, d_ws = None, d_wo = None, d_wait_all = False, d_do_switch = True\<rparr>]),
     w_events := (\<lambda>_. \<lparr>ev_sign = signature_ctor event_magic 8192, ev_manual_reset = False, ev_state = False,
                      ev_ws = 8192, ev_sync = (\<lambda>_. 0)\<rparr>),
     w_frame := (\<lambda>_. Some (F_event 8192))\<rparr>"

lemma event_sample_ok:
  "calm 0 event_sample" "event_waiting 8192 event_sample" "sig_ok event_magic (ev_sign (w_events event_sample 8192))"
  "event_settled 8192 event_sample"
  by (simp_all add: event_sample_def parked_sample_calm)
    (auto simp: event_waiting_def sig_ok_def signature_check_def signature_ctor_def event_settled_def)

theorem event_wakes_witness:
  "\<exists>w'. event_set (\<lambda>w. Inr w) 8192 event_sample = Inr (1, w') \<and> waitsets w' 8192 = [] \<and>
     \<not> ev_state (w_events w' 8192) \<and> threadx w' = Some 0"
proof -
  have v: "ev_ws (w_events event_sample 8192) = 8192" "\<not> ev_state (w_events event_sample 8192)"
    "\<not> ev_manual_reset (w_events event_sample 8192)" "length (waitsets event_sample 8192) = 1"
    by (simp_all add: event_sample_def)
  show ?thesis
    using event_wakes [OF event_sample_ok, of "\<lambda>w. Inr w"] v(4) by (auto simp: v(1-3) Let_def)
qed

text \<open>
  C25. Pulsing an auto-reset event on which two or more threads wait aborts the whole run on an
  internal assertion: \<open>pulse\<close> wakes all waiters, the first one consumes the event, and the second
  one asserts that it is still set.
\<close>

theorem pulse_auto_reset_aborts:
  assumes "calm t w" "event_waiting a w" "sig_ok event_magic (ev_sign (w_events w a))"
    "\<not> ev_state (w_events w a)" "\<not> ev_manual_reset (w_events w a)" "2 \<le> length (waitsets w (ev_ws (w_events w a)))"
  shows "event_pulse user_inv a w = Inl Verify_failed"
proof -
  define b where "b = ev_ws (w_events w a)"
  define w1 where "w1 = event_raise a w"
  obtain v where g: "event_good t a b False v w1" "ev_state (w_events w1 a)" "waitsets w1 = waitsets w"
    using raised_good [OF assms(1,2) w1_def] assms(5) by (auto simp: b_def)
  obtain k where k: "length (waitsets w b) = Suc (Suc k)"
    using assms(6) by (metis b_def Suc_le_D numeral_2_eq_2 Suc_le_mono)
  obtain w2 where w2: "try_remove wo_is_signaled (wake user_inv) b 0 w1 = Inr (True, w2)" "event_good t a b False v w2"
    "\<not> ev_state (w_events w2 a)" "waitsets w2 b = drop_nth 0 (waitsets w b)"
    using event_try [OF g(1), of 0 user_inv] g(2,3) k by auto
  have l: "length (waitsets w2 b) = Suc k" using w2(4) k drop_nth_facts(2) [of 0 "waitsets w b"] by simp
  have "try_remove wo_is_signaled (wake user_inv) b 0 w2 = Inl Verify_failed"
    using event_try [OF w2(2), of 0 user_inv] w2(3) l by simp
  then have "unpark_all_loop wo_is_signaled (wake user_inv) b (Suc (Suc k)) 0 0 w1 = Inl Verify_failed"
    using w2(1) g(3) k l by (simp, cases "waitsets w b"; cases "waitsets w2 b") auto
  then have "wake_all user_inv b w1 = Inl Verify_failed" using g(3) k by (simp only: unpark_all_def)
  then show ?thesis
    using assms(3,4) by (simp add: event_pulse_def w1_def b_def)
qed


text \<open>Threads 1 and 2 wait for an auto-reset event that thread 0 pulses.\<close>

definition pulse_sched :: sched where
  "pulse_sched = (sched_ctor sched_random 3 default_params 0)
     \<lparr>s_threads := (\<lambda>i. if i = 0 then blank_sched_thread 0
                        else (blank_sched_thread i)\<lparr>block_count := 1, st_state := thread_blocked\<rparr>),
      s_thread := Some 0, running_threads := [0], running_threads_count := 1\<rparr>"

definition pulse_entry :: "nat \<Rightarrow> thread_desc" where
  "pulse_entry i = \<lparr>d_th = i, d_count = 0, d_ws = None, d_wo = None, d_wait_all = False, d_do_switch = True\<rparr>"

definition pulse_sample :: world where
  "pulse_sample = event_sample\<lparr>cx_n := 3, cx_sched := pulse_sched,
     waitsets := (\<lambda>_. [])(8192 := [pulse_entry 1, pulse_entry 2])\<rparr>"

lemma less_three: "(i :: nat) < 3 \<longleftrightarrow> i = 0 \<or> i = 1 \<or> i = 2"
  by auto

lemma pulse_sched_ok: "sched_inv pulse_sched" "0 < i \<Longrightarrow> i < 3 \<Longrightarrow> parked pulse_sched i" "replay_free pulse_sched"
proof -
  have f: "s_n pulse_sched = 3" "s_kind pulse_sched = sched_random" "running_threads pulse_sched = [0]"
    "running_threads_count pulse_sched = 1" "finished_thread_count pulse_sched = 0" "timed_threads pulse_sched = []"
    "spurious_threads pulse_sched = []" "dynamic_threads pulse_sched = []"
    "s_threads pulse_sched i = (if i = 0 then blank_sched_thread 0
       else (blank_sched_thread i)\<lparr>block_count := 1, st_state := thread_blocked\<rparr>)" for i
    by (simp_all add: pulse_sched_def sched_ctor_def)
  have p: "prio pulse_sched y i = 0" for y i by (simp add: f blank_sched_thread_def)
  then have w: "waiters pulse_sched i = {}" for i by (simp add: waiters_def)
  show "0 < i \<Longrightarrow> i < 3 \<Longrightarrow> parked pulse_sched i" by (simp add: parked_def w f)
  show "replay_free pulse_sched" by (simp add: replay_free_def f)
  have "score None pulse_sched"
    by (rule scoreI) (auto simp: f p w less_three owed_def blank_sched_thread_def split: if_splits)
  then show "sched_inv pulse_sched" by (simp add: sched_inv_def lists_ok_def f)
qed

theorem pulse_auto_reset_aborts_witness:
  "event_pulse (\<lambda>w. Inr w) 8192 pulse_sample = Inl Verify_failed"
proof -
  have "dynamic_threads pulse_sched = []" "s_n pulse_sched = 3"
    by (simp_all add: pulse_sched_def sched_ctor_def)
  then have "calm 0 pulse_sample"
    using pulse_sched_ok
    by (auto simp: calm_def pulse_sample_def event_sample_def parked_sample_def sample_thread_def waits_ok_def
        entry_ok_def cur_def pulse_entry_def)
  moreover have "event_waiting 8192 pulse_sample" "sig_ok event_magic (ev_sign (w_events pulse_sample 8192))"
    "\<not> ev_state (w_events pulse_sample 8192)" "\<not> ev_manual_reset (w_events pulse_sample 8192)"
    "2 \<le> length (waitsets pulse_sample (ev_ws (w_events pulse_sample 8192)))"
    by (auto simp: event_waiting_def pulse_sample_def event_sample_def pulse_entry_def sig_ok_def signature_check_def
        signature_ctor_def)
  ultimately show ?thesis by (rule pulse_auto_reset_aborts)
qed


end
