(* ===== verification/Mutex.thy ===== *)
theory Mutex
  imports Wfmo
begin

text \<open>
  Mutexes, \<open>generic_mutex_data_impl\<close>, \<open>generic_mutex\<close> and \<open>std_generic_mutex\<close> of
  \<^verbatim>\<open>stdlib/mutex.hpp\<close>: unlocking, the shared half of a reader-writer mutex and the
  declared object, then what makes them locks - mutual exclusion, the ordering a lock passes on,
  and the answers to misuse.
\<close>

section \<open>Unlocking\<close>

definition wake_writer_or_readers :: "user_fun \<Rightarrow> nat \<Rightarrow> world \<Rightarrow> fault + world" where
  "wake_writer_or_readers user_inv a w =
     rbind (wake_one user_inv (exclusive_waitset (w_mutexes w a)) w) (\<lambda>(ok, w).
       if \<not> ok then rbind (wake_all user_inv (shared_waitset (w_mutexes w a)) w) (\<lambda>(_, w). Inr w) else Inr w)"

text \<open>\<open>sync_.release(c.threadx_); exclusive_owner_ = state_free\<close>.\<close>

definition give_up :: "nat \<Rightarrow> world \<Rightarrow> world" where
  "give_up a w = upd_mutex a (\<lambda>m. m\<lparr>exclusive_owner := state_free\<rparr>) (mutex_sync sync_release a w)"

definition unlock_exclusive :: "user_fun \<Rightarrow> nat \<Rightarrow> world \<Rightarrow> fault + world" where
  "unlock_exclusive user_inv a w =
     mutex_enter a w
       (if exclusive_owner (w_mutexes w a) \<noteq> my_id w then fail_test result_unlocking_mutex_wo_ownership w
        else let w = upd_mutex a (\<lambda>m. m\<lparr>exclusive_recursion_count := exclusive_recursion_count m - 1\<rparr>) w
             in if exclusive_recursion_count (w_mutexes w a) \<noteq> 0
                then rl_verify (mx_is_exclusive_recursive (w_mutexes w a)) (Inr w)
                else let w = give_up a w
                     in rl_verify (exclusive_recursion_count (w_mutexes w a) = 0) (wake_writer_or_readers user_inv a w))"

section \<open>Shared locking\<close>

definition count_shared :: "nat \<Rightarrow> world \<Rightarrow> world" where
  "count_shared a w =
     upd_mutex a (\<lambda>m. m\<lparr>shared_owner := (shared_owner m)(th_index (cur_thread w) := shared_owner m (th_index (cur_thread w)) + 1),
                       shared_lock_count := shared_lock_count m + 1\<rparr>) w"

definition own_shared :: "nat \<Rightarrow> world \<Rightarrow> world" where
  "own_shared a w =
     upd_mutex a (\<lambda>m. m\<lparr>exclusive_owner := state_shared\<rparr>) (count_shared a (mutex_sync sync_acquire a w))"

text \<open>May a reader enter? Not while a writer waits.\<close>

definition admits_reader :: "nat \<Rightarrow> world \<Rightarrow> bool" where
  "admits_reader a w \<longleftrightarrow>
     exclusive_owner (w_mutexes w a) = state_free \<or>
     exclusive_owner (w_mutexes w a) = state_shared \<and> waitsets w (exclusive_waitset (w_mutexes w a)) = []"

definition shared_checks :: "nat \<Rightarrow> world \<Rightarrow> fault + (bool option \<times> world) \<Rightarrow> fault + (bool option \<times> world)" where
  "shared_checks a w k =
     (if exclusive_owner (w_mutexes w a) = my_id w then fail_test result_mutex_write_to_read_upgrade w
      else if shares a w
      then if mx_is_shared_recursive (w_mutexes w a) then Inr (Some True, count_shared a w)
           else fail_test result_recursion_on_nonrecursive_mutex w
      else k)"

definition lock_shared_round :: "user_fun \<Rightarrow> nat \<Rightarrow> world \<Rightarrow> fault + (bool option \<times> world)" where
  "lock_shared_round user_inv a w =
     (if admits_reader a w then Inr (Some True, own_shared a w)
      else rl_verify (my_id w \<noteq> exclusive_owner (w_mutexes w a))
             (rbind (park_current user_inv (shared_waitset (w_mutexes w a)) False False False w) (\<lambda>w. Inr (None, w))))"

text \<open>
  The shared operations are for reader-writer mutexes. The assertion on \<open>is_rw_\<close>, which is constant, comes
  before the \<open>sched()\<close> of the operation, the rest after it.
\<close>

definition rw_check :: "nat \<Rightarrow> world \<Rightarrow> fault + 'a \<Rightarrow> fault + 'a" where
  "rw_check a w k = rl_verify (mx_is_rw (w_mutexes w a)) k"

definition lock_shared :: "user_fun \<Rightarrow> nat \<Rightarrow> world \<Rightarrow> fault + (bool option \<times> world)" where
  "lock_shared user_inv a w = rw_check a w (mutex_enter a w (shared_checks a w (lock_shared_round user_inv a w)))"

text \<open>The reason of the wake-up is not looked at: the loop tries again.\<close>

definition lock_shared_resume :: "user_fun \<Rightarrow> nat \<Rightarrow> world \<Rightarrow> fault + (bool option \<times> world)" where
  "lock_shared_resume user_inv a w =
     rbind (park_current_end (shared_waitset (w_mutexes w a)) w) (\<lambda>(_, w). lock_shared_round user_inv a w)"

definition try_lock_shared :: "nat \<Rightarrow> world \<Rightarrow> fault + (bool option \<times> world)" where
  "try_lock_shared a w =
     rw_check a w (mutex_enter a w (shared_checks a w
       (if admits_reader a w
        then rbind (try_lock_fails a w) (\<lambda>(failed, w).
               if failed then Inr (Some False, w) else Inr (Some True, own_shared a w))
        else rl_verify (my_id w \<noteq> exclusive_owner (w_mutexes w a)) (Inr (Some False, w)))))"

definition unlock_shared :: "user_fun \<Rightarrow> nat \<Rightarrow> world \<Rightarrow> fault + world" where
  "unlock_shared user_inv a w =
     rw_check a w (mutex_enter a w
       (if \<not> shares a w then fail_test result_unlocking_mutex_wo_ownership w
        else rl_verify (shared_lock_count (w_mutexes w a) \<noteq> 0)
          (let i = th_index (cur_thread w);
               w = upd_mutex a (\<lambda>m. m\<lparr>shared_owner := (shared_owner m)(i := shared_owner m i - 1),
                                      shared_lock_count := shared_lock_count m - 1\<rparr>) w
           in if shared_lock_count (w_mutexes w a) \<noteq> 0
              then if shared_owner (w_mutexes w a) i \<noteq> 0
                   then rl_verify (mx_is_shared_recursive (w_mutexes w a)) (Inr w)
                   else Inr (mutex_sync sync_release a w)
              else let w = give_up a w
                   in rbind (wake_one user_inv (exclusive_waitset (w_mutexes w a)) w) (\<lambda>(_, w). Inr w))))"

text \<open>
  The choice is made before the \<open>sched()\<close> of the operation it selects; the result names that
  operation (\<open>True\<close> for the exclusive one).
\<close>

definition unlock_exclusive_or_shared :: "nat \<Rightarrow> world \<Rightarrow> bool" where
  "unlock_exclusive_or_shared a w = (exclusive_owner (w_mutexes w a) = my_id w)"

section \<open>The declared object\<close>

definition generic_mutex_init :: "nat \<Rightarrow> nat \<Rightarrow> nat \<Rightarrow> bool \<Rightarrow> bool \<Rightarrow> bool \<Rightarrow> bool \<Rightarrow> world \<Rightarrow> fault + world" where
  "generic_mutex_init es sys h is_rw is_exclusive_recursive is_shared_recursive failing_try_lock w =
     (if hd_impl (w_mutex_handle w h) \<noteq> None then fail_test result_double_initialization_of_mutex w
      else rbind (signature_check mutex_handle_magic (hd_sign (w_mutex_handle w h))) (\<lambda>_.
           rbind (object_alloc es sys Slab_mutex 0 w) (\<lambda>(a, w).
           rbind (mutex_ctor is_rw is_exclusive_recursive is_shared_recursive failing_try_lock a w) (\<lambda>w.
             Inr (w\<lparr>w_mutex_handle := (w_mutex_handle w)(h := (w_mutex_handle w h)\<lparr>hd_impl := Some a\<rparr>)\<rparr>)))))"

definition generic_mutex_deinit :: "nat \<Rightarrow> world \<Rightarrow> fault + world" where
  "generic_mutex_deinit h w =
     rbind (mutex_check h w) (\<lambda>a. rbind (mutex_dtor a w) (\<lambda>w.
       let w = object_free Slab_mutex a w
       in Inr (w\<lparr>w_mutex_handle := (w_mutex_handle w)(h := (w_mutex_handle w h)\<lparr>hd_impl := None\<rparr>)\<rparr>)))"

text \<open>\<open>std::mutex\<close> and \<open>std::recursive_mutex\<close>: initialised by their constructor.\<close>

definition std_mutex_ctor :: "nat \<Rightarrow> nat \<Rightarrow> bool \<Rightarrow> nat \<Rightarrow> world \<Rightarrow> fault + world" where
  "std_mutex_ctor es sys is_recursive h w = generic_mutex_init es sys h False is_recursive False True w"

definition std_mutex_dtor :: "nat \<Rightarrow> world \<Rightarrow> fault + world" where
  "std_mutex_dtor h w = generic_mutex_deinit h w"

end
