(* ===== verification/Mutex_History.thy ===== *)
theory Mutex_History
  imports Mutex "HOL-Library.Multiset"
begin

text \<open>
  A mutex against the history of its locks and unlocks: who holds it is a multiset computed from
  the history, and every operation keeps the mutex's fields in step with it.
\<close>

section \<open>The state of one mutex\<close>

lemma mutex_sync_simps [simp]:
  "w_mutexes (mutex_sync op a w) = (w_mutexes w)(a := (w_mutexes w a)\<lparr>mx_sync := sync_order op (mx_sync (w_mutexes w a)) w\<rparr>)"
  "cur (mutex_sync op a w) = cur w" "cx_n (mutex_sync op a w) = cx_n w" "waitsets (mutex_sync op a w) = waitsets w"
  "th_index (cur_thread (mutex_sync op a w)) = th_index (cur_thread w)"
  "acq_rel_order (cx_threads (mutex_sync op a w) (cur w)) = sync_clock op (mx_sync (w_mutexes w a)) w"
  by (simp_all add: mutex_sync_def set_clock_def upd_cur_def upd_th_def upd_mutex_def cur_def cur_thread_def Let_def)

lemma upd_mutex_simps [simp]:
  "w_mutexes (upd_mutex a f w) = (w_mutexes w)(a := f (w_mutexes w a))" "cur (upd_mutex a f w) = cur w"
  "cx_n (upd_mutex a f w) = cx_n w" "waitsets (upd_mutex a f w) = waitsets w"
  "cur_thread (upd_mutex a f w) = cur_thread w" "cx_threads (upd_mutex a f w) = cx_threads w"
  by (simp_all add: upd_mutex_def cur_def cur_thread_def)

lemma sync_upd_mutex [simp]:
  "sync_clock op v (upd_mutex a f w) = sync_clock op v w" "sync_order op v (upd_mutex a f w) = sync_order op v w"
  by (simp_all add: sync_clock_def sync_order_def)

lemma owner_codes [simp]:
  "state_free \<noteq> int t" "state_shared \<noteq> int t" "int t \<noteq> state_free" "int t \<noteq> state_shared" "state_free \<noteq> state_shared"
  "state_shared \<noteq> state_free" "state_free \<noteq> 0" "state_free \<noteq> 1" "state_shared \<noteq> 0" "state_shared \<noteq> 1"
  by (simp_all add: state_free_def state_shared_def)

text \<open>
  The state against the holders: \<open>X\<close> are the threads that hold the mutex exclusively and \<open>S\<close> those
  that share it, each as often as it has locked it.
\<close>

definition lock_state :: "nat multiset \<Rightarrow> nat multiset \<Rightarrow> mutex \<Rightarrow> bool" where
  "lock_state X S m \<longleftrightarrow>
     exclusive_recursion_count m = of_nat (size X) \<and> shared_lock_count m = of_nat (size S) \<and>
     (\<forall>t. shared_owner m t = of_nat (count S t)) \<and>
     (if exclusive_owner m = state_free then X = {#} \<and> S = {#}
      else if exclusive_owner m = state_shared then X = {#} \<and> S \<noteq> {#}
      else S = {#} \<and> (\<exists>t. exclusive_owner m = int t \<and> set_mset X = {t}) \<and> (mx_is_exclusive_recursive m \<or> size X = 1))"

lemma lock_state_fields:
  "lock_state X S (m\<lparr>mx_sync := v\<rparr>) = lock_state X S m" "lock_state X S (m\<lparr>try_lock_failed := b\<rparr>) = lock_state X S m"
  by (simp_all add: lock_state_def)

lemma lock_state_excludes:
  assumes "lock_state X S m"
  shows "(\<exists>t. set_mset X \<subseteq> {t}) \<and> (X = {#} \<or> S = {#}) \<and> (mx_is_exclusive_recursive m \<or> size X \<le> 1)"
  using assms by (auto simp: lock_state_def split: if_splits)

lemma state_grant_excl:
  assumes "lock_state X S m" "exclusive_owner m = state_free"
  shows "lock_state (add_mset t X) S (m\<lparr>mx_sync := v, exclusive_recursion_count := 1, exclusive_owner := int t\<rparr>)"
  using assms by (simp add: lock_state_def)

lemma state_again_excl:
  assumes "lock_state X S m" "exclusive_owner m = int t" "mx_is_exclusive_recursive m"
  shows "lock_state (add_mset t X) S (m\<lparr>exclusive_recursion_count := exclusive_recursion_count m + 1\<rparr>)"
  using assms by (simp add: lock_state_def)

lemma of_nat_pred: "0 < n \<Longrightarrow> (of_nat n :: 'a :: len word) - 1 = of_nat (n - 1)"
  by (cases n) simp_all

lemma of_nat_zero_small: "n < 2 ^ LENGTH('a) \<Longrightarrow> (of_nat n :: 'a :: len word) = 0 \<longleftrightarrow> n = 0"
  by (auto simp: word_of_nat_eq_0_iff dest: dvd_imp_le)

lemma state_drop_excl:
  assumes m: "lock_state X S m" "exclusive_owner m = int t" "size X < 2 ^ 32"
  shows "t \<in># X" and
    "exclusive_recursion_count m - 1 \<noteq> 0 \<Longrightarrow>
       lock_state (X - {#t#}) S (m\<lparr>exclusive_recursion_count := exclusive_recursion_count m - 1\<rparr>) \<and>
       t \<in># X - {#t#} \<and> mx_is_exclusive_recursive m" and
    "exclusive_recursion_count m - 1 = 0 \<Longrightarrow>
       lock_state (X - {#t#}) S (m\<lparr>exclusive_recursion_count := 0, mx_sync := v, exclusive_owner := state_free\<rparr>)"
proof -
  have X: "set_mset X = {t}" and S: "S = {#}" and r: "mx_is_exclusive_recursive m \<or> size X = 1"
    using m(1,2) by (auto simp: lock_state_def)
  show tX: "t \<in># X" using X by simp
  then obtain Y where Y: "X = add_mset t Y" by (metis insert_DiffM)
  have Yt: "set_mset Y \<subseteq> {t}" using X Y by auto
  have c: "exclusive_recursion_count m - 1 = of_nat (size Y)" using m(1) Y by (simp add: lock_state_def)
  have z: "exclusive_recursion_count m - 1 = 0 \<longleftrightarrow> Y = {#}"
    unfolding c using m(3) Y by (subst of_nat_zero_small) auto
  { assume "exclusive_recursion_count m - 1 \<noteq> 0"
    then have "Y \<noteq> {#}" using z by simp
    then have "set_mset Y = {t}" using Yt by auto
    then show "lock_state (X - {#t#}) S (m\<lparr>exclusive_recursion_count := exclusive_recursion_count m - 1\<rparr>) \<and>
       t \<in># X - {#t#} \<and> mx_is_exclusive_recursive m"
      using m(1,2) r \<open>Y \<noteq> {#}\<close> Y c by (auto simp: lock_state_def) }
  assume "exclusive_recursion_count m - 1 = 0"
  then have "Y = {#}" using z by simp
  then show "lock_state (X - {#t#}) S (m\<lparr>exclusive_recursion_count := 0, mx_sync := v, exclusive_owner := state_free\<rparr>)"
    using m(1) S Y by (simp add: lock_state_def)
qed

lemma state_grant_shared:
  assumes "lock_state X S m" "exclusive_owner m = state_free \<or> exclusive_owner m = state_shared"
  shows "lock_state X (add_mset t S) (m\<lparr>mx_sync := v, shared_owner := (shared_owner m)(t := shared_owner m t + 1),
           shared_lock_count := shared_lock_count m + 1, exclusive_owner := state_shared\<rparr>)"
  using assms by (auto simp: lock_state_def)

lemma state_again_shared:
  assumes "lock_state X S m" "exclusive_owner m = state_shared"
  shows "lock_state X (add_mset t S) (m\<lparr>shared_owner := (shared_owner m)(t := shared_owner m t + 1),
           shared_lock_count := shared_lock_count m + 1\<rparr>)"
  using assms by (auto simp: lock_state_def)

lemma state_drop_shared:
  assumes m: "lock_state X S m" "exclusive_owner m = state_shared" "shared_owner m t \<noteq> 0" "size S < 2 ^ 32"
  shows "t \<in># S" and
    "shared_lock_count m - 1 \<noteq> 0 \<Longrightarrow>
       lock_state X (S - {#t#}) (m\<lparr>shared_owner := (shared_owner m)(t := shared_owner m t - 1),
         shared_lock_count := shared_lock_count m - 1\<rparr>)" and
    "shared_lock_count m - 1 = 0 \<Longrightarrow>
       lock_state X (S - {#t#}) (m\<lparr>shared_owner := (shared_owner m)(t := shared_owner m t - 1),
         shared_lock_count := 0, mx_sync := v, exclusive_owner := state_free\<rparr>)" and
    "shared_owner m t - 1 = 0 \<longleftrightarrow> t \<notin># S - {#t#}"
proof -
  have so: "\<forall>t. shared_owner m t = of_nat (count S t)" and X: "X = {#}" using m(1,2) by (auto simp: lock_state_def)
  show tS: "t \<in># S" using m(3) so by (auto intro: ccontr simp: count_inI not_in_iff)
  then obtain Y where Y: "S = add_mset t Y" by (metis insert_DiffM)
  have c: "shared_lock_count m - 1 = of_nat (size Y)" using m(1) Y by (simp add: lock_state_def)
  have z: "shared_lock_count m - 1 = 0 \<longleftrightarrow> Y = {#}"
    unfolding c using m(4) Y by (subst of_nat_zero_small) auto
  have o: "(shared_owner m)(t := shared_owner m t - 1) = (\<lambda>u. of_nat (count Y u))"
    using so Y by (auto simp: fun_eq_iff)
  { assume "shared_lock_count m - 1 \<noteq> 0"
    then show "lock_state X (S - {#t#}) (m\<lparr>shared_owner := (shared_owner m)(t := shared_owner m t - 1),
         shared_lock_count := shared_lock_count m - 1\<rparr>)"
      unfolding o c using m(1,2) Y X z by (simp add: lock_state_def) }
  { assume "shared_lock_count m - 1 = 0"
    then show "lock_state X (S - {#t#}) (m\<lparr>shared_owner := (shared_owner m)(t := shared_owner m t - 1),
         shared_lock_count := 0, mx_sync := v, exclusive_owner := state_free\<rparr>)"
      unfolding o using m(1,2) Y X z by (simp add: lock_state_def) }
  have "count Y t < 2 ^ 64"
    using m(4) Y count_le_size [of Y t] by simp
  moreover have "shared_owner m t - 1 = of_nat (count Y t)" using so Y by simp
  ultimately show "shared_owner m t - 1 = 0 \<longleftrightarrow> t \<notin># S - {#t#}"
    using Y of_nat_zero_small [of "count Y t", where 'a = 64] by (simp add: not_in_iff)
qed


section \<open>Histories\<close>

datatype access = Excl | Shrd

text \<open>
  What a client of the mutex sees: a lock granted to a thread and a lock returned by one, each with
  the thread's clock when the operation was done. Histories are newest first.
\<close>

datatype lock_ev = Locked access nat vclock | Unlocked access nat vclock

fun holders :: "access \<Rightarrow> lock_ev list \<Rightarrow> nat multiset" where
  "holders acc [] = {#}"
| "holders acc (Locked acc' t c # evs) = (if acc' = acc then add_mset t (holders acc evs) else holders acc evs)"
| "holders acc (Unlocked acc' t c # evs) = (if acc' = acc then holders acc evs - {#t#} else holders acc evs)"

text \<open>Every unlock gives back what its thread holds.\<close>

fun well_paired :: "lock_ev list \<Rightarrow> bool" where
  "well_paired [] = True"
| "well_paired (Locked acc t c # evs) = well_paired evs"
| "well_paired (Unlocked acc t c # evs) = (t \<in># holders acc evs \<and> well_paired evs)"

datatype mutex_piece = P_lock bool | P_lock_resume bool | P_try_lock | P_unlock
  | P_lock_shared | P_lock_shared_resume | P_try_lock_shared | P_unlock_shared

text \<open>One piece of an operation, run by the current thread, and the event it ends in.\<close>

definition granted :: "access \<Rightarrow> nat \<Rightarrow> fault + (bool option \<times> world) \<Rightarrow> fault + (lock_ev list \<times> world)" where
  "granted acc i r =
     rbind r (\<lambda>(b, w). Inr (if b = Some True then [Locked acc (th_index (cx_threads w i)) (acq_rel_order (cx_threads w i))] else [], w))"

definition returned :: "access \<Rightarrow> nat \<Rightarrow> fault + world \<Rightarrow> fault + (lock_ev list \<times> world)" where
  "returned acc i r =
     rbind r (\<lambda>w. Inr ([Unlocked acc (th_index (cx_threads w i)) (acq_rel_order (cx_threads w i))], w))"

fun run_piece :: "user_fun \<Rightarrow> nat \<Rightarrow> mutex_piece \<Rightarrow> world \<Rightarrow> fault + (lock_ev list \<times> world)" where
  "run_piece user_inv a (P_lock is_timed) w = granted Excl (cur w) (lock_exclusive user_inv a is_timed w)"
| "run_piece user_inv a (P_lock_resume is_timed) w = granted Excl (cur w) (lock_exclusive_resume user_inv a is_timed w)"
| "run_piece user_inv a P_try_lock w = granted Excl (cur w) (try_lock_exclusive a w)"
| "run_piece user_inv a P_unlock w = returned Excl (cur w) (unlock_exclusive user_inv a w)"
| "run_piece user_inv a P_lock_shared w = granted Shrd (cur w) (lock_shared user_inv a w)"
| "run_piece user_inv a P_lock_shared_resume w = granted Shrd (cur w) (lock_shared_resume user_inv a w)"
| "run_piece user_inv a P_try_lock_shared w = granted Shrd (cur w) (try_lock_shared a w)"
| "run_piece user_inv a P_unlock_shared w = returned Shrd (cur w) (unlock_shared user_inv a w)"

text \<open>
  A run of the mutex at \<open>a\<close> from its construction: pieces of its operations by whatever thread is
  current, and between them anything that leaves the mutex alone. Nobody waits for it through
  \<open>wait_for_multiple_objects\<close>, which would take it inside the unlocking operation.
\<close>

inductive mutex_run :: "user_fun \<Rightarrow> nat \<Rightarrow> lock_ev list \<Rightarrow> world \<Rightarrow> bool" for user_inv a where
  run_start: "mutex_ctor rw xr sr ft a w0 = Inr w \<Longrightarrow> mutex_run user_inv a [] w"
| run_other: "mutex_run user_inv a evs w \<Longrightarrow> w_mutexes w' a = w_mutexes w a \<Longrightarrow> cx_n w' = cx_n w \<Longrightarrow>
    mutex_run user_inv a evs w'"
| run_piece: "mutex_run user_inv a evs w \<Longrightarrow> run_piece user_inv a p w = Inr (ev, w') \<Longrightarrow>
    \<forall>d \<in> set (waitsets w (exclusive_waitset (w_mutexes w a))) \<union> set (waitsets w (shared_waitset (w_mutexes w a))).
      \<not> d_do_switch d \<Longrightarrow>
    mutex_run user_inv a (ev @ evs) w'"

text \<open>The user's invariant does not touch mutexes (the mutex asserts that it is not called from it).\<close>

definition quiet :: "user_fun \<Rightarrow> bool" where
  "quiet user_inv \<longleftrightarrow> (\<forall>w w'. user_inv w = Inr w' \<longrightarrow> w_mutexes w' = w_mutexes w \<and> cx_n w' = cx_n w)"

definition same_mutexes :: "world \<Rightarrow> world \<Rightarrow> bool" where
  "same_mutexes w w' \<longleftrightarrow> w_mutexes w' = w_mutexes w \<and> cx_n w' = cx_n w"

lemma same_refl [simp]: "same_mutexes w w"
  by (simp add: same_mutexes_def)

lemma same_trans: "same_mutexes w w1 \<Longrightarrow> same_mutexes w1 w2 \<Longrightarrow> same_mutexes w w2"
  by (simp add: same_mutexes_def)

lemma same_upd [simp]:
  "same_mutexes w (w'\<lparr>cx_sched := s\<rparr>) = same_mutexes w w'" "same_mutexes w (w'\<lparr>waitsets := u\<rparr>) = same_mutexes w w'"
  "same_mutexes w (upd_th i f w') = same_mutexes w w'" "same_mutexes w (upd_cur f w') = same_mutexes w w'"
  "same_mutexes w (switch_to_fiber i w') = same_mutexes w w'" "same_mutexes w (w'\<lparr>disable_preempt := d\<rparr>) = same_mutexes w w'"
  "same_mutexes (w\<lparr>cx_sched := s\<rparr>) w' = same_mutexes w w'" "same_mutexes (upd_cur f w) w' = same_mutexes w w'"
  "same_mutexes (w\<lparr>disable_preempt := d\<rparr>) w' = same_mutexes w w'"
  by (simp_all add: same_mutexes_def upd_th_def upd_cur_def switch_to_fiber_def)

lemma check_invariant_same:
  assumes "quiet user_inv" "check_invariant user_inv w = Inr w'"
  shows "same_mutexes w w'"
proof -
  obtain w1 where "user_inv (w\<lparr>special_function_executing := True, invariant_executing := True\<rparr>) = Inr w1"
    "w' = w1\<lparr>invariant_executing := False, special_function_executing := False\<rparr>"
    using assms(2) by (auto simp: check_invariant_def rbind_Inr)
  then show ?thesis using assms(1) unfolding quiet_def same_mutexes_def by fastforce
qed

lemma schedule_same:
  assumes "quiet user_inv" "schedule user_inv y w = Inr w'"
  shows "same_mutexes w w'"
  using assms(2)
  by (fastforce simp: schedule_def Let_def fault_inv split: if_splits prod.splits
      dest: check_invariant_same [OF assms(1)])

lemma park_same:
  assumes "quiet user_inv" "park_current user_inv b tm sp sw w = Inr w'"
  shows "same_mutexes w w'"
proof -
  obtain w1 where p: "ws_push b \<lparr>d_th = cur w, d_count = 0, d_ws = None, d_wo = None, d_wait_all = False,
      d_do_switch = sw\<rparr> w = Inr w1" "park_current_thread user_inv tm sp sw w1 = Inr w'"
    using assms(2) by (auto simp: park_current_def rbind_Inr)
  have "same_mutexes w w1" using p(1) by (auto simp: ws_push_def fault_inv)
  moreover have "same_mutexes w1 w'"
    using p(2)
    by (auto simp: park_current_thread_def Let_def fault_inv fail_test_def split: if_splits prod.splits dest!: schedule_same [OF assms(1)])
  ultimately show ?thesis by (rule same_trans)
qed

lemma park_end_same:
  assumes "park_current_end b w = Inr (r, w')"
  shows "same_mutexes w w' \<and> cur w' = cur w \<and> th_index (cur_thread w') = th_index (cur_thread w)"
  using assms
  by (auto simp: park_current_end_def park_end_def schedule_end_def fault_inv Let_def check_switched_def ws_remove_def
      upd_cur_def upd_th_def cur_thread_def cur_def same_mutexes_def split: if_splits option.splits)


section \<open>What waking plain waiters changes\<close>

definition waits_frame :: "world \<Rightarrow> world \<Rightarrow> bool" where
  "waits_frame w w' \<longleftrightarrow>
     (\<exists>s ws. w' = w\<lparr>cx_sched := s, waitsets := ws\<rparr>) \<and> (\<forall>b. set (waitsets w' b) \<subseteq> set (waitsets w b))"

lemma waits_frame_refl [simp]: "waits_frame w w"
  unfolding waits_frame_def by (auto intro!: exI [of _ "cx_sched w"] exI [of _ "waitsets w"])

lemma waits_frame_trans: "waits_frame w w1 \<Longrightarrow> waits_frame w1 w2 \<Longrightarrow> waits_frame w w2"
proof -
  assume a: "waits_frame w w1" "waits_frame w1 w2"
  then obtain s ws s' ws' where e: "w1 = w\<lparr>cx_sched := s, waitsets := ws\<rparr>" "w2 = w1\<lparr>cx_sched := s', waitsets := ws'\<rparr>"
    by (auto simp: waits_frame_def)
  then have "w2 = w\<lparr>cx_sched := s', waitsets := ws'\<rparr>" by simp
  moreover have "set (waitsets w2 b) \<subseteq> set (waitsets w b)" for b using a by (meson waits_frame_def order_trans)
  ultimately show ?thesis unfolding waits_frame_def by blast
qed

lemma waits_frame_fields:
  assumes "waits_frame w w'"
  shows "w_mutexes w' = w_mutexes w" "cx_threads w' = cx_threads w" "cx_n w' = cx_n w" "threadx w' = threadx w" "cur w' = cur w"
    "set (waitsets w' b) \<subseteq> set (waitsets w b)"
  using assms by (auto simp: waits_frame_def cur_def)

lemma remove_desc_subset: "remove_desc th ds = Some ds' \<Longrightarrow> set ds' \<subseteq> set ds"
  by (induction ds arbitrary: ds') (auto split: if_splits)

lemma ws_remove_frame: "ws_remove th b w = Inr w' \<Longrightarrow> waits_frame w w'"
  unfolding waits_frame_def
  by (auto simp: ws_remove_def split: option.splits if_splits dest!: remove_desc_subset intro!: exI [of _ "cx_sched w"])

lemma ws_remove_all_frame: "ws_remove_all th bs w = Inr w' \<Longrightarrow> waits_frame w w'"
  unfolding ws_remove_all_def
  by (rule rfold_invariant [where P = "waits_frame w"]) (auto intro: waits_frame_trans ws_remove_frame)

lemma sched_upd_frame [simp]: "waits_frame w (w\<lparr>cx_sched := s\<rparr>)"
  unfolding waits_frame_def by (auto intro!: exI [of _ s] exI [of _ "waitsets w"])

lemma try_remove_frame:
  assumes "try_remove sig wk b i w = Inr (ok, w')" "\<forall>d \<in> set (waitsets w b). \<not> d_do_switch d"
  shows "waits_frame w w'"
proof -
  define d where "d = waitsets w b ! i"
  have i: "i < length (waitsets w b)" using assms(1) by (simp add: try_remove_def fault_inv)
  then have sw: "\<not> d_do_switch d" using assms(2) by (simp add: d_def)
  show ?thesis
  proof (cases ok)
    case False
    then have "w' = w" using assms(1) by (auto simp: try_remove_def fault_inv Let_def split: if_splits)
    then show ?thesis by simp
  next
    case True
    then obtain w1 where w1: "(case d_ws d of Some ws \<Rightarrow> ws_remove_all (d_th d) ws w | None \<Rightarrow> ws_remove (d_th d) b w) = Inr w1"
      "unpark_thread (wk (d_th d)) (d_th d) (d_do_switch d) w1 = Inr w'"
      using assms(1) by (auto simp: try_remove_def fault_inv Let_def d_def [symmetric] split: if_splits)
    have "waits_frame w w1"
      using w1(1) by (auto split: option.splits intro: ws_remove_frame ws_remove_all_frame)
    moreover have "waits_frame w1 w'" using w1(2) sw by (auto simp: unpark_thread_def fault_inv)
    ultimately show ?thesis by (rule waits_frame_trans)
  qed
qed

lemma unpark_scan_frame:
  assumes "unpark_scan sig wk b is w = Inr (ok, w')" "\<forall>d \<in> set (waitsets w b). \<not> d_do_switch d"
  shows "waits_frame w w'"
  using assms
proof (induction "is" arbitrary: w)
  case (Cons i "is")
  obtain ok1 w1 where w1: "try_remove sig wk b i w = Inr (ok1, w1)"
    "(if ok1 then Inr (True, w1) else unpark_scan sig wk b is w1) = Inr (ok, w')"
    using Cons.prems(1) by (auto simp: rbind_Inr)
  have f: "waits_frame w w1" using try_remove_frame [OF w1(1) Cons.prems(2)] .
  then have "\<forall>d \<in> set (waitsets w1 b). \<not> d_do_switch d" using Cons.prems(2) waits_frame_fields(6) by blast
  then show ?case using f w1(2) Cons.IH [of w1] by (auto split: if_splits intro: waits_frame_trans)
qed simp

lemma unpark_one_frame:
  assumes "unpark_one sig wk b w = Inr (ok, w')" "\<forall>d \<in> set (waitsets w b). \<not> d_do_switch d"
  shows "waits_frame w w'"
proof (cases "length (waitsets w b) = 0")
  case False
  obtain i w1 where r: "ctx_rand (length (waitsets w b)) sched_type_user w = Inr (i, w1)"
    "rbind (try_remove sig wk b i w1) (\<lambda>(ok, c). if ok then Inr (True, c)
        else unpark_scan sig wk b [0..<length (waitsets c b)] c) = Inr (ok, w')"
    using assms(1) False by (auto simp: unpark_one_def rbind_Inr)
  have f1: "waits_frame w w1" using r(1) by (auto simp: ctx_rand_def rbind_Inr)
  then have p1: "\<forall>d \<in> set (waitsets w1 b). \<not> d_do_switch d" using assms(2) waits_frame_fields(6) by blast
  obtain ok1 w2 where w2: "try_remove sig wk b i w1 = Inr (ok1, w2)"
    "(if ok1 then Inr (True, w2) else unpark_scan sig wk b [0..<length (waitsets w2 b)] w2) = Inr (ok, w')"
    using r(2) by (auto simp: rbind_Inr)
  have f2: "waits_frame w1 w2" using try_remove_frame [OF w2(1) p1] .
  then have "\<forall>d \<in> set (waitsets w2 b). \<not> d_do_switch d" using p1 waits_frame_fields(6) by blast
  then have "waits_frame w2 w'" using w2(2) by (auto split: if_splits intro: unpark_scan_frame)
  then show ?thesis using f1 f2 by (blast intro: waits_frame_trans)
qed (use assms(1) in \<open>simp add: unpark_one_def\<close>)

lemma unpark_all_loop_frame:
  assumes "unpark_all_loop sig wk b k i cnt w = Inr (r, w')" "\<forall>d \<in> set (waitsets w b). \<not> d_do_switch d"
  shows "waits_frame w w'"
  using assms
proof (induction k arbitrary: i cnt w)
  case (Suc k)
  show ?case
  proof (cases "i = length (waitsets w b)")
    case False
    then obtain ok1 w1 where w1: "try_remove sig wk b i w = Inr (ok1, w1)"
      "(if ok1 then unpark_all_loop sig wk b k i (cnt + 1) w1 else unpark_all_loop sig wk b k (i + 1) cnt w1) = Inr (r, w')"
      using Suc.prems(1) by (auto simp: rbind_Inr)
    have f: "waits_frame w w1" using try_remove_frame [OF w1(1) Suc.prems(2)] .
    then have "\<forall>d \<in> set (waitsets w1 b). \<not> d_do_switch d" using Suc.prems(2) waits_frame_fields(6) by blast
    then show ?thesis using f w1(2) Suc.IH [of _ _ w1] by (auto split: if_splits intro: waits_frame_trans)
  qed (use Suc.prems in simp)
qed (simp split: if_splits)

lemma unpark_all_frame:
  "unpark_all sig wk b w = Inr (r, w') \<Longrightarrow> \<forall>d \<in> set (waitsets w b). \<not> d_do_switch d \<Longrightarrow> waits_frame w w'"
  by (auto simp: unpark_all_def intro: unpark_all_loop_frame)


section \<open>Every operation keeps the history straight\<close>

text \<open>
  What the mutex's clock has seen: every unlock by which its thread let go of the mutex. And what a
  locking thread has seen: at its first lock, all of that.
\<close>

fun published :: "nat \<Rightarrow> vclock \<Rightarrow> lock_ev list \<Rightarrow> bool" where
  "published n v [] = True"
| "published n v (Locked acc t c # evs) = published n v evs"
| "published n v (Unlocked acc t c # evs) = ((t \<in># holders acc evs - {#t#} \<or> vle n c v) \<and> published n v evs)"

fun lock_ordered :: "nat \<Rightarrow> lock_ev list \<Rightarrow> bool" where
  "lock_ordered n [] = True"
| "lock_ordered n (Locked acc t c # evs) = ((t \<in># holders acc evs \<or> published n c evs) \<and> lock_ordered n evs)"
| "lock_ordered n (Unlocked acc t c # evs) = lock_ordered n evs"

lemma published_mono: "published n v evs \<Longrightarrow> vle n v v' \<Longrightarrow> published n v' evs"
  by (induction n v evs rule: published.induct) (auto intro: vle_trans)

lemma holders_size: "size (holders acc evs) \<le> length evs"
proof (induction acc evs rule: holders.induct)
  case (3 acc acc' t c evs)
  then show ?case using size_mset_mono [OF diff_subset_eq_self, of "holders acc evs" "{#t#}"] by auto
qed auto

definition history_ok :: "nat \<Rightarrow> lock_ev list \<Rightarrow> world \<Rightarrow> bool" where
  "history_ok a evs w \<longleftrightarrow>
     lock_state (holders Excl evs) (holders Shrd evs) (w_mutexes w a) \<and> well_paired evs \<and>
     published (cx_n w) (mx_sync (w_mutexes w a)) evs \<and> lock_ordered (cx_n w) evs"

lemma history_same: "history_ok a evs w \<Longrightarrow> same_mutexes w w' \<Longrightarrow> history_ok a evs w'"
  by (simp add: history_ok_def same_mutexes_def)

text \<open>\<open>keeps acc a evs i r\<close>: the lock that returned \<open>r\<close> to fiber \<open>i\<close> kept the history.\<close>

definition keeps :: "access \<Rightarrow> nat \<Rightarrow> lock_ev list \<Rightarrow> nat \<Rightarrow> fault + (lock_ev list \<times> world) \<Rightarrow> bool" where
  "keeps acc a evs i r \<longleftrightarrow> (\<forall>ev w'. r = Inr (ev, w') \<longrightarrow> history_ok a (ev @ evs) w')"

lemma keepsI: "(\<And>ev w'. r = Inr (ev, w') \<Longrightarrow> history_ok a (ev @ evs) w') \<Longrightarrow> keeps acc a evs i r"
  by (simp add: keeps_def)

lemma keeps_Inl [simp]: "keeps acc a evs i (granted acc i (Inl e))" "keeps acc a evs i (returned acc i (Inl e))"
  by (simp_all add: keeps_def granted_def returned_def)

lemma keeps_fail [simp]: "keeps acc a evs i (granted acc i (fail_test r w))"
proof (cases "fail_test r w :: fault + (bool option \<times> world)")
  case (Inr x)
  then show ?thesis by (auto simp: fail_test_def fault_inv Let_def)
qed simp

lemma keeps_verify: "(b \<Longrightarrow> keeps acc a evs i (granted acc i r)) \<Longrightarrow> keeps acc a evs i (granted acc i (rl_verify b r))"
  by (cases b) simp_all

lemma keeps_enter: "keeps acc a evs i (granted acc i r) \<Longrightarrow> keeps acc a evs i (granted acc i (mutex_enter a w r))"
  by (auto simp: mutex_enter_def granted_def keeps_def fault_inv)

lemma keeps_not: "history_ok a evs w' \<Longrightarrow> b \<noteq> Some True \<Longrightarrow> keeps acc a evs i (granted acc i (Inr (b, w')))"
  by (simp add: keeps_def granted_def)

lemma sync_acquire_joins: "vle n (snd (sync_acquire n t c v)) (fst (sync_acquire n t c v))"
  by (simp add: sync_acquire_def Let_def vle_join2)

lemma sync_release_publishes: "vle n v (snd (sync_release n t c v)) \<and> vle n (fst (sync_release n t c v)) (snd (sync_release n t c v))"
  by (simp add: sync_release_def Let_def vle_join1 vle_join2)

lemma sync_acquire_view [simp]: "sync_order sync_acquire v w = v"
  by (simp add: sync_order_def sync_acquire_def Let_def)

lemma acquired_clock: "vle (cx_n w) v (sync_clock sync_acquire v w)"
  using sync_acquire_joins [of "cx_n w" _ _ v] by (simp add: sync_clock_def sync_acquire_def Let_def)

text \<open>Taking the mutex, and taking it again.\<close>

lemma keeps_own_exclusive:
  assumes h: "history_ok a evs w" and f: "exclusive_owner (w_mutexes w a) = state_free"
  shows "keeps Excl a evs (cur w) (granted Excl (cur w) (Inr (Some True, own_exclusive a w)))"
proof -
  let ?w = "own_exclusive a w" and ?t = "th_index (cur_thread w)"
  have idx: "th_index (cx_threads ?w (cur w)) = ?t"
    using mutex_sync_simps(5) [of sync_acquire a w] by (simp add: own_exclusive_def cur_thread_def)
  have "lock_state (add_mset ?t (holders Excl evs)) (holders Shrd evs) (w_mutexes ?w a)"
    using state_grant_excl [of "holders Excl evs" "holders Shrd evs" "w_mutexes w a" ?t "mx_sync (w_mutexes w a)"] h f
    by (simp add: own_exclusive_def history_ok_def my_id_def)
  moreover have "published (cx_n w) (acq_rel_order (cx_threads ?w (cur w))) evs"
    using h acquired_clock by (auto simp: own_exclusive_def history_ok_def intro: published_mono)
  ultimately have "history_ok a (Locked Excl ?t (acq_rel_order (cx_threads ?w (cur w))) # evs) ?w"
    using h by (simp add: history_ok_def own_exclusive_def)
  then show ?thesis by (simp add: keeps_def granted_def idx)
qed

lemma keeps_own_shared:
  assumes h: "history_ok a evs w" and f: "exclusive_owner (w_mutexes w a) = state_free \<or> exclusive_owner (w_mutexes w a) = state_shared"
  shows "keeps Shrd a evs (cur w) (granted Shrd (cur w) (Inr (Some True, own_shared a w)))"
proof -
  let ?w = "own_shared a w" and ?t = "th_index (cur_thread w)"
  have idx: "th_index (cx_threads ?w (cur w)) = ?t"
    using mutex_sync_simps(5) [of sync_acquire a w] by (simp add: own_shared_def count_shared_def cur_thread_def)
  have "lock_state (holders Excl evs) (add_mset ?t (holders Shrd evs)) (w_mutexes ?w a)"
    using state_grant_shared [of "holders Excl evs" "holders Shrd evs" "w_mutexes w a" ?t "mx_sync (w_mutexes w a)"] h f
    by (simp add: own_shared_def count_shared_def history_ok_def)
  moreover have "published (cx_n w) (acq_rel_order (cx_threads ?w (cur w))) evs"
    using h acquired_clock by (auto simp: own_shared_def count_shared_def history_ok_def intro: published_mono)
  ultimately have "history_ok a (Locked Shrd ?t (acq_rel_order (cx_threads ?w (cur w))) # evs) ?w"
    using h by (simp add: history_ok_def own_shared_def count_shared_def)
  then show ?thesis by (simp add: keeps_def granted_def idx)
qed

lemma shares_holder:
  assumes "history_ok a evs w" "shares a w"
  shows "th_index (cur_thread w) \<in># holders Shrd evs"
  using assms by (auto simp: history_ok_def lock_state_def shares_def intro: ccontr simp: not_in_iff)

lemma owner_holder:
  assumes "history_ok a evs w" "exclusive_owner (w_mutexes w a) = my_id w"
  shows "th_index (cur_thread w) \<in># holders Excl evs"
  using assms by (auto simp: history_ok_def lock_state_def my_id_def)

lemma keeps_lock_checks:
  assumes h: "history_ok a evs w" and k: "keeps Excl a evs (cur w) (granted Excl (cur w) k)"
  shows "keeps Excl a evs (cur w) (granted Excl (cur w) (lock_checks a w k))"
proof (cases "shares a w \<or> exclusive_owner (w_mutexes w a) \<noteq> my_id w \<or> \<not> mx_is_exclusive_recursive (w_mutexes w a)")
  case True
  then show ?thesis using k by (auto simp: lock_checks_def)
next
  case False
  let ?t = "th_index (cur_thread w)"
  have "lock_state (add_mset ?t (holders Excl evs)) (holders Shrd evs)
      ((w_mutexes w a)\<lparr>exclusive_recursion_count := exclusive_recursion_count (w_mutexes w a) + 1\<rparr>)"
    using state_again_excl [of "holders Excl evs" "holders Shrd evs" "w_mutexes w a" ?t] h False
    by (simp add: history_ok_def my_id_def)
  then show ?thesis using h False owner_holder [OF h]
    by (simp add: keeps_def granted_def lock_checks_def history_ok_def cur_thread_def)
qed

lemma keeps_shared_checks:
  assumes h: "history_ok a evs w" and k: "keeps Shrd a evs (cur w) (granted Shrd (cur w) k)"
  shows "keeps Shrd a evs (cur w) (granted Shrd (cur w) (shared_checks a w k))"
proof (cases "exclusive_owner (w_mutexes w a) = my_id w \<or> \<not> shares a w \<or> \<not> mx_is_shared_recursive (w_mutexes w a)")
  case True
  then show ?thesis using k by (auto simp: shared_checks_def)
next
  case False
  let ?t = "th_index (cur_thread w)"
  have "lock_state (holders Excl evs) (add_mset ?t (holders Shrd evs))
      ((w_mutexes w a)\<lparr>shared_owner := (shared_owner (w_mutexes w a))(?t := shared_owner (w_mutexes w a) ?t + 1),
         shared_lock_count := shared_lock_count (w_mutexes w a) + 1\<rparr>)"
    using state_again_shared [of "holders Excl evs" "holders Shrd evs" "w_mutexes w a" ?t] h False
    by (simp add: history_ok_def shares_def)
  then show ?thesis using h False shares_holder [OF h]
    by (simp add: keeps_def granted_def shared_checks_def history_ok_def cur_thread_def count_shared_def)
qed

lemma keeps_park:
  assumes "history_ok a evs w" "quiet user_inv"
  shows "keeps acc a evs i (granted acc i (rbind (park_current user_inv b tm sp sw w) (\<lambda>w. Inr (None, w))))"
  using assms by (auto simp: keeps_def granted_def fault_inv dest: park_same intro: history_same)

lemma keeps_lock_round:
  assumes "history_ok a evs w" "quiet user_inv"
  shows "keeps Excl a evs (cur w) (granted Excl (cur w) (lock_exclusive_round user_inv a tm w))"
  unfolding lock_exclusive_round_def Let_def
  using assms by (auto intro!: keeps_verify keeps_own_exclusive keeps_park)

lemma keeps_shared_round:
  assumes "history_ok a evs w" "quiet user_inv"
  shows "keeps Shrd a evs (cur w) (granted Shrd (cur w) (lock_shared_round user_inv a w))"
  unfolding lock_shared_round_def
  using assms by (auto simp: admits_reader_def intro!: keeps_verify keeps_own_shared keeps_park)

lemma try_lock_fails_frame:
  assumes "try_lock_fails a w = Inr (b, w')" "history_ok a evs w"
  shows "history_ok a evs w' \<and> cur w' = cur w \<and> exclusive_owner (w_mutexes w' a) = exclusive_owner (w_mutexes w a)"
proof (cases "mx_failing_try_lock (w_mutexes w a) \<and> \<not> try_lock_failed (w_mutexes w a)")
  case True
  then obtain r s where "w' = (if r \<noteq> (0 :: nat) then upd_mutex a (\<lambda>m. m\<lparr>try_lock_failed := True\<rparr>) (w\<lparr>cx_sched := s\<rparr>) else w\<lparr>cx_sched := s\<rparr>)"
    using assms(1) by (auto simp: try_lock_fails_def rbind_Inr ctx_rand_def)
  then show ?thesis using assms(2) by (simp add: history_ok_def lock_state_fields cur_def upd_mutex_def)
qed (use assms in \<open>auto simp: try_lock_fails_def\<close>)

lemma keeps_try_lock:
  assumes h: "history_ok a evs w" and f: "exclusive_owner (w_mutexes w a) = state_free"
  shows "keeps Excl a evs (cur w) (granted Excl (cur w) (rbind (try_lock_fails a w) (\<lambda>(failed, w).
           if failed then Inr (Some False, w) else Inr (Some True, own_exclusive a w))))"
proof (cases "try_lock_fails a w")
  case (Inr x)
  obtain b w1 where x: "x = (b, w1)" by (cases x)
  have "history_ok a evs w1" "cur w1 = cur w" "exclusive_owner (w_mutexes w1 a) = state_free"
    using try_lock_fails_frame [OF _ h] Inr x f by auto
  then show ?thesis using Inr x keeps_own_exclusive [of a evs w1] by (auto intro: keeps_not)
qed simp

lemma keeps_try_lock_shared:
  assumes h: "history_ok a evs w"
    and f: "exclusive_owner (w_mutexes w a) = state_free \<or> exclusive_owner (w_mutexes w a) = state_shared"
  shows "keeps Shrd a evs (cur w) (granted Shrd (cur w) (rbind (try_lock_fails a w) (\<lambda>(failed, w).
           if failed then Inr (Some False, w) else Inr (Some True, own_shared a w))))"
proof (cases "try_lock_fails a w")
  case (Inr x)
  obtain b w1 where x: "x = (b, w1)" by (cases x)
  have "history_ok a evs w1" "cur w1 = cur w" "exclusive_owner (w_mutexes w1 a) = state_free \<or> exclusive_owner (w_mutexes w1 a) = state_shared"
    using try_lock_fails_frame [OF _ h] Inr x f by auto
  then show ?thesis using Inr x keeps_own_shared [of a evs w1] by (auto intro: keeps_not)
qed simp


text \<open>Giving it back.\<close>

lemma returned_fail [simp]: "keeps acc a evs i (returned acc i (fail_test r w))"
proof (cases "fail_test r w :: fault + world")
  case (Inr x)
  then show ?thesis by (auto simp: fail_test_def fault_inv Let_def)
qed simp

lemma released_clock: "vle (cx_n w) (sync_clock sync_release v w) (sync_order sync_release v w)"
  "vle (cx_n w) v (sync_order sync_release v w)"
  using sync_release_publishes [of "cx_n w" v] by (auto simp: sync_clock_def sync_order_def)

lemma give_up_simps [simp]:
  "w_mutexes (give_up a w) a = (w_mutexes w a)\<lparr>mx_sync := sync_order sync_release (mx_sync (w_mutexes w a)) w,
     exclusive_owner := state_free\<rparr>"
  "cx_n (give_up a w) = cx_n w" "cur (give_up a w) = cur w" "waitsets (give_up a w) = waitsets w"
  "acq_rel_order (cx_threads (give_up a w) (cur w)) = sync_clock sync_release (mx_sync (w_mutexes w a)) w"
  "th_index (cx_threads (give_up a w) (cur w)) = th_index (cur_thread w)"
  using mutex_sync_simps(5) [of sync_release a w] by (simp_all add: give_up_def cur_thread_def)

definition undisturbed :: "nat \<Rightarrow> world \<Rightarrow> bool" where
  "undisturbed a w \<longleftrightarrow>
     (\<forall>d \<in> set (waitsets w (exclusive_waitset (w_mutexes w a))) \<union> set (waitsets w (shared_waitset (w_mutexes w a))).
        \<not> d_do_switch d)"

lemma wake_writer_frame:
  assumes "wake_writer_or_readers user_inv a w = Inr w'" "undisturbed a w"
  shows "waits_frame w w'"
proof -
  obtain ok w1 where w1: "wake_one user_inv (exclusive_waitset (w_mutexes w a)) w = Inr (ok, w1)"
    "(if \<not> ok then rbind (wake_all user_inv (shared_waitset (w_mutexes w1 a)) w1) (\<lambda>(_, w). Inr w) else Inr w1) = Inr w'"
    using assms(1) by (auto simp: wake_writer_or_readers_def rbind_Inr)
  have f: "waits_frame w w1" using unpark_one_frame [OF w1(1)] assms(2) by (simp add: undisturbed_def)
  have p: "\<forall>d \<in> set (waitsets w1 (shared_waitset (w_mutexes w1 a))). \<not> d_do_switch d"
    using assms(2) waits_frame_fields(1,6) [OF f] by (auto simp: undisturbed_def)
  show ?thesis
  proof (cases ok)
    case False
    then obtain r where "wake_all user_inv (shared_waitset (w_mutexes w1 a)) w1 = Inr (r, w')"
      using w1(2) by (auto simp: rbind_Inr)
    then show ?thesis using unpark_all_frame [OF _ p] f by (blast intro: waits_frame_trans)
  qed (use w1(2) f in simp)
qed

lemma returned_released:
  assumes "history_ok a evs w" "lock_state (if acc = Excl then X else holders Excl evs) (if acc = Shrd then X else holders Shrd evs) m"
    and "X = holders acc evs - {#t#}" "t \<in># holders acc evs" "th_index (cur_thread w) = t"
    and "m = w_mutexes w' a" "mx_sync m = sync_order sync_release (mx_sync (w_mutexes w a)) w"
    and "acq_rel_order (cx_threads w' (cur w)) = sync_clock sync_release (mx_sync (w_mutexes w a)) w"
    and "th_index (cx_threads w' (cur w)) = t" "cx_n w' = cx_n w" "waits_frame w' w''"
  shows "keeps acc a evs (cur w) (returned acc (cur w) (Inr w''))"
proof -
  have f: "w_mutexes w'' = w_mutexes w'" "cx_threads w'' = cx_threads w'" "cx_n w'' = cx_n w'"
    using waits_frame_fields [OF assms(11)] by auto
  have "published (cx_n w) (mx_sync m) evs"
    using assms(1,7) released_clock(2) by (auto simp: history_ok_def intro: published_mono)
  moreover have "vle (cx_n w) (acq_rel_order (cx_threads w' (cur w))) (mx_sync m)"
    using assms(7,8) released_clock(1) by simp
  ultimately show ?thesis using assms(1-6,9,10)
    by (cases acc) (simp_all add: keeps_def returned_def history_ok_def f)
qed

lemma keeps_unlock:
  assumes h: "history_ok a evs w" and q: "undisturbed a w" and l: "length evs < 2 ^ 32"
  shows "keeps Excl a evs (cur w) (returned Excl (cur w) (unlock_exclusive user_inv a w))"
proof (rule keepsI)
  fix ev w'
  assume r: "returned Excl (cur w) (unlock_exclusive user_inv a w) = Inr (ev, w')"
  let ?m = "w_mutexes w a" and ?t = "th_index (cur_thread w)"
  let ?X = "holders Excl evs - {#?t#}"
  define w1 where "w1 = upd_mutex a (\<lambda>m. m\<lparr>exclusive_recursion_count := exclusive_recursion_count m - 1\<rparr>) w"
  have u: "unlock_exclusive user_inv a w = Inr w'" and ev: "ev = [Unlocked Excl (th_index (cx_threads w' (cur w))) (acq_rel_order (cx_threads w' (cur w)))]"
    using r by (auto simp: returned_def rbind_Inr)
  have o: "exclusive_owner ?m = int ?t"
    using u by (auto simp: unlock_exclusive_def mutex_enter_def fault_inv my_id_def fail_test_def Let_def split: if_splits)
  have ls: "lock_state (holders Excl evs) (holders Shrd evs) ?m" using h by (simp add: history_ok_def)
  have sz: "size (holders Excl evs) < 2 ^ 32" using holders_size [of Excl evs] l by simp
  note d = state_drop_excl [OF ls o sz]
  show "history_ok a (ev @ evs) w'"
  proof (cases "exclusive_recursion_count ?m - 1 = 0")
    case False
    then have "w' = w1" using u o by (auto simp: unlock_exclusive_def mutex_enter_def fault_inv my_id_def w1_def Let_def)
    then show ?thesis using d(1) d(2) [OF False] h ev by (simp add: history_ok_def w1_def cur_thread_def)
  next
    case True
    have w: "wake_writer_or_readers user_inv a (give_up a w1) = Inr w'"
      using u o True by (auto simp: unlock_exclusive_def mutex_enter_def fault_inv my_id_def w1_def Let_def)
    have "undisturbed a (give_up a w1)" using q by (simp add: undisturbed_def w1_def)
    then have f: "waits_frame (give_up a w1) w'" using wake_writer_frame [OF w] by simp
    have "keeps Excl a evs (cur w) (returned Excl (cur w) (Inr w'))"
      by (rule returned_released [OF h _ refl d(1) refl refl _ _ _ _ f])
        (use d(3) [OF True] True give_up_simps(5,6) [of a w1] in \<open>simp_all add: w1_def cur_thread_def\<close>)
    then show ?thesis using r u by (simp add: keeps_def)
  qed
qed

lemma keeps_unlock_shared:
  assumes h: "history_ok a evs w" and q: "undisturbed a w" and l: "length evs < 2 ^ 32"
  shows "keeps Shrd a evs (cur w) (returned Shrd (cur w) (unlock_shared user_inv a w))"
proof (rule keepsI)
  fix ev w'
  assume r: "returned Shrd (cur w) (unlock_shared user_inv a w) = Inr (ev, w')"
  let ?m = "w_mutexes w a" and ?t = "th_index (cur_thread w)"
  define w1 where "w1 = upd_mutex a (\<lambda>m. m\<lparr>shared_owner := (shared_owner m)(?t := shared_owner m ?t - 1),
                                      shared_lock_count := shared_lock_count m - 1\<rparr>) w"
  have u: "unlock_shared user_inv a w = Inr w'" and ev: "ev = [Unlocked Shrd (th_index (cx_threads w' (cur w))) (acq_rel_order (cx_threads w' (cur w)))]"
    using r by (auto simp: returned_def rbind_Inr)
  have s: "exclusive_owner ?m = state_shared" "shared_owner ?m ?t \<noteq> 0"
    using u by (auto simp: unlock_shared_def rw_check_def mutex_enter_def fault_inv shares_def fail_test_def Let_def split: if_splits)
  have ls: "lock_state (holders Excl evs) (holders Shrd evs) ?m" using h by (simp add: history_ok_def)
  have sz: "size (holders Shrd evs) < 2 ^ 32" using holders_size [of Shrd evs] l by simp
  note d = state_drop_shared [OF ls s sz]
  show "history_ok a (ev @ evs) w'"
  proof (cases "shared_lock_count ?m - 1 = 0")
    case False
    then have w: "w' = (if shared_owner ?m ?t - 1 \<noteq> 0 then w1 else mutex_sync sync_release a w1)"
      using u s by (auto simp: unlock_shared_def rw_check_def mutex_enter_def fault_inv shares_def w1_def Let_def split: if_splits)
    show ?thesis
    proof (cases "shared_owner ?m ?t - 1 = 0")
      case False
      then have "?t \<in># holders Shrd evs - {#?t#}" using d(4) by simp
      then show ?thesis using d(1) d(2) [OF \<open>shared_lock_count ?m - 1 \<noteq> 0\<close>] h ev w False
        by (simp add: history_ok_def w1_def cur_thread_def)
    next
      case True
      have "keeps Shrd a evs (cur w) (returned Shrd (cur w) (Inr w'))"
        by (rule returned_released [OF h _ refl d(1) refl refl, where w' = "mutex_sync sync_release a w1"])
          (use d(2) [OF False] True w mutex_sync_simps(5,6) [of sync_release a w1] in
            \<open>simp_all add: w1_def cur_thread_def lock_state_fields\<close>)
      then show ?thesis using r u by (simp add: keeps_def)
    qed
  next
    case True
    obtain b where w: "wake_one user_inv (exclusive_waitset ?m) (give_up a w1) = Inr (b, w')"
      using u s True by (auto simp: unlock_shared_def rw_check_def mutex_enter_def fault_inv shares_def w1_def Let_def split: if_splits)
    have f: "waits_frame (give_up a w1) w'"
      by (rule unpark_one_frame [OF w]) (use q in \<open>simp add: undisturbed_def w1_def\<close>)
    have "keeps Shrd a evs (cur w) (returned Shrd (cur w) (Inr w'))"
      by (rule returned_released [OF h _ refl d(1) refl refl _ _ _ _ f])
        (use d(3) [OF True] True give_up_simps(5,6) [of a w1] in \<open>simp_all add: w1_def cur_thread_def\<close>)
    then show ?thesis using r u by (simp add: keeps_def)
  qed
qed

end
