(* ===== verification/Mutex_Props.thy ===== *)
theory Mutex_Props
  imports Mutex_History
begin

text \<open>The properties of mutexes.\<close>

section \<open>Histories of runs\<close>

lemma mutex_ctor_history: "mutex_ctor rw xr sr ft a w0 = Inr w \<Longrightarrow> history_ok a [] w"
  by (auto simp: mutex_ctor_def fault_inv history_ok_def lock_state_def upd_mutex_def)

lemma keeps_piece:
  assumes h: "history_ok a evs w" and q: "quiet user_inv" and u: "undisturbed a w" and l: "length evs < 2 ^ 32"
    and r: "run_piece user_inv a p w = Inr (ev, w')"
  shows "history_ok a (ev @ evs) w'"
proof -
  have lr: "keeps Excl a evs (cur w) (granted Excl (cur w) (lock_exclusive_resume user_inv a tm w))" for tm
  proof (rule keepsI)
    fix ev w'
    assume g: "granted Excl (cur w) (lock_exclusive_resume user_inv a tm w) = Inr (ev, w')"
    then obtain reason w1 where w1: "park_current_end (exclusive_waitset (w_mutexes w a)) w = Inr (reason, w1)"
      "granted Excl (cur w) (if reason = unpark_timeout then Inr (Some False, mutex_sync sync_acquire a w1)
          else lock_exclusive_round user_inv a tm w1) = Inr (ev, w')"
      by (auto simp: granted_def lock_exclusive_resume_def fault_inv split: prod.splits)
    have s: "same_mutexes w w1" "cur w1 = cur w" using park_end_same [OF w1(1)] by auto
    have h1: "history_ok a evs w1" using history_same [OF h s(1)] .
    have hs: "history_ok a evs (mutex_sync sync_acquire a w1)" using h1 by (simp add: history_ok_def lock_state_fields)
    show "history_ok a (ev @ evs) w'"
    proof (cases "reason = unpark_timeout")
      case True
      then show ?thesis using w1(2) hs by (simp add: granted_def)
    next
      case False
      then show ?thesis using w1(2) keeps_lock_round [OF h1 q, of tm] s(2) by (simp add: keeps_def)
    qed
  qed
  have sr: "keeps Shrd a evs (cur w) (granted Shrd (cur w) (lock_shared_resume user_inv a w))"
  proof (rule keepsI)
    fix ev w'
    assume g: "granted Shrd (cur w) (lock_shared_resume user_inv a w) = Inr (ev, w')"
    then obtain reason w1 where w1: "park_current_end (shared_waitset (w_mutexes w a)) w = Inr (reason, w1)"
      "granted Shrd (cur w) (lock_shared_round user_inv a w1) = Inr (ev, w')"
      by (auto simp: granted_def lock_shared_resume_def fault_inv split: prod.splits)
    have s: "same_mutexes w w1" "cur w1 = cur w" using park_end_same [OF w1(1)] by auto
    have "keeps Shrd a evs (cur w1) (granted Shrd (cur w1) (lock_shared_round user_inv a w1))"
      using keeps_shared_round [OF history_same [OF h s(1)] q] .
    then show "history_ok a (ev @ evs) w'" using w1(2) s(2) by (simp add: keeps_def)
  qed
  have tx: "keeps Excl a evs (cur w) (granted Excl (cur w) (try_lock_exclusive a w))"
    unfolding try_lock_exclusive_def using h
    by (auto intro!: keeps_enter keeps_lock_checks keeps_verify keeps_try_lock keeps_not)
  have ts: "keeps Shrd a evs (cur w) (granted Shrd (cur w) (try_lock_shared a w))"
    unfolding try_lock_shared_def rw_check_def using h
    by (auto simp: admits_reader_def intro!: keeps_verify keeps_enter keeps_shared_checks keeps_verify keeps_try_lock_shared keeps_not)
  have lx: "keeps Excl a evs (cur w) (granted Excl (cur w) (lock_exclusive user_inv a tm w))" for tm
    unfolding lock_exclusive_def using h q by (intro keeps_enter keeps_lock_checks keeps_lock_round)
  have ls: "keeps Shrd a evs (cur w) (granted Shrd (cur w) (lock_shared user_inv a w))"
    unfolding lock_shared_def rw_check_def using h q by (intro keeps_verify keeps_enter keeps_shared_checks keeps_shared_round)
  show ?thesis
    using r lr lx tx ls sr ts keeps_unlock [OF h u l, of user_inv] keeps_unlock_shared [OF h u l, of user_inv]
    by (cases p) (simp_all add: keeps_def)
qed

lemma run_history:
  assumes "mutex_run user_inv a evs w" "quiet user_inv" "length evs < 2 ^ 32"
  shows "history_ok a evs w"
  using assms
proof (induction rule: mutex_run.induct)
  case (run_start rw xr sr ft w0 w)
  then show ?case by (blast intro: mutex_ctor_history)
next
  case (run_other evs w w')
  then show ?case by (simp add: history_ok_def)
next
  case (run_piece evs w p ev w')
  then show ?case using keeps_piece [of a evs w user_inv p ev w'] by (simp add: undisturbed_def)
qed

lemma run_piece_one: "run_piece user_inv a p w = Inr (ev, w') \<Longrightarrow> length ev \<le> 1"
  by (cases p) (auto simp: granted_def returned_def fault_inv split: if_splits)

lemma run_suffix:
  "mutex_run user_inv a evs w \<Longrightarrow> evs = xs @ ys \<Longrightarrow> \<exists>w'. mutex_run user_inv a ys w'"
proof (induction arbitrary: xs rule: mutex_run.induct)
  case (run_piece evs w p ev w')
  show ?case
  proof (cases xs)
    case Nil
    then show ?thesis using run_piece mutex_run.run_piece by (metis append_Nil)
  next
    case (Cons x xs')
    then have "\<exists>zs. evs = zs @ ys"
      using run_piece.prems run_piece_one [OF run_piece.hyps(2)] by (cases ev) auto
    then show ?thesis using run_piece.IH by blast
  qed
qed (auto intro: mutex_run.intros)

lemma published_at:
  "published n v (xs @ Unlocked acc t c # zs) \<Longrightarrow> t \<in># holders acc zs - {#t#} \<or> vle n c v"
  by (induction n v xs rule: published.induct) auto

lemma lock_ordered_at:
  "lock_ordered n (xs @ Locked acc u d # ys) \<Longrightarrow> u \<in># holders acc ys \<or> published n d ys"
  by (induction n xs rule: lock_ordered.induct) auto

section \<open>A sample run\<close>

text \<open>Thread 0 locks a new mutex and unlocks it; then thread 1 locks it.\<close>

definition mutex_sample :: "nat \<Rightarrow> world" where
  "mutex_sample i = (upd_mutex 8192 (\<lambda>_. \<lparr>mx_sign = signature_ctor mutex_magic 8192, mx_is_rw = True,
      mx_is_exclusive_recursive = False, mx_is_shared_recursive = False, mx_failing_try_lock = False, mx_sync = (\<lambda>_. 0),
      exclusive_owner = state_free, exclusive_recursion_count = 0, exclusive_waitset = 8192, shared_waitset = 8193,
      shared_owner = (\<lambda>_. 0), shared_lock_count = 0, try_lock_failed = False\<rparr>) parked_sample)\<lparr>threadx := Some i\<rparr>"

definition clock_of :: "nat \<Rightarrow> world \<Rightarrow> vclock" where
  "clock_of i w = acq_rel_order (cx_threads w i)"

lemma mutex_sample_ctor: "mutex_ctor True False False False 8192 parked_sample = Inr (mutex_sample 0)"
proof -
  have "(\<lambda>_. [])(8192 := [], 8193 := []) = (\<lambda>_ :: nat. [])" by (simp add: fun_eq_iff)
  then show ?thesis
    by (simp add: mutex_ctor_def mutex_sample_def upd_mutex_def parked_sample_def)
qed

lemma sample_indices [simp]: "th_index (cx_threads (own_exclusive a w) i) = th_index (cx_threads w i)"
  "th_index (cx_threads (give_up a w) i) = th_index (cx_threads w i)"
  by (simp_all add: own_exclusive_def give_up_def mutex_sync_def set_clock_def upd_cur_def upd_th_def upd_mutex_def Let_def)

lemma mutex_sample_fields:
  "w_mutexes (mutex_sample i) 8192 = \<lparr>mx_sign = signature_ctor mutex_magic 8192, mx_is_rw = True,
      mx_is_exclusive_recursive = False, mx_is_shared_recursive = False, mx_failing_try_lock = False, mx_sync = (\<lambda>_. 0),
      exclusive_owner = state_free, exclusive_recursion_count = 0, exclusive_waitset = 8192, shared_waitset = 8193,
      shared_owner = (\<lambda>_. 0), shared_lock_count = 0, try_lock_failed = False\<rparr>"
  "cur (mutex_sample i) = i" "waitsets (mutex_sample i) = (\<lambda>_. [])" "th_index (cx_threads (mutex_sample i) j) = j"
  "\<not> invariant_executing (mutex_sample i)" "sig_ok mutex_magic (signature_ctor mutex_magic 8192)"
  "cx_n (mutex_sample i) = 2"
  by (simp_all add: mutex_sample_def upd_mutex_def parked_sample_def cur_def sample_thread_def sig_ok_def
      signature_check_def signature_ctor_def mutex_magic_def)

lemma quiet_Inr [simp]: "quiet Inr"
  by (simp add: quiet_def)

lemma sample_run_0: "mutex_run Inr 8192 [] (mutex_sample 0)"
  by (rule run_start [OF mutex_sample_ctor])

lemma own_exclusive_fields [simp]:
  "w_mutexes (own_exclusive a w) a = (w_mutexes w a)\<lparr>exclusive_recursion_count := 1, exclusive_owner := my_id w\<rparr>"
  "cur (own_exclusive a w) = cur w" "waitsets (own_exclusive a w) = waitsets w" "cx_n (own_exclusive a w) = cx_n w"
  "invariant_executing (own_exclusive a w) = invariant_executing w"
  by (simp_all add: own_exclusive_def my_id_def)
    (simp add: mutex_sync_def set_clock_def upd_cur_def upd_th_def upd_mutex_def Let_def)

lemma sample_run_1:
  "mutex_run Inr 8192 [Locked Excl 0 (clock_of 0 (own_exclusive 8192 (mutex_sample 0)))] (own_exclusive 8192 (mutex_sample 0))"
proof -
  have "run_piece Inr 8192 (P_lock False) (mutex_sample 0) =
    Inr ([Locked Excl 0 (clock_of 0 (own_exclusive 8192 (mutex_sample 0)))], own_exclusive 8192 (mutex_sample 0))"
    by (simp add: granted_def lock_exclusive_def mutex_enter_def lock_checks_def shares_def my_id_def
        lock_exclusive_round_def mutex_sample_fields clock_of_def cur_thread_def)
  from run_piece [OF sample_run_0 this] show ?thesis by (simp add: mutex_sample_fields)
qed

definition sample_unlocked :: world where
  "sample_unlocked = give_up 8192 (upd_mutex 8192 (\<lambda>m. m\<lparr>exclusive_recursion_count := exclusive_recursion_count m - 1\<rparr>)
     (own_exclusive 8192 (mutex_sample 0)))"

lemma sample_run_2:
  "mutex_run Inr 8192 [Unlocked Excl 0 (clock_of 0 sample_unlocked), Locked Excl 0 (clock_of 0 (own_exclusive 8192 (mutex_sample 0)))]
     sample_unlocked"
proof -
  have "invariant_executing (give_up a w) = invariant_executing w" for a w
    by (simp add: give_up_def mutex_sync_def set_clock_def upd_cur_def upd_th_def upd_mutex_def Let_def)
  then have "run_piece Inr 8192 P_unlock (own_exclusive 8192 (mutex_sample 0)) =
    Inr ([Unlocked Excl 0 (clock_of 0 sample_unlocked)], sample_unlocked)"
    by (simp add: returned_def unlock_exclusive_def mutex_enter_def my_id_def Let_def mutex_sample_fields cur_thread_def
        wake_writer_or_readers_def unpark_one_def unpark_all_def clock_of_def sample_unlocked_def)
  from run_piece [OF sample_run_1 this] show ?thesis by (simp add: mutex_sample_fields)
qed

lemma sample_run_3:
  "\<exists>d w. mutex_run Inr 8192 ([] @ Locked Excl 1 d # [] @ Unlocked Excl 0 (clock_of 0 sample_unlocked) #
     [Locked Excl 0 (clock_of 0 (own_exclusive 8192 (mutex_sample 0)))]) w \<and> cx_n w = 2 \<and> d = clock_of 1 w"
proof -
  define w where "w = sample_unlocked\<lparr>threadx := Some 1\<rparr>"
  have f: "w_mutexes w 8192 = w_mutexes sample_unlocked 8192" "cx_n w = 2" "cur w = 1" "waitsets w = (\<lambda>_. [])"
    "th_index (cx_threads w j) = j" "\<not> invariant_executing w" for j
    by (simp_all add: w_def sample_unlocked_def mutex_sample_fields cur_def)
      (simp add: give_up_def mutex_sync_def set_clock_def upd_cur_def upd_th_def upd_mutex_def Let_def mutex_sample_fields)
  have m: "exclusive_owner (w_mutexes w 8192) = state_free" "exclusive_recursion_count (w_mutexes w 8192) = 0"
    "sig_ok mutex_magic (mx_sign (w_mutexes w 8192))" "exclusive_waitset (w_mutexes w 8192) = 8192"
    by (simp_all add: f(1) sample_unlocked_def mutex_sample_fields)
  have "run_piece Inr 8192 (P_lock False) w = Inr ([Locked Excl 1 (clock_of 1 (own_exclusive 8192 w))], own_exclusive 8192 w)"
    using f m by (simp add: granted_def lock_exclusive_def mutex_enter_def lock_checks_def shares_def my_id_def
        lock_exclusive_round_def clock_of_def cur_thread_def)
  moreover have "mutex_run Inr 8192 [Unlocked Excl 0 (clock_of 0 sample_unlocked), Locked Excl 0 (clock_of 0 (own_exclusive 8192 (mutex_sample 0)))] w"
    by (rule run_other [OF sample_run_2]) (simp_all add: f, simp add: sample_unlocked_def mutex_sample_fields)
  ultimately show ?thesis using run_piece f by fastforce
qed

section \<open>Mutual exclusion\<close>

text \<open>
  C26. A mutex excludes. Over every run from its construction, with operations of any threads in
  any order and with threads that block in between: at every moment at most one thread holds it
  exclusively, nobody shares it meanwhile, a mutex that is not recursive is held exclusively at
  most once, and every unlock that is accepted gives back a lock of the calling thread.
\<close>

theorem mutex_mutual_exclusion:
  assumes "mutex_run user_inv a evs w" "quiet user_inv" "length evs < 2 ^ 32"
  shows "well_paired evs \<and> (mx_is_exclusive_recursive (w_mutexes w a) \<or> size (holders Excl evs) \<le> 1) \<and>
    (\<forall>xs ys. evs = xs @ ys \<longrightarrow>
       (\<exists>t. set_mset (holders Excl ys) \<subseteq> {t}) \<and> (holders Excl ys = {#} \<or> holders Shrd ys = {#}))"
proof -
  have h: "history_ok a evs w" using run_history [OF assms] .
  have "(\<exists>t. set_mset (holders Excl ys) \<subseteq> {t}) \<and> (holders Excl ys = {#} \<or> holders Shrd ys = {#})"
    if split: "evs = xs @ ys" for xs ys
  proof -
    obtain w' where "mutex_run user_inv a ys w'" using run_suffix [OF assms(1) split] by blast
    then have "history_ok a ys w'" using run_history assms(2,3) split by simp
    then show ?thesis using lock_state_excludes by (auto simp: history_ok_def)
  qed
  moreover have "mx_is_exclusive_recursive (w_mutexes w a) \<or> size (holders Excl evs) \<le> 1"
    using h lock_state_excludes [of "holders Excl evs" "holders Shrd evs" "w_mutexes w a"] by (simp add: history_ok_def)
  ultimately show ?thesis using h by (simp add: history_ok_def)
qed

theorem mutex_mutual_exclusion_witness:
  "mutex_run Inr 8192 [Locked Excl 0 (clock_of 0 (own_exclusive 8192 (mutex_sample 0)))] (own_exclusive 8192 (mutex_sample 0)) \<and>
   set_mset (holders Excl [Locked Excl 0 (clock_of 0 (own_exclusive 8192 (mutex_sample 0)))]) = {0} \<and>
   well_paired [Locked Excl 0 (clock_of 0 (own_exclusive 8192 (mutex_sample 0)))]"
  using mutex_mutual_exclusion [OF sample_run_1] sample_run_1 by simp

section \<open>Ordering\<close>

text \<open>
  C27. A mutex orders critical sections. In every run, a thread that locks the mutex anew has in
  its clock everything that any thread knew when it let go of the mutex before: accesses in earlier
  sections happen before those in later ones.
\<close>

theorem mutex_orders_sections:
  assumes "mutex_run user_inv a (xs @ Locked acc u d # ys @ Unlocked acc' t c # zs) w" "quiet user_inv"
    "length (xs @ Locked acc u d # ys @ Unlocked acc' t c # zs) < 2 ^ 32"
    and "u \<notin># holders acc (ys @ Unlocked acc' t c # zs)" "t \<notin># holders acc' (Unlocked acc' t c # zs)"
  shows "vle (cx_n w) c d"
proof -
  have "lock_ordered (cx_n w) (xs @ Locked acc u d # (ys @ Unlocked acc' t c # zs))"
    using run_history [OF assms(1-3)] by (simp add: history_ok_def)
  then have "published (cx_n w) d (ys @ Unlocked acc' t c # zs)" using lock_ordered_at assms(4) by fastforce
  then show ?thesis using published_at assms(5) by fastforce
qed

theorem mutex_orders_sections_witness:
  "\<exists>d w. mutex_run Inr 8192 ([] @ Locked Excl 1 d # [] @ Unlocked Excl 0 (clock_of 0 sample_unlocked) #
     [Locked Excl 0 (clock_of 0 (own_exclusive 8192 (mutex_sample 0)))]) w \<and> vle 2 (clock_of 0 sample_unlocked) (clock_of 1 w)"
proof -
  obtain d w where w: "mutex_run Inr 8192 ([] @ Locked Excl 1 d # [] @ Unlocked Excl 0 (clock_of 0 sample_unlocked) #
     [Locked Excl 0 (clock_of 0 (own_exclusive 8192 (mutex_sample 0)))]) w" "cx_n w = 2" "d = clock_of 1 w"
    using sample_run_3 by blast
  have "vle (cx_n w) (clock_of 0 sample_unlocked) d" by (rule mutex_orders_sections [OF w(1)]) simp_all
  then show ?thesis using w by auto
qed

section \<open>Answers\<close>

lemma holder_state:
  assumes "history_ok a evs w" "length evs < 2 ^ 32"
  shows "shares a w \<longleftrightarrow> th_index (cur_thread w) \<in># holders Shrd evs"
    "exclusive_owner (w_mutexes w a) = my_id w \<longleftrightarrow> th_index (cur_thread w) \<in># holders Excl evs"
    "exclusive_owner (w_mutexes w a) = state_free \<longleftrightarrow> holders Excl evs = {#} \<and> holders Shrd evs = {#}"
    "exclusive_owner (w_mutexes w a) = state_shared \<longleftrightarrow> holders Shrd evs \<noteq> {#}"
proof -
  have ls: "lock_state (holders Excl evs) (holders Shrd evs) (w_mutexes w a)" using assms(1) by (simp add: history_ok_def)
  show "exclusive_owner (w_mutexes w a) = my_id w \<longleftrightarrow> th_index (cur_thread w) \<in># holders Excl evs"
    and "exclusive_owner (w_mutexes w a) = state_free \<longleftrightarrow> holders Excl evs = {#} \<and> holders Shrd evs = {#}"
    and sh: "exclusive_owner (w_mutexes w a) = state_shared \<longleftrightarrow> holders Shrd evs \<noteq> {#}"
    using ls by (auto simp: lock_state_def my_id_def split: if_splits)
  let ?t = "th_index (cur_thread w)"
  have "count (holders Shrd evs) ?t < 2 ^ 64"
    using count_le_size [of "holders Shrd evs" ?t] holders_size [of Shrd evs] assms(2) by simp
  then have "shared_owner (w_mutexes w a) ?t \<noteq> 0 \<longleftrightarrow> ?t \<in># holders Shrd evs"
    using ls of_nat_zero_small [of "count (holders Shrd evs) ?t", where 'a = 64] by (simp add: lock_state_def not_in_iff)
  then show "shares a w \<longleftrightarrow> ?t \<in># holders Shrd evs"
    using sh by (auto simp: shares_def)
qed

lemma owner_none:
  assumes "history_ok a evs w"
  shows "exclusive_owner (w_mutexes w a) = state_free \<Longrightarrow> exclusive_recursion_count (w_mutexes w a) = 0"
  using assms by (auto simp: history_ok_def lock_state_def)

lemma misuse_reported:
  "fail_test result_mutex_read_to_write_upgrade w = Inl (Test_failed result_mutex_read_to_write_upgrade)"
  "fail_test result_mutex_write_to_read_upgrade w = Inl (Test_failed result_mutex_write_to_read_upgrade)"
  "fail_test result_recursion_on_nonrecursive_mutex w = Inl (Test_failed result_recursion_on_nonrecursive_mutex)"
  "fail_test result_unlocking_mutex_wo_ownership w = Inl (Test_failed result_unlocking_mutex_wo_ownership)"
  by (simp_all add: fail_test_def)

text \<open>
  C28. A mutex reports exactly the misuses it should. In every run, what a lock or an unlock answers
  is decided by who holds the mutex: locking for writing while reading, locking for reading while
  writing, locking again a mutex that is not recursive and unlocking what one does not hold each
  end the test with their own result; a mutex that nobody holds is granted; one that somebody else
  holds exclusively refuses a try. The shared operations are for reader-writer mutexes: on any other
  mutex each of them fails its assertion.
\<close>

theorem mutex_answers:
  assumes "mutex_run user_inv a evs w" "quiet user_inv" "length evs < 2 ^ 32"
    "sig_ok mutex_magic (mx_sign (w_mutexes w a))" "\<not> invariant_executing w"
  shows "let t = th_index (cur_thread w); X = holders Excl evs; S = holders Shrd evs; m = w_mutexes w a in
    (if t \<in># S
     then lock_exclusive user_inv a is_timed w = Inl (Test_failed result_mutex_read_to_write_upgrade) \<and>
       try_lock_exclusive a w = Inl (Test_failed result_mutex_read_to_write_upgrade)
     else if t \<in># X
     then (if mx_is_exclusive_recursive m then \<exists>w'. lock_exclusive user_inv a is_timed w = Inr (Some True, w')
           else lock_exclusive user_inv a is_timed w = Inl (Test_failed result_recursion_on_nonrecursive_mutex))
     else if X = {#} \<and> S = {#}
     then \<exists>w'. lock_exclusive user_inv a is_timed w = Inr (Some True, w')
     else try_lock_exclusive a w = Inr (Some False, w)) \<and>
    (t \<notin># X \<longrightarrow> unlock_exclusive user_inv a w = Inl (Test_failed result_unlocking_mutex_wo_ownership)) \<and>
    (if mx_is_rw m
     then (if t \<in># S
           then (if mx_is_shared_recursive m then \<exists>w'. lock_shared user_inv a w = Inr (Some True, w')
                 else lock_shared user_inv a w = Inl (Test_failed result_recursion_on_nonrecursive_mutex))
           else if t \<in># X
           then lock_shared user_inv a w = Inl (Test_failed result_mutex_write_to_read_upgrade) \<and>
             try_lock_shared a w = Inl (Test_failed result_mutex_write_to_read_upgrade)
           else if X = {#} \<and> S = {#}
           then \<exists>w'. lock_shared user_inv a w = Inr (Some True, w')
           else X \<noteq> {#} \<longrightarrow> try_lock_shared a w = Inr (Some False, w)) \<and>
       (t \<notin># S \<longrightarrow> unlock_shared user_inv a w = Inl (Test_failed result_unlocking_mutex_wo_ownership))
     else lock_shared user_inv a w = Inl Verify_failed \<and> try_lock_shared a w = Inl Verify_failed \<and>
       unlock_shared user_inv a w = Inl Verify_failed)"
proof -
  let ?t = "th_index (cur_thread w)" and ?X = "holders Excl evs" and ?S = "holders Shrd evs"
  have h: "history_ok a evs w" using run_history [OF assms(1-3)] .
  note st = holder_state [OF h assms(3)]
  have ex: "?X = {#} \<or> ?S = {#}" using h lock_state_excludes by (auto simp: history_ok_def)
  note d = lock_exclusive_def try_lock_exclusive_def lock_shared_def try_lock_shared_def rw_check_def mutex_enter_def
    lock_checks_def shared_checks_def lock_exclusive_round_def lock_shared_round_def admits_reader_def Let_def
  have free: "exclusive_recursion_count (w_mutexes w a) = 0" if "?X = {#}" "?S = {#}" using owner_none [OF h] st(3) that by blast
  have u1: "?t \<notin># ?X \<Longrightarrow> unlock_exclusive user_inv a w = Inl (Test_failed result_unlocking_mutex_wo_ownership)"
    using st assms(4,5) by (simp add: misuse_reported unlock_exclusive_def mutex_enter_def)
  have u2: "unlock_shared user_inv a w = (if mx_is_rw (w_mutexes w a)
      then Inl (Test_failed result_unlocking_mutex_wo_ownership) else Inl Verify_failed)" if "?t \<notin># ?S"
    using st assms(4,5) that by (simp add: misuse_reported unlock_shared_def rw_check_def mutex_enter_def)
  have u3: "\<not> mx_is_rw (w_mutexes w a) \<Longrightarrow> unlock_shared user_inv a w = Inl Verify_failed"
    by (simp add: unlock_shared_def rw_check_def)
  consider "?t \<in># ?S" | "?t \<notin># ?S" "?t \<in># ?X" | "?X = {#}" "?S = {#}" | "?t \<notin># ?S" "?t \<notin># ?X" "?X \<noteq> {#} \<or> ?S \<noteq> {#}"
    by blast
  then show ?thesis
  proof cases
    case 1
    then have "?X = {#}" "?S \<noteq> {#}" using ex by auto
    then show ?thesis using 1 st assms(4,5) u1 u2 u3 by (simp add: d misuse_reported)
  next
    case 2
    then have "?X \<noteq> {#}" by auto
    then show ?thesis using 2 st assms(4,5) u1 u2 u3 by (simp add: d misuse_reported)
  next
    case 3
    then show ?thesis using st free assms(4,5) u1 u2 u3 by (simp add: d misuse_reported)
  next
    case 4
    then show ?thesis using st ex assms(4,5) u1 u2 u3 by (auto simp: d misuse_reported)
  qed
qed

theorem mutex_answers_witness:
  "lock_exclusive Inr 8192 False (own_exclusive 8192 (mutex_sample 0)) = Inl (Test_failed result_recursion_on_nonrecursive_mutex) \<and>
   unlock_shared Inr 8192 (own_exclusive 8192 (mutex_sample 0)) = Inl (Test_failed result_unlocking_mutex_wo_ownership)"
  using mutex_answers [OF sample_run_1, of False]
  by (simp add: Let_def mutex_sample_fields cur_thread_def)

section \<open>Handing over\<close>

lemma calm_mutex [simp]: "calm t (upd_mutex a f w) = calm t w" "calm t (mutex_sync op a w) = calm t w" "calm t (give_up a w) = calm t w"
  by (simp_all add: upd_mutex_def mutex_sync_def give_up_def Let_def)

lemma cx_sched_mutex [simp]:
  "cx_sched (upd_mutex a f w) = cx_sched w" "cx_sched (mutex_sync op a w) = cx_sched w" "cx_sched (give_up a w) = cx_sched w"
  "invariant_executing (upd_mutex a f w) = invariant_executing w"
  by (simp_all add: upd_mutex_def mutex_sync_def give_up_def set_clock_def upd_cur_def upd_th_def Let_def)

lemma condvars_mutex: "w_condvars (give_up a w) = w_condvars w" "w_condvars (upd_mutex a f w) = w_condvars w"
  by (simp_all add: upd_mutex_def mutex_sync_def give_up_def set_clock_def upd_cur_def upd_th_def Let_def)

lemma unlock_plain:
  assumes "calm t w" "sig_ok mutex_magic (mx_sign (w_mutexes w a))" "\<not> invariant_executing w"
    "exclusive_owner (w_mutexes w a) = int t" "exclusive_recursion_count (w_mutexes w a) = 1"
    "writers = exclusive_waitset (w_mutexes w a)" "readers = shared_waitset (w_mutexes w a)" "writers \<noteq> readers"
    "\<forall>d \<in> set (waitsets w writers) \<union> set (waitsets w readers). plain d"
  shows "\<exists>w'. unlock_exclusive user_inv a w = Inr w' \<and> calm t w' \<and> w_condvars w' = w_condvars w \<and>
    (\<forall>b. b \<noteq> writers \<longrightarrow> b \<noteq> readers \<longrightarrow> waitsets w' b = waitsets w b) \<and>
    exclusive_owner (w_mutexes w' a) = state_free \<and>
    (if waitsets w writers \<noteq> []
     then (\<exists>d \<in> set (waitsets w writers). set (waitsets w' writers) = set (waitsets w writers) - {d} \<and>
             \<not> parked (cx_sched w') (d_th d)) \<and> waitsets w' readers = waitsets w readers
     else waitsets w' readers = [] \<and> (\<forall>d \<in> set (waitsets w readers). \<not> parked (cx_sched w') (d_th d)))"
proof -
  define w1 where "w1 = give_up a (upd_mutex a (\<lambda>m. m\<lparr>exclusive_recursion_count := exclusive_recursion_count m - 1\<rparr>) w)"
  have idx: "my_id w = int t" using assms(1) by (simp add: my_id_def cur_thread_def) (simp add: calm_def)
  have f: "w_mutexes w1 a = (w_mutexes w a)\<lparr>exclusive_recursion_count := 0, exclusive_owner := state_free,
      mx_sync := mx_sync (w_mutexes w1 a)\<rparr>" "waitsets w1 = waitsets w" "calm t w1" "cx_sched w1 = cx_sched w"
    using assms(1,5) by (simp_all add: w1_def)
  have u: "unlock_exclusive user_inv a w = wake_writer_or_readers user_inv a w1"
    using assms(2-5) idx f(1) by (simp add: unlock_exclusive_def mutex_enter_def Let_def w1_def)
  have m: "exclusive_waitset (w_mutexes w1 a) = writers" "shared_waitset (w_mutexes w1 a) = readers"
    using assms(6,7) by (simp_all add: w1_def)
  have ev: "exclusive_owner (w_mutexes w1 a) = state_free" by (simp add: w1_def)
  have pw: "\<forall>d \<in> set (waitsets w1 writers). plain d" and pr: "\<forall>d \<in> set (waitsets w1 readers). plain d"
    using assms(9) f(2) by auto
  have cv: "w_condvars w1 = w_condvars w" by (simp add: w1_def condvars_mutex)
  have same: "w_mutexes w2 = w_mutexes w1 \<and> calm t w2 \<and> w_condvars w2 = w_condvars w \<and> (\<forall>b'. b \<noteq> b' \<longrightarrow> waitsets w2 b' = waitsets w b')"
    if "wakes_only t b w1 w2" for b w2
    using that cv f(2) by (auto simp: wakes_only_def)
  obtain w2 where w2: "wake_one user_inv writers w1 = Inr (waitsets w writers \<noteq> [], w2)" "wakes_only t writers w1 w2"
    "if waitsets w writers = [] then w2 = w1
     else \<exists>d \<in> set (waitsets w writers). set (waitsets w2 writers) = set (waitsets w writers) - {d} \<and>
       \<not> parked (cx_sched w2) (d_th d) \<and> length (waitsets w2 writers) = length (waitsets w writers) - 1"
    using plain_one [OF f(3) pw, where sig = wo_is_signaled and wk = "wake user_inv"] unfolding f(2) by blast
  show ?thesis
  proof (cases "waitsets w writers = []")
    case True
    obtain w3 where w3: "wake_all user_inv readers w1 = Inr (length (waitsets w1 readers), w3)"
      "wakes_only t readers w1 w3" "waitsets w3 readers = []" "\<forall>d \<in> set (waitsets w readers). \<not> parked (cx_sched w3) (d_th d)"
      using plain_all [OF f(3) pr, where sig = wo_is_signaled and wk = "wake user_inv"] unfolding f(2) by blast
    have "unlock_exclusive user_inv a w = Inr w3"
      using True w2(1,3) w3(1) m by (simp add: u wake_writer_or_readers_def)
    then show ?thesis using True w3 ev same [OF w3(2)] by auto
  next
    case False
    then have "unlock_exclusive user_inv a w = Inr w2"
      using w2(1) m by (simp add: u wake_writer_or_readers_def)
    then show ?thesis using False w2(2,3) ev same [OF w2(2)] assms(8) by (intro exI [of _ w2]) auto
  qed
qed

text \<open>
  C29. Unlocking hands the mutex on. When the owner gives up its last lock, the mutex is free, one
  of the waiting writers is woken if there is any, and otherwise all waiting readers are; the
  operation does not assert and control stays with the caller.
\<close>

theorem unlock_hands_over:
  assumes "calm t w" "sig_ok mutex_magic (mx_sign (w_mutexes w a))" "\<not> invariant_executing w"
    "exclusive_owner (w_mutexes w a) = int t" "exclusive_recursion_count (w_mutexes w a) = 1"
    "writers = exclusive_waitset (w_mutexes w a)" "readers = shared_waitset (w_mutexes w a)" "writers \<noteq> readers"
    "\<forall>d \<in> set (waitsets w writers) \<union> set (waitsets w readers). plain d"
  shows "\<exists>w'. unlock_exclusive user_inv a w = Inr w' \<and> threadx w' = Some t \<and>
    exclusive_owner (w_mutexes w' a) = state_free \<and>
    (if waitsets w writers \<noteq> []
     then (\<exists>d \<in> set (waitsets w writers). set (waitsets w' writers) = set (waitsets w writers) - {d} \<and>
             \<not> parked (cx_sched w') (d_th d)) \<and> waitsets w' readers = waitsets w readers
     else waitsets w' readers = [] \<and> (\<forall>d \<in> set (waitsets w readers). \<not> parked (cx_sched w') (d_th d)))"
  using unlock_plain [OF assms, of user_inv] by (auto simp: calm_def)

definition waiting_desc :: thread_desc where
  "waiting_desc = \<lparr>d_th = 1, d_count = 0, d_ws = None, d_wo = None, d_wait_all = False, d_do_switch = False\<rparr>"

definition handover_sample :: "int \<Rightarrow> nat \<Rightarrow> world" where
  "handover_sample owner b = upd_mutex 8192 (\<lambda>_. \<lparr>mx_sign = signature_ctor mutex_magic 8192, mx_is_rw = True,
      mx_is_exclusive_recursive = False, mx_is_shared_recursive = False, mx_failing_try_lock = False, mx_sync = (\<lambda>_. 0),
      exclusive_owner = owner, exclusive_recursion_count = (if owner = 0 then 1 else 0), exclusive_waitset = 8192,
      shared_waitset = 8193, shared_owner = (\<lambda>i. if owner = state_shared \<and> i = 0 then 1 else 0),
      shared_lock_count = (if owner = state_shared then 1 else 0), try_lock_failed = False\<rparr>)
    (parked_sample\<lparr>waitsets := (\<lambda>_. [])(b := [waiting_desc])\<rparr>)"

lemma handover_sample_fields:
  "calm 0 (handover_sample owner b)" "\<not> invariant_executing (handover_sample owner b)"
  "waitsets (handover_sample owner b) = (\<lambda>_. [])(b := [waiting_desc])"
  "w_mutexes (handover_sample owner b) 8192 = \<lparr>mx_sign = signature_ctor mutex_magic 8192, mx_is_rw = True,
      mx_is_exclusive_recursive = False, mx_is_shared_recursive = False, mx_failing_try_lock = False, mx_sync = (\<lambda>_. 0),
      exclusive_owner = owner, exclusive_recursion_count = (if owner = 0 then 1 else 0), exclusive_waitset = 8192,
      shared_waitset = 8193, shared_owner = (\<lambda>i. if owner = state_shared \<and> i = 0 then 1 else 0),
      shared_lock_count = (if owner = state_shared then 1 else 0), try_lock_failed = False\<rparr>"
  "th_index (cur_thread (handover_sample owner b)) = 0" "parked (cx_sched (handover_sample owner b)) 1"
  using parked_sample_calm [of waiting_desc b] sample_sched_ok
  by (simp_all add: handover_sample_def waiting_desc_def cur_thread_def)
    (simp_all add: parked_sample_def cur_def sample_thread_def)

theorem unlock_hands_over_witness:
  "\<exists>w'. unlock_exclusive Inr 8192 (handover_sample 0 8192) = Inr w' \<and> threadx w' = Some 0 \<and> waitsets w' 8192 = [] \<and>
     \<not> parked (cx_sched w') 1"
proof -
  have m: "waitsets (handover_sample 0 8192) 8192 = [waiting_desc]" "plain waiting_desc" "d_th waiting_desc = 1"
    by (simp_all add: handover_sample_fields plain_def waiting_desc_def)
  have p: "\<forall>d \<in> set (waitsets (handover_sample 0 8192) 8192) \<union> set (waitsets (handover_sample 0 8192) 8193). plain d"
    by (simp add: handover_sample_fields plain_def waiting_desc_def)
  define w where "w = handover_sample 0 8192"
  have o: "sig_ok mutex_magic (mx_sign (w_mutexes w 8192))" "\<not> invariant_executing w"
    "exclusive_owner (w_mutexes w 8192) = int 0" "exclusive_recursion_count (w_mutexes w 8192) = 1"
    "8192 = exclusive_waitset (w_mutexes w 8192)" "8193 = shared_waitset (w_mutexes w 8192)" "calm 0 w"
    by (simp_all add: w_def handover_sample_fields mutex_sample_fields(6))
  have "\<exists>w'. unlock_exclusive Inr 8192 w = Inr w' \<and> threadx w' = Some 0 \<and>
    exclusive_owner (w_mutexes w' 8192) = state_free \<and>
    (if waitsets w 8192 \<noteq> []
     then (\<exists>d \<in> set (waitsets w 8192). set (waitsets w' 8192) = set (waitsets w 8192) - {d} \<and>
             \<not> parked (cx_sched w') (d_th d)) \<and> waitsets w' 8193 = waitsets w 8193
     else waitsets w' 8193 = [] \<and> (\<forall>d \<in> set (waitsets w 8193). \<not> parked (cx_sched w') (d_th d)))"
    by (rule unlock_hands_over [OF o(7) o(1-6)]) (use p in \<open>simp_all add: w_def\<close>)
  then obtain w' where w': "unlock_exclusive Inr 8192 w = Inr w'" "threadx w' = Some 0"
    "\<exists>d \<in> set (waitsets w 8192). set (waitsets w' 8192) = set (waitsets w 8192) - {d} \<and> \<not> parked (cx_sched w') (d_th d)"
    using m(1) unfolding w_def [symmetric] by auto
  have "waitsets w' 8192 = []" "\<not> parked (cx_sched w') 1" using w'(3) m unfolding w_def [symmetric] by auto
  then show ?thesis using w'(1,2) unfolding w_def by blast
qed

text \<open>
  C30. The last reader can leave readers waiting for nothing. It wakes one waiting writer and never
  a reader: when it unlocks while no writer waits, every parked reader stays parked although the
  mutex is free and nobody is left to unlock it. (A reader parks behind a waiting writer; when that
  writer's timed lock times out, this is the state it leaves.)
\<close>

theorem unlock_shared_strands_readers:
  assumes "sig_ok mutex_magic (mx_sign (w_mutexes w a))" "\<not> invariant_executing w" "mx_is_rw (w_mutexes w a)" "shares a w"
    "shared_lock_count (w_mutexes w a) = 1" "waitsets w (exclusive_waitset (w_mutexes w a)) = []"
    "d \<in> set (waitsets w (shared_waitset (w_mutexes w a)))" "parked (cx_sched w) (d_th d)"
  shows "\<exists>w'. unlock_shared user_inv a w = Inr w' \<and> mutex_is_signaled a w' \<and>
    d \<in> set (waitsets w' (shared_waitset (w_mutexes w' a))) \<and> parked (cx_sched w') (d_th d)"
  using assms by (simp add: unlock_shared_def rw_check_def mutex_enter_def Let_def unpark_one_def mutex_is_signaled_def)

theorem unlock_shared_strands_readers_witness:
  "\<exists>w'. unlock_shared Inr 8192 (handover_sample state_shared 8193) = Inr w' \<and> mutex_is_signaled 8192 w' \<and>
     parked (cx_sched w') 1"
proof -
  have "\<exists>w'. unlock_shared Inr 8192 (handover_sample state_shared 8193) = Inr w' \<and> mutex_is_signaled 8192 w' \<and>
     waiting_desc \<in> set (waitsets w' (shared_waitset (w_mutexes w' 8192))) \<and> parked (cx_sched w') (d_th waiting_desc)"
    by (rule unlock_shared_strands_readers)
      (use handover_sample_fields(6) [of state_shared 8193] in
        \<open>simp_all add: handover_sample_fields(2-5) mutex_sample_fields(6) shares_def, simp add: waiting_desc_def\<close>)
  then show ?thesis by (auto simp: waiting_desc_def)
qed

end
