(* ===== verification/Condvar.thy ===== *)
theory Condvar
  imports Mutex_Props
begin

text \<open>
  Condition variables, \<open>condvar_data_impl\<close>, \<open>condvar\<close> and \<open>condition_variable_std\<close> of
  \<^verbatim>\<open>stdlib/condition_variable.hpp\<close>, and the futex operations of an atomic,
  \<open>atomic_wait\<close> and \<open>atomic_wake\<close> of \<^verbatim>\<open>thread.hpp\<close>.

  The mutex of a wait reaches it through \<open>mutex_wrapper\<close>: the arguments \<open>unlock\<close> and \<open>lock\<close> are
  those two operations after their \<open>sched()\<close>.
\<close>

section \<open>Operations\<close>

definition upd_condvar :: "nat \<Rightarrow> (condvar \<Rightarrow> condvar) \<Rightarrow> world \<Rightarrow> world" where
  "upd_condvar a f w = w\<lparr>w_condvars := (w_condvars w)(a := f (w_condvars w a))\<rparr>"

definition condvar_ctor :: "bool \<Rightarrow> nat \<Rightarrow> world \<Rightarrow> world" where
  "condvar_ctor allow_spurious_wakeups a w =
     (upd_condvar a (\<lambda>_. \<lparr>cv_ws = a, cv_sign = signature_ctor condvar_magic (of_nat a),
        spurious_wakeup_limit = (if allow_spurious_wakeups \<and> is_random_sched w then 10 else 0)\<rparr>) w)
     \<lparr>waitsets := (waitsets w)(a := [])\<rparr>"

definition condvar_dtor :: "nat \<Rightarrow> world \<Rightarrow> fault + world" where
  "condvar_dtor a w =
     rbind (signature_dtor condvar_magic (cv_sign (w_condvars w a))) (\<lambda>s. Inr (upd_condvar a (\<lambda>v. v\<lparr>cv_sign := s\<rparr>) w))"

definition condvar_sign :: "nat \<Rightarrow> world \<Rightarrow> fault + unit" where
  "condvar_sign a w = signature_check condvar_magic (cv_sign (w_condvars w a))"

definition condvar_notify_one :: "user_fun \<Rightarrow> nat \<Rightarrow> world \<Rightarrow> fault + world" where
  "condvar_notify_one user_inv a w =
     rbind (condvar_sign a w) (\<lambda>_. rbind (wake_one user_inv (cv_ws (w_condvars w a)) w) (\<lambda>(_, w). Inr w))"

definition condvar_notify_all :: "user_fun \<Rightarrow> nat \<Rightarrow> world \<Rightarrow> fault + world" where
  "condvar_notify_all user_inv a w =
     rbind (condvar_sign a w) (\<lambda>_. rbind (wake_all user_inv (cv_ws (w_condvars w a)) w) (\<lambda>(_, w). Inr w))"

text \<open>
  \<open>wait\<close> in four pieces: up to the \<open>sched()\<close> of the unlock; from there to the parking; from the
  wake-up to the \<open>sched()\<close> of the lock; and, once the mutex is locked again, the end. The second
  piece is the one that matters: nothing runs between the unlock and the parking.
\<close>

definition condvar_wait_enter :: "nat \<Rightarrow> world \<Rightarrow> fault + unit" where
  "condvar_wait_enter a w = condvar_sign a w"

definition condvar_wait_park :: "user_fun \<Rightarrow> (world \<Rightarrow> fault + world) \<Rightarrow> nat \<Rightarrow> bool \<Rightarrow> world \<Rightarrow> fault + world" where
  "condvar_wait_park user_inv unlock a is_timed w =
     rbind (unlock w) (\<lambda>w. rbind (condvar_sign a w) (\<lambda>_.
       let allow_spurious_wakeup = (spurious_wakeup_limit (w_condvars w a) > 0)
       in park_current user_inv (cv_ws (w_condvars w a)) is_timed allow_spurious_wakeup False w))"

definition condvar_wait_resume :: "nat \<Rightarrow> world \<Rightarrow> fault + (unpark_reason \<times> world)" where
  "condvar_wait_resume a w =
     rbind (park_current_end (cv_ws (w_condvars w a)) w) (\<lambda>(reason, w).
       Inr (reason, if reason = unpark_spurious
                    then upd_condvar a (\<lambda>v. v\<lparr>spurious_wakeup_limit := spurious_wakeup_limit v - 1\<rparr>) w else w))"

definition condvar_wait_end :: "nat \<Rightarrow> unpark_reason \<Rightarrow> world \<Rightarrow> fault + wakeup_reason" where
  "condvar_wait_end a reason w =
     rbind (condvar_sign a w) (\<lambda>_.
       Inr (case reason of unpark_normal \<Rightarrow> wakeup_success | unpark_spurious \<Rightarrow> wakeup_spurious
              | unpark_timeout \<Rightarrow> wakeup_timeout))"

text \<open>
  The wait with a predicate: \<open>pred\<close> is the user's, evaluated with the mutex held. \<open>None\<close> means
  that the loop goes (back) into a wait, the pieces above.
\<close>

type_synonym user_pred = "world \<Rightarrow> fault + (bool \<times> world)"

definition condvar_pred_round :: "user_pred \<Rightarrow> world \<Rightarrow> fault + (bool option \<times> world)" where
  "condvar_pred_round pred w = rbind (pred w) (\<lambda>(b, w). Inr (if b then Some True else None, w))"

definition condvar_pred_enter :: "user_pred \<Rightarrow> nat \<Rightarrow> world \<Rightarrow> fault + (bool option \<times> world)" where
  "condvar_pred_enter pred a w = rbind (condvar_sign a w) (\<lambda>_. condvar_pred_round pred w)"

definition condvar_pred_woken :: "user_pred \<Rightarrow> wakeup_reason \<Rightarrow> world \<Rightarrow> fault + (bool option \<times> world)" where
  "condvar_pred_woken pred reason w =
     (if reason = wakeup_timeout then rbind (pred w) (\<lambda>(b, w). Inr (Some b, w)) else condvar_pred_round pred w)"

section \<open>The declared object\<close>

definition condvar_check :: "nat \<Rightarrow> world \<Rightarrow> fault + nat" where
  "condvar_check h w =
     (case hd_impl (w_condvar_handle w h) of
        None \<Rightarrow> fail_test result_usage_of_non_initialized_condvar w
      | Some a \<Rightarrow> rbind (signature_check condvar_handle_magic (hd_sign (w_condvar_handle w h))) (\<lambda>_. Inr a))"

definition condvar_init :: "nat \<Rightarrow> nat \<Rightarrow> nat \<Rightarrow> bool \<Rightarrow> world \<Rightarrow> fault + world" where
  "condvar_init es sys h allow_spurious_wakeups w =
     (if hd_impl (w_condvar_handle w h) \<noteq> None then fail_test result_double_initialization_of_condvar w
      else rbind (signature_check condvar_handle_magic (hd_sign (w_condvar_handle w h))) (\<lambda>_.
           rbind (object_alloc es sys Slab_condvar 0 w) (\<lambda>(a, w).
             let w = condvar_ctor allow_spurious_wakeups a w
             in Inr (w\<lparr>w_condvar_handle := (w_condvar_handle w)(h := (w_condvar_handle w h)\<lparr>hd_impl := Some a\<rparr>)\<rparr>))))"

definition condvar_deinit :: "nat \<Rightarrow> world \<Rightarrow> fault + world" where
  "condvar_deinit h w =
     rbind (condvar_check h w) (\<lambda>a. rbind (condvar_dtor a w) (\<lambda>w.
       let w = object_free Slab_condvar a w
       in Inr (w\<lparr>w_condvar_handle := (w_condvar_handle w)(h := (w_condvar_handle w h)\<lparr>hd_impl := None\<rparr>)\<rparr>)))"

text \<open>
  \<open>condition_variable_std\<close>. The two waits without a predicate that return a \<open>bool\<close>: \<open>wait_for\<close>
  compares the reason with success, \<open>wait_until\<close> returns the enumeration value itself, converted,
  and success is 0.
\<close>

definition condition_variable_ctor :: "nat \<Rightarrow> nat \<Rightarrow> nat \<Rightarrow> world \<Rightarrow> fault + world" where
  "condition_variable_ctor es sys h w = condvar_init es sys h True w"

definition condition_variable_dtor :: "nat \<Rightarrow> world \<Rightarrow> fault + world" where
  "condition_variable_dtor h w = condvar_deinit h w"

fun wakeup_code :: "wakeup_reason \<Rightarrow> int" where
  "wakeup_code wakeup_success = 0"
| "wakeup_code wakeup_failed = 1"
| "wakeup_code wakeup_timeout = 2"
| "wakeup_code wakeup_spurious = 3"

definition wait_until_result :: "wakeup_reason \<Rightarrow> bool" where
  "wait_until_result reason = (wakeup_code reason \<noteq> 0)"

definition wait_for_result :: "wakeup_reason \<Rightarrow> bool" where
  "wait_for_result reason = (reason = wakeup_success)"

section \<open>Futexes\<close>

text \<open>
  The wait set and the clock are fields of the atomic variable; the operations take and return
  the variable.
\<close>

definition atomic_wait :: "user_fun \<Rightarrow> atomic_data \<Rightarrow> bool \<Rightarrow> bool \<Rightarrow> world \<Rightarrow> fault + world" where
  "atomic_wait user_inv var is_timed allow_spurious_wakeup w =
     park_current user_inv (futex_ws var) is_timed allow_spurious_wakeup False w"

definition atomic_wait_resume :: "atomic_data \<Rightarrow> world \<Rightarrow> fault + (unpark_reason \<times> atomic_data \<times> world)" where
  "atomic_wait_resume var w =
     rbind (park_current_end (futex_ws var) w) (\<lambda>(res, w).
       Inr (if res = unpark_normal
            then (res, var\<lparr>futex_sync := sync_order sync_acquire (futex_sync var) w\<rparr>,
                  set_clock (sync_clock sync_acquire (futex_sync var) w) w)
            else (res, var, w)))"

text \<open>
  The loop of \<open>atomic_wake\<close>. A negative count wakes everybody; the fuel is the number of waiters,
  which the loop cannot exceed.
\<close>

fun futex_wake_loop :: "user_fun \<Rightarrow> nat \<Rightarrow> nat \<Rightarrow> int \<Rightarrow> nat \<Rightarrow> world \<Rightarrow> fault + (nat \<times> world)" where
  "futex_wake_loop user_inv a 0 cnt unblocked w =
     (if cnt = 0 then Inr (unblocked, w)
      else rbind (wake_one user_inv a w) (\<lambda>(ok, w). if \<not> ok then Inr (unblocked, w) else Inl Verify_failed))"
| "futex_wake_loop user_inv a (Suc k) cnt unblocked w =
     (if cnt = 0 then Inr (unblocked, w)
      else rbind (wake_one user_inv a w) (\<lambda>(ok, w).
             if \<not> ok then Inr (unblocked, w) else futex_wake_loop user_inv a k (cnt - 1) (unblocked + 1) w))"

definition atomic_wake :: "user_fun \<Rightarrow> atomic_data \<Rightarrow> int \<Rightarrow> world \<Rightarrow> fault + (nat \<times> atomic_data \<times> world)" where
  "atomic_wake user_inv var cnt w =
     rbind (futex_wake_loop user_inv (futex_ws var) (length (waitsets w (futex_ws var))) cnt 0 w) (\<lambda>(unblocked, w).
       Inr (if unblocked \<noteq> 0
            then (unblocked, var\<lparr>futex_sync := sync_order sync_release (futex_sync var) w\<rparr>,
                  set_clock (sync_clock sync_release (futex_sync var) w) w)
            else (unblocked, var, w)))"

section \<open>Notifying\<close>

text \<open>
  A notification wakes whom it should and nobody else. Over any number of waiting threads,
  \<open>notify_one\<close> wakes one of them if there is one, \<open>notify_all\<close> wakes them all; apart from the
  scheduler and the wait set nothing changes - a notification passes on no ordering, which only the
  mutex does - and control stays with the notifier.
\<close>

lemma notify_wakes:
  assumes "calm t w" "sig_ok condvar_magic (cv_sign (w_condvars w a))" "b = cv_ws (w_condvars w a)"
    "\<forall>d \<in> set (waitsets w b). plain d"
  shows "(\<exists>w'. condvar_notify_one user_inv a w = Inr w' \<and> calm t w' \<and> cx_threads w' = cx_threads w \<and>
      (if waitsets w b = [] then w' = w
       else \<exists>d \<in> set (waitsets w b). set (waitsets w' b) = set (waitsets w b) - {d} \<and> \<not> parked (cx_sched w') (d_th d))) \<and>
    (\<exists>w'. condvar_notify_all user_inv a w = Inr w' \<and> calm t w' \<and> cx_threads w' = cx_threads w \<and>
      waitsets w' b = [] \<and> (\<forall>d \<in> set (waitsets w b). \<not> parked (cx_sched w') (d_th d)))"
proof -
  have th: "wakes_only t b w w' \<Longrightarrow> calm t w' \<and> cx_threads w' = cx_threads w" for w' by (auto simp: wakes_only_def)
  obtain w1 where w1: "wake_one user_inv b w = Inr (waitsets w b \<noteq> [], w1)" "wakes_only t b w w1"
    "if waitsets w b = [] then w1 = w
     else \<exists>d \<in> set (waitsets w b). set (waitsets w1 b) = set (waitsets w b) - {d} \<and>
       \<not> parked (cx_sched w1) (d_th d) \<and> length (waitsets w1 b) = length (waitsets w b) - 1"
    using plain_one [OF assms(1,4), where sig = wo_is_signaled and wk = "wake user_inv"] by blast
  obtain w2 where w2: "wake_all user_inv b w = Inr (length (waitsets w b), w2)" "wakes_only t b w w2" "waitsets w2 b = []"
    "\<forall>d \<in> set (waitsets w b). \<not> parked (cx_sched w2) (d_th d)"
    using plain_all [OF assms(1,4), where sig = wo_is_signaled and wk = "wake user_inv"] by blast
  have "condvar_notify_one user_inv a w = Inr w1"
    using assms(2,3) w1(1) by (simp add: condvar_notify_one_def condvar_sign_def)
  moreover have "condvar_notify_all user_inv a w = Inr w2"
    using assms(2,3) w2(1) by (simp add: condvar_notify_all_def condvar_sign_def)
  ultimately show ?thesis using w1(3) w2(3,4) th [OF w1(2)] th [OF w2(2)] by (metis (no_types, lifting))
qed

definition condvar_sample :: world where
  "condvar_sample = upd_condvar 4096 (\<lambda>_. \<lparr>cv_ws = 4096, cv_sign = signature_ctor condvar_magic 4096, spurious_wakeup_limit = 0\<rparr>)
     (parked_sample\<lparr>waitsets := (\<lambda>_. [])(4096 := [waiting_desc])\<rparr>)"

lemma condvar_sample_fields:
  "calm 0 condvar_sample" "sig_ok condvar_magic (cv_sign (w_condvars condvar_sample 4096))" "cv_ws (w_condvars condvar_sample 4096) = 4096"
  "waitsets condvar_sample 4096 = [waiting_desc]" "plain waiting_desc"
  using parked_sample_calm [of waiting_desc 4096]
  by (simp_all add: condvar_sample_def upd_condvar_def waiting_desc_def sig_ok_def signature_check_def signature_ctor_def
      condvar_magic_def plain_def)

lemma notify_wakes_example:
  "\<exists>w'. condvar_notify_one Inr 4096 condvar_sample = Inr w' \<and> waitsets w' 4096 = [] \<and> \<not> parked (cx_sched w') 1"
proof -
  have p: "\<forall>d \<in> set (waitsets condvar_sample 4096). plain d" using condvar_sample_fields(4,5) by simp
  note n = notify_wakes [OF condvar_sample_fields(1,2) condvar_sample_fields(3) [symmetric] p, of Inr, THEN conjunct1]
  then obtain w' where w': "condvar_notify_one Inr 4096 condvar_sample = Inr w'"
    "set (waitsets w' 4096) = {waiting_desc} - {waiting_desc}" "\<not> parked (cx_sched w') (d_th waiting_desc)"
    unfolding condvar_sample_fields(4) by auto
  then show ?thesis by (auto simp: waiting_desc_def)
qed

section \<open>Waiting\<close>

text \<open>A user's invariant that leaves mutexes and wait sets alone.\<close>

definition still :: "user_fun \<Rightarrow> bool" where
  "still user_inv \<longleftrightarrow> quiet user_inv \<and> (\<forall>w w'. user_inv w = Inr w' \<longrightarrow> waitsets w' = waitsets w)"

lemma schedule_waits:
  assumes "still user_inv" "schedule user_inv y w = Inr w'"
  shows "waitsets w' = waitsets w"
proof -
  have inv: "check_invariant user_inv w = Inr w1 \<Longrightarrow> waitsets w1 = waitsets w" for w w1
    using assms(1) by (fastforce simp: check_invariant_def rbind_Inr still_def)
  show ?thesis
    using assms(2)
    by (auto simp: schedule_def Let_def fault_inv upd_cur_def upd_th_def switch_to_fiber_def split: if_splits prod.splits dest!: inv)
qed

lemma park_waits:
  assumes "still user_inv" "park_current user_inv b tm sp sw w = Inr w'"
  shows "w_mutexes w' = w_mutexes w \<and> waitsets w' = (waitsets w)(b := waitsets w b @
    [\<lparr>d_th = cur w, d_count = 0, d_ws = None, d_wo = None, d_wait_all = False, d_do_switch = sw\<rparr>])"
proof -
  obtain w1 where p: "ws_push b \<lparr>d_th = cur w, d_count = 0, d_ws = None, d_wo = None, d_wait_all = False,
      d_do_switch = sw\<rparr> w = Inr w1" "park_current_thread user_inv tm sp sw w1 = Inr w'"
    using assms(2) by (auto simp: park_current_def rbind_Inr)
  have "waitsets w' = waitsets w1"
    using p(2) by (auto simp: park_current_thread_def Let_def fault_inv fail_test_def upd_cur_def upd_th_def
        split: if_splits prod.splits dest!: schedule_waits [OF assms(1)])
  moreover have "w_mutexes w' = w_mutexes w"
    using park_same [OF _ assms(2)] assms(1) by (simp add: still_def same_mutexes_def)
  ultimately show ?thesis using p(1) by (auto simp: ws_push_def fault_inv)
qed

text \<open>
  C32. A wait on a condition variable cannot miss a notification. The step in which the waiting
  thread gives up its mutex ends with the mutex free and with the thread's entry at the end of the
  wait set, so that whoever can lock the mutex after it finds the entry there; no step of another
  thread lies between the two.
\<close>

theorem condvar_wait_atomic:
  assumes "still user_inv" "calm t w" "\<not> invariant_executing w" "sig_ok mutex_magic (mx_sign (w_mutexes w m))"
    "exclusive_owner (w_mutexes w m) = int t" "exclusive_recursion_count (w_mutexes w m) = 1"
    "writers = exclusive_waitset (w_mutexes w m)" "readers = shared_waitset (w_mutexes w m)" "writers \<noteq> readers"
    "\<forall>d \<in> set (waitsets w writers) \<union> set (waitsets w readers). plain d"
    "b = cv_ws (w_condvars w a)" "b \<noteq> writers" "b \<noteq> readers"
    "condvar_wait_park user_inv (unlock_exclusive user_inv m) a is_timed w = Inr w'"
  shows "exclusive_owner (w_mutexes w' m) = state_free \<and> (\<exists>d. waitsets w' b = waitsets w b @ [d] \<and> d_th d = t \<and> plain d)"
proof -
  obtain w1 where w1: "unlock_exclusive user_inv m w = Inr w1" "calm t w1" "w_condvars w1 = w_condvars w"
    "\<forall>b. b \<noteq> writers \<longrightarrow> b \<noteq> readers \<longrightarrow> waitsets w1 b = waitsets w b" "exclusive_owner (w_mutexes w1 m) = state_free"
    using unlock_plain [OF assms(2,4,3,5-10), of user_inv] by blast
  obtain sp where "park_current user_inv b is_timed sp False w1 = Inr w'"
    using assms(14) w1(1,3) assms(11) by (auto simp: condvar_wait_park_def fault_inv Let_def)
  from park_waits [OF assms(1) this]
  show ?thesis using w1(2,4,5) assms(12,13) by (simp add: plain_def)
qed

section \<open>Futexes\<close>

lemma futex_loop:
  "calm t w \<Longrightarrow> \<forall>d \<in> set (waitsets w a). plain d \<Longrightarrow> length (waitsets w a) = k \<Longrightarrow>
    \<exists>w'. futex_wake_loop user_inv a k cnt u w = Inr (u + (if cnt < 0 then k else min (nat cnt) k), w') \<and>
      wakes_only t a w w' \<and> length (waitsets w' a) = k - (if cnt < 0 then k else min (nat cnt) k)"
proof (induction k arbitrary: cnt u w)
  case 0
  then show ?case using plain_good_only [OF plain_start [OF 0(1,2)]] by (simp add: unpark_one_def)
next
  case (Suc k)
  show ?case
  proof (cases "cnt = 0")
    case True
    then show ?thesis using Suc.prems plain_good_only [OF plain_start [OF Suc.prems(1,2)]] by auto
  next
    case False
    obtain w1 where w1: "wake_one user_inv a w = Inr (waitsets w a \<noteq> [], w1)" "wakes_only t a w w1"
      "if waitsets w a = [] then w1 = w
       else \<exists>d \<in> set (waitsets w a). set (waitsets w1 a) = set (waitsets w a) - {d} \<and>
         \<not> parked (cx_sched w1) (d_th d) \<and> length (waitsets w1 a) = length (waitsets w a) - 1"
      using plain_one [OF Suc.prems(1,2), where sig = wo_is_signaled and wk = "wake user_inv"] by blast
    have ne: "waitsets w a \<noteq> []" using Suc.prems(3) by auto
    have c1: "calm t w1" "\<forall>d \<in> set (waitsets w1 a). plain d" "length (waitsets w1 a) = k"
      using w1(2,3) ne Suc.prems(2,3) by (auto simp: wakes_only_def)
    obtain w2 where w2: "futex_wake_loop user_inv a k (cnt - 1) (u + 1) w1 =
        Inr (u + 1 + (if cnt - 1 < 0 then k else min (nat (cnt - 1)) k), w2)"
      "wakes_only t a w1 w2" "length (waitsets w2 a) = k - (if cnt - 1 < 0 then k else min (nat (cnt - 1)) k)"
      using Suc.IH [OF c1, of "cnt - 1" "u + 1"] by blast
    have e: "Suc (if cnt - 1 < 0 then k else min (nat (cnt - 1)) k) = (if cnt < 0 then Suc k else min (nat cnt) (Suc k))"
      using False by (auto simp: min_def nat_diff_distrib)
    have "futex_wake_loop user_inv a (Suc k) cnt u w = Inr (u + Suc (if cnt - 1 < 0 then k else min (nat (cnt - 1)) k), w2)"
      using False w1(1) ne w2(1) by simp
    moreover have "length (waitsets w2 a) = Suc k - Suc (if cnt - 1 < 0 then k else min (nat (cnt - 1)) k)"
      using w2(3) by simp
    ultimately show ?thesis using wakes_only_trans [OF w1(2) w2(2)] unfolding e by blast
  qed
qed

text \<open>
  A futex wakes as many as asked and orders them. \<open>atomic_wake\<close> with a count wakes that many
  waiters or all there are, with a negative count all; when it wakes somebody, everything the
  waking thread knows is in the futex's clock, and a thread that returns from \<open>atomic_wait\<close>
  because it was woken has at least that clock.
\<close>

lemma futex_wakes:
  assumes "calm t w" "\<forall>d \<in> set (waitsets w (futex_ws var)). plain d" "n = length (waitsets w (futex_ws var))"
    "k = (if cnt < 0 then n else min (nat cnt) n)"
  shows "\<exists>var' w'. atomic_wake user_inv var cnt w = Inr (k, var', w') \<and> length (waitsets w' (futex_ws var)) = n - k \<and>
    (k \<noteq> 0 \<longrightarrow> vle (cx_n w) (acq_rel_order (cx_threads w' t)) (futex_sync var')) \<and>
    (\<forall>v r v' r'. atomic_wait_resume var' v = Inr (unpark_normal, r, r') \<longrightarrow> cx_n v = cx_n w \<longrightarrow>
       vle (cx_n w) (futex_sync var') (acq_rel_order (cx_threads r' (cur r'))))"
proof -
  obtain w1 where w1: "futex_wake_loop user_inv (futex_ws var) n cnt 0 w = Inr (k, w1)" "wakes_only t (futex_ws var) w w1"
    "length (waitsets w1 (futex_ws var)) = n - k"
    using futex_loop [OF assms(1,2) assms(3) [symmetric], of user_inv cnt 0] assms(4) by auto
  have c: "cur w1 = t" "cx_n w1 = cx_n w" using w1(2) by (auto simp: wakes_only_def)
  define var' where "var' = (if k \<noteq> 0 then var\<lparr>futex_sync := sync_order sync_release (futex_sync var) w1\<rparr> else var)"
  define w' where "w' = (if k \<noteq> 0 then set_clock (sync_clock sync_release (futex_sync var) w1) w1 else w1)"
  have e: "atomic_wake user_inv var cnt w = Inr (k, var', w')"
    using w1(1) assms(3) by (simp add: atomic_wake_def var'_def w'_def)
  have l: "waitsets w' = waitsets w1" by (simp add: w'_def set_clock_def upd_cur_def upd_th_def)
  have p: "vle (cx_n w) (acq_rel_order (cx_threads w' t)) (futex_sync var')" if "k \<noteq> 0"
    using that released_clock(1) [of w1 "futex_sync var"] c
    by (simp add: w'_def var'_def set_clock_def upd_cur_def upd_th_def)
  have q: "vle (cx_n w) (futex_sync var') (acq_rel_order (cx_threads r' (cur r')))"
    if r: "atomic_wait_resume var' v = Inr (unpark_normal, r, r')" "cx_n v = cx_n w" for v r r'
  proof -
    obtain v1 where v1: "park_current_end (futex_ws var') v = Inr (unpark_normal, v1)"
      "r' = set_clock (sync_clock sync_acquire (futex_sync var') v1) v1"
      using r(1) by (auto simp: atomic_wait_resume_def fault_inv split: if_splits)
    have "cx_n v1 = cx_n v" using park_end_same [OF v1(1)] by (simp add: same_mutexes_def)
    then have "vle (cx_n w) (futex_sync var') (sync_clock sync_acquire (futex_sync var') v1)"
      using acquired_clock [of v1 "futex_sync var'"] r(2) by simp
    then show ?thesis by (simp add: v1(2) set_clock_def upd_cur_def upd_th_def cur_def)
  qed
  show ?thesis using e l w1(3) p q by (intro exI [of _ var'] exI [of _ w']) auto
qed

section \<open>Sample runs\<close>


lemma sample_timed_park:
  "\<exists>s s'. sched_park_current True False sample_sched = Inr (True, s) \<and> sched_schedule 1 s = Inr (0, unpark_timeout, s')"
  by (auto simp: sample_sched_def sched_ctor_def sched_park_current_def block_thread_def is_deadlock_def upd_thread_def
      blank_sched_thread_def Let_def sched_schedule_def random_schedule_impl_def random_pick_def wake_picked_def
      sched_unpark_def unblock_thread_def inc32_def dec32_def on_thread_block_def default_params_def split: prod.splits)

definition condvar_wait_sample :: world where
  "condvar_wait_sample = upd_condvar 4096 (\<lambda>_. \<lparr>cv_ws = 4096, cv_sign = signature_ctor condvar_magic 4096, spurious_wakeup_limit = 0\<rparr>)
     (handover_sample 0 16384)"

lemma condvar_wait_sample_fields:
  "calm 0 condvar_wait_sample" "\<not> invariant_executing condvar_wait_sample" "waitsets condvar_wait_sample = (\<lambda>_. [])(16384 := [waiting_desc])"
  "w_mutexes condvar_wait_sample = w_mutexes (handover_sample 0 16384)"
  "w_condvars condvar_wait_sample 4096 = \<lparr>cv_ws = 4096, cv_sign = signature_ctor condvar_magic 4096, spurious_wakeup_limit = 0\<rparr>"
  "sig_ok condvar_magic (signature_ctor condvar_magic 4096)" "th_index (cur_thread condvar_wait_sample) = 0"
  "cx_sched condvar_wait_sample = sample_sched" "cx_threads condvar_wait_sample = sample_thread" "cx_n condvar_wait_sample = 2"
  "threadx condvar_wait_sample = Some 0"  "disable_preempt condvar_wait_sample = 0"
  "special_function_executing condvar_wait_sample = False"
  using handover_sample_fields(1-5) [of 0 16384] condvar_sample_fields(2)
  by (simp_all add: condvar_wait_sample_def upd_condvar_def cur_thread_def cur_def condvar_sample_def)
    (simp_all add: handover_sample_def parked_sample_def upd_mutex_def)

lemma still_Inr [simp]: "still Inr"
  by (simp add: still_def)

lemma condvar_wait_sample_runs:
  "\<exists>w'. condvar_wait_park Inr (unlock_exclusive Inr 8192) 4096 True condvar_wait_sample = Inr w'"
proof -
  define w1 where "w1 = give_up 8192 (upd_mutex 8192 (\<lambda>m. m\<lparr>exclusive_recursion_count := exclusive_recursion_count m - 1\<rparr>)
      condvar_wait_sample)"
  have u: "unlock_exclusive Inr 8192 condvar_wait_sample = Inr w1"
    by (simp add: unlock_exclusive_def mutex_enter_def my_id_def Let_def condvar_wait_sample_fields handover_sample_fields
        mutex_sample_fields(6) wake_writer_or_readers_def unpark_one_def unpark_all_def w1_def)
  have f: "w_condvars w1 = w_condvars condvar_wait_sample" "waitsets w1 = waitsets condvar_wait_sample" "cx_n w1 = 2" "cur w1 = 0"
    "cx_sched w1 = sample_sched"
    by (simp_all add: w1_def condvars_mutex condvar_wait_sample_fields cur_def)
      (simp_all add: give_up_def mutex_sync_def set_clock_def upd_cur_def upd_th_def upd_mutex_def Let_def condvar_wait_sample_fields cur_def)
  have g: "special_function_executing w1 = False" "disable_preempt w1 = 0" "temp_switch_from (cx_threads w1 0) = -1"
    "saved_disable_preemption (cx_threads w1 0) = -1" "threadx w1 = Some 0"
    by (simp_all add: w1_def give_up_def mutex_sync_def set_clock_def upd_cur_def upd_th_def upd_mutex_def Let_def
        condvar_wait_sample_fields cur_def sample_thread_def)
  obtain s s' where s: "sched_park_current True False sample_sched = Inr (True, s)" "sched_schedule 1 s = Inr (0, unpark_timeout, s')"
    using sample_timed_park by blast
  show ?thesis
    by (simp add: condvar_wait_park_def u condvar_sign_def f condvar_wait_sample_fields(5,6) park_current_def ws_push_def
        condvar_wait_sample_fields(3) park_current_thread_def g s s(2) [unfolded One_nat_def] Let_def schedule_def check_invariant_def upd_cur_def upd_th_def
        cur_def cur_thread_def)
qed

theorem condvar_wait_atomic_witness:
  "\<exists>w'. condvar_wait_park Inr (unlock_exclusive Inr 8192) 4096 True condvar_wait_sample = Inr w' \<and>
     exclusive_owner (w_mutexes w' 8192) = state_free \<and> length (waitsets w' 4096) = 1"
proof -
  obtain w' where w': "condvar_wait_park Inr (unlock_exclusive Inr 8192) 4096 True condvar_wait_sample = Inr w'"
    using condvar_wait_sample_runs by blast
  have "exclusive_owner (w_mutexes w' 8192) = state_free \<and>
      (\<exists>d. waitsets w' 4096 = waitsets condvar_wait_sample 4096 @ [d] \<and> d_th d = 0 \<and> plain d)"
    by (rule condvar_wait_atomic [OF still_Inr condvar_wait_sample_fields(1,2) _ _ _ refl refl _ _ refl _ _ w',
          unfolded condvar_wait_sample_fields(5), simplified])
      (simp_all add: condvar_wait_sample_fields handover_sample_fields mutex_sample_fields(6))
  then show ?thesis using w' by (auto simp: condvar_wait_sample_fields)
qed

definition futex_sample :: atomic_data where
  "futex_sample = \<lparr>history = (\<lambda>_. undefined), current_index = 0, futex_ws = 4096, futex_sync = (\<lambda>_. 0)\<rparr>"

lemma futex_wakes_example:
  "\<exists>var' w'. atomic_wake Inr futex_sample 5 condvar_sample = Inr (1, var', w') \<and> waitsets w' 4096 = [] \<and>
     vle 2 (acq_rel_order (cx_threads w' 0)) (futex_sync var')"
proof -
  have p: "\<forall>d \<in> set (waitsets condvar_sample (futex_ws futex_sample)). plain d" and n: "cx_n condvar_sample = 2"
    and l: "length (waitsets condvar_sample (futex_ws futex_sample)) = 1" "futex_ws futex_sample = 4096"
    using condvar_sample_fields(4,5)
    by (simp_all add: futex_sample_def) (simp add: condvar_sample_def upd_condvar_def parked_sample_def)
  obtain var' w' where "atomic_wake Inr futex_sample 5 condvar_sample = Inr (1, var', w')" "length (waitsets w' 4096) = 0"
    "vle 2 (acq_rel_order (cx_threads w' 0)) (futex_sync var')"
    using futex_wakes [OF condvar_sample_fields(1) p l(1) [symmetric], of 1 5 Inr] unfolding n l(2) by auto
  then show ?thesis by auto
qed


end
