(* ===== verification/Fibers.thy ===== *)
theory Fibers
  imports Condvar
begin

text \<open>
  The life of a test thread: \<open>fiber_proc_impl\<close> and \<open>create_thread\<close> of
  \<^verbatim>\<open>context.hpp\<close>, the hooks \<open>on_create\<close>, \<open>on_start\<close> and \<open>on_finish\<close> of
  \<^verbatim>\<open>thread.hpp\<close> and \<^verbatim>\<open>dyn_thread_ctx.hpp\<close>, and the handle of
  \<^verbatim>\<open>dyn_thread.hpp\<close>. The code of the test, which the fiber calls between the
  pieces here, is the record \<open>suite\<close>.
\<close>

section \<open>Starting and finishing\<close>

definition on_create :: "nat \<Rightarrow> world \<Rightarrow> world" where
  "on_create i w = thread_sync sync_release i w"

definition on_start :: "nat \<Rightarrow> world \<Rightarrow> fault + world" where
  "on_start i w =
     rl_verify (temp_switch_from (cx_threads w i) = -1) (rl_verify (saved_disable_preemption (cx_threads w i) = -1)
       (rl_verify (\<not> so_finished (cx_threads w i)) (Inr (thread_sync sync_acquire i w))))"

definition on_finish :: "user_fun \<Rightarrow> nat \<Rightarrow> world \<Rightarrow> fault + world" where
  "on_finish user_inv i w =
     rl_verify (temp_switch_from (cx_threads w i) = -1) (rl_verify (saved_disable_preemption (cx_threads w i) = -1)
       (rl_verify (\<not> so_finished (cx_threads w i))
         (let w = thread_sync sync_release i (upd_th i (\<lambda>t. t\<lparr>so_finished := True\<rparr>) w)
          in rbind (wake_all user_inv (so_ws (cx_threads w i)) w) (\<lambda>(_, w). Inr w))))"

definition create_thread :: "nat option \<Rightarrow> nat \<Rightarrow> world \<Rightarrow> fault + (nat \<times> world)" where
  "create_thread fn arg w =
     rl_verify (fn \<noteq> None)
       (rbind (sched_create_thread (cx_sched w)) (\<lambda>(i, s).
          let w = upd_th i (\<lambda>t. t\<lparr>dynamic_thread_func := fn, dynamic_thread_param := arg\<rparr>) (w\<lparr>cx_sched := s\<rparr>)
          in Inr (i, on_create i w)))"

section \<open>The test suite\<close>

record suite =
  su_ctor :: user_fun
  su_before :: user_fun
  su_invariant :: user_fun
  su_after :: user_fun
  su_dtor :: user_fun

definition construct_current_test_suite :: "suite \<Rightarrow> user_fun" where
  "construct_current_test_suite su w =
     rl_verify (\<not> suite_constructed w) (rbind (su_ctor su w) (\<lambda>w. Inr (w\<lparr>suite_constructed := True\<rparr>)))"

definition destroy_current_test_suite :: "suite \<Rightarrow> user_fun" where
  "destroy_current_test_suite su w =
     (if suite_constructed w then rbind (su_dtor su w) (\<lambda>w. Inr (w\<lparr>suite_constructed := False\<rparr>)) else Inr w)"

text \<open>The fiber that runs first in an iteration sets the test up.\<close>

definition first_fiber :: "suite \<Rightarrow> user_fun" where
  "first_fiber su w =
     rbind (construct_current_test_suite su (w\<lparr>first_thread := False, special_function_executing := True\<rparr>)) (\<lambda>w.
     rbind (su_before su w) (\<lambda>w.
     rbind (su_invariant su ((rl_global_fence w)\<lparr>invariant_executing := True\<rparr>)) (\<lambda>w.
       Inr (w\<lparr>invariant_executing := False, special_function_executing := False\<rparr>))))"

text \<open>From the top of the loop to the call of the thread's function, which the second result names.\<close>

definition fiber_start :: "suite \<Rightarrow> nat \<Rightarrow> world \<Rightarrow> fault + ((nat option \<times> nat) option \<times> world)" where
  "fiber_start su i w =
     rbind (if first_thread w then first_fiber su w else Inr w) (\<lambda>w.
     rbind (on_start i w) (\<lambda>w.
       Inr (if i < cx_static w then None
            else Some (dynamic_thread_func (cx_threads w i), dynamic_thread_param (cx_threads w i)), w)))"

text \<open>The checks and clean-up after the last thread; control goes to the main fiber.\<close>

definition slab_check :: "slab_kind \<Rightarrow> world \<Rightarrow> fault + world" where
  "slab_check k w = ensure (slab_iteration_end (cx_slabs w k)) result_resource_leak w"

definition leak_checks :: "world \<Rightarrow> fault + world" where
  "leak_checks w =
     rbind (ensure (memory_iteration_end (cx_memory w)) result_memory_leak w) (\<lambda>w.
     rbind (slab_check Slab_atomic w) (\<lambda>w. rbind (slab_check Slab_var w) (\<lambda>w.
     rbind (slab_check Slab_mutex w) (\<lambda>w. rbind (slab_check Slab_condvar w) (\<lambda>w.
     rbind (slab_check Slab_sema w) (\<lambda>w. slab_check Slab_event w))))))"

definition last_fiber :: "suite \<Rightarrow> user_fun" where
  "last_fiber su w =
     rbind (su_invariant su (w\<lparr>special_function_executing := True, invariant_executing := True\<rparr>)) (\<lambda>w.
     rbind (su_after su (rl_global_fence (w\<lparr>invariant_executing := False\<rparr>))) (\<lambda>w.
     rbind (destroy_current_test_suite su w) (\<lambda>w.
     rbind (leak_checks (w\<lparr>special_function_executing := False\<rparr>)) (\<lambda>w.
       Inr (switch_to_main_fiber w)))))"

text \<open>From the return of the thread's function: \<open>i\<close> is the fiber's thread.\<close>

definition fiber_finish :: "suite \<Rightarrow> nat \<Rightarrow> world \<Rightarrow> fault + world" where
  "fiber_finish su i w =
     rl_verify (disable_preempt w = 0) (rl_verify (temp_switch_from (cur_thread w) = -1)
     (rl_verify (saved_disable_preemption (cur_thread w) = -1)
       (rbind (on_finish (su_invariant su) i w) (\<lambda>w.
        rbind (thread_finished (cx_sched w)) (\<lambda>(res, s).
          let w = w\<lparr>cx_sched := s\<rparr>
          in case res of
               finish_normal \<Rightarrow> ctx_sched (su_invariant su) w
             | finish_last \<Rightarrow> last_fiber su w
             | finish_deadlock \<Rightarrow> fail_test result_deadlock w)))))"

section \<open>Thread handles\<close>

text \<open>A \<open>dyn_thread\<close> is the handle of the thread it started, or null.\<close>

definition dyn_start :: "nat option \<Rightarrow> nat \<Rightarrow> nat option \<Rightarrow> world \<Rightarrow> fault + (nat option \<times> world)" where
  "dyn_start fn arg hnd w =
     rl_verify (hnd = None) (rbind (create_thread fn arg w) (\<lambda>(i, w). Inr (Some i, w)))"

text \<open>\<open>Some\<close> is the handle after a join that returned, \<open>None\<close> a join that waits (then \<open>thread_wait_resume\<close>).\<close>

definition dyn_join :: "user_fun \<Rightarrow> nat option \<Rightarrow> world \<Rightarrow> fault + (nat option option \<times> world)" where
  "dyn_join user_inv hnd w =
     rl_verify (hnd \<noteq> None)
       (rbind (thread_wait user_inv (the hnd) False False w) (\<lambda>(r, w).
          Inr (if r = None then None else Some None, w)))"

definition dyn_join_resume :: "nat \<Rightarrow> world \<Rightarrow> fault + (nat option \<times> world)" where
  "dyn_join_resume i w = rbind (thread_wait_resume i w) (\<lambda>(_, w). Inr (None, w))"

section \<open>Ordering at the start of a thread\<close>

lemma thread_sync_simps [simp]:
  "acq_rel_order (cx_threads (thread_sync op i w) (cur w)) = sync_clock op (so_sync (cx_threads w i)) w"
  "so_sync (cx_threads (thread_sync op i w) i) = sync_order op (so_sync (cx_threads w i)) w"
  "cur (thread_sync op i w) = cur w" "cx_n (thread_sync op i w) = cx_n w" "waitsets (thread_sync op i w) = waitsets w"
  "so_finished (cx_threads (thread_sync op i w) j) = so_finished (cx_threads w j)"
  "so_ws (cx_threads (thread_sync op i w) j) = so_ws (cx_threads w j)"
  by (simp_all add: thread_sync_def set_clock_def upd_cur_def upd_th_def cur_def Let_def)

text \<open>
  A started thread knows what its creator knew. Whatever runs in between, when the first step
  of a created thread has been taken, its clock is at least the clock its creator had after
  \<open>create_thread\<close>.
\<close>

lemma start_sees_creator:
  assumes "create_thread fn arg w = Inr (i, w1)" "cur w2 = i" "cx_n w2 = cx_n w"
    "so_sync (cx_threads w2 i) = so_sync (cx_threads w1 i)" "on_start i w2 = Inr w3"
  shows "vle (cx_n w) (acq_rel_order (cx_threads w1 (cur w))) (acq_rel_order (cx_threads w3 i))"
proof -
  obtain s where w1: "w1 = on_create i (upd_th i (\<lambda>t. t\<lparr>dynamic_thread_func := fn, dynamic_thread_param := arg\<rparr>) (w\<lparr>cx_sched := s\<rparr>))"
    using assms(1) by (auto simp: create_thread_def fault_inv Let_def)
  define w0 where "w0 = upd_th i (\<lambda>t. t\<lparr>dynamic_thread_func := fn, dynamic_thread_param := arg\<rparr>) (w\<lparr>cx_sched := s\<rparr>)"
  have c: "cur w0 = cur w" "cx_n w0 = cx_n w" by (simp_all add: w0_def upd_th_def cur_def)
  have "acq_rel_order (cx_threads w1 (cur w0)) = sync_clock sync_release (so_sync (cx_threads w0 i)) w0"
    "so_sync (cx_threads w1 i) = sync_order sync_release (so_sync (cx_threads w0 i)) w0"
    unfolding w1 w0_def [symmetric] on_create_def by (rule thread_sync_simps)+
  then have a: "vle (cx_n w) (acq_rel_order (cx_threads w1 (cur w))) (so_sync (cx_threads w2 i))"
    using released_clock(1) [of w0 "so_sync (cx_threads w0 i)"] c assms(4) by simp
  have "w3 = thread_sync sync_acquire i w2" using assms(5) by (simp add: on_start_def fault_inv)
  then have "acq_rel_order (cx_threads w3 i) = sync_clock sync_acquire (so_sync (cx_threads w2 i)) w2"
    using thread_sync_simps(1) [of sync_acquire i w2] assms(2) by simp
  then have "vle (cx_n w) (so_sync (cx_threads w2 i)) (acq_rel_order (cx_threads w3 i))"
    using acquired_clock [of w2] assms(3) by simp
  with a show ?thesis by (rule vle_trans)
qed

definition create_sample :: world where
  "create_sample = parked_sample\<lparr>cx_sched := sample_sched\<lparr>dynamic_threads := [1]\<rparr>\<rparr>"

lemma start_sees_creator_example:
  "\<exists>w1 w3. create_thread (Some 7) 5 create_sample = Inr (1, w1) \<and> on_start 1 (w1\<lparr>threadx := Some 1\<rparr>) = Inr w3 \<and>
     vle 2 (acq_rel_order (cx_threads w1 0)) (acq_rel_order (cx_threads w3 1))"
proof -
  obtain s where s: "sched_create_thread (sample_sched\<lparr>dynamic_threads := [1]\<rparr>) = Inr (1, s)"
    by (auto simp: sched_create_thread_def sample_sched_def sched_ctor_def unblock_thread_def upd_thread_def Let_def
        blank_sched_thread_def dec32_def)
  obtain w1 where w1: "create_thread (Some 7) 5 create_sample = Inr (1, w1)"
    using s by (simp add: create_thread_def create_sample_def)
  have f: "cx_n w1 = 2" "temp_switch_from (cx_threads w1 1) = -1" "saved_disable_preemption (cx_threads w1 1) = -1"
    "\<not> so_finished (cx_threads w1 1)"
    using w1 s by (auto simp: create_thread_def create_sample_def Let_def on_create_def thread_sync_def set_clock_def upd_cur_def
        upd_th_def cur_def parked_sample_def sample_thread_def)
  obtain w3 where w3: "on_start 1 (w1\<lparr>threadx := Some 1\<rparr>) = Inr w3" using f by (simp add: on_start_def)
  have "vle (cx_n create_sample) (acq_rel_order (cx_threads w1 (cur create_sample))) (acq_rel_order (cx_threads w3 1))"
    by (rule start_sees_creator [OF w1 _ _ _ w3]) (simp_all add: cur_def f create_sample_def parked_sample_def)
  then show ?thesis using w1 w3 by (simp add: create_sample_def parked_sample_def cur_def)
qed

section \<open>Finishing and joining\<close>

text \<open>A state stays calm when only other fields of the threads change.\<close>

lemma calm_threads:
  assumes "\<And>i. th_index (f i) = th_index (cx_threads c i) \<and> temp_switch_from (f i) = temp_switch_from (cx_threads c i) \<and>
      saved_disable_preemption (f i) = saved_disable_preemption (cx_threads c i) \<and>
      park_switch (f i) = park_switch (cx_threads c i) \<and> park_dp (f i) = park_dp (cx_threads c i)"
  shows "calm t (c\<lparr>cx_threads := f\<rparr>) = calm t c"
proof -
  have "entry_ok (c\<lparr>cx_threads := f\<rparr>) d = entry_ok c d" for d
    using assms by (simp add: entry_ok_def cur_def)
  then show ?thesis using assms by (simp add: calm_def waits_ok_def)
qed

lemma calm_so [simp]: "calm t (upd_th i (\<lambda>x. x\<lparr>so_sync := v\<rparr>) w) = calm t w" "calm t (upd_th i (\<lambda>x. x\<lparr>so_finished := b\<rparr>) w) = calm t w"
  unfolding upd_th_def by (rule calm_threads; simp)+

lemma calm_thread_sync [simp]: "calm t (thread_sync op i w) = calm t w"
  by (simp add: thread_sync_def Let_def)

lemma resume_acquires:
  assumes "thread_wait_resume t w2 = Inr (r, w3)"
  shows "\<exists>v. w3 = thread_sync sync_acquire t v \<and> so_sync (cx_threads v t) = so_sync (cx_threads w2 t) \<and> cx_n v = cx_n w2"
proof -
  obtain reason v where v: "park_current_end (so_ws (cx_threads w2 t)) w2 = Inr (reason, v)"
    "(case reason of unpark_normal \<Rightarrow> Inr (Some wakeup_success, thread_sync sync_acquire t v)
      | unpark_timeout \<Rightarrow> Inr (Some wakeup_timeout, thread_sync sync_acquire t v) | unpark_spurious \<Rightarrow> Inl Verify_failed) = Inr (r, w3)"
    using assms by (auto simp: thread_wait_resume_def rbind_Inr Let_def)
  then have "w3 = thread_sync sync_acquire t v" by (cases reason) auto
  moreover have "so_sync (cx_threads v t) = so_sync (cx_threads w2 t)" "cx_n v = cx_n w2"
    using v(1) by (auto simp: park_current_end_def park_end_def schedule_end_def fault_inv Let_def check_switched_def
        ws_remove_def upd_cur_def upd_th_def split: if_splits option.splits)
  ultimately show ?thesis by blast
qed

text \<open>
  C35. A join waits for its thread and learns what it did. When thread \<open>t\<close> finishes, every thread
  that waits for it is woken and the operation comes back to \<open>t\<close>; from then on a join of \<open>t\<close>
  returns success without waiting, and a join that returns, at once or after having been woken,
  gives its caller a clock that is at least the clock \<open>t\<close> finished with.
\<close>

theorem finish_then_join:
  assumes "calm t w" "temp_switch_from (cx_threads w t) = -1" "saved_disable_preemption (cx_threads w t) = -1"
    "\<not> so_finished (cx_threads w t)" "\<forall>d \<in> set (waitsets w (so_ws (cx_threads w t))). plain d"
  shows "\<exists>w1. on_finish user_inv t w = Inr w1 \<and> threadx w1 = Some t \<and> so_finished (cx_threads w1 t) \<and>
    waitsets w1 (so_ws (cx_threads w t)) = [] \<and>
    (\<forall>d \<in> set (waitsets w (so_ws (cx_threads w t))). \<not> parked (cx_sched w1) (d_th d)) \<and>
    (\<forall>w2. so_finished (cx_threads w2 t) \<and> so_sync (cx_threads w2 t) = so_sync (cx_threads w1 t) \<and> cx_n w2 = cx_n w \<longrightarrow>
       (\<exists>w3. thread_wait user_inv t try_wait is_timed w2 = Inr (Some wakeup_success, w3) \<and>
          vle (cx_n w) (acq_rel_order (cx_threads w1 t)) (acq_rel_order (cx_threads w3 (cur w3)))) \<and>
       (\<forall>r w3. thread_wait_resume t w2 = Inr (r, w3) \<longrightarrow>
          vle (cx_n w) (acq_rel_order (cx_threads w1 t)) (acq_rel_order (cx_threads w3 (cur w3)))))"
proof -
  let ?b = "so_ws (cx_threads w t)"
  define w0 where "w0 = upd_th t (\<lambda>x. x\<lparr>so_finished := True\<rparr>) w"
  define wr where "wr = thread_sync sync_release t w0"
  have f0: "cur w0 = t" "cx_n w0 = cx_n w" "waitsets w0 = waitsets w" "so_ws (cx_threads w0 t) = ?b" "so_finished (cx_threads w0 t)"
    "calm t w0" "cx_sched w0 = cx_sched w"
    using assms(1) calm_so(2) [of t t True w] calm_cur [OF assms(1)] by (simp_all add: w0_def) (simp_all add: upd_th_def cur_def)
  have fr: "calm t wr" "waitsets wr = waitsets w" "so_ws (cx_threads wr t) = ?b" "so_finished (cx_threads wr t)"
    using f0 by (simp_all add: wr_def)
  have pl: "\<forall>d \<in> set (waitsets wr ?b). plain d" using assms(5) fr(2) by simp
  obtain w1 where w1: "wake_all user_inv ?b wr = Inr (length (waitsets wr ?b), w1)" "wakes_only t ?b wr w1"
    "waitsets w1 ?b = []" "\<forall>d \<in> set (waitsets wr ?b). \<not> parked (cx_sched w1) (d_th d)"
    using plain_all [OF fr(1) pl, where sig = wo_is_signaled and wk = "wake user_inv"] by blast
  have th: "cx_threads w1 = cx_threads wr" "threadx w1 = Some t" using w1(2) by (auto simp: wakes_only_def calm_def)
  have ok: "on_finish user_inv t w = Inr w1"
    using assms(2-4) w1(1) fr(3) by (simp add: on_finish_def Let_def w0_def [symmetric] wr_def [symmetric])
  have pub: "vle (cx_n w) (acq_rel_order (cx_threads w1 t)) (so_sync (cx_threads w1 t))"
    using released_clock(1) [of w0 "so_sync (cx_threads w0 t)"] f0(1,2) thread_sync_simps(1,2) [of sync_release t w0]
    by (simp add: th(1) wr_def)
  have acq: "vle (cx_n w) (acq_rel_order (cx_threads w1 t)) (acq_rel_order (cx_threads w3 (cur w3)))"
    if "w3 = thread_sync sync_acquire t v" "so_sync (cx_threads v t) = so_sync (cx_threads w1 t)" "cx_n v = cx_n w" for v w3
    using pub acquired_clock [of v "so_sync (cx_threads v t)"] that thread_sync_simps(1,3) [of sync_acquire t v]
    by (simp add: vle_trans)
  have res: "vle (cx_n w) (acq_rel_order (cx_threads w1 t)) (acq_rel_order (cx_threads w3 (cur w3)))"
    if r: "thread_wait_resume t w2 = Inr (r, w3)" "so_sync (cx_threads w2 t) = so_sync (cx_threads w1 t)" "cx_n w2 = cx_n w" for r w2 w3
    using resume_acquires [OF r(1)] acq r(2,3) by auto
  have fin: "thread_wait user_inv t try_wait is_timed w2 = Inr (Some wakeup_success, thread_sync sync_acquire t w2)"
    if "so_finished (cx_threads w2 t)" for w2 using that by (simp add: thread_wait_def)
  have woken: "\<forall>d \<in> set (waitsets w ?b). \<not> parked (cx_sched w1) (d_th d)" using w1(4) fr(2) by simp
  have "so_finished (cx_threads w1 t)" using fr(4) th(1) by simp
  then show ?thesis using ok th(2) w1(3) woken fin acq [OF refl] res by (intro exI [of _ w1]) blast
qed

theorem finish_then_join_witness:
  "\<exists>w1 w3. on_finish Inr 0 (parked_sample\<lparr>waitsets := (\<lambda>_. [])(0 := [waiting_desc])\<rparr>) = Inr w1 \<and>
     \<not> parked (cx_sched w1) 1 \<and> thread_wait Inr 0 False False (w1\<lparr>threadx := Some 1\<rparr>) = Inr (Some wakeup_success, w3)"
proof -
  define w where "w = parked_sample\<lparr>waitsets := (\<lambda>_. [])(0 := [waiting_desc])\<rparr>"
  have c: "calm 0 w" using parked_sample_calm [of waiting_desc 0] by (simp add: w_def waiting_desc_def)
  have f: "temp_switch_from (cx_threads w 0) = -1" "saved_disable_preemption (cx_threads w 0) = -1"
    "\<not> so_finished (cx_threads w 0)" "waitsets w (so_ws (cx_threads w 0)) = [waiting_desc]" "cx_n w = 2"
    by (simp_all add: w_def parked_sample_def sample_thread_def)
  have p: "\<forall>d \<in> set (waitsets w (so_ws (cx_threads w 0))). plain d" using f(4) condvar_sample_fields(5) by simp
  obtain w1 where w1: "on_finish Inr 0 w = Inr w1" "so_finished (cx_threads w1 0)"
    "\<forall>d \<in> set (waitsets w (so_ws (cx_threads w 0))). \<not> parked (cx_sched w1) (d_th d)"
    "\<forall>w2. so_finished (cx_threads w2 0) \<and> so_sync (cx_threads w2 0) = so_sync (cx_threads w1 0) \<and> cx_n w2 = cx_n w \<longrightarrow>
       (\<exists>w3. thread_wait Inr 0 False False w2 = Inr (Some wakeup_success, w3))"
    using finish_then_join [OF c f(1-3) p, of Inr False False] by blast
  have "\<exists>w3. thread_wait Inr 0 False False (w1\<lparr>threadx := Some 1\<rparr>) = Inr (Some wakeup_success, w3)"
    using w1(2) by (simp add: thread_wait_def)
  then show ?thesis using w1(1,3) f(4) by (auto simp: w_def waiting_desc_def)
qed

section \<open>Livelocks\<close>

text \<open>
  A stretch of an iteration: scheduling points and yields, with anything in between that leaves
  their counter alone; \<open>k\<close> counts the former.
\<close>

inductive sched_calls :: "user_fun \<Rightarrow> nat \<Rightarrow> world \<Rightarrow> world \<Rightarrow> bool" for user_inv where
  calls_none: "sched_calls user_inv 0 w w"
| calls_sched: "sched_calls user_inv k w0 w \<Longrightarrow> ctx_sched user_inv w = Inr w' \<Longrightarrow> sched_calls user_inv (Suc k) w0 w'"
| calls_yield: "sched_calls user_inv k w0 w \<Longrightarrow> ctx_yield user_inv n w = Inr w' \<Longrightarrow> sched_calls user_inv (Suc k) w0 w'"
| calls_other: "sched_calls user_inv k w0 w \<Longrightarrow> sched_count w' = sched_count w \<Longrightarrow> cx_params w' = cx_params w \<Longrightarrow>
    sched_calls user_inv k w0 w'"

definition counts_up :: "user_fun \<Rightarrow> bool" where
  "counts_up user_inv \<longleftrightarrow> (\<forall>w w'. user_inv w = Inr w' \<longrightarrow> sched_count w \<le> sched_count w' \<and> cx_params w' = cx_params w)"

lemma schedule_counts:
  assumes "counts_up user_inv" "schedule user_inv y w = Inr w'"
  shows "sched_count w \<le> sched_count w' \<and> cx_params w' = cx_params w"
proof -
  have inv: "check_invariant user_inv w = Inr w1 \<Longrightarrow> sched_count w \<le> sched_count w1 \<and> cx_params w1 = cx_params w" for w w1
    using assms(1) by (fastforce simp: check_invariant_def rbind_Inr counts_up_def)
  show ?thesis
    using assms(2)
    by (auto simp: schedule_def Let_def fault_inv upd_cur_def upd_th_def switch_to_fiber_def split: if_splits prod.splits dest!: inv)
qed

lemma livelock_fails: "fail_test result_livelock w = Inl (Test_failed result_livelock)"
  by (simp add: fail_test_def)

lemma count_sched_step:
  "count_sched w = Inr w1 \<longleftrightarrow> sched_count w \<le> execution_depth_limit (cx_params w) \<and> w1 = w\<lparr>sched_count := sched_count w + 1\<rparr>"
  by (auto simp: count_sched_def Let_def livelock_fails)

lemma calls_counted:
  assumes "sched_calls user_inv k w0 w" "counts_up user_inv"
  shows "sched_count w0 + k \<le> sched_count w \<and> cx_params w = cx_params w0 \<and>
    (k \<noteq> 0 \<longrightarrow> sched_count w0 + k \<le> execution_depth_limit (cx_params w0) + 1)"
  using assms
proof (induction rule: sched_calls.induct)
  case (calls_sched k w0 w w')
  obtain w1 where w1: "count_sched w = Inr w1" "(if disable_preempt w1 \<noteq> 0 then Inr w1 else schedule user_inv 0 w1) = Inr w'"
    using calls_sched.hyps(2) by (auto simp: ctx_sched_def rbind_Inr)
  have "sched_count w1 \<le> sched_count w' \<and> cx_params w' = cx_params w1"
    using w1(2) schedule_counts [OF calls_sched.prems, of 0 w1 w'] by (auto split: if_splits)
  then show ?case using calls_sched w1(1) by (auto simp: count_sched_step)
next
  case (calls_yield k w0 w n w')
  obtain w1 where w1: "count_sched w = Inr w1" "schedule user_inv n w1 = Inr w'"
    using calls_yield.hyps(2) by (auto simp: ctx_yield_def fault_inv)
  then show ?case using calls_yield schedule_counts [OF calls_yield.prems w1(2)] by (auto simp: count_sched_step)
qed auto

text \<open>
  C36. Every execution is cut off. In an iteration, whose counter starts at 0, at most one more
  scheduling points and yields go through than the execution depth limit says; the call after
  that, of either kind, ends the test as a livelock. So no schedule of a test runs forever.
\<close>

theorem executions_are_bounded:
  assumes "sched_calls user_inv k w0 w" "counts_up user_inv" "sched_count w0 = 0"
  shows "k \<le> execution_depth_limit (cx_params w0) + 1 \<and>
    (k = execution_depth_limit (cx_params w0) + 1 \<longrightarrow>
       ctx_sched user_inv w = Inl (Test_failed result_livelock) \<and>
       (n \<noteq> 0 \<longrightarrow> ctx_yield user_inv n w = Inl (Test_failed result_livelock)))"
  using calls_counted [OF assms(1,2)] assms(3)
  by (cases "k = 0") (auto simp: ctx_sched_def ctx_yield_def count_sched_def Let_def livelock_fails)

theorem executions_are_bounded_witness:
  "\<exists>w. sched_calls Inr 1 (parked_sample\<lparr>cx_params := default_params\<lparr>execution_depth_limit := 0\<rparr>, disable_preempt := 1\<rparr>) w \<and>
     ctx_sched Inr w = Inl (Test_failed result_livelock)"
proof -
  define w0 where "w0 = parked_sample\<lparr>cx_params := default_params\<lparr>execution_depth_limit := 0\<rparr>, disable_preempt := 1\<rparr>"
  have f: "sched_count w0 = 0" "execution_depth_limit (cx_params w0) = 0" "disable_preempt w0 = 1"
    by (simp_all add: w0_def parked_sample_def)
  have "ctx_sched Inr w0 = Inr (w0\<lparr>sched_count := 1\<rparr>)"
    using f by (simp add: ctx_sched_def count_sched_def Let_def)
  then have c: "sched_calls Inr (Suc 0) w0 (w0\<lparr>sched_count := 1\<rparr>)" by (rule calls_sched [OF calls_none])
  then have "ctx_sched Inr (w0\<lparr>sched_count := 1\<rparr>) = Inl (Test_failed result_livelock)"
    using executions_are_bounded [OF c _ f(1), of 1] f(2) by (simp add: counts_up_def)
  then show ?thesis using c unfolding w0_def by auto
qed

end
