(* ===== verification/Wfmo_Props.thy ===== *)
theory Wfmo_Props
  imports Fibers Semaphore Event
begin

text \<open>
  What \<open>wait_for_multiple_objects\<close> promises, as a specification over sets: every object has a
  number of waits it can serve, a successful wait takes one from each of the objects it is for and
  touches no other, a failed one takes nothing. The lemmas show it of the four implementations of
  \<open>win_waitable_object\<close> and of the loops over them.
\<close>

section \<open>The specification\<close>

text \<open>The object behind a handle.\<close>

fun wo_impl :: "world \<Rightarrow> waitable \<Rightarrow> waitable" where
  "wo_impl w (W_sema h) = W_sema (the (hd_impl (w_sema_handle w h)))"
| "wo_impl w (W_event h) = W_event (the (hd_impl (w_event_handle w h)))"
| "wo_impl w (W_mutex h) = W_mutex (the (hd_impl (w_mutex_handle w h)))"
| "wo_impl w (W_thread t) = W_thread t"

text \<open>How many waits an object can serve, and what is left after one.\<close>

fun avail :: "world \<Rightarrow> waitable \<Rightarrow> nat" where
  "avail w (W_sema a) = unat (sm_count (w_semas w a))"
| "avail w (W_event a) = of_bool (ev_state (w_events w a))"
| "avail w (W_mutex a) = of_bool (exclusive_owner (w_mutexes w a) = state_free)"
| "avail w (W_thread t) = of_bool (so_finished (cx_threads w t))"

fun left_over :: "world \<Rightarrow> waitable \<Rightarrow> nat" where
  "left_over w (W_sema a) = unat (sm_count (w_semas w a)) - 1"
| "left_over w (W_event a) = of_bool (ev_manual_reset (w_events w a))"
| "left_over w (W_mutex a) = 0"
| "left_over w (W_thread t) = 1"

text \<open>The clock an object passes on to those that wait for it.\<close>

fun wo_clock :: "world \<Rightarrow> waitable \<Rightarrow> vclock" where
  "wo_clock w (W_sema a) = sm_sync (w_semas w a)"
| "wo_clock w (W_event a) = ev_sync (w_events w a)"
| "wo_clock w (W_mutex a) = mx_sync (w_mutexes w a)"
| "wo_clock w (W_thread t) = so_sync (cx_threads w t)"

fun wo_queue :: "world \<Rightarrow> waitable \<Rightarrow> nat" where
  "wo_queue w (W_sema a) = sm_ws (w_semas w a)"
| "wo_queue w (W_event a) = ev_ws (w_events w a)"
| "wo_queue w (W_mutex a) = exclusive_waitset (w_mutexes w a)"
| "wo_queue w (W_thread t) = so_ws (cx_threads w t)"

text \<open>
  A usable handle: initialised and alive. A mutex is one whose try-lock does not fail at will, as all
  that the Windows interface creates; a wait for any other takes it by a try-lock that must succeed.
\<close>

fun wo_live :: "world \<Rightarrow> waitable \<Rightarrow> bool" where
  "wo_live w (W_sema h) \<longleftrightarrow> hd_impl (w_sema_handle w h) \<noteq> None \<and>
     sig_ok sema_handle_magic (hd_sign (w_sema_handle w h)) \<and>
     sig_ok sema_magic (sm_sign (w_semas w (the (hd_impl (w_sema_handle w h)))))"
| "wo_live w (W_event h) \<longleftrightarrow> hd_impl (w_event_handle w h) \<noteq> None \<and>
     sig_ok event_handle_magic (hd_sign (w_event_handle w h)) \<and>
     sig_ok event_magic (ev_sign (w_events w (the (hd_impl (w_event_handle w h)))))"
| "wo_live w (W_mutex h) \<longleftrightarrow> hd_impl (w_mutex_handle w h) \<noteq> None \<and>
     sig_ok mutex_handle_magic (hd_sign (w_mutex_handle w h)) \<and>
     (let m = w_mutexes w (the (hd_impl (w_mutex_handle w h)))
      in sig_ok mutex_magic (mx_sign m) \<and> \<not> mx_failing_try_lock m \<and>
         (exclusive_owner m = state_free \<longrightarrow> exclusive_recursion_count m = 0))"
| "wo_live w (W_thread t) \<longleftrightarrow> True"

text \<open>
  The answer to a wait for objects of the given availability: the index reported and the objects
  taken. A wait for all takes all or nothing, a wait for any the first that is available.
\<close>

definition wait_spec :: "(waitable \<Rightarrow> nat) \<Rightarrow> bool \<Rightarrow> waitable list \<Rightarrow> (nat \<times> waitable set) option" where
  "wait_spec av wait_all xs =
     (if wait_all then if list_all (\<lambda>x. av x \<noteq> 0) xs then Some (0, set xs) else None
      else let i = length (takeWhile (\<lambda>x. av x = 0) xs)
           in if i < length xs then Some (i, {xs ! i}) else None)"

section \<open>What a step of a wait changes\<close>

definition others :: "world \<Rightarrow> nat set" where
  "others w = {i. i < cx_n w \<and> i \<noteq> th_index (cur_thread w)}"

definition vle_on :: "nat set \<Rightarrow> vclock \<Rightarrow> vclock \<Rightarrow> bool" where
  "vle_on I a b \<longleftrightarrow> (\<forall>i \<in> I. a i \<le> b i)"

lemma vle_on_refl [simp]: "vle_on I a a"
  by (simp add: vle_on_def)

lemma vle_on_trans: "vle_on I a b \<Longrightarrow> vle_on I b c \<Longrightarrow> vle_on I a c"
  by (auto simp: vle_on_def intro: order_trans)

text \<open>The parts of the world no wait changes.\<close>

definition fixed where
  "fixed w = (w_sema_handle w, w_event_handle w, w_mutex_handle w, cx_n w, threadx w, cx_params w,
     invariant_executing w, disable_preempt w, th_index (cur_thread w),
     (\<lambda>t. (so_finished (cx_threads w t), so_ws (cx_threads w t))))"

text \<open>Everything about an object.\<close>

fun wo_state :: "world \<Rightarrow> waitable \<Rightarrow> sema option \<times> event option \<times> mutex option \<times> vclock" where
  "wo_state w (W_sema a) = (Some (w_semas w a), None, None, \<lambda>_. 0)"
| "wo_state w (W_event a) = (None, Some (w_events w a), None, \<lambda>_. 0)"
| "wo_state w (W_mutex a) = (None, None, Some (w_mutexes w a), \<lambda>_. 0)"
| "wo_state w (W_thread t) = (None, None, None, so_sync (cx_threads w t))"

definition touched :: "waitable set \<Rightarrow> world \<Rightarrow> world \<Rightarrow> bool" where
  "touched S w w' \<longleftrightarrow> fixed w' = fixed w \<and> (\<forall>x. x \<notin> S \<longrightarrow> wo_state w' x = wo_state w x) \<and>
     vle_on (others w) (acq_rel_order (cur_thread w)) (acq_rel_order (cur_thread w'))"

text \<open>The caller has the object, and knows what the object passed on.\<close>

definition saw :: "world \<Rightarrow> world \<Rightarrow> waitable \<Rightarrow> bool" where
  "saw w w' x \<longleftrightarrow> vle_on (others w) (wo_clock w x) (acq_rel_order (cur_thread w'))"

fun owns :: "world \<Rightarrow> waitable \<Rightarrow> bool" where
  "owns w (W_mutex a) \<longleftrightarrow> exclusive_owner (w_mutexes w a) = my_id w"
| "owns w _ \<longleftrightarrow> True"

definition took :: "world \<Rightarrow> world \<Rightarrow> waitable \<Rightarrow> bool" where
  "took w w' x \<longleftrightarrow> avail w' x = left_over w x \<and> owns w' x \<and> saw w w' x"

lemma others_fixed: "fixed w' = fixed w \<Longrightarrow> others w' = others w"
  by (simp add: fixed_def others_def)

lemma touched_trans:
  assumes "touched S w w1" "touched T w1 w2"
  shows "touched (S \<union> T) w w2"
  using assms others_fixed [of w1 w] by (auto simp: touched_def intro: vle_on_trans)

lemma touched_mono: "touched S w w' \<Longrightarrow> S \<subseteq> T \<Longrightarrow> touched T w w'"
  by (auto simp: touched_def)

lemma touched_live: "touched S w w' \<Longrightarrow> wo_impl w o1 \<notin> S \<Longrightarrow> wo_live w' o1 = wo_live w o1"
  by (cases o1) (auto simp: touched_def fixed_def)

lemma touched_impl: "touched S w w' \<Longrightarrow> wo_impl w' o1 = wo_impl w o1"
  by (cases o1) (auto simp: touched_def fixed_def)

lemma touched_same:
  assumes "touched S w w'" "x \<notin> S"
  shows "avail w' x = avail w x" "left_over w' x = left_over w x" "wo_clock w' x = wo_clock w x" "wo_queue w' x = wo_queue w x"
  using assms by (cases x; force simp: touched_def fixed_def fun_eq_iff)+

text \<open>What a later step does not undo.\<close>

lemma touched_saw:
  assumes "saw w w1 x" "touched S w1 w2" "touched T w w1"
  shows "saw w w2 x"
  using assms others_fixed [of w1 w] by (auto simp: touched_def saw_def intro: vle_on_trans)

section \<open>The four kinds of objects\<close>

lemma sync_joins:
  assumes "op = sync_acquire \<or> op = sync_acq_rel"
  shows "vle_on (others w) v (sync_clock op v w)" "vle_on (others w) (acq_rel_order (cur_thread w)) (sync_clock op v w)"
  using assms by (auto simp: vle_on_def others_def sync_clock_def sync_acq_rel_is_acquire)
    (auto simp: sync_acquire_def Let_def clock_simps)

lemma set_clock_wo [simp]:
  "fixed (set_clock clk w) = fixed w" "wo_state (set_clock clk w) x = wo_state w x"
  "acq_rel_order (cur_thread (set_clock clk w)) = clk"
proof -
  show "fixed (set_clock clk w) = fixed w"
    by (simp add: fixed_def set_clock_def upd_cur_def upd_th_def cur_def cur_thread_def fun_eq_iff)
  show "wo_state (set_clock clk w) x = wo_state w x"
    by (cases x) (simp_all add: set_clock_def upd_cur_def upd_th_def cur_def)
qed (simp add: set_clock_def upd_cur_def upd_th_def cur_def cur_thread_def)

lemma upd_fixed [simp]:
  "fixed (upd_sema a f w) = fixed w" "fixed (upd_event a g w) = fixed w" "fixed (upd_mutex a h w) = fixed w"
  "fixed (upd_th t (\<lambda>x. x\<lparr>so_sync := v\<rparr>) w) = fixed w"
  by (simp_all add: fixed_def upd_sema_def upd_event_def upd_mutex_def upd_th_def cur_def cur_thread_def fun_eq_iff)

lemma upd_state [simp]:
  "wo_state (upd_sema a f w) x = (if x = W_sema a then (Some (f (w_semas w a)), None, None, \<lambda>_. 0) else wo_state w x)"
  "wo_state (upd_event a g w) x = (if x = W_event a then (None, Some (g (w_events w a)), None, \<lambda>_. 0) else wo_state w x)"
  "wo_state (upd_mutex a h w) x = (if x = W_mutex a then (None, None, Some (h (w_mutexes w a)), \<lambda>_. 0) else wo_state w x)"
  "wo_state (upd_th t (\<lambda>x. x\<lparr>so_sync := v\<rparr>) w) x = (if x = W_thread t then (None, None, None, v) else wo_state w x)"
  by (cases x; simp add: upd_sema_def upd_event_def upd_mutex_def upd_th_def)+

fun wo_sync ::
  "(nat \<Rightarrow> nat \<Rightarrow> vclock \<Rightarrow> vclock \<Rightarrow> vclock \<times> vclock) \<Rightarrow> waitable \<Rightarrow> world \<Rightarrow> world" where
  "wo_sync op (W_sema a) = sema_sync op a"
| "wo_sync op (W_event a) = event_sync op a"
| "wo_sync op (W_mutex a) = mutex_sync op a"
| "wo_sync op (W_thread t) = thread_sync op t"

lemma wo_sync_touched:
  assumes "op = sync_acquire \<or> op = sync_acq_rel"
  shows "touched {x} w (wo_sync op x w)" "saw w (wo_sync op x w) x"
proof -
  have f: "fixed (wo_sync op x w) = fixed w"
    by (cases x) (simp_all add: sema_sync_def event_sync_def mutex_sync_def thread_sync_def Let_def)
  have c: "acq_rel_order (cur_thread (wo_sync op x w)) = sync_clock op (wo_clock w x) w"
    by (cases x) (simp_all add: sema_sync_def event_sync_def mutex_sync_def thread_sync_def Let_def)
  have "y \<noteq> x \<Longrightarrow> wo_state (wo_sync op x w) y = wo_state w y" for y
    by (cases x) (simp_all add: sema_sync_def event_sync_def mutex_sync_def thread_sync_def Let_def)
  then show "touched {x} w (wo_sync op x w)" using f sync_joins(2) [OF assms] by (simp add: touched_def c)
  show "saw w (wo_sync op x w) x" using sync_joins(1) [OF assms] by (simp add: saw_def c)
qed

text \<open>An acquire leaves the object as it is.\<close>

lemma wo_acquire_touched: "touched {} w (wo_sync sync_acquire x w)"
proof -
  have s: "sync_order sync_acquire v u = v" for v and u :: world
    by (simp add: sync_order_def sync_acquire_def Let_def)
  have "wo_state (wo_sync sync_acquire x w) y = wo_state w y" for y
    by (cases x) (simp_all add: s sema_sync_def event_sync_def mutex_sync_def thread_sync_def Let_def)
  then show ?thesis using wo_sync_touched(1) [of sync_acquire x w] by (simp add: touched_def)
qed

lemma upd_touched:
  "touched {W_sema a} w (upd_sema a f w)" "touched {W_event a} w (upd_event a g w)" "touched {W_mutex a} w (upd_mutex a h w)"
proof -
  have "cur_thread (upd_sema a f w) = cur_thread w" "cur_thread (upd_event a g w) = cur_thread w"
    "cur_thread (upd_mutex a h w) = cur_thread w"
    by (simp_all add: upd_sema_def upd_event_def upd_mutex_def cur_thread_def cur_def)
  then show "touched {W_sema a} w (upd_sema a f w)" "touched {W_event a} w (upd_event a g w)"
    "touched {W_mutex a} w (upd_mutex a h w)"
    by (simp_all add: touched_def)
qed

lemma counted_touched: "touched {} w (w\<lparr>sched_count := k\<rparr>)"
proof -
  have "wo_state (w\<lparr>sched_count := k\<rparr>) x = wo_state w x" for x by (cases x) simp_all
  moreover have "fixed (w\<lparr>sched_count := k\<rparr>) = fixed w" by (simp add: fixed_def cur_thread_def cur_def)
  ultimately show ?thesis by (simp add: touched_def cur_thread_def cur_def)
qed

lemma preempt_touched: "touched {} w w' \<Longrightarrow> touched S w w'"
  by (rule touched_mono) auto

text \<open>The parts of the state that count the calls of the scheduler.\<close>

lemma sync_sched_count [simp]: "sched_count (wo_sync op x w) = sched_count w"
  by (cases x) (simp_all add: sema_sync_def event_sync_def mutex_sync_def thread_sync_def Let_def
    upd_sema_def upd_event_def upd_mutex_def upd_th_def set_clock_def upd_cur_def)

lemma upd_sched_count [simp]:
  "sched_count (upd_sema a f w) = sched_count w" "sched_count (upd_event a g w) = sched_count w"
  "sched_count (upd_mutex a h w) = sched_count w"
  by (simp_all add: upd_sema_def upd_event_def upd_mutex_def)

lemma sched_disabled:
  assumes "disable_preempt w \<noteq> 0" "sched_count w \<le> execution_depth_limit (cx_params w)"
  shows "ctx_sched user_inv w = Inr (w\<lparr>sched_count := sched_count w + 1\<rparr>)"
  using assms by (simp add: ctx_sched_def count_sched_def Let_def)

text \<open>What the wait of each kind of object leaves, apart from clocks.\<close>

fun wo_take :: "waitable \<Rightarrow> world \<Rightarrow> world" where
  "wo_take (W_sema a) w = sema_take a w"
| "wo_take (W_event a) w = event_take a w"
| "wo_take (W_mutex a) w = own_exclusive a w"
| "wo_take (W_thread t) w = thread_sync sync_acquire t w"

lemma wo_take_sema:
  assumes "sm_count (w_semas w a) \<noteq> 0"
  shows "touched {W_sema a} w (sema_take a w) \<and> took w (sema_take a w) (W_sema a)"
proof -
  let ?u = "upd_sema a (\<lambda>m. m\<lparr>sm_count := sm_count m - 1\<rparr>) w"
  have t: "touched {W_sema a} w ?u" by (rule upd_touched)
  have s: "touched {W_sema a} ?u (sema_take a w)" "saw ?u (sema_take a w) (W_sema a)"
    using wo_sync_touched [where op = sync_acq_rel and x = "W_sema a" and w = ?u] by (simp_all add: sema_take_def)
  have "saw w (sema_take a w) (W_sema a)"
    using s(2) others_fixed [of ?u w] by (simp add: saw_def)
  moreover have "unat (sm_count (w_semas w a) - 1) = unat (sm_count (w_semas w a)) - 1"
    using assms by (simp add: unat_minus_one)
  ultimately show ?thesis using touched_trans [OF t s(1)] by (simp add: took_def sema_take_def)
qed

lemma wo_take_event:
  assumes "ev_state (w_events w a)"
  shows "touched {W_event a} w (event_take a w) \<and> took w (event_take a w) (W_event a)"
proof (cases "ev_manual_reset (w_events w a)")
  case True
  then show ?thesis using wo_sync_touched [where op = sync_acquire and x = "W_event a" and w = w] assms by (simp add: took_def event_take_def)
next
  case False
  let ?u = "upd_event a (\<lambda>m. m\<lparr>ev_state := False\<rparr>) w"
  have t: "touched {W_event a} w ?u" by (rule upd_touched)
  have s: "touched {W_event a} ?u (event_take a w)" "saw ?u (event_take a w) (W_event a)"
    using wo_sync_touched [where op = sync_acq_rel and x = "W_event a" and w = ?u] False by (simp_all add: event_take_def)
  have "saw w (event_take a w) (W_event a)"
    using s(2) others_fixed [of ?u w] by (simp add: saw_def)
  then show ?thesis using touched_trans [OF t s(1)] False by (simp add: took_def event_take_def)
qed

lemma wo_take_mutex: "touched {W_mutex a} w (own_exclusive a w) \<and> took w (own_exclusive a w) (W_mutex a)"
proof -
  let ?u = "mutex_sync sync_acquire a w"
  have t: "touched {W_mutex a} w ?u" "saw w ?u (W_mutex a)"
    using wo_sync_touched [where op = sync_acquire and x = "W_mutex a" and w = w] by simp_all
  have s: "touched {W_mutex a} ?u (own_exclusive a w)"
    unfolding own_exclusive_def by (rule upd_touched)
  have "my_id (own_exclusive a w) = my_id w"
    using touched_trans [OF t(1) s] by (simp add: touched_def fixed_def my_id_def)
  then show ?thesis using touched_trans [OF t(1) s] touched_saw [OF t(2) s t(1)]
    by (simp add: took_def own_exclusive_def upd_mutex_def my_id_def state_free_def)
qed

section \<open>The loops\<close>

lemma live_checks:
  "wo_live w (W_sema h) \<Longrightarrow> sema_check h w = Inr (the (hd_impl (w_sema_handle w h)))"
  "wo_live w (W_event h) \<Longrightarrow> event_check h w = Inr (the (hd_impl (w_event_handle w h)))"
  "wo_live w (W_mutex h) \<Longrightarrow> mutex_check h w = Inr (the (hd_impl (w_mutex_handle w h)))"
  by (auto simp: sema_check_def event_check_def mutex_check_def sig_ok_def)

lemma live_peek:
  assumes "wo_live w o1"
  shows "wo_is_signaled o1 w = Inr (avail w (wo_impl w o1) \<noteq> 0)"
    "wo_memory_acquire o1 w = Inr (wo_sync sync_acquire (wo_impl w o1) w)"
    "wo_prepare_wait o1 w = Inr (wo_queue w (wo_impl w o1))"
  using assms live_checks [of w]
  by (cases o1; simp add: sema_is_signaled_def event_is_signaled_def mutex_is_signaled_def sema_memory_acquire_def
      event_memory_acquire_def mutex_memory_acquire_def sema_prepare_wait_def event_prepare_wait_def mutex_prepare_wait_def
      word_gt_0 unat_gt_0 unat_eq_0)+

lemma free_mutex_locks:
  assumes "sig_ok mutex_magic (mx_sign (w_mutexes w a))" "\<not> mx_failing_try_lock (w_mutexes w a)"
    "exclusive_owner (w_mutexes w a) = state_free" "exclusive_recursion_count (w_mutexes w a) = 0" "\<not> invariant_executing w"
  shows "try_lock_exclusive a w = Inr (Some True, own_exclusive a w)"
proof -
  have "\<not> shares a w" "exclusive_owner (w_mutexes w a) \<noteq> my_id w"
    using assms(3) by (auto simp: shares_def my_id_def state_free_def state_shared_def)
  then show ?thesis using assms
    by (simp add: try_lock_exclusive_def mutex_enter_def lock_checks_def try_lock_fails_def sig_ok_def)
qed

lemma take_one_live:
  assumes live: "wo_live w o1" "avail w (wo_impl w o1) \<noteq> 0"
    and w: "disable_preempt w \<noteq> 0" "\<not> invariant_executing w" "sched_count w \<le> execution_depth_limit (cx_params w)"
  obtains k where "take_one user_inv o1 w = Inr (wo_take (wo_impl w o1) (w\<lparr>sched_count := k\<rparr>))" "k \<le> sched_count w + 1"
proof -
  note s = sched_disabled [OF w(1,3), of user_inv]
  show ?thesis
  proof (cases o1)
    case (W_sema h)
    then show ?thesis using live live_checks(1) [of w h] that [of "sched_count w + 1"]
      by (simp add: take_one_def s sema_wait_def sig_ok_def unat_eq_0)
  next
    case (W_event h)
    then show ?thesis using live live_checks(2) [of w h] that [of "sched_count w + 1"]
      by (simp add: take_one_def s event_wait_def sig_ok_def)
  next
    case (W_mutex h)
    let ?a = "the (hd_impl (w_mutex_handle w h))"
    have "try_lock_exclusive ?a (w\<lparr>sched_count := sched_count w + 1\<rparr>) =
        Inr (Some True, own_exclusive ?a (w\<lparr>sched_count := sched_count w + 1\<rparr>))"
      using live w(2) W_mutex by (intro free_mutex_locks) (auto simp: Let_def)
    then show ?thesis using live live_checks(3) [of w h] that [of "sched_count w + 1"] W_mutex
      by (simp add: take_one_def s lock_reason_def)
  next
    case (W_thread t)
    then show ?thesis using live that [of "sched_count w"] by (simp add: take_one_def thread_wait_def)
  qed
qed

lemma wo_take_step:
  assumes "avail w x \<noteq> 0"
  shows "touched {x} w (wo_take x w) \<and> took w (wo_take x w) x"
proof (cases x)
  case (W_thread t)
  then show ?thesis using assms wo_sync_touched [where op = sync_acquire and x = x and w = w]
    by (simp add: took_def)
qed (use assms wo_take_sema wo_take_event wo_take_mutex in \<open>auto simp: unat_eq_0\<close>)

lemma take_sched_count: "sched_count (wo_take x w) = sched_count w"
proof (cases x)
  case (W_sema a)
  then show ?thesis using sync_sched_count [of sync_acq_rel x] by (simp add: sema_take_def)
next
  case (W_event a)
  then show ?thesis using sync_sched_count [of sync_acq_rel x] sync_sched_count [of sync_acquire x] by (simp add: event_take_def)
next
  case (W_mutex a)
  then show ?thesis using sync_sched_count [of sync_acquire x] by (simp add: own_exclusive_def)
next
  case (W_thread t)
  then show ?thesis using sync_sched_count [of sync_acquire x] by simp
qed

lemma take_one_step:
  assumes "wo_live w o1" "avail w (wo_impl w o1) \<noteq> 0"
    "disable_preempt w \<noteq> 0" "\<not> invariant_executing w" "sched_count w \<le> execution_depth_limit (cx_params w)"
  shows "\<exists>w'. take_one user_inv o1 w = Inr w' \<and> touched {wo_impl w o1} w w' \<and> took w w' (wo_impl w o1) \<and>
    sched_count w' \<le> sched_count w + 1"
proof -
  let ?x = "wo_impl w o1"
  obtain k where k: "take_one user_inv o1 w = Inr (wo_take ?x (w\<lparr>sched_count := k\<rparr>))" "k \<le> sched_count w + 1"
    by (rule take_one_live [OF assms])
  let ?c = "w\<lparr>sched_count := k\<rparr>"
  have c: "avail ?c ?x = avail w ?x" "left_over ?c ?x = left_over w ?x" "wo_clock ?c ?x = wo_clock w ?x" "others ?c = others w"
    using touched_same [OF counted_touched [of w k]] others_fixed [of ?c w] counted_touched [of w k] by (auto simp: touched_def)
  have t: "touched {?x} ?c (wo_take ?x ?c)" "took ?c (wo_take ?x ?c) ?x"
    using wo_take_step [of ?c ?x] assms(2) c(1) by simp_all
  have "touched {?x} w (wo_take ?x ?c)" using touched_trans [OF counted_touched t(1)] by simp
  then show ?thesis using k t(2) by (auto simp: took_def saw_def c take_sched_count)
qed

lemma took_mono:
  assumes "took w w1 x" "touched T w w1" "touched S w1 w2" "x \<notin> S"
  shows "took w w2 x"
proof -
  have "owns w2 x = owns w1 x"
    using assms(3,4) by (cases x) (auto simp: touched_def fixed_def my_id_def)
  then show ?thesis using assms touched_same [OF assms(3,4)] touched_saw [OF _ assms(3,2)] by (simp add: took_def)
qed

lemma took_since:
  assumes "took w1 w2 x" "touched S w w1" "x \<notin> S"
  shows "took w w2 x"
  using assms touched_same [OF assms(2,3)] others_fixed [of w1 w] by (auto simp: took_def saw_def touched_def)

lemma take_all_step:
  assumes "list_all (wo_live w) os" "list_all (\<lambda>o1. avail w (wo_impl w o1) \<noteq> 0) os" "distinct (map (wo_impl w) os)"
    "disable_preempt w \<noteq> 0" "\<not> invariant_executing w"
    "sched_count w + length os \<le> execution_depth_limit (cx_params w) + 1"
  shows "\<exists>w'. take_all user_inv aw os w = Inr w' \<and> touched (set (map (wo_impl w) os)) w w' \<and>
    (\<forall>x \<in> set (map (wo_impl w) os). took w w' x)"
  using assms
proof (induction os arbitrary: w)
  case Nil
  then show ?case by (auto simp: take_all_def touched_def)
next
  case (Cons o1 os)
  let ?x = "wo_impl w o1" and ?S = "set (map (wo_impl w) os)"
  have x: "?x \<notin> ?S" using Cons.prems(3) by simp
  obtain w1 where w1: "take_one user_inv o1 w = Inr w1" "touched {?x} w w1" "took w w1 ?x" "sched_count w1 \<le> sched_count w + 1"
    using take_one_step [of w o1 user_inv] Cons.prems by auto
  have f: "cx_params w1 = cx_params w" "disable_preempt w1 = disable_preempt w" "invariant_executing w1 = invariant_executing w"
    using w1(2) by (simp_all add: touched_def fixed_def)
  have i: "wo_impl w1 = wo_impl w" by (rule ext, rule touched_impl [OF w1(2)])
  have n: "wo_impl w o2 \<notin> {?x}" if "o2 \<in> set os" for o2 using x imageI [OF that, of "wo_impl w"] by auto
  have l: "list_all (wo_live w1) os" "list_all (\<lambda>o1. avail w1 (wo_impl w1 o1) \<noteq> 0) os"
    using Cons.prems(1,2) touched_live [OF w1(2) n] touched_same(1) [OF w1(2) n] by (simp_all add: list_all_iff i)
  obtain w2 where w2: "take_all user_inv aw os w1 = Inr w2" "touched ?S w1 w2" "\<forall>y \<in> ?S. took w1 w2 y"
    using Cons.IH [OF l] Cons.prems(3-6) w1(4) by (auto simp: f i)
  have "take_all user_inv aw (o1 # os) w = Inr w2"
    using w1(1) w2(1) Cons.prems(1,2) live_peek(1) [of w o1]
    by (cases aw) (simp_all add: take_all_def)
  moreover have "touched (insert ?x ?S) w w2" using touched_trans [OF w1(2) w2(2)] by simp
  moreover have "took w w2 ?x" by (rule took_mono [OF w1(3,2) w2(2) x])
  moreover have "took w w2 y" if "y \<in> ?S" for y
  proof (rule took_since [OF _ w1(2)])
    show "took w1 w2 y" using w2(3) that by blast
    show "y \<notin> {?x}" using x that by blast
  qed
  ultimately show ?case by auto
qed

lemma acquire_step:
  assumes "list_all (wo_live w) os"
  shows "\<exists>w'. wfmo_acquire os w = Inr w' \<and> touched {} w w' \<and> (\<forall>x \<in> set (map (wo_impl w) os). saw w w' x)"
  using assms
proof (induction os arbitrary: w)
  case Nil
  then show ?case by (auto simp: wfmo_acquire_def touched_def)
next
  case (Cons o1 os)
  let ?x = "wo_impl w o1" and ?w = "wo_sync sync_acquire (wo_impl w o1) w"
  have t: "touched {} w ?w" "saw w ?w ?x" using wo_acquire_touched wo_sync_touched(2) by auto
  have i: "wo_impl ?w = wo_impl w" by (rule ext, rule touched_impl [OF t(1)])
  have "list_all (wo_live ?w) os" using Cons.prems touched_live [OF t(1)] by (simp add: list_all_iff)
  then obtain w2 where w2: "wfmo_acquire os ?w = Inr w2" "touched {} ?w w2" "\<forall>y \<in> set (map (wo_impl w) os). saw ?w w2 y"
    using Cons.IH [of ?w] by (auto simp: i)
  have "saw w w2 y" if "y \<in> set (map (wo_impl w) os)" for y
    using w2(3) that touched_same(3) [OF t(1)] others_fixed [of ?w w] t(1) by (auto simp: saw_def touched_def)
  moreover have "saw w w2 ?x" by (rule touched_saw [OF t(2) w2(2) t(1)])
  moreover have "touched {} w w2" using touched_trans [OF t(1) w2(2)] by simp
  ultimately show ?case using w2(1) Cons.prems live_peek(2) [of w o1] by (auto simp: wfmo_acquire_def)
qed

lemma all_signaled_live:
  "list_all (wo_live w) os \<Longrightarrow>
     all_signaled wo_is_signaled os w = Inr (list_all (\<lambda>x. avail w x \<noteq> 0) (map (wo_impl w) os))"
  by (induction os) (auto simp: live_peek)

lemma first_signaled_live:
  "list_all (wo_live w) os \<Longrightarrow>
     first_signaled os w = Inr (length (takeWhile (\<lambda>x. avail w x = 0) (map (wo_impl w) os)))"
  by (induction os) (auto simp: live_peek)

lemma prepare_waits_live:
  "list_all (wo_live w) os \<Longrightarrow> prepare_waits os w = Inr (map (wo_queue w) (map (wo_impl w) os))"
  by (induction os) (auto simp: live_peek)

lemma touched_preempt:
  assumes "touched S (disable_preemption w) w1"
  shows "touched S w (enable_preemption w1)"
proof -
  have a: "wo_state (enable_preemption w1) x = wo_state w1 x" "wo_state (disable_preemption w) x = wo_state w x" for x
    by (cases x; simp add: enable_preemption_def disable_preemption_def)+
  have c: "cur_thread (enable_preemption w1) = cur_thread w1" "cur_thread (disable_preemption w) = cur_thread w"
    "others (disable_preemption w) = others w"
    by (simp_all add: enable_preemption_def disable_preemption_def cur_thread_def cur_def others_def)
  have "fixed (enable_preemption w1) = fixed w"
    using assms by (simp add: touched_def fixed_def c) (simp add: enable_preemption_def disable_preemption_def)
  then show ?thesis using assms by (simp add: touched_def a c)
qed

lemma took_preempt: "took w (enable_preemption w1) x = took w w1 x" "took (disable_preemption w) w1 x = took w w1 x"
  by (cases x; simp add: took_def saw_def others_def my_id_def enable_preemption_def disable_preemption_def
      cur_thread_def cur_def)+

lemma wo_preempt:
  "wo_impl (disable_preemption w) = wo_impl w" "wo_live (disable_preemption w) = wo_live w" "avail (disable_preemption w) = avail w"
proof -
  show "wo_impl (disable_preemption w) = wo_impl w" "wo_live (disable_preemption w) = wo_live w"
    by (rule ext, rename_tac x, case_tac x, simp_all add: disable_preemption_def)+
  show "avail (disable_preemption w) = avail w"
    by (rule ext, rename_tac x, case_tac x) (simp_all add: disable_preemption_def)
qed

lemma take_all_no_preempt:
  assumes "list_all (wo_live w) os" "list_all (\<lambda>o1. avail w (wo_impl w o1) \<noteq> 0) os" "distinct (map (wo_impl w) os)"
    "disable_preempt w = 0" "\<not> invariant_executing w"
    "sched_count w + length os \<le> execution_depth_limit (cx_params w) + 1"
  shows "\<exists>w'. no_preempt (take_all user_inv aw os) w = Inr w' \<and> touched (set (map (wo_impl w) os)) w w' \<and>
    (\<forall>x \<in> set (map (wo_impl w) os). took w w' x)"
proof -
  let ?w = "disable_preemption w"
  have "disable_preempt ?w = 1" "invariant_executing ?w = invariant_executing w" "sched_count ?w = sched_count w"
    "cx_params ?w = cx_params w"
    using assms(4) by (simp_all add: disable_preemption_def)
  then obtain w1 where w1: "take_all user_inv aw os ?w = Inr w1" "touched (set (map (wo_impl w) os)) ?w w1"
    "\<forall>x \<in> set (map (wo_impl w) os). took ?w w1 x"
    using take_all_step [of ?w os user_inv aw] assms by (auto simp: wo_preempt)
  then show ?thesis
    by (auto simp: no_preempt_def with_preemption_disabled_def took_preempt intro: touched_preempt)
qed

lemma take_one_is_all: "take_one user_inv o1 = take_all user_inv False [o1]"
proof
  show "take_one user_inv o1 w = take_all user_inv False [o1] w" for w
    by (cases "take_one user_inv o1 w") (simp_all add: take_all_def)
qed

lemma wfmo_try_live:
  assumes "list_all (wo_live w) wo"
  shows "\<exists>w'. wfmo_block user_inv wo wait_all True is_timed w = Inr (Some (wakeup_timeout, 0), w') \<and>
    touched {} w w' \<and> (\<forall>x \<in> set (map (wo_impl w) wo). saw w w' x)"
  using acquire_step [OF assms] by (auto simp: wfmo_block_def)

section \<open>Parking on several objects\<close>

text \<open>
  The running fiber may park: it may wake others (\<open>calm\<close>), it is not itself in the middle of being woken,
  the yield debts are far from wrapping around, and the user's invariant holds and changes nothing.
\<close>

definition can_park :: "user_fun \<Rightarrow> world \<Rightarrow> bool" where
  "can_park user_inv w \<longleftrightarrow> calm (cur w) w \<and> \<not> invariant_executing w \<and> (\<forall>v. user_inv v = Inr v) \<and>
     saved_disable_preemption (cur_thread w) = -1 \<and> temp_switch_from (cur_thread w) = -1 \<and>
     s_thread (cx_sched w) = Some (cur w) \<and> state_of (cx_sched w) (cur w) = thread_running \<and>
     (\<exists>B>1. debts_fit B (cx_sched w))"

text \<open>
  The call has parked: the fiber's entry is the last of the wait set of every object, no other wait set and
  no object has changed, and the scheduler has parked the thread and handed control to one that runs.
\<close>

definition parked_on :: "waitable list \<Rightarrow> bool \<Rightarrow> bool \<Rightarrow> world \<Rightarrow> world \<Rightarrow> bool" where
  "parked_on wo wait_all is_timed w w' \<longleftrightarrow>
     (let ws = map (wo_queue w) (map (wo_impl w) wo);
          d = \<lparr>d_th = cur w, d_count = length wo, d_ws = Some ws, d_wo = Some wo, d_wait_all = wait_all, d_do_switch = True\<rparr>
      in waitsets w' = (\<lambda>a. if a \<in> set ws then waitsets w a @ [d] else waitsets w a) \<and>
         w_frame w' (cur w) = Some (F_wfmo wo ws wait_all) \<and> (\<forall>x. wo_state w' x = wo_state w x) \<and>
         (\<exists>s r. sched_park_current is_timed False (cx_sched w) = Inr (True, s) \<and> parked s (cur w) \<and>
            sched_schedule 1 s = Inr (cur w', r, cx_sched w') \<and> state_of (cx_sched w') (cur w') = thread_running))"

lemma parked_on_entry:
  "parked_on wo wait_all is_timed w w' \<Longrightarrow> a \<in> set (map (wo_queue w) (map (wo_impl w) wo)) \<Longrightarrow>
     \<exists>d. waitsets w' a = waitsets w a @ [d] \<and> d_th d = cur w"
  by (auto simp: parked_on_def Let_def)

definition park_deadlocks :: "bool \<Rightarrow> world \<Rightarrow> bool" where
  "park_deadlocks is_timed w \<longleftrightarrow> (\<exists>s. sched_park_current is_timed False (cx_sched w) = Inr (False, s) \<and>
     (\<forall>i < s_n s. state_of s i = thread_finished_st \<or> parked s i))"

text \<open>A wait set has room for the running fiber, which is in none.\<close>

lemma calm_room:
  assumes "calm t w"
  shows "length (waitsets w a) < cx_n w"
proof -
  have w: "t < cx_n w" "distinct (map d_th (waitsets w a))" "\<forall>d \<in> set (waitsets w a). entry_ok w d"
    using assms by (simp_all add: calm_def waits_ok_def)
  have "set (map d_th (waitsets w a)) \<subseteq> {..< cx_n w} - {t}"
    using w(3) calm_cur [OF assms] by (auto simp: entry_ok_def)
  then have "card (set (map d_th (waitsets w a))) \<le> cx_n w - 1" using w(1) card_mono [of "{..< cx_n w} - {t}"] by simp
  then show ?thesis using distinct_card [OF w(2)] w(1) by simp
qed

lemma push_all:
  assumes "distinct ws" "\<forall>a \<in> set ws. length (waitsets c a) < cx_n c"
  shows "rfold (\<lambda>a. ws_push a d) ws c =
    Inr (c\<lparr>waitsets := (\<lambda>a. if a \<in> set ws then waitsets c a @ [d] else waitsets c a)\<rparr>)"
  using assms
proof (induction ws arbitrary: c)
  case (Cons b ws)
  let ?c = "c\<lparr>waitsets := (waitsets c)(b := waitsets c b @ [d])\<rparr>"
  have "(\<lambda>a. if a \<in> set ws then waitsets ?c a @ [d] else waitsets ?c a) =
      (\<lambda>a. if a \<in> set (b # ws) then waitsets c a @ [d] else waitsets c a)"
    using Cons.prems(1) by (auto simp: fun_eq_iff)
  moreover have "ws_push b d c = Inr ?c" using Cons.prems(2) by (simp add: ws_push_def)
  moreover have "distinct ws" "\<forall>a \<in> set ws. length (waitsets ?c a) < cx_n ?c" using Cons.prems by auto
  note Cons.IH [OF this]
  ultimately show ?case by simp
qed simp

text \<open>Parking and the scheduling step after it.\<close>

lemma sched_parks:
  assumes inv: "sched_inv s" "s_thread s = Some t" "t < s_n s" "state_of s t = thread_running" "replay_free s"
    and B: "debts_fit B s" "1 < B"
  shows "(\<exists>s'. sched_park_current is_timed False s = Inr (False, s') \<and>
      (\<forall>i < s_n s'. state_of s' i = thread_finished_st \<or> parked s' i)) \<or>
    (\<exists>s' th r s''. sched_park_current is_timed False s = Inr (True, s') \<and> parked s' t \<and>
      sched_schedule 1 s' = Inr (th, r, s'') \<and> state_of s'' th = thread_running)"
proof -
  obtain s' where s': "sched_park_current is_timed False s = Inr (running_threads s' \<noteq> [] \<or> timed_threads s' \<noteq> [], s')"
    "sched_inv s'" "running_threads s' = [] \<and> timed_threads s' = [] \<longrightarrow> (\<forall>y < s_n s'. \<forall>i < s_n s'. prio s' y i = 0)"
    "parked s' t" "waiters s' t = {}" "t \<notin> set (dynamic_threads s')" "s_thread s' = Some t" "s_n s' = s_n s"
    "s_kind s' = s_kind s" "stree s' = stree s" "stree_depth s' = stree_depth s"
    using park_inv [OF inv(1-4), of is_timed False] by auto
  show ?thesis
  proof (cases "running_threads s' \<noteq> [] \<or> timed_threads s' \<noteq> []")
    case False
    then have "\<forall>i < s_n s'. state_of s' i = thread_finished_st \<or> parked s' i"
      using s'(2,3) all_parked [of s'] by (auto simp: sched_inv_def)
    then show ?thesis using s'(1) False by auto
  next
    case True
    have "settled s'" using s'(4-7) by (simp add: settled_def parked_def)
    moreover have "can_step 1 s'" using True by (auto simp: can_step_def can_go_def)
    moreover have "replay_free s'" using inv(5) s'(9-11) by (simp add: replay_free_def)
    moreover have "debts_fit B s'" using lower_fit [OF park_lower [OF s'(1)] B(1)] .
    ultimately obtain th r s'' where "sched_schedule 1 s' = Inr (th, r, s'')" "state_of s'' th = thread_running"
      using schedule_tot [OF s'(2,7), of 1 True B] inv(3) s'(8) B(2) by (auto simp: tot_def)
    then show ?thesis using s'(1,4) True by auto
  qed
qed

lemma wfmo_parks:
  assumes live: "list_all (wo_live w) wo" and q: "distinct (map (wo_queue w) (map (wo_impl w) wo))"
    and p: "can_park user_inv w"
  shows "wfmo_block user_inv wo wait_all False is_timed w = Inl (Test_failed result_deadlock) \<and> park_deadlocks is_timed w \<or>
    (\<exists>w'. wfmo_block user_inv wo wait_all False is_timed w = Inr (None, w') \<and> parked_on wo wait_all is_timed w w')"
proof -
  let ?t = "cur w" and ?s = "cx_sched w"
  define ws where "ws = map (wo_queue w) (map (wo_impl w) wo)"
  define d where "d = \<lparr>d_th = ?t, d_count = length wo, d_ws = Some ws, d_wo = Some wo, d_wait_all = wait_all, d_do_switch = True\<rparr>"
  define w1 where "w1 = (set_frame (F_wfmo wo ws wait_all) w)
    \<lparr>waitsets := (\<lambda>a. if a \<in> set ws then waitsets w a @ [d] else waitsets w a)\<rparr>"
  obtain B where c: "calm ?t w" and ie: "\<not> invariant_executing w" and u: "\<And>v. user_inv v = Inr v"
    and th: "saved_disable_preemption (cx_threads w ?t) = -1" "temp_switch_from (cx_threads w ?t) = -1"
    and st: "s_thread ?s = Some ?t" "state_of ?s ?t = thread_running" and B: "debts_fit B ?s" "1 < B"
    using p unfolding can_park_def cur_thread_def by blast
  have cf: "\<not> special_function_executing w" "?t < s_n ?s" "sched_inv ?s" "replay_free ?s"
    using c unfolding calm_def by simp_all
  have push: "rfold (\<lambda>a. ws_push a d) ws (set_frame (F_wfmo wo ws wait_all) w) = Inr w1"
  proof -
    have "waitsets (set_frame (F_wfmo wo ws wait_all) w) = waitsets w" "cx_n (set_frame (F_wfmo wo ws wait_all) w) = cx_n w"
      by (simp_all add: set_frame_def)
    then show ?thesis
      using push_all [OF q, of "set_frame (F_wfmo wo ws wait_all) w" d] calm_room [OF c] by (simp only: ws_def [symmetric] w1_def) simp
  qed
  have w1: "cur w1 = ?t" "cx_sched w1 = ?s" "cx_threads w1 = cx_threads w" "special_function_executing w1 = False"
    "invariant_executing w1 = False"
    using ie cf(1) by (simp_all add: w1_def set_frame_def cur_def)
  define w2 where "w2 = (upd_cur (\<lambda>t. t\<lparr>park_dp := disable_preempt w1, park_switch := True\<rparr>) w1)\<lparr>disable_preempt := 0\<rparr>"
  have pct: "park_current_thread user_inv is_timed False True w1 = rbind (sched_park_current is_timed False ?s) (\<lambda>(ok, s).
      let c = w2\<lparr>cx_sched := s\<rparr> in if \<not> ok then fail_test result_deadlock c else schedule user_inv 1 c)"
  proof -
    have "cx_sched w2 = ?s" by (simp add: w2_def upd_cur_def upd_th_def w1(2))
    moreover have "saved_disable_preemption (cur_thread w1) = -1" using th(1) by (simp add: cur_thread_def w1)
    ultimately show ?thesis
      unfolding park_current_thread_def w1(4) Let_def w2_def [symmetric] by (simp add: w2_def [symmetric])
  qed
  have "\<lparr>d_th = cur (set_frame (F_wfmo wo ws wait_all) w), d_count = length ws, d_ws = Some ws, d_wo = Some wo,
      d_wait_all = wait_all, d_do_switch = True\<rparr> = d"
    by (simp add: d_def ws_def set_frame_def cur_def)
  then have "park_current_many user_inv ws wo wait_all is_timed True (set_frame (F_wfmo wo ws wait_all) w) =
      park_current_thread user_inv is_timed False True w1"
    unfolding park_current_many_def Let_def by (simp add: push)
  then have e: "wfmo_block user_inv wo wait_all False is_timed w =
      rbind (rbind (sched_park_current is_timed False ?s) (\<lambda>(ok, s).
        let c = w2\<lparr>cx_sched := s\<rparr> in if \<not> ok then fail_test result_deadlock c else schedule user_inv 1 c))
          (\<lambda>w. Inr (None, w))"
    using prepare_waits_live [OF live, folded ws_def] unfolding pct by (simp add: wfmo_block_def)
  from sched_parks [OF cf(3) st(1) cf(2) st(2) cf(4) B, of is_timed]
  consider s where "sched_park_current is_timed False ?s = Inr (False, s)" "\<forall>i < s_n s. state_of s i = thread_finished_st \<or> parked s i"
    | s th r s2 where "sched_park_current is_timed False ?s = Inr (True, s)" "parked s ?t" "sched_schedule 1 s = Inr (th, r, s2)"
      "state_of s2 th = thread_running"
    by blast
  then show ?thesis
  proof cases
    case 1
    then have "wfmo_block user_inv wo wait_all False is_timed w = Inl (Test_failed result_deadlock)"
      by (simp add: e fail_test_def)
    then show ?thesis using 1 by (auto simp: park_deadlocks_def)
  next
    case 2
    define w3 where "w3 = upd_cur (\<lambda>t. t\<lparr>last_yield := own_order t\<rparr>)
      (w2\<lparr>cx_sched := s, invariant_executing := False, special_function_executing := False\<rparr>)"
    define w' where "w' = switch_to_fiber th (upd_th th (\<lambda>t. t\<lparr>th_unpark_reason := r\<rparr>) (w3\<lparr>cx_sched := s2\<rparr>))"
    have "schedule user_inv 1 (w2\<lparr>cx_sched := s\<rparr>) = Inr w'"
      using 2(3) w1 th(2)
      by (simp add: schedule_def check_invariant_def u w'_def w3_def w2_def cur_thread_def cur_def upd_cur_def upd_th_def)
    then have b: "wfmo_block user_inv wo wait_all False is_timed w = Inr (None, w')" using 2(1) by (simp add: e)
    have f: "waitsets w' = waitsets w1" "w_frame w' = w_frame w1" "cx_sched w' = s2" "cur w' = th"
      by (simp_all add: w'_def w3_def w2_def switch_to_fiber_def cur_def upd_cur_def upd_th_def)
    have o: "wo_state w' x = wo_state w x" for x
      by (cases x) (simp_all add: w'_def w3_def w2_def w1_def set_frame_def switch_to_fiber_def cur_def upd_cur_def upd_th_def)
    have "parked_on wo wait_all is_timed w w'"
      unfolding parked_on_def ws_def [symmetric] Let_def d_def [symmetric]
      using f o 2 by (auto simp: w1_def set_frame_def)
    then show ?thesis using b by blast
  qed
qed

text \<open>
  C34. A call of \<open>wait_for_multiple_objects\<close> (after its \<open>sched()\<close>) on different live objects -
  semaphores, events, threads, and mutexes whose try-lock does not fail at will - does
  what its specification over sets says. If the wait can be
  served, it succeeds with the index of the specification: each object of the set it names has one
  wait less to give, the mutexes among them belong to the caller, the caller knows all that the
  objects pass on about other threads, and no other object and no other part of the state has
  changed. If it cannot be served, a try changes no object and reports a timeout. Otherwise a fiber that may
  park does so on the wait sets of all objects at once, each of which has room for it: its entry is
  the last of each, and control goes to a thread that runs - unless none is left to run or to time out, which is reported
  as a deadlock. No internal assertion of the call fails.
\<close>

theorem wfmo_serves_spec:
  assumes live: "list_all (wo_live w) wo" "distinct (map (wo_impl w) wo)" "length wo \<le> wfmo_max_objects"
    and w: "disable_preempt w = 0" "\<not> invariant_executing w"
      "sched_count w + length wo \<le> execution_depth_limit (cx_params w) + 1"
  shows "case wait_spec (avail w) wait_all (map (wo_impl w) wo) of
      Some (i, S) \<Rightarrow> \<exists>w'. wait_for_multiple_objects user_inv wo wait_all try_wait is_timed w = Inr (Some (wakeup_success, i), w') \<and>
        touched S w w' \<and> (\<forall>x \<in> S. took w w' x)
    | None \<Rightarrow>
        if try_wait
        then \<exists>w'. wait_for_multiple_objects user_inv wo wait_all try_wait is_timed w = Inr (Some (wakeup_timeout, 0), w') \<and>
          touched {} w w' \<and> (\<forall>x \<in> set (map (wo_impl w) wo). saw w w' x)
        else can_park user_inv w \<longrightarrow> distinct (map (wo_queue w) (map (wo_impl w) wo)) \<longrightarrow>
          wait_for_multiple_objects user_inv wo wait_all try_wait is_timed w = Inl (Test_failed result_deadlock) \<and>
            park_deadlocks is_timed w \<or>
          (\<exists>w'. wait_for_multiple_objects user_inv wo wait_all try_wait is_timed w = Inr (None, w') \<and>
            parked_on wo wait_all is_timed w w')"
proof (cases wait_all)
  case True
  show ?thesis
  proof (cases "list_all (\<lambda>x. avail w x \<noteq> 0) (map (wo_impl w) wo)")
    case ready: True
    then have "list_all (\<lambda>o1. avail w (wo_impl w o1) \<noteq> 0) wo" by (simp add: list_all_iff)
    then show ?thesis using take_all_no_preempt [OF live(1) _ live(2) w, of user_inv False] True ready live(3)
        all_signaled_live [OF live(1)]
      by (auto simp: wait_spec_def wait_for_multiple_objects_def)
  next
    case False
    then have "wait_spec (avail w) wait_all (map (wo_impl w) wo) = None" using True by (simp add: wait_spec_def)
    moreover have "wait_for_multiple_objects user_inv wo wait_all try_wait is_timed w = wfmo_block user_inv wo wait_all try_wait is_timed w"
      using True False live(3) all_signaled_live [OF live(1)] by (simp add: wait_for_multiple_objects_def)
    ultimately show ?thesis
      using wfmo_try_live [OF live(1), of user_inv wait_all is_timed] wfmo_parks [OF live(1), of user_inv wait_all is_timed]
      by (cases try_wait; simp only: option.case if_True if_False simp_thms; blast)
  qed
next
  case False
  let ?i = "length (takeWhile (\<lambda>x. avail w x = 0) (map (wo_impl w) wo))"
  have first: "first_signaled wo w = Inr ?i" by (rule first_signaled_live [OF live(1)])
  show ?thesis
  proof (cases "?i < length wo")
    case ready: True
    let ?o = "wo ! ?i"
    have "avail w (wo_impl w ?o) \<noteq> 0"
      using nth_length_takeWhile [of "\<lambda>x. avail w x = 0" "map (wo_impl w) wo"] ready by simp
    moreover have "wo_live w ?o" using live(1) ready by (simp add: list_all_length)
    moreover have "sched_count w \<le> execution_depth_limit (cx_params w)" using w(3) ready by linarith
    ultimately have "\<exists>w'. no_preempt (take_one user_inv ?o) w = Inr w' \<and> touched {wo_impl w ?o} w w' \<and> took w w' (wo_impl w ?o)"
      using take_all_no_preempt [of w "[?o]" user_inv False] w(1,2) by (simp add: take_one_is_all)
    then show ?thesis using False ready live(3) first
      by (auto simp: wait_spec_def wait_for_multiple_objects_def Let_def)
  next
    case none: False
    have "?i \<le> length wo" using length_takeWhile_le [of _ "map (wo_impl w) wo"] by simp
    with none have "?i = length wo" by linarith
    then have "wait_spec (avail w) wait_all (map (wo_impl w) wo) = None" using False by (simp add: wait_spec_def)
    moreover have "wait_for_multiple_objects user_inv wo wait_all try_wait is_timed w = wfmo_block user_inv wo wait_all try_wait is_timed w"
      using False \<open>?i = length wo\<close> live(3) first by (simp add: wait_for_multiple_objects_def)
    ultimately show ?thesis
      using wfmo_try_live [OF live(1), of user_inv wait_all is_timed] wfmo_parks [OF live(1), of user_inv wait_all is_timed]
      by (cases try_wait; simp only: option.case if_True if_False simp_thms; blast)
  qed
qed

text \<open>
  A semaphore and an auto-reset event, both waited for: once when the semaphore is at two and the event is set, once
  when nothing is available and the wait is a timed one.
\<close>

definition wfmo_sample :: "32 word \<Rightarrow> bool \<Rightarrow> world" where
  "wfmo_sample k b = parked_sample\<lparr>
     w_semas := (\<lambda>_. \<lparr>sm_sign = signature_ctor sema_magic 8192, sm_spurious_wakeups = False, sm_count = k,
                      sm_max_count = 10, sm_ws = 8192, sm_sync = (\<lambda>_. 0)\<rparr>),
     w_events := (\<lambda>_. \<lparr>ev_sign = signature_ctor event_magic 12288, ev_manual_reset = False, ev_state = b,
                       ev_ws = 12288, ev_sync = (\<lambda>_. 0)(1 := 5)\<rparr>),
     w_sema_handle := (\<lambda>_. \<lparr>hd_impl = Some 8192, hd_sign = signature_ctor sema_handle_magic 16384\<rparr>),
     w_event_handle := (\<lambda>_. \<lparr>hd_impl = Some 12288, hd_sign = signature_ctor event_handle_magic 20480\<rparr>)\<rparr>"

lemma wfmo_sample_live:
  "list_all (wo_live (wfmo_sample c b)) [W_sema 1, W_event 2]"
  "map (wo_impl (wfmo_sample c b)) [W_sema 1, W_event 2] = [W_sema 8192, W_event 12288]"
  "disable_preempt (wfmo_sample c b) = 0" "\<not> invariant_executing (wfmo_sample c b)" "1 \<in> others (wfmo_sample c b)"
  "sched_count (wfmo_sample c b) + length [W_sema 1, W_event 2] \<le> execution_depth_limit (cx_params (wfmo_sample c b)) + 1"
  by (simp_all add: wfmo_sample_def sig_ok_def signature_check_def signature_ctor_def parked_sample_def default_params_def
      others_def cur_thread_def cur_def sample_thread_def)

lemma wfmo_sample_can_park: "can_park Inr (wfmo_sample 0 False)"
proof -
  have f: "s_n sample_sched = 2" "s_thread sample_sched = Some 0" "state_of sample_sched 0 = thread_running"
    "prio sample_sched y i = 0" for y i
    by (simp_all add: sample_sched_def sched_ctor_def blank_sched_thread_def)
  have "debts_fit 2 sample_sched" by (simp add: debts_fit_def f)
  then have "\<exists>B>1. debts_fit B sample_sched" by (intro exI [of _ 2]) simp
  then show ?thesis using sample_sched_ok f(1-3)
    by (simp add: can_park_def calm_def waits_ok_def wfmo_sample_def parked_sample_def cur_def cur_thread_def sample_thread_def)
qed

theorem wfmo_serves_spec_witness:
  "(\<exists>w'. wait_for_multiple_objects Inr [W_sema 1, W_event 2] True False False (wfmo_sample 2 True) = Inr (Some (wakeup_success, 0), w') \<and>
     sm_count (w_semas w' 8192) = 1 \<and> \<not> ev_state (w_events w' 12288) \<and> 5 \<le> acq_rel_order (cur_thread w') 1) \<and>
   (\<exists>w'. wait_for_multiple_objects Inr [W_sema 1, W_event 2] False False True (wfmo_sample 0 False) = Inr (None, w') \<and>
     map d_th (waitsets w' 8192) = [0] \<and> map d_th (waitsets w' 12288) = [0])"
proof
  let ?w = "wfmo_sample 2 True"
  have s: "wait_spec (avail ?w) True [W_sema 8192, W_event 12288] = Some (0, {W_sema 8192, W_event 12288})"
    by (simp add: wait_spec_def wfmo_sample_def)
  note l = wfmo_sample_live [of 2 True]
  obtain w' where w': "wait_for_multiple_objects Inr [W_sema 1, W_event 2] True False False ?w = Inr (Some (wakeup_success, 0), w')"
    "took ?w w' (W_sema 8192)" "took ?w w' (W_event 12288)"
    using wfmo_serves_spec [OF l(1) _ _ l(3,4,6), where wait_all = True and user_inv = Inr and try_wait = False and
        is_timed = False, unfolded l(2) s] by (auto simp: wfmo_max_objects_def)
  have c: "unat (sm_count (w_semas w' 8192)) = 1" "\<not> ev_state (w_events w' 12288)"
    using w'(2,3) by (simp_all add: took_def wfmo_sample_def)
  have "ev_sync (w_events ?w 12288) 1 \<le> acq_rel_order (cur_thread w') 1"
    using w'(3) l(5) by (simp add: took_def saw_def vle_on_def)
  moreover have "ev_sync (w_events ?w 12288) 1 = 5" by (simp add: wfmo_sample_def)
  moreover have "sm_count (w_semas w' 8192) = 1" using c(1) by (simp add: word_unat_eq_iff)
  ultimately show "\<exists>w'. wait_for_multiple_objects Inr [W_sema 1, W_event 2] True False False ?w = Inr (Some (wakeup_success, 0), w') \<and>
     sm_count (w_semas w' 8192) = 1 \<and> \<not> ev_state (w_events w' 12288) \<and> 5 \<le> acq_rel_order (cur_thread w') 1"
    using w'(1) c(2) by auto
next
  let ?v = "wfmo_sample 0 False"
  have s: "wait_spec (avail ?v) False [W_sema 8192, W_event 12288] = None"
    by (simp add: wait_spec_def wfmo_sample_def)
  have q: "map (wo_queue ?v) [W_sema 8192, W_event 12288] = [8192, 12288]" "waitsets ?v = (\<lambda>_. [])" "cur ?v = 0"
    "cx_sched ?v = sample_sched"
    by (simp_all add: wfmo_sample_def parked_sample_def cur_def)
  note l = wfmo_sample_live [of 0 False]
  have "\<not> park_deadlocks True ?v" using sample_timed_park by (auto simp: park_deadlocks_def q)
  then obtain w' where w': "wait_for_multiple_objects Inr [W_sema 1, W_event 2] False False True ?v = Inr (None, w')"
    "parked_on [W_sema 1, W_event 2] False True ?v w'"
    using wfmo_serves_spec [OF l(1) _ _ l(3,4,6), where wait_all = False and user_inv = Inr and try_wait = False and
        is_timed = True, unfolded l(2) s q(1)] wfmo_sample_can_park by (auto simp: wfmo_max_objects_def)
  have "map d_th (waitsets w' a) = [0]" if "a \<in> {8192, 12288}" for a
    using parked_on_entry [OF w'(2), of a] that unfolding l(2) q by auto
  then show "\<exists>w'. wait_for_multiple_objects Inr [W_sema 1, W_event 2] False False True ?v = Inr (None, w') \<and>
     map d_th (waitsets w' 8192) = [0] \<and> map d_th (waitsets w' 12288) = [0]"
    using w'(1) by blast
qed

section \<open>Misuse\<close>

text \<open>
  The objects have to be different: a wait for all of a list that names a semaphore of count 1
  twice finds both entries signaled, and its second take ends in an internal assertion, where
  Windows refuses the call.
\<close>

lemma wait_all_twice_asserts:
  assumes "wo_live w (W_sema h)" "avail w (wo_impl w (W_sema h)) = 1"
    "disable_preempt w = 0" "sched_count w + 1 \<le> execution_depth_limit (cx_params w)"
  shows "wait_for_multiple_objects user_inv [W_sema h, W_sema h] True try_wait is_timed w = Inl Verify_failed"
proof -
  let ?a = "the (hd_impl (w_sema_handle w h))"
  let ?w = "disable_preemption w\<lparr>sched_count := sched_count w + 1\<rparr>"
  have c: "sm_count (w_semas w ?a) = 1" using assms(2) by (simp add: word_unat_eq_iff)
  have ne: "sm_count (w_semas w ?a) \<noteq> 0" by (simp add: c)
  have sig: "all_signaled wo_is_signaled [W_sema h, W_sema h] w = Inr True"
    using all_signaled_live [of w "[W_sema h, W_sema h]"] assms(1,2) by (simp del: all_signaled.simps)
  have t1: "take_one user_inv (W_sema h) (disable_preemption w) = Inr (sema_take ?a ?w)"
    using assms(1,3,4) ne live_checks(1) [of "disable_preemption w" h]
    by (simp add: take_one_def wo_preempt sched_disabled disable_preemption_def sema_wait_def sig_ok_def)
  define v where "v = sema_take ?a ?w"
  have w2: "w_sema_handle v = w_sema_handle w" "sm_count (w_semas v ?a) = 0" "sm_sign (w_semas v ?a) = sm_sign (w_semas w ?a)"
    "disable_preempt v \<noteq> 0" "sched_count v = sched_count w + 1" "cx_params v = cx_params w"
    using c assms(3) by (simp_all add: v_def sema_take_def sema_sync_def upd_sema_def set_clock_def upd_cur_def upd_th_def
        disable_preemption_def Let_def)
  have "take_one user_inv (W_sema h) v = Inl Verify_failed"
  proof -
    have "wo_live v (W_sema h)" using assms(1) by (simp add: w2)
    then show ?thesis using assms(1,4) live_checks(1) [of v h]
      by (simp add: take_one_def sched_disabled w2 sema_wait_def sig_ok_def)
  qed
  then have "no_preempt (take_all user_inv False [W_sema h, W_sema h]) w = Inl Verify_failed"
    using t1 [folded v_def] by (simp add: no_preempt_def with_preemption_disabled_def take_all_def)
  then show ?thesis using sig by (simp add: wait_for_multiple_objects_def wfmo_max_objects_def)
qed

text \<open>
  A mutex that the caller owns already does not count as signaled, although a single wait for it
  would succeed: the wait for several objects parks on the caller's own mutex.
\<close>

lemma own_mutex_not_signaled:
  assumes "wo_live w (W_mutex h)" "exclusive_owner (w_mutexes w (the (hd_impl (w_mutex_handle w h)))) = my_id w"
  shows "wo_is_signaled (W_mutex h) w = Inr False"
  using live_peek(1) [OF assms(1)] assms(2) by (simp add: my_id_def state_free_def)

end
