(* ===== verification/Search_State.thy ===== *)
theory Search_State
  imports Tree_Search
begin

text \<open>
  The text form of a search: \<open>get_state_impl\<close> and \<open>set_state_impl\<close> of
  \<^verbatim>\<open>full_search_scheduler.hpp\<close>, which \<open>simulate\<close> uses to run a failed iteration again.
  Streams are strings. Of the standard library the code uses the insertion and the extraction of
  unsigned numbers in decimal: extraction skips white space, takes the digits there are and fails
  when there is none or the number does not fit its type; a failed stream extracts nothing any
  more. Signs are not part of the model.
\<close>

section \<open>Numbers in streams\<close>

definition digit :: "nat \<Rightarrow> char" where
  "digit d = char_of (48 + d)"

fun show_dec :: "nat \<Rightarrow> string" where
  "show_dec n = (if n < 10 then [digit n] else show_dec (n div 10) @ [digit (n mod 10)])"

declare show_dec.simps [simp del]

definition is_digit :: "char \<Rightarrow> bool" where
  "is_digit c \<longleftrightarrow> (of_char c :: nat) \<in> {48..57}"

definition is_space :: "char \<Rightarrow> bool" where
  "is_space c \<longleftrightarrow> (of_char c :: nat) \<in> {9..13} \<or> (of_char c :: nat) = 32"

definition dec_value :: "string \<Rightarrow> nat" where
  "dec_value ds = foldl (\<lambda>a c. 10 * a + (of_char c - 48)) 0 ds"

fun read_num :: "nat \<Rightarrow> string option \<Rightarrow> nat \<times> string option" where
  "read_num limit None = (0, None)"
| "read_num limit (Some txt) =
     (let t = dropWhile is_space txt; ds = takeWhile is_digit t
      in if ds = [] then (0, None) else if dec_value ds > limit then (limit, None)
         else (dec_value ds, Some (dropWhile is_digit t)))"

lemma of_digit: "d < 10 \<Longrightarrow> of_char (digit d) = 48 + d"
  by (simp add: digit_def)

lemma digit_is_digit: "d < 10 \<Longrightarrow> is_digit (digit d) \<and> \<not> is_space (digit d)"
  by (simp add: is_digit_def is_space_def of_digit)

lemma show_dec_digits: "\<forall>c \<in> set (show_dec n). is_digit c \<and> \<not> is_space c"
proof (induction n rule: show_dec.induct)
  case (1 n)
  then show ?case by (subst show_dec.simps) (auto simp: digit_is_digit)
qed

lemma show_dec_ne: "show_dec n \<noteq> []"
  by (subst show_dec.simps) simp

lemma dec_value_show: "dec_value (show_dec n) = n"
proof (induction n rule: show_dec.induct)
  case (1 n)
  show ?case
  proof (cases "n < 10")
    case True
    then show ?thesis by (subst show_dec.simps) (simp add: dec_value_def of_digit)
  next
    case False
    have "dec_value (show_dec (n div 10) @ [digit (n mod 10)]) = 10 * dec_value (show_dec (n div 10)) + n mod 10"
      by (simp add: dec_value_def of_digit)
    then show ?thesis using False 1 by (subst show_dec.simps) simp
  qed
qed

lemma read_show:
  assumes "n \<le> limit"
  shows "read_num limit (Some (show_dec n @ CHR '' '' # rest)) = (n, Some (CHR '' '' # rest))"
    "read_num limit (Some (CHR '' '' # show_dec n @ CHR '' '' # rest)) = (n, Some (CHR '' '' # rest))"
proof -
  have sp: "is_space CHR '' ''" "\<not> is_digit CHR '' ''" by (simp_all add: is_space_def is_digit_def)
  obtain c cs where c: "show_dec n = c # cs" using show_dec_ne [of n] by (cases "show_dec n") auto
  have d: "\<not> is_space c" "\<forall>x \<in> set (c # cs). is_digit x" using show_dec_digits [of n] c by auto
  have "dropWhile is_space (show_dec n @ CHR '' '' # rest) = show_dec n @ CHR '' '' # rest" using d c by simp
  moreover have "takeWhile is_digit (show_dec n @ CHR '' '' # rest) = show_dec n"
    using d c sp by (simp add: takeWhile_append2)
  moreover have "dropWhile is_digit (show_dec n @ CHR '' '' # rest) = CHR '' '' # rest"
    using d c sp by (simp add: dropWhile_append2)
  ultimately show "read_num limit (Some (show_dec n @ CHR '' '' # rest)) = (n, Some (CHR '' '' # rest))"
    "read_num limit (Some (CHR '' '' # show_dec n @ CHR '' '' # rest)) = (n, Some (CHR '' '' # rest))"
    using assms sp show_dec_ne [of n] by (simp_all add: dec_value_show)
qed

section \<open>The state of a search\<close>

fun type_code :: "sched_type \<Rightarrow> nat" where
  "type_code sched_type_sched = 0"
| "type_code sched_type_atomic_load = 1"
| "type_code sched_type_cas_fail = 2"
| "type_code sched_type_mem_realloc = 3"
| "type_code sched_type_user = 4"

text \<open>\<open>None\<close>: not a value of the enumeration.\<close>

definition code_type :: "nat \<Rightarrow> sched_type option" where
  "code_type k = (if k = 0 then Some sched_type_sched else if k = 1 then Some sched_type_atomic_load
     else if k = 2 then Some sched_type_cas_fail else if k = 3 then Some sched_type_mem_realloc
     else if k = 4 then Some sched_type_user else None)"

definition put_num :: "nat \<Rightarrow> string" where
  "put_num n = show_dec n @ '' ''"

definition put_node :: "stree_node \<Rightarrow> string" where
  "put_node n = put_num (n_count n) @ put_num (n_index n) @ put_num (type_code (n_type n))"

definition get_state_impl :: "sched \<Rightarrow> string" where
  "get_state_impl s =
     (if s_kind s = sched_random then []
      else put_num (length (stree s) mod 2 ^ 32) @ concat (map put_node (stree s)))"

definition unsigned_max :: nat where "unsigned_max = 2 ^ 32 - 1"
definition size_max :: nat where "size_max = 2 ^ 64 - 1"

fun read_nodes :: "nat \<Rightarrow> string option \<Rightarrow> (stree_node list \<times> string option) option" where
  "read_nodes 0 ss = Some ([], ss)"
| "read_nodes (Suc k) ss =
     (let (cnt, ss) = read_num unsigned_max ss; (idx, ss) = read_num unsigned_max ss; (ty, ss) = read_num unsigned_max ss
      in case code_type ty of None \<Rightarrow> None
         | Some t \<Rightarrow> map_option (\<lambda>(ns, ss). (\<lparr>n_count = cnt, n_index = idx, n_type = t\<rparr> # ns, ss)) (read_nodes k ss))"

definition set_state_impl :: "string option \<Rightarrow> sched \<Rightarrow> (sched \<times> string option) option" where
  "set_state_impl ss s =
     (if s_kind s = sched_random then Some (s, ss)
      else let (sz, ss) = read_num size_max ss
           in map_option (\<lambda>(ns, ss). (s\<lparr>stree := stree s @ ns\<rparr>, ss)) (read_nodes sz ss))"

lemma code_type_code [simp]: "code_type (type_code t) = Some t"
  by (cases t) (simp_all add: code_type_def)

definition small_node :: "stree_node \<Rightarrow> bool" where
  "small_node n \<longleftrightarrow> n_count n \<le> unsigned_max \<and> n_index n \<le> unsigned_max"

lemma type_code_small: "type_code t \<le> unsigned_max"
  by (cases t) (simp_all add: unsigned_max_def)

lemma read_put_nodes:
  "\<forall>n \<in> set ns. small_node n \<Longrightarrow>
    read_nodes (length ns) (Some (CHR '' '' # concat (map put_node ns) @ rest)) = Some (ns, Some (CHR '' '' # rest))"
proof (induction ns)
  case (Cons n ns)
  have sm: "n_count n \<le> unsigned_max" "n_index n \<le> unsigned_max" using Cons.prems by (auto simp: small_node_def)
  let ?r = "concat (map put_node ns) @ rest"
  have "read_num unsigned_max (Some (CHR '' '' # show_dec (n_count n) @ CHR '' '' # show_dec (n_index n) @ CHR '' '' #
      show_dec (type_code (n_type n)) @ CHR '' '' # ?r)) =
    (n_count n, Some (CHR '' '' # show_dec (n_index n) @ CHR '' '' # show_dec (type_code (n_type n)) @ CHR '' '' # ?r))"
    using read_show(2) [OF sm(1)] by simp
  moreover have "read_num unsigned_max (Some (CHR '' '' # show_dec (n_index n) @ CHR '' '' # show_dec (type_code (n_type n)) @ CHR '' '' # ?r)) =
    (n_index n, Some (CHR '' '' # show_dec (type_code (n_type n)) @ CHR '' '' # ?r))"
    using read_show(2) [OF sm(2)] by simp
  moreover have "read_num unsigned_max (Some (CHR '' '' # show_dec (type_code (n_type n)) @ CHR '' '' # ?r)) =
    (type_code (n_type n), Some (CHR '' '' # ?r))"
    using read_show(2) [OF type_code_small] by simp
  moreover have "CHR '' '' # concat (map put_node (n # ns)) @ rest = CHR '' '' # show_dec (n_count n) @ CHR '' '' #
      show_dec (n_index n) @ CHR '' '' # show_dec (type_code (n_type n)) @ CHR '' '' # ?r"
    by (simp add: put_node_def put_num_def)
  moreover have "read_nodes (length ns) (Some (CHR '' '' # ?r)) = Some (ns, Some (CHR '' '' # rest))"
    using Cons by simp
  ultimately show ?case by (simp only: list.size read_nodes.simps add_Suc_right add_0_right Let_def prod.case)
      (simp add: Let_def del: read_num.simps)
qed simp

lemma set_get_state:
  assumes "s_kind s' = s_kind s" "stree s' = []" "s_kind s = sched_random \<longrightarrow> stree s = []"
    "length (stree s) < 2 ^ 32" "\<forall>n \<in> set (stree s). small_node n"
  shows "set_state_impl (Some (CHR '' '' # get_state_impl s @ rest)) s' = Some (s'\<lparr>stree := stree s\<rparr>, Some (CHR '' '' # rest))"
proof (cases "s_kind s = sched_random")
  case True
  then show ?thesis using assms(1-3) by (simp add: set_state_impl_def get_state_impl_def)
next
  case False
  have sz: "length (stree s) \<le> size_max" using assms(4) by (simp add: size_max_def)
  have "read_num size_max (Some (CHR '' '' # get_state_impl s @ rest)) =
      (length (stree s), Some (CHR '' '' # concat (map put_node (stree s)) @ rest))"
    using read_show(2) [OF sz] False assms(4) by (simp add: get_state_impl_def put_num_def del: read_num.simps)
  then show ?thesis
    using read_put_nodes [OF assms(5), of rest] False assms(1,2)
    by (auto simp: set_state_impl_def simp del: read_num.simps)
qed

text \<open>
  C37. The state of a search survives its text form. What \<open>get_state\<close> writes, behind a blank
  and in front of anything that follows, is read back by \<open>set_state\<close> of a fresh scheduler as the
  same sequence of choices, provided there are fewer than \<open>2 ^ 32\<close> of them with fewer than
  \<open>2 ^ 32\<close> alternatives each. The stream is then left in front of what follows, with one blank before it.
\<close>

theorem state_round_trip:
  assumes "s_kind s' = s_kind s" "stree s' = []" "s_kind s = sched_random \<longrightarrow> stree s = []"
    "length (stree s) < 2 ^ 32" "\<forall>n \<in> set (stree s). small_node n"
  shows "set_state_impl (Some (CHR '' '' # get_state_impl s @ rest)) s' = Some (s'\<lparr>stree := stree s\<rparr>, Some (CHR '' '' # rest))"
  using assms by (rule set_get_state)

theorem state_round_trip_witness:
  "set_state_impl (Some (CHR '' '' # get_state_impl ((sched_ctor sched_full 2 default_params 0)\<lparr>stree := [node 3 1 sched_type_user]\<rparr>) @ ''7''))
     (sched_ctor sched_full 2 default_params 0) =
     Some ((sched_ctor sched_full 2 default_params 0)\<lparr>stree := [node 3 1 sched_type_user]\<rparr>, Some '' 7'')"
  using state_round_trip [of "sched_ctor sched_full 2 default_params 0"
      "(sched_ctor sched_full 2 default_params 0)\<lparr>stree := [node 3 1 sched_type_user]\<rparr>" "''7''"]
  by (simp add: sched_ctor_def small_node_def unsigned_max_def)

end
