(* ===== verification/Simulate.thy ===== *)
theory Simulate
  imports Fibers Search_State
begin

text \<open>
  The driver: \<open>simulate2\<close>, \<open>simulate\<close>, \<open>run_test\<close> and \<open>simulate<test_t>\<close> of
  \<^verbatim>\<open>context.hpp\<close>. What one iteration does between \<open>iteration\<close> and the return to the main
  fiber is the test, an argument \<open>iter\<close>; its result is the test's verdict on that iteration.
\<close>

section \<open>The context\<close>

definition new_thread :: "nat \<Rightarrow> thread_info" where
  "new_thread i = \<lparr>th_index = i, acq_rel_order = (\<lambda>_. 0), acquire_fence_order = (\<lambda>_. 0), release_fence_order = (\<lambda>_. 0),
     last_yield = 0, th_unpark_reason = unpark_normal, temp_switch_from = -1, saved_disable_preemption = -1, th_errno = 0,
     dynamic_thread_func = None, dynamic_thread_param = 0, so_finished = False, so_ws = 4 * i, so_sync = (\<lambda>_. 0),
     park_dp = 0, park_switch = False\<rparr>"

text \<open>
  The constructor, with the scheduler that the search type selects; the fields it leaves alone, which
  \<open>iteration\<close> sets, are zero here.
\<close>

definition context_ctor :: "nat \<Rightarrow> nat \<Rightarrow> test_params \<Rightarrow> ctx" where
  "context_ctor static_count dynamic_count params =
     (let n = static_count + dynamic_count
      in \<lparr>cx_n = n, cx_static = static_count, cx_params = params,
          cx_sched = sched_ctor (search_type params) n params dynamic_count, cx_threads = new_thread, threadx = None,
          seq_cst_fence_order = (\<lambda>_. 0), disable_preempt = 0, special_function_executing = False,
          invariant_executing = False, sched_count = 0, first_thread = False, suite_constructed = False,
          waitsets = (\<lambda>_. []), cx_memory = memory_ctor, cx_slabs = (\<lambda>_. slab_ctor), disable_alloc = 0,
          prev_alloc_size = 0, hash_map = Map.empty, hash_seq = 0, tls_entries = []\<rparr>)"

section \<open>The loop over iterations\<close>

type_synonym 'c iter_fun = "nat \<Rightarrow> 'c \<Rightarrow> fault + (test_result \<times> 'c)"

definition stop_with :: "test_result \<Rightarrow> nat \<Rightarrow> 'a ctx_scheme \<Rightarrow> 'a ctx_scheme" where
  "stop_with res it c = c\<lparr>cx_params := (cx_params c)\<lparr>p_test_result := res, stop_iteration := it\<rparr>\<rparr>"

text \<open>\<open>None\<close> is a loop that does not end.\<close>

partial_function (option) simulate2 ::
  "'a ctx_scheme iter_fun \<Rightarrow> bool \<Rightarrow> nat \<Rightarrow> 'a ctx_scheme \<Rightarrow> (fault + (test_result \<times> 'a ctx_scheme)) option" where
  "simulate2 iter second it c =
     (case iter it c of
        Inl e \<Rightarrow> Some (Inl e)
      | Inr (res, c) \<Rightarrow>
          if res \<noteq> result_success then Some (Inr (res, stop_with res it c))
          else if second then Some (Inl Verify_failed)
          else case sched_iteration_end (cx_sched c) of
                 Inl e \<Rightarrow> Some (Inl e)
               | Inr (finish, s) \<Rightarrow>
                   if finish then Some (Inr (result_success, stop_with result_success it (c\<lparr>cx_sched := s\<rparr>)))
                   else simulate2 iter second (it + 1) (c\<lparr>cx_sched := s\<rparr>))"

text \<open>
  The streams: \<open>sss\<close> is the text of the initial state, the string in the result what was written.
  A state whose text holds no value of \<open>sched_type\<close> where one is read is not part of the model.
\<close>

definition iteration_max :: nat where "iteration_max = 2 ^ 64 - 1"

definition simulate ::
  "'a ctx_scheme iter_fun \<Rightarrow> bool \<Rightarrow> string \<Rightarrow> 'a ctx_scheme \<Rightarrow> (fault + (test_result \<times> string \<times> 'a ctx_scheme)) option" where
  "simulate iter second sss c =
     Option.bind
       (if sss \<noteq> []
        then let (start, ss) = read_num iteration_max (Some sss)
             in map_option (\<lambda>(s, _). (start, c\<lparr>cx_sched := s\<rparr>)) (set_state_impl ss (cx_sched c))
        else Some (1, c)) (\<lambda>(start_iteration, c).
     Option.bind (simulate2 iter second start_iteration c) (\<lambda>r.
       Some (rbind r (\<lambda>(res, c).
         Inr (res, if res \<noteq> result_success \<and> \<not> collect_history (cx_params c)
                   then put_num (stop_iteration (cx_params c)) @ get_state_impl (cx_sched c) else [], c)))))"

definition run_test ::
  "'a ctx_scheme iter_fun \<Rightarrow> (test_params \<Rightarrow> 'a ctx_scheme) \<Rightarrow> test_params \<Rightarrow> bool \<Rightarrow>
     (fault + (test_result \<times> string \<times> test_params)) option" where
  "run_test iter mk params second =
     Option.bind (simulate iter second (p_initial_state params) (mk params)) (\<lambda>r.
       Some (rbind r (\<lambda>(res, oss, c). Inr (res, oss, cx_params c))))"

text \<open>
  \<open>simulate<test_t>\<close>: a failed run is repeated once, from the iteration it stopped in, to collect
  its history; the two runs have to agree.
\<close>

definition simulate_test ::
  "'a ctx_scheme iter_fun \<Rightarrow> (test_params \<Rightarrow> 'a ctx_scheme) \<Rightarrow> test_result \<Rightarrow> test_params \<Rightarrow>
     (fault + (bool \<times> test_params)) option" where
  "simulate_test iter mk expected params =
     Option.bind (run_test iter mk params False) (\<lambda>r.
       case r of
         Inl e \<Rightarrow> Some (Inl e)
       | Inr (res, oss, params) \<Rightarrow>
           if res = result_success then Some (Inr (expected = res, params))
           else if \<not> output_history params \<and> \<not> collect_history params
           then let params = params\<lparr>p_initial_state := oss, collect_history := True, p_final_state := oss\<rparr>;
                    stop_iter = stop_iteration params
                in Option.bind (run_test iter mk params True) (\<lambda>r2.
                     Some (rbind r2 (\<lambda>(res2, _, params).
                       rl_verify (res = res2) (rl_verify (stop_iteration params = stop_iter) (Inr (expected = res, params))))))
           else Some (Inr (expected = res, params)))"

section \<open>The random search\<close>

text \<open>
  What \<open>iteration\<close> and the test keep of the scheduler: its kind and parameters, and the number of
  the iteration it was started with.
\<close>

definition steady :: "'a ctx_scheme iter_fun \<Rightarrow> bool" where
  "steady iter \<longleftrightarrow> (\<forall>it c r c'. iter it c = Inr (r, c') \<longrightarrow>
     s_iter (cx_sched c') = it \<and> s_kind (cx_sched c') = s_kind (cx_sched c) \<and> s_params (cx_sched c') = s_params (cx_sched c))"

text \<open>
  C38. The random search runs the iterations it was asked for and stops. Started at an iteration
  that is not past \<open>iteration_count\<close>, the loop returns; it ends in success only after exactly
  that many iterations, each of which succeeded, and any other result is the one of the iteration
  it reports as the one it stopped in.
\<close>

theorem random_search_terminates:
  assumes "steady iter" "s_kind (cx_sched c) = sched_random" "n = iteration_count (s_params (cx_sched c))"
    "start \<le> n"
  shows "\<exists>r. simulate2 iter False start c = Some r \<and>
    (\<forall>res c'. r = Inr (res, c') \<longrightarrow> start \<le> stop_iteration (cx_params c') \<and> stop_iteration (cx_params c') \<le> n \<and>
       p_test_result (cx_params c') = res \<and> (res = result_success \<longrightarrow> stop_iteration (cx_params c') = n) \<and>
       (res \<noteq> result_success \<longrightarrow> (\<exists>c1 c2. iter (stop_iteration (cx_params c')) c1 = Inr (res, c2))))"
  using assms(2-4)
proof (induction "n - start" arbitrary: start c)
  case 0
  then have "start = n" by simp
  show ?case
  proof (cases "iter start c")
    case (Inr x)
    obtain res c1 where x: "x = (res, c1)" by (cases x)
    have k: "s_kind (cx_sched c1) = sched_random" "s_iter (cx_sched c1) = n" "s_params (cx_sched c1) = s_params (cx_sched c)"
      using assms(1) Inr x 0 \<open>start = n\<close> unfolding steady_def by metis+
    then show ?thesis
      using Inr x \<open>start = n\<close> 0 by (subst simulate2.simps) (auto simp: stop_with_def sched_iteration_end_def)
  qed (subst simulate2.simps, simp)
next
  case (Suc k)
  show ?case
  proof (cases "iter start c")
    case (Inr x)
    obtain res c1 where x: "x = (res, c1)" by (cases x)
    have kk: "s_kind (cx_sched c1) = sched_random" "s_iter (cx_sched c1) = start" "s_params (cx_sched c1) = s_params (cx_sched c)"
      using assms(1) Inr x Suc.prems unfolding steady_def by metis+
    show ?thesis
    proof (cases "res = result_success")
      case False
      then show ?thesis using Inr x Suc.prems by (subst simulate2.simps) (auto simp: stop_with_def)
    next
      case True
      define c2 where "c2 = c1\<lparr>cx_sched := (cx_sched c1)\<lparr>s_thread := None\<rparr>\<rparr>"
      have ne: "start \<noteq> n" using Suc.hyps(2) by auto
      have "simulate2 iter False start c = simulate2 iter False (start + 1) c2"
        using Inr x True kk ne Suc.prems(2) by (subst simulate2.simps) (simp add: sched_iteration_end_def c2_def)
      moreover have "k = n - (start + 1)" "start + 1 \<le> n" using Suc.hyps(2) by auto
      moreover have "s_kind (cx_sched c2) = sched_random" "n = iteration_count (s_params (cx_sched c2))"
        using kk Suc.prems by (simp_all add: c2_def)
      ultimately show ?thesis using Suc.hyps(1) [of "start + 1" c2] by (auto intro: Suc_leD)
    qed
  qed (subst simulate2.simps, simp)
qed

definition failing_third :: "ctx iter_fun" where
  "failing_third it c = Inr (if it = 3 then result_deadlock else result_success, c\<lparr>cx_sched := (cx_sched c)\<lparr>s_iter := it\<rparr>\<rparr>)"

theorem random_search_terminates_witness:
  "\<exists>r. simulate2 failing_third False 1 (context_ctor 2 0 default_params) = Some r"
proof -
  have s: "steady failing_third" by (simp add: steady_def failing_third_def)
  have k: "s_kind (cx_sched (context_ctor 2 0 default_params)) = sched_random"
    "1000 = iteration_count (s_params (cx_sched (context_ctor 2 0 default_params)))"
    by (simp_all add: context_ctor_def Let_def sched_ctor_def default_params_def)
  have "(1 :: nat) \<le> 1000" by simp
  from random_search_terminates [OF s k this] show ?thesis by blast
qed

section \<open>The tree search\<close>

text \<open>A deterministic test, given by the tree of its choices and the verdict on each way through it.\<close>

definition tree_iter :: "choice_tree \<Rightarrow> (nat list \<Rightarrow> test_result) \<Rightarrow> 'a ctx_scheme iter_fun" where
  "tree_iter T verdict it c =
     rbind (run_tree T ((cx_sched c)\<lparr>stree_depth := 0\<rparr>)) (\<lambda>(p, s). Inr (verdict p, c\<lparr>cx_sched := s\<rparr>))"

fun first_failure :: "(nat list \<Rightarrow> test_result) \<Rightarrow> nat \<Rightarrow> nat list list \<Rightarrow> (test_result \<times> nat) option" where
  "first_failure verdict i [] = None"
| "first_failure verdict i (p # ps) =
     (if verdict p \<noteq> result_success then Some (verdict p, i) else first_failure verdict (i + 1) ps)"

lemma tree_iter_follows:
  assumes "follows T q" "wf_tree T" "stree (cx_sched c) = q" "s_kind (cx_sched c) \<noteq> sched_random"
  shows "tree_iter T verdict it c = Inr (verdict (map n_index (fill T q)),
    c\<lparr>cx_sched := (cx_sched c)\<lparr>stree := fill T q, stree_depth := length (fill T q)\<rparr>\<rparr>)"
  using run_tree_follows [of T q "(cx_sched c)\<lparr>stree_depth := 0\<rparr>" "[]"] assms by (simp add: tree_iter_def)

text \<open>The loop from one leaf of the tree on: what it ends with, and in which leaf when it fails.\<close>

lemma search_from:
  assumes "wf_tree T" "successively (next_leaf T) (a # ls)" "advance (last (a # ls)) = None"
    "stree (cx_sched c) = q" "follows T q" "fill T q = a" "s_kind (cx_sched c) \<noteq> sched_random"
  shows "case first_failure verdict it (map (map n_index) (a # ls)) of
      None \<Rightarrow> \<exists>c'. simulate2 (tree_iter T verdict) False it c = Some (Inr (result_success, c')) \<and>
        p_test_result (cx_params c') = result_success \<and> stop_iteration (cx_params c') = it + length ls \<and>
        collect_history (cx_params c') = collect_history (cx_params c)
    | Some (r, k) \<Rightarrow> \<exists>c' b. simulate2 (tree_iter T verdict) False it c = Some (Inr (r, c')) \<and> b \<in> set (a # ls) \<and>
        stree (cx_sched c') = b \<and> verdict (map n_index b) = r \<and> r \<noteq> result_success \<and>
        s_kind (cx_sched c') = s_kind (cx_sched c) \<and> it \<le> k \<and> k \<le> it + length ls \<and>
        cx_params c' = (cx_params c)\<lparr>p_test_result := r, stop_iteration := k\<rparr>"
  using assms
proof (induction ls arbitrary: a q c it)
  case Nil
  note r = tree_iter_follows [OF Nil.prems(5,1,4,7), of verdict it, unfolded Nil.prems(6)]
  show ?case
  proof (cases "verdict (map n_index a) = result_success")
    case True
    then show ?thesis using Nil.prems(3,7) r
      by (subst simulate2.simps) (simp add: sched_iteration_end_def tree_iteration_end_impl_def advance_rev stop_with_def)
  next
    case False
    then show ?thesis using Nil.prems r by (subst simulate2.simps) (simp add: stop_with_def)
  qed
next
  case (Cons b ls)
  note r = tree_iter_follows [OF Cons.prems(5,1,4,7), of verdict it, unfolded Cons.prems(6)]
  show ?case
  proof (cases "verdict (map n_index a) = result_success")
    case False
    then show ?thesis using Cons.prems r by (subst simulate2.simps) (simp add: stop_with_def)
  next
    case True
    from Cons.prems(2) obtain p where p: "advance a = Some p" "follows T p" "fill T p = b"
      by (auto simp: next_leaf_def)
    define s1 where "s1 = (cx_sched c)\<lparr>stree := a, stree_depth := length a\<rparr>"
    have "tree_iteration_end_impl s1 = Inr (False, s1\<lparr>stree := p\<rparr>)"
      using iteration_end_advance [of s1 p T] p by (simp add: s1_def)
    then have e: "sched_iteration_end s1 = Inr (False, s1\<lparr>stree := p, s_thread := None\<rparr>)"
      using Cons.prems(7) by (simp add: sched_iteration_end_def s1_def)
    define c1 where "c1 = c\<lparr>cx_sched := s1\<lparr>stree := p, s_thread := None\<rparr>\<rparr>"
    have step: "simulate2 (tree_iter T verdict) False it c = simulate2 (tree_iter T verdict) False (it + 1) c1"
      using True r e by (subst simulate2.simps) (simp add: s1_def c1_def)
    have f: "stree (cx_sched c1) = p" "s_kind (cx_sched c1) = s_kind (cx_sched c)" "cx_params c1 = cx_params c"
      by (simp_all add: c1_def s1_def)
    have m: "successively (next_leaf T) (b # ls)" "advance (last (b # ls)) = None" "s_kind (cx_sched c1) \<noteq> sched_random"
      using Cons.prems(2,3,7) f(2) by simp_all
    note ih = Cons.IH [OF Cons.prems(1) m(1,2) f(1) p(2,3) m(3), of "it + 1"]
    have ff: "first_failure verdict it (map (map n_index) (a # b # ls)) = first_failure verdict (it + 1) (map (map n_index) (b # ls))"
      using True by simp
    show ?thesis
    proof (cases "first_failure verdict (it + 1) (map (map n_index) (b # ls))")
      case None
      then show ?thesis using ih f(3) unfolding ff step by auto
    next
      case (Some x)
      obtain v k where x: "x = (v, k)" by (cases x)
      obtain c' d where "simulate2 (tree_iter T verdict) False (it + 1) c1 = Some (Inr (v, c'))" "d \<in> set (b # ls)"
        "stree (cx_sched c') = d" "verdict (map n_index d) = v" "v \<noteq> result_success"
        "s_kind (cx_sched c') = s_kind (cx_sched c1)" "it + 1 \<le> k" "k \<le> it + 1 + length ls"
        "cx_params c' = (cx_params c1)\<lparr>p_test_result := v, stop_iteration := k\<rparr>"
        using ih Some x by auto
      then show ?thesis using Some x f unfolding ff step by (auto intro!: exI [of _ c'])
    qed
  qed
qed

primrec small_tree :: "choice_tree \<Rightarrow> bool" where
  "small_tree Done = True"
| "small_tree (Choose c t f) = (c \<le> unsigned_max \<and> (\<forall>i<c. small_tree (f i)))"

lemma small_leaves: "small_tree T \<Longrightarrow> b \<in> set (leaves T) \<Longrightarrow> \<forall>n \<in> set b. small_node n"
proof (induction T arbitrary: b)
  case (Choose c t f)
  from Choose.prems(2) obtain i d where "i < c" "d \<in> set (leaves (f i))" "b = node c i t # d" by auto
  then show ?case using Choose by (auto simp: small_node_def)
qed simp

text \<open>A second run, started from the text that the first one left, fails in the same way.\<close>

lemma search_replays:
  assumes "wf_tree T" "small_tree T" "b \<in> set (leaves T)" "length b < 2 ^ 32" "k \<le> iteration_max"
    "verdict (map n_index b) = r" "r \<noteq> result_success" "s_kind s \<noteq> sched_random" "stree s = b"
    "s_kind (cx_sched c) = s_kind s" "stree (cx_sched c) = []"
  shows "\<exists>c'. simulate (tree_iter T verdict) True (put_num k @ get_state_impl s) c =
      Some (Inr (r, if \<not> collect_history (cx_params c) then put_num k @ get_state_impl s else [], c')) \<and>
    cx_params c' = (cx_params c)\<lparr>p_test_result := r, stop_iteration := k\<rparr>"
proof -
  have rd: "read_num iteration_max (Some (put_num k @ get_state_impl s)) = (k, Some (CHR '' '' # get_state_impl s))"
    using read_show(1) [OF assms(5), of "get_state_impl s"] by (simp add: put_num_def del: read_num.simps)
  obtain ss where st: "set_state_impl (Some (CHR '' '' # get_state_impl s)) (cx_sched c) = Some ((cx_sched c)\<lparr>stree := b\<rparr>, ss)"
    using set_get_state [of "cx_sched c" s "[]"] assms(4,8-11) small_leaves [OF assms(2,3)] by auto
  define c1 where "c1 = c\<lparr>cx_sched := (cx_sched c)\<lparr>stree := b\<rparr>\<rparr>"
  define s2 where "s2 = (cx_sched c1)\<lparr>stree := b, stree_depth := length b\<rparr>"
  have lf: "follows T b" "fill T b = b" using leaves_fill [OF assms(1,3)] by auto
  have "tree_iter T verdict k c1 = Inr (r, c1\<lparr>cx_sched := s2\<rparr>)"
    using tree_iter_follows [OF lf(1) assms(1), of c1 verdict k] assms(6,8,10) lf(2) by (simp add: c1_def s2_def)
  then have s2: "simulate2 (tree_iter T verdict) True k c1 = Some (Inr (r, stop_with r k (c1\<lparr>cx_sched := s2\<rparr>)))"
    using assms(7) by (subst simulate2.simps) simp
  have gs: "get_state_impl s2 = get_state_impl s"
    using assms(9,10) by (simp add: get_state_impl_def s2_def c1_def)
  have ne: "put_num k @ get_state_impl s \<noteq> []" using show_dec_ne [of k] by (simp add: put_num_def)
  have "simulate (tree_iter T verdict) True (put_num k @ get_state_impl s) c =
      Some (rbind (Inr (r, stop_with r k (c1\<lparr>cx_sched := s2\<rparr>))) (\<lambda>(res, c).
         Inr (res, if res \<noteq> result_success \<and> \<not> collect_history (cx_params c)
                   then put_num (stop_iteration (cx_params c)) @ get_state_impl (cx_sched c) else [], c)))"
    using ne by (simp only: simulate_def if_True simp_thms rd st s2 c1_def [symmetric] Let_def prod.case option.map Option.bind.simps)
  then show ?thesis using assms(7) gs by (simp add: stop_with_def c1_def)
qed

text \<open>A failure found by the first run: \<open>simulate_test\<close> runs the way again from the text of the state.\<close>

lemma simulate_first:
  "simulate it False [] c = Option.bind (simulate2 it False 1 c) (\<lambda>r. Some (rbind r (\<lambda>(res, c).
     Inr (res, if res \<noteq> result_success \<and> \<not> collect_history (cx_params c)
               then put_num (stop_iteration (cx_params c)) @ get_state_impl (cx_sched c) else [], c))))"
  by (simp add: simulate_def)

lemma context_ctor_tree:
  "stree (cx_sched (context_ctor static_count dynamic_count p)) = []"
  "s_kind (cx_sched (context_ctor static_count dynamic_count p)) = search_type p"
  "cx_params (context_ctor static_count dynamic_count p) = p"
  by (simp_all add: context_ctor_def Let_def sched_ctor_def)

lemma failure_is_replayed:
  assumes T: "wf_tree T" "small_tree T"
    and params: "search_type params \<noteq> sched_random" "p_initial_state params = []" "\<not> output_history params" "\<not> collect_history params"
    and run: "simulate2 (tree_iter T verdict) False 1 (context_ctor static_count dynamic_count params) = Some (Inr (r, c'))"
    and b: "b \<in> set (leaves T)" "stree (cx_sched c') = b" "verdict (map n_index b) = r" "r \<noteq> result_success" "length b < 2 ^ 32"
    and c': "s_kind (cx_sched c') = search_type params" "k \<le> iteration_max"
      "cx_params c' = params\<lparr>p_test_result := r, stop_iteration := k\<rparr>"
  shows "\<exists>params'. simulate_test (tree_iter T verdict) (context_ctor static_count dynamic_count) expected params =
      Some (Inr (expected = r, params')) \<and> p_test_result params' = r \<and> stop_iteration params' = k"
proof -
  let ?mk = "context_ctor static_count dynamic_count" and ?it = "tree_iter T verdict :: ctx iter_fun"
  define oss where "oss = put_num k @ get_state_impl (cx_sched c')"
  define p2 where "p2 = (cx_params c')\<lparr>p_initial_state := oss, collect_history := True, p_final_state := oss\<rparr>"
  have first: "run_test ?it ?mk params False = Some (Inr (r, oss, cx_params c'))"
    using run b(4) c'(3) params(2,4) by (simp add: run_test_def oss_def simulate_first)
  have "s_kind (cx_sched c') \<noteq> sched_random" "s_kind (cx_sched (?mk p2)) = s_kind (cx_sched c')"
    using c'(1,3) params(1) by (simp_all add: p2_def context_ctor_tree)
  then obtain c2 where c2: "simulate ?it True oss (?mk p2) = Some (Inr (r, [], c2))"
    "cx_params c2 = p2\<lparr>p_test_result := r, stop_iteration := k\<rparr>"
    using search_replays [OF T, of b k verdict r "cx_sched c'" "?mk p2"] b c'
    by (auto simp: oss_def p2_def context_ctor_tree)
  have "run_test ?it ?mk p2 True = Some (Inr (r, [], cx_params c2))"
    using c2(1) by (simp add: run_test_def p2_def)
  then show ?thesis using first b(4) c'(3) params(3,4) c2(2)
    by (simp add: simulate_test_def p2_def [symmetric]) (simp add: p2_def)
qed

text \<open>
  C39. The verdict of a tree search is right and reproducible. For a deterministic test, with any
  tree of choices, \<open>simulate\<close> terminates without an internal assertion and tells whether the
  expected result is the verdict on the first failing way through the test, in lexicographic
  order, or success when no way fails; it stops in the iteration with that way's number (or the
  number of all ways), and a failing run is reproduced by the second run from the text of the
  search state, which the driver asserts.
\<close>

theorem tree_search_verdict:
  assumes "wf_tree T" "small_tree T" "\<forall>p \<in> set (paths T). length p < 2 ^ 32" "length (paths T) < 2 ^ 64"
    "search_type params \<noteq> sched_random" "p_initial_state params = []" "\<not> output_history params" "\<not> collect_history params"
  shows "\<exists>params'. simulate_test (tree_iter T verdict) (context_ctor static_count dynamic_count) expected params =
      Some (Inr (expected = p_test_result params', params')) \<and>
    (case first_failure verdict 1 (paths T) of
       None \<Rightarrow> p_test_result params' = result_success \<and> stop_iteration params' = length (paths T)
     | Some (r, k) \<Rightarrow> p_test_result params' = r \<and> stop_iteration params' = k)"
proof -
  let ?c = "context_ctor static_count dynamic_count params"
  obtain a ls where l: "leaves T = a # ls" "fill T [] = a"
    using leaves_odometer [OF assms(1)] by (cases "leaves T") (auto simp: odometer_def)
  have od: "successively (next_leaf T) (a # ls)" "advance (last (a # ls)) = None"
    using leaves_odometer [OF assms(1)] l by (auto simp: odometer_def)
  have pl: "map (map n_index) (a # ls) = paths T" using leaves_paths [of T] l by simp
  have len: "length (paths T) = 1 + length ls" using pl length_map by (metis length_Cons plus_1_eq_Suc)
  have knd: "s_kind (cx_sched ?c) \<noteq> sched_random" using context_ctor_tree(2) assms(5) by simp
  note main = search_from [OF assms(1) od context_ctor_tree(1) follows_Nil l(2) knd, of verdict 1, unfolded pl]
  show ?thesis
  proof (cases "first_failure verdict 1 (paths T)")
    case None
    then obtain c' where "simulate2 (tree_iter T verdict) False 1 ?c = Some (Inr (result_success, c'))"
      "p_test_result (cx_params c') = result_success" "stop_iteration (cx_params c') = 1 + length ls"
      using main by auto
    then show ?thesis using None len assms(6) by (simp add: simulate_test_def run_test_def simulate_first)
  next
    case (Some x)
    obtain r k where x: "x = (r, k)" by (cases x)
    obtain c' b where c': "simulate2 (tree_iter T verdict) False 1 ?c = Some (Inr (r, c'))" "b \<in> set (leaves T)"
      "stree (cx_sched c') = b" "verdict (map n_index b) = r" "r \<noteq> result_success"
      "s_kind (cx_sched c') = search_type params" "k \<le> 1 + length ls"
      "cx_params c' = params\<lparr>p_test_result := r, stop_iteration := k\<rparr>"
      using main Some x l(1) by (auto simp: context_ctor_tree)
    have "map n_index b \<in> set (paths T)" using c'(2) pl l(1) by (metis image_eqI list.set_map)
    then have "length b < 2 ^ 32" using assms(3) by auto
    moreover have "k \<le> iteration_max" using c'(7) assms(4) len by (simp add: iteration_max_def)
    ultimately show ?thesis
      using failure_is_replayed [OF assms(1,2,5-8) c'(1-5) _ c'(6) _ c'(8)] Some x by force
  qed
qed


text \<open>The sample test of the tree search, failing on its third way.\<close>

definition third_way_deadlocks :: "nat list \<Rightarrow> test_result" where
  "third_way_deadlocks p = (if p = [1] then result_deadlock else result_success)"

theorem tree_search_verdict_witness:
  "\<exists>params'. simulate_test (tree_iter sample_test third_way_deadlocks) (context_ctor 2 0) result_deadlock
      (default_params\<lparr>search_type := sched_full\<rparr>) = Some (Inr (True, params')) \<and>
    p_test_result params' = result_deadlock \<and> stop_iteration params' = 3"
proof -
  have p: "paths sample_test = [[0, 0], [0, 1], [1], [2]]" by (simp add: sample_test_def upt_rec)
  have w: "wf_tree sample_test" by (simp add: sample_test_def)
  have s: "small_tree sample_test" by (simp add: sample_test_def unsigned_max_def)
  have l: "\<forall>p \<in> set (paths sample_test). length p < 2 ^ 32" "length (paths sample_test) < 2 ^ 64" by (simp_all add: p)
  have f: "first_failure third_way_deadlocks 1 (paths sample_test) = Some (result_deadlock, 3)"
    by (simp add: p third_way_deadlocks_def)
  have k: "search_type (default_params\<lparr>search_type := sched_full\<rparr>) \<noteq> sched_random"
    "p_initial_state (default_params\<lparr>search_type := sched_full\<rparr>) = []"
    "\<not> output_history (default_params\<lparr>search_type := sched_full\<rparr>)"
    "\<not> collect_history (default_params\<lparr>search_type := sched_full\<rparr>)"
    by (simp_all add: default_params_def)
  from tree_search_verdict [OF w s l k, of third_way_deadlocks 2 0 result_deadlock] show ?thesis
    by (auto simp: f [unfolded One_nat_def])
qed

end
