(* ===== verification/Posix.thy ===== *)
theory Posix
  imports Fibers Semaphore Atomic_Cell
begin

text \<open>
  The POSIX layer, \<^verbatim>\<open>stdlib/pthread.hpp\<close>, over the objects of the other theories, and
  what its futexes are for: a thread that goes to sleep on a word cannot miss the wake-up of a
  thread that changes the word first.

  A call goes in pieces, as the object's operation does: \<open>op_enter\<close> checks the declared object and
  reaches the \<open>sched()\<close> of the implementation; a definition named like the function is the piece
  after it, for the implementation \<open>a\<close>. What the function answers is a definition of its own where
  the operation may park, since the piece that resumes it answers too. A result \<open>None\<close> is a parked
  call.
\<close>

section \<open>Error codes\<close>

datatype posix_error = RL_SUCCESS | RL_EINVAL | RL_ETIMEDOUT | RL_EBUSY | RL_EINTR | RL_EAGAIN | RL_EWOULDBLOCK

fun posix_code :: "posix_error \<Rightarrow> int" where
  "posix_code RL_SUCCESS = 0"
| "posix_code RL_EINVAL = 1"
| "posix_code RL_ETIMEDOUT = 2"
| "posix_code RL_EBUSY = 3"
| "posix_code RL_EINTR = 4"
| "posix_code RL_EAGAIN = 5"
| "posix_code RL_EWOULDBLOCK = 6"

definition op_enter :: "(nat \<Rightarrow> world \<Rightarrow> fault + nat) \<Rightarrow> user_fun \<Rightarrow> nat \<Rightarrow> world \<Rightarrow> fault + (nat \<times> world)" where
  "op_enter check user_inv h w = rbind (check h w) (\<lambda>a. rbind (ctx_sched user_inv w) (\<lambda>w. Inr (a, w)))"

section \<open>Threads\<close>

definition rl_sched_yield :: "user_fun \<Rightarrow> world \<Rightarrow> fault + world" where
  "rl_sched_yield user_inv w = ctx_yield user_inv 1 w"

definition rl_pthread_create :: "nat option \<Rightarrow> nat \<Rightarrow> world \<Rightarrow> fault + (int \<times> nat \<times> world)" where
  "rl_pthread_create func arg w =
     rl_verify (func \<noteq> None) (rbind (create_thread func arg w) (\<lambda>(th, w). Inr (0, th, w)))"

definition rl_pthread_join_answer :: "wakeup_reason option \<times> world \<Rightarrow> fault + (int option \<times> world)" where
  "rl_pthread_join_answer = (\<lambda>(r, w). Inr (map_option (\<lambda>_. 0) r, w))"

definition rl_pthread_join :: "user_fun \<Rightarrow> nat \<Rightarrow> bool \<Rightarrow> world \<Rightarrow> fault + (int option \<times> world)" where
  "rl_pthread_join user_inv th res w =
     rl_verify res (rbind (thread_wait user_inv th False False w) rl_pthread_join_answer)"

section \<open>Semaphores\<close>

definition rl_sem_init :: "nat \<Rightarrow> nat \<Rightarrow> nat \<Rightarrow> u32 \<Rightarrow> world \<Rightarrow> fault + (int \<times> world)" where
  "rl_sem_init es sys h initial_count w =
     rbind (semaphore_init es sys h True initial_count int_max w) (\<lambda>w. Inr (0, w))"

definition rl_sem_destroy :: "nat \<Rightarrow> world \<Rightarrow> fault + (int \<times> world)" where
  "rl_sem_destroy h w = rbind (semaphore_deinit h w) (\<lambda>w. Inr (0, w))"

definition fail_errno :: "posix_error \<Rightarrow> world \<Rightarrow> fault + (int option \<times> world)" where
  "fail_errno e w = rbind (set_errno (posix_code e) w) (\<lambda>w. Inr (Some (-1), w))"

fun rl_sem_wait_answer :: "wakeup_reason option \<times> world \<Rightarrow> fault + (int option \<times> world)" where
  "rl_sem_wait_answer (None, w) = Inr (None, w)"
| "rl_sem_wait_answer (Some wakeup_success, w) = Inr (Some 0, w)"
| "rl_sem_wait_answer (Some wakeup_spurious, w) = fail_errno RL_EINTR w"
| "rl_sem_wait_answer (Some _, w) = Inl Verify_failed"

definition rl_sem_wait :: "user_fun \<Rightarrow> nat \<Rightarrow> world \<Rightarrow> fault + (int option \<times> world)" where
  "rl_sem_wait user_inv a w = rbind (sema_wait user_inv a False False w) rl_sem_wait_answer"

fun rl_sem_trywait_answer :: "wakeup_reason option \<times> world \<Rightarrow> fault + (int option \<times> world)" where
  "rl_sem_trywait_answer (Some wakeup_success, w) = Inr (Some 0, w)"
| "rl_sem_trywait_answer (Some wakeup_failed, w) = fail_errno RL_EAGAIN w"
| "rl_sem_trywait_answer (Some wakeup_spurious, w) = fail_errno RL_EINTR w"
| "rl_sem_trywait_answer (_, w) = Inl Verify_failed"

definition rl_sem_trywait :: "user_fun \<Rightarrow> nat \<Rightarrow> world \<Rightarrow> fault + (int option \<times> world)" where
  "rl_sem_trywait user_inv a w = rbind (sema_wait user_inv a True False w) rl_sem_trywait_answer"

definition rl_sem_post :: "user_fun \<Rightarrow> nat \<Rightarrow> world \<Rightarrow> fault + (int \<times> world)" where
  "rl_sem_post user_inv a w =
     rbind (sema_post user_inv a 1 w) (\<lambda>(result, prev_count, unblocked, w). rl_verify result (Inr (0, w)))"

text \<open>The result, and the value stored through the pointer.\<close>

definition rl_sem_getvalue :: "nat \<Rightarrow> world \<Rightarrow> fault + (int \<times> int \<times> world)" where
  "rl_sem_getvalue a w = rbind (sema_get_value a w) (\<lambda>(v, w). Inr (0, v, w))"


section \<open>Mutexes\<close>

datatype mutexattr = Mutexattr (is_recursive: bool)

datatype mutex_type = MUTEX_NORMAL | MUTEX_ERRORCHECK | MUTEX_RECURSIVE | MUTEX_DEFAULT

text \<open>A pointer to an attribute is \<open>None\<close> when it is null; the result comes with the attribute left.\<close>

definition rl_pthread_mutexattr_init :: "mutexattr option \<Rightarrow> int \<times> mutexattr option" where
  "rl_pthread_mutexattr_init attr =
     (case attr of None \<Rightarrow> (posix_code RL_EINVAL, None) | Some _ \<Rightarrow> (0, Some (Mutexattr False)))"

definition rl_pthread_mutexattr_destroy :: "mutexattr option \<Rightarrow> int \<times> mutexattr option" where
  "rl_pthread_mutexattr_destroy attr = (if attr = None then (posix_code RL_EINVAL, None) else (0, attr))"

definition rl_pthread_mutexattr_settype :: "mutexattr option \<Rightarrow> mutex_type \<Rightarrow> int \<times> mutexattr option" where
  "rl_pthread_mutexattr_settype attr type =
     (case attr of
        None \<Rightarrow> (posix_code RL_EINVAL, None)
      | Some a \<Rightarrow> (0, Some (if type = MUTEX_RECURSIVE then Mutexattr True else a)))"

definition rl_pthread_mutex_init :: "nat \<Rightarrow> nat \<Rightarrow> nat \<Rightarrow> mutexattr option \<Rightarrow> world \<Rightarrow> fault + (int \<times> world)" where
  "rl_pthread_mutex_init es sys h attr w =
     (let recursive = (case attr of None \<Rightarrow> False | Some a \<Rightarrow> is_recursive a)
      in rbind (generic_mutex_init es sys h False recursive False False w) (\<lambda>w. Inr (0, w)))"

definition rl_pthread_mutex_destroy :: "nat \<Rightarrow> world \<Rightarrow> fault + (int \<times> world)" where
  "rl_pthread_mutex_destroy h w = rbind (generic_mutex_deinit h w) (\<lambda>w. Inr (0, w))"

definition lock_answer :: "int \<Rightarrow> bool option \<times> world \<Rightarrow> fault + (int option \<times> world)" where
  "lock_answer no = (\<lambda>(b, w). Inr (map_option (\<lambda>b. if b then 0 else no) b, w))"

definition rl_pthread_mutex_lock :: "user_fun \<Rightarrow> nat \<Rightarrow> world \<Rightarrow> fault + (int option \<times> world)" where
  "rl_pthread_mutex_lock user_inv a w = rbind (lock_exclusive user_inv a False w) (lock_answer 0)"

definition rl_pthread_mutex_timedlock :: "user_fun \<Rightarrow> nat \<Rightarrow> world \<Rightarrow> fault + (int option \<times> world)" where
  "rl_pthread_mutex_timedlock user_inv a w =
     rbind (lock_exclusive user_inv a True w) (lock_answer (posix_code RL_ETIMEDOUT))"

definition rl_pthread_mutex_try_lock :: "nat \<Rightarrow> world \<Rightarrow> fault + (int option \<times> world)" where
  "rl_pthread_mutex_try_lock a w = rbind (try_lock_exclusive a w) (lock_answer 1)"

definition rl_pthread_mutex_unlock :: "user_fun \<Rightarrow> nat \<Rightarrow> world \<Rightarrow> fault + (int \<times> world)" where
  "rl_pthread_mutex_unlock user_inv a w = rbind (unlock_exclusive user_inv a w) (\<lambda>w. Inr (0, w))"

section \<open>Reader-writer locks\<close>

definition rl_pthread_rwlock_init :: "nat \<Rightarrow> nat \<Rightarrow> nat \<Rightarrow> world \<Rightarrow> fault + (int \<times> world)" where
  "rl_pthread_rwlock_init es sys h w = rbind (generic_mutex_init es sys h True False True False w) (\<lambda>w. Inr (0, w))"

definition rl_pthread_rwlock_destroy :: "nat \<Rightarrow> world \<Rightarrow> fault + (int \<times> world)" where
  "rl_pthread_rwlock_destroy h w = rbind (generic_mutex_deinit h w) (\<lambda>w. Inr (0, w))"

definition rl_pthread_rwlock_rdlock :: "user_fun \<Rightarrow> nat \<Rightarrow> world \<Rightarrow> fault + (int option \<times> world)" where
  "rl_pthread_rwlock_rdlock user_inv a w = rbind (lock_shared user_inv a w) (lock_answer 0)"

definition rl_pthread_rwlock_tryrdlock :: "nat \<Rightarrow> world \<Rightarrow> fault + (int option \<times> world)" where
  "rl_pthread_rwlock_tryrdlock a w = rbind (try_lock_shared a w) (lock_answer (posix_code RL_EBUSY))"

definition rl_pthread_rwlock_wrlock :: "user_fun \<Rightarrow> nat \<Rightarrow> world \<Rightarrow> fault + (int option \<times> world)" where
  "rl_pthread_rwlock_wrlock user_inv a w = rbind (lock_exclusive user_inv a False w) (lock_answer 0)"

definition rl_pthread_rwlock_trywrlock :: "nat \<Rightarrow> world \<Rightarrow> fault + (int option \<times> world)" where
  "rl_pthread_rwlock_trywrlock a w = rbind (try_lock_exclusive a w) (lock_answer (posix_code RL_EBUSY))"

text \<open>Which unlock it is, \<open>unlock_exclusive_or_shared\<close> decides before that unlock's \<open>sched()\<close>.\<close>

definition rl_pthread_rwlock_unlock :: "user_fun \<Rightarrow> bool \<Rightarrow> nat \<Rightarrow> world \<Rightarrow> fault + (int \<times> world)" where
  "rl_pthread_rwlock_unlock user_inv exclusive a w =
     rbind (if exclusive then unlock_exclusive user_inv a w else unlock_shared user_inv a w) (\<lambda>w. Inr (0, w))"

section \<open>Condition variables\<close>

definition rl_pthread_cond_init :: "nat \<Rightarrow> nat \<Rightarrow> nat \<Rightarrow> world \<Rightarrow> fault + (int \<times> world)" where
  "rl_pthread_cond_init es sys h w = rbind (condvar_init es sys h True w) (\<lambda>w. Inr (0, w))"

definition rl_pthread_cond_destroy :: "nat \<Rightarrow> world \<Rightarrow> fault + (int \<times> world)" where
  "rl_pthread_cond_destroy h w = rbind (condvar_deinit h w) (\<lambda>w. Inr (0, w))"

definition rl_pthread_cond_broadcast :: "user_fun \<Rightarrow> nat \<Rightarrow> world \<Rightarrow> fault + (int \<times> world)" where
  "rl_pthread_cond_broadcast user_inv a w = rbind (condvar_notify_all user_inv a w) (\<lambda>w. Inr (0, w))"

definition rl_pthread_cond_signal :: "user_fun \<Rightarrow> nat \<Rightarrow> world \<Rightarrow> fault + (int \<times> world)" where
  "rl_pthread_cond_signal user_inv a w = rbind (condvar_notify_one user_inv a w) (\<lambda>w. Inr (0, w))"

text \<open>The pieces of the wait are those of \<open>Condvar\<close>; the answers:\<close>

fun rl_pthread_cond_timedwait_answer :: "wakeup_reason \<Rightarrow> int" where
  "rl_pthread_cond_timedwait_answer wakeup_success = 0"
| "rl_pthread_cond_timedwait_answer wakeup_timeout = posix_code RL_ETIMEDOUT"
| "rl_pthread_cond_timedwait_answer wakeup_spurious = posix_code RL_EINTR"
| "rl_pthread_cond_timedwait_answer wakeup_failed = posix_code RL_EINVAL"

fun rl_pthread_cond_wait_answer :: "wakeup_reason \<Rightarrow> int" where
  "rl_pthread_cond_wait_answer wakeup_success = 0"
| "rl_pthread_cond_wait_answer wakeup_spurious = posix_code RL_EINTR"
| "rl_pthread_cond_wait_answer _ = posix_code RL_EINVAL"

definition rl_pthread_cond_timedwait :: "user_fun \<Rightarrow> nat \<Rightarrow> nat \<Rightarrow> world \<Rightarrow> fault + world" where
  "rl_pthread_cond_timedwait user_inv a m w = condvar_wait_park user_inv (unlock_exclusive user_inv m) a True w"

definition rl_pthread_cond_wait :: "user_fun \<Rightarrow> nat \<Rightarrow> nat \<Rightarrow> world \<Rightarrow> fault + world" where
  "rl_pthread_cond_wait user_inv a m w = condvar_wait_park user_inv (unlock_exclusive user_inv m) a False w"

section \<open>Futexes\<close>

datatype futex_op = RL_FUTEX_WAIT | RL_FUTEX_WAKE | Futex_other

text \<open>
  The load of the word, with preemption disabled: the \<open>sched()\<close> at its head only counts. The
  generator of the loads is the scheduler.
\<close>

definition futex_load :: "user_fun \<Rightarrow> 32 word cell \<Rightarrow> world \<Rightarrow> fault + ((32 word \<times> 32 word cell) \<times> world)" where
  "futex_load user_inv x w =
     with_preemption_disabled (\<lambda>w. rbind (ctx_sched user_inv w) (\<lambda>w.
       rbind (cell_load (cx_n w) (invariant_executing w) (is_random_sched w) mo_acquire sched_rand (cur_thread w) x (cx_sched w))
         (\<lambda>(v, th, x, s). Inr ((v, x), upd_cur (\<lambda>_. th) (w\<lparr>cx_sched := s\<rparr>))))) w"

text \<open>The wait, from the second \<open>sched()\<close> on, the one in the fence.\<close>

definition futex_wait ::
  "user_fun \<Rightarrow> bool \<Rightarrow> 32 word \<Rightarrow> 32 word cell \<Rightarrow> world \<Rightarrow> fault + (int option \<times> 32 word cell \<times> world)" where
  "futex_wait user_inv is_timed val x w =
     rbind (futex_load user_inv x (atomic_thread_fence_seq_cst w)) (\<lambda>((v0, x), w).
       if v0 \<noteq> val then Inr (Some (posix_code RL_EWOULDBLOCK), x, w)
       else rbind (signature_check cell_magic (c_sign x)) (\<lambda>_.
            rbind (atomic_wait user_inv (c_impl x) is_timed True w) (\<lambda>w. Inr (None, x, w))))"

fun futex_wait_answer :: "unpark_reason \<Rightarrow> int" where
  "futex_wait_answer unpark_normal = 0"
| "futex_wait_answer unpark_timeout = posix_code RL_ETIMEDOUT"
| "futex_wait_answer unpark_spurious = posix_code RL_EINTR"

definition futex_wait_resume :: "32 word cell \<Rightarrow> world \<Rightarrow> fault + (int \<times> 32 word cell \<times> world)" where
  "futex_wait_resume x w =
     rbind (atomic_wait_resume (c_impl x) w) (\<lambda>(reason, var, w).
       Inr (futex_wait_answer reason, x\<lparr>c_impl := var\<rparr>, w))"

definition futex_wake :: "user_fun \<Rightarrow> 32 word \<Rightarrow> 32 word cell \<Rightarrow> world \<Rightarrow> fault + (int \<times> 32 word cell \<times> world)" where
  "futex_wake user_inv val x w =
     rbind (signature_check cell_magic (c_sign x)) (\<lambda>_.
       rbind (atomic_wake user_inv (c_impl x) (sint val) (atomic_thread_fence_seq_cst w)) (\<lambda>(k, var, w).
         Inr (int k, x\<lparr>c_impl := var\<rparr>, w)))"

text \<open>The answers given before any \<open>sched()\<close> are the same function's, in the state of the call.\<close>

definition rl_int_futex_impl ::
  "user_fun \<Rightarrow> futex_op \<Rightarrow> 32 word \<Rightarrow> bool \<Rightarrow> 32 word cell \<Rightarrow> world \<Rightarrow> fault + (int option \<times> 32 word cell \<times> world)" where
  "rl_int_futex_impl user_inv op val timeout x w =
     (case op of
        RL_FUTEX_WAIT \<Rightarrow> futex_wait user_inv timeout val x w
      | RL_FUTEX_WAKE \<Rightarrow>
          if sint val \<le> 0 then Inr (Some 0, x, w)
          else rbind (futex_wake user_inv val x w) (\<lambda>(k, x, w). Inr (Some k, x, w))
      | Futex_other \<Rightarrow> Inr (Some (posix_code RL_EINVAL), x, w))"

end
