(* ===== verification/Futex.thy ===== *)
theory Futex
  imports Posix Atomic_Log
begin

text \<open>
  What the futexes of the POSIX layer are for: a thread that goes to sleep on a word cannot miss
  the wake-up of a thread that changes the word first.
\<close>

section \<open>A word that is only read\<close>

text \<open>Loads of any thread may lie between the change of a word and the wait on it, and waits and wake-ups.\<close>

definition only_loaded :: "'a cell \<Rightarrow> 'a cell \<Rightarrow> bool" where
  "only_loaded x y \<longleftrightarrow> c_history y = c_history x \<and> current_index (c_impl y) = current_index (c_impl x) \<and>
     (\<forall>k. busy (rec_at (c_impl y) k) = busy (rec_at (c_impl x) k) \<and>
          h_thread_id (rec_at (c_impl y) k) = h_thread_id (rec_at (c_impl x) k) \<and>
          acq_rel_timestamp (rec_at (c_impl y) k) = acq_rel_timestamp (rec_at (c_impl x) k))"

lemma only_loaded_refl [simp]: "only_loaded x x"
  by (simp add: only_loaded_def)

lemma only_loaded_trans: "only_loaded x y \<Longrightarrow> only_loaded y z \<Longrightarrow> only_loaded x z"
  by (simp add: only_loaded_def)

lemma cell_load_only_loaded:
  assumes "cell_load n ie rd mo rnd th x s = Inr (v, th', y, s')"
  shows "only_loaded x y"
proof -
  obtain mo' where "load_impl n ie rd mo' rnd th x s = Inr (v, th', y, s')"
    using assms by (cases mo) (auto simp: cell_load_def fault_inv)
  note l = this
  show ?thesis
  proof (cases ie)
    case True
    then show ?thesis using l by (simp add: load_impl_def fault_inv)
  next
    case False
    then obtain index impl where a: "atomic_load n rd mo' False rnd th (c_impl x) s = Inr (index, th', impl, s')"
      "x\<lparr>c_impl := impl\<rparr> = y"
      using l by (simp add: load_impl_def fault_inv split: prod.splits) blast
    show ?thesis unfolding only_loaded_def a(2) [symmetric] by (simp add: atomic_load_keeps_records [OF a(1)])
  qed
qed

text \<open>The newest record of a word after a store, as the memory model sees it.\<close>

lemma cell_store_newest:
  assumes "cell_store n ie mo a x v = Inr (a1, x1)"
  shows "busy (rec_at (c_impl x1) (current_index (c_impl x1)))"
    "c_history x1 (hslot (current_index (c_impl x1))) = v"
    "acq_rel_timestamp (rec_at (c_impl x1) (current_index (c_impl x1))) = acq_rel_order a1 (th_index a)"
    "h_thread_id (rec_at (c_impl x1) (current_index (c_impl x1))) = int (th_index a)"
proof -
  obtain mo' where "store_impl n ie mo' a x v = Inr (a1, x1)"
    using assms by (cases mo) (auto simp: cell_store_def fault_inv)
  then obtain i impl where st: "atomic_store n mo' False a (c_impl x) = Inr (i, a1, impl)"
    "x1 = (put_value i v impl x)\<lparr>c_initialized := True\<rparr>"
    by (auto simp: store_impl_def fault_inv)
  note S = atomic_store_Inr [OF st(1)]
  show "busy (rec_at (c_impl x1) (current_index (c_impl x1)))"
    "c_history x1 (hslot (current_index (c_impl x1))) = v"
    "acq_rel_timestamp (rec_at (c_impl x1) (current_index (c_impl x1))) = acq_rel_order a1 (th_index a)"
    "h_thread_id (rec_at (c_impl x1) (current_index (c_impl x1))) = int (th_index a)"
    using S(2,5,6,7) st(2) unat_hslot by (simp_all add: put_value_def)
qed

text \<open>A thread whose clock covers the store reads it.\<close>

lemma covered_cell_load:
  assumes "cell_store n ie mo a x v = Inr (a1, x1)" "th_index a < n" "current_index (c_impl x1) \<noteq> -1"
    "only_loaded x1 y" "vle n (acq_rel_order a1) (acq_rel_order b)"
    "cell_load n False rd mo_acquire rnd b y s = Inr (v0, b', y', s')"
  shows "v0 = v"
proof -
  let ?k = "current_index (c_impl x1)"
  note S = cell_store_newest [OF assms(1)]
  have y: "current_index (c_impl y) = ?k" "busy (rec_at (c_impl y) ?k)" "c_history y (hslot ?k) = v"
    "acq_rel_timestamp (rec_at (c_impl y) ?k) = acq_rel_order a1 (th_index a)" "h_thread_id (rec_at (c_impl y) ?k) = int (th_index a)"
    using assms(4) S by (simp_all add: only_loaded_def)
  obtain index impl where l: "atomic_load n rd mo_acquire False rnd b (c_impl y) s = Inr (index, b', impl, s')"
    "v0 = c_history y (unat index)"
    using assms(6) by (auto simp: cell_load_def load_impl_def fault_inv)
  have "\<not> passable n mo_acquire b (c_impl y) ?k"
    using assms(2,5) y(4,5) by (intro known_not_passable) (simp add: vle_def)
  then have "index = of_nat (hslot ?k)"
    using atomic_load_current [of "c_impl y" n mo_acquire b rd rnd s index b' impl s'] y(1,2) assms(3) l(1) by simp
  then show ?thesis using l(2) y(3) unat_hslot by simp
qed

section \<open>The load of a futex wait\<close>

lemma fence_world:
  "cx_n (atomic_thread_fence_seq_cst w) = cx_n w" "cur (atomic_thread_fence_seq_cst w) = cur w"
  "waitsets (atomic_thread_fence_seq_cst w) = waitsets w"
  "disable_preempt (atomic_thread_fence_seq_cst w) = disable_preempt w"
  "invariant_executing (atomic_thread_fence_seq_cst w) = invariant_executing w"
  "cur_thread (atomic_thread_fence_seq_cst w) = fst (fence_seq_cst (cx_n w) (cur_thread w) (seq_cst_fence_order w))"
  "seq_cst_fence_order (atomic_thread_fence_seq_cst w) = snd (fence_seq_cst (cx_n w) (cur_thread w) (seq_cst_fence_order w))"
  by (simp_all add: atomic_thread_fence_seq_cst_def upd_cur_def upd_th_def cur_def cur_thread_def split: prod.split)

lemma futex_load_Inr:
  assumes "futex_load user_inv x w = Inr ((v0, y), w')" "disable_preempt w \<noteq> -1"
  obtains th s where "cell_load (cx_n w) (invariant_executing w) (is_random_sched w) mo_acquire sched_rand (cur_thread w) x (cx_sched w)
      = Inr (v0, th, y, s)" "waitsets w' = waitsets w" "cur w' = cur w"
proof -
  have nz: "disable_preempt w + 1 \<noteq> 0" using assms(2) by (metis add_eq_0_iff2)
  then show ?thesis using assms(1) that
    by (auto simp: futex_load_def with_preemption_disabled_def disable_preemption_def enable_preemption_def ctx_sched_def
        count_sched_def fail_test_def fault_inv Let_def cur_thread_def cur_def upd_cur_def upd_th_def is_random_sched_def
        split: if_splits)
qed

text \<open>
  C40. A futex loses no wake-up. A thread stores \<open>v\<close> into the word, and later makes the
  sequentially consistent fence with which \<open>FUTEX_WAKE\<close> begins; whatever the memory orders of the
  store are, and whoever reads the word meanwhile, a \<open>FUTEX_WAIT\<close> for another value whose fence
  comes after that one does not park: it answers \<open>EWOULDBLOCK\<close>. A wait for \<open>v\<close> itself goes to
  sleep, and the step that compares the values is the one that ends with its entry in the wait set,
  where every later wake-up finds it.
\<close>

theorem futex_no_lost_wakeup:
  assumes "still user_inv" "cell_store n False mo a x v = Inr (a1, x1)" "th_index a < n" "current_index (c_impl x1) \<noteq> -1"
    "cx_n wk = n" "vle n (acq_rel_order a1) (acq_rel_order (cur_thread wk))"
    "vle n (seq_cst_fence_order (atomic_thread_fence_seq_cst wk)) (seq_cst_fence_order w)" "only_loaded x1 y"
    "cx_n w = n" "\<not> invariant_executing w" "disable_preempt w \<noteq> -1"
    "futex_wait user_inv is_timed val y w = Inr (r, y', w')"
  shows "if v \<noteq> val then r = Some (posix_code RL_EWOULDBLOCK) \<and> waitsets w' = waitsets w
    else r = None \<and> (\<exists>d. d_th d = cur w \<and> plain d \<and> waitsets w' = (waitsets w)(futex_ws (c_impl y') :=
      waitsets w (futex_ws (c_impl y')) @ [d]))"
proof -
  let ?w1 = "atomic_thread_fence_seq_cst w" and ?f = "fence_seq_cst n (cur_thread w) (seq_cst_fence_order w)"
    and ?g = "fence_seq_cst n (cur_thread wk) (seq_cst_fence_order wk)"
  obtain v0 y1 w2 where l: "futex_load user_inv y ?w1 = Inr ((v0, y1), w2)"
    and res: "if v0 \<noteq> val then r = Some (posix_code RL_EWOULDBLOCK) \<and> y' = y1 \<and> w' = w2
      else r = None \<and> y' = y1 \<and> park_current user_inv (futex_ws (c_impl y1)) is_timed True False w2 = Inr w'"
    using assms(12) by (auto simp: futex_wait_def atomic_wait_def fault_inv split: if_splits)
  have "vle n (acq_rel_order (cur_thread wk)) (snd ?g)" "vle n (seq_cst_fence_order w) (acq_rel_order (fst ?f))"
    using fence_seq_cst_order(1) [of n "cur_thread wk" "seq_cst_fence_order wk" "fst ?g" "snd ?g"]
      fence_seq_cst_order(2) [of n "cur_thread w" "seq_cst_fence_order w" "fst ?f" "snd ?f"] by simp_all
  then have cov: "vle n (acq_rel_order a1) (acq_rel_order (cur_thread ?w1))"
    using assms(5-7,9) by (simp add: fence_world) (blast intro: vle_trans)
  obtain th s where c: "cell_load n False (is_random_sched ?w1) mo_acquire sched_rand (cur_thread ?w1) y (cx_sched ?w1) = Inr (v0, th, y1, s)"
    and f: "waitsets w2 = waitsets w" "cur w2 = cur w"
    using futex_load_Inr [OF l] assms(9-11) by (auto simp: fence_world)
  have "v0 = v" by (rule covered_cell_load [OF assms(2-4,8) cov c])
  then show ?thesis using res f park_waits [OF assms(1)]
    by (auto simp: plain_def intro!: exI [of _ "\<lparr>d_th = cur w, d_count = 0, d_ws = None, d_wo = None, d_wait_all = False, d_do_switch = False\<rparr>"])
qed


section \<open>A sample run\<close>

text \<open>Thread 0 has stored \<open>5\<close> and made its fence; thread 1 runs and waits for \<open>4\<close>.\<close>

definition futex_waker :: "thread_info \<Rightarrow> world" where
  "futex_waker a = parked_sample\<lparr>cx_threads := (fresh_thread 2)(0 := a)\<rparr>"

definition futex_waiter :: "thread_info \<Rightarrow> world" where
  "futex_waiter a = (atomic_thread_fence_seq_cst (futex_waker a))\<lparr>threadx := Some 1\<rparr>"

lemma futex_sample_fields:
  "cx_n (futex_waker a) = 2" "cur_thread (futex_waker a) = a" "cx_n (futex_waiter a) = 2"
  "\<not> invariant_executing (futex_waiter a)" "disable_preempt (futex_waiter a) = 0" "sched_count (futex_waiter a) = 0"
  "cx_params (futex_waiter a) = default_params" "threadx (futex_waiter a) = Some 1"
  "seq_cst_fence_order (futex_waiter a) = seq_cst_fence_order (atomic_thread_fence_seq_cst (futex_waker a))"
  by (simp_all add: futex_waiter_def futex_waker_def parked_sample_def cur_def cur_thread_def atomic_thread_fence_seq_cst_def
      upd_cur_def upd_th_def split: prod.split)

text \<open>The load that finds the newest record without asking the scheduler.\<close>

lemma futex_load_total:
  assumes "sig_ok cell_magic (c_sign y)" "busy (rec_at (c_impl y) k)" "k = current_index (c_impl y)" "k \<noteq> -1"
    "\<not> passable (cx_n w) mo_acquire (cur_thread w) (c_impl y) k" "\<not> invariant_executing w"
    "disable_preempt w = 0" "sched_count w = 0"
  shows "\<exists>y' w'. futex_load user_inv y w = Inr ((c_history y (hslot k), y'), w')"
proof -
  obtain th impl where l: "atomic_load (cx_n w) rd mo_acquire False sched_rand (cur_thread w) (c_impl y) s = Inr (of_nat (hslot k), th, impl, s)"
    for rd s
  proof -
    obtain th impl where "load_record (cx_n w) mo_acquire (cur_thread w) (rec_at (c_impl y) k) = (th, impl)" by force
    then have "atomic_load (cx_n w) rd mo_acquire False sched_rand (cur_thread w) (c_impl y) s =
        Inr (of_nat (hslot k), th, (c_impl y)\<lparr>history := (history (c_impl y))(hslot k := impl)\<rparr>, s)" for rd s
      using assms(2-5) get_load_index_current [of "c_impl y" "cx_n w" mo_acquire "cur_thread w" rd sched_rand s]
      by (simp add: atomic_load_def Let_def rec_at_def)
    then show ?thesis by (rule that)
  qed
  have ne: "(of_nat (hslot k) :: u32) \<noteq> -1"
  proof
    assume "(of_nat (hslot k) :: u32) = -1"
    then have "unat (of_nat (hslot k) :: u32) = 2 ^ 32 - 1" by (simp add: unsigned_minus_1_eq_mask mask_eq_exp_minus_1)
    then show False using unat_hslot hslot_less [of k] by simp
  qed
  show ?thesis using assms(1,6-8) ne unat_hslot l
    by (simp add: futex_load_def with_preemption_disabled_def disable_preemption_def ctx_sched_def count_sched_def Let_def
        cell_load_def load_impl_def sig_ok_def cur_thread_def cur_def is_random_sched_def)
qed


theorem futex_no_lost_wakeup_witness:
  "\<exists>a x y' w'. cell_store 2 False mo_relaxed (fresh_thread 2 0) sample_cell 5 = Inr (a, x) \<and>
     futex_wait Inr False 4 x (futex_waiter a) = Inr (Some (posix_code RL_EWOULDBLOCK), y', w')"
proof -
  obtain i a impl where s: "atomic_store 2 mo_relaxed False (fresh_thread 2 0) (c_impl sample_cell) = Inr (i, a, impl)"
    using atomic_store_total [of False mo_relaxed] by fastforce
  define x where "x = (put_value i 5 impl sample_cell)\<lparr>c_initialized := True\<rparr>"
  have st: "cell_store 2 False mo_relaxed (fresh_thread 2 0) sample_cell 5 = Inr (a, x)"
    using s sample_sign by (simp add: cell_store_def store_impl_def x_def)
  have x: "sig_ok cell_magic (c_sign x)" "current_index (c_impl x) = 1"
    using sample_sign atomic_store_Inr(1) [OF s] by (simp_all add: x_def put_value_def sample_cell_def atomic_data_ctor_def Let_def)
  note S = cell_store_newest [OF st]
  have ix: "th_index (fresh_thread 2 0) < 2" "current_index (c_impl x) \<noteq> -1" using x(2) by simp_all
  let ?f = "fence_seq_cst 2 a (seq_cst_fence_order (futex_waker a))"
    and ?g = "fence_seq_cst 2 (cur_thread (futex_waiter a)) (seq_cst_fence_order (futex_waiter a))"
  have "vle 2 (acq_rel_order a) (snd ?f)" "vle 2 (seq_cst_fence_order (futex_waiter a)) (acq_rel_order (fst ?g))"
    using fence_seq_cst_order(1) [of 2 a _ "fst ?f" "snd ?f"] fence_seq_cst_order(2) [of 2 _ _ "fst ?g" "snd ?g"] by simp_all
  then have cov: "vle 2 (acq_rel_order a) (acq_rel_order (cur_thread (atomic_thread_fence_seq_cst (futex_waiter a))))"
    by (simp add: fence_world futex_sample_fields) (blast intro: vle_trans)
  have np: "\<not> passable 2 mo_acquire (cur_thread (atomic_thread_fence_seq_cst (futex_waiter a))) (c_impl x) (current_index (c_impl x))"
    using cov S(3,4) by (intro known_not_passable) (simp add: vle_def)
  have sc: "sched_count (atomic_thread_fence_seq_cst (futex_waiter a)) = 0"
    by (simp add: atomic_thread_fence_seq_cst_def upd_cur_def upd_th_def futex_sample_fields split: prod.split)
  obtain y' w' where l: "futex_load Inr x (atomic_thread_fence_seq_cst (futex_waiter a)) = Inr ((5, y'), w')"
    using futex_load_total [OF x(1) S(1) refl ix(2), of "atomic_thread_fence_seq_cst (futex_waiter a)" Inr] np S(2) sc
    by (auto simp: fence_world futex_sample_fields)
  then obtain r where w: "futex_wait Inr False 4 x (futex_waiter a) = Inr (r, y', w')" by (simp add: futex_wait_def)
  have "(5 :: 32 word) \<noteq> 4" by simp
  then have "r = Some (posix_code RL_EWOULDBLOCK)"
    using futex_no_lost_wakeup [OF still_Inr st ix, of "futex_waker a" "futex_waiter a" x False 4 r y' w']
      futex_sample_fields [of a] w by (simp add: vle_refl)
  then show ?thesis using st w by blast
qed

end
