(* ===== verification/Windows.thy ===== *)
theory Windows
  imports Posix Event
begin

text \<open>
  The Win32 layer, \<^verbatim>\<open>stdlib/windows.hpp\<close>. A \<open>HANDLE\<close> is a pointer to one of the
  four kinds of objects behind \<open>win_object\<close>; here it is a \<open>waitable\<close>, whose number is the address
  of the object. As in the POSIX layer a call goes in pieces: \<open>wo_enter\<close> is the piece up to the
  \<open>sched()\<close> of the implementation, a definition named like the function the one after it.
\<close>

section \<open>The interface of a waitable object\<close>

fun wo_enter :: "user_fun \<Rightarrow> waitable \<Rightarrow> world \<Rightarrow> fault + (nat \<times> world)" where
  "wo_enter user_inv (W_sema h) w = op_enter sema_check user_inv h w"
| "wo_enter user_inv (W_event h) w = op_enter event_check user_inv h w"
| "wo_enter user_inv (W_mutex h) w = op_enter mutex_check user_inv h w"
| "wo_enter user_inv (W_thread t) w = Inr (t, w)"

fun wo_wait :: "user_fun \<Rightarrow> waitable \<Rightarrow> nat \<Rightarrow> bool \<Rightarrow> bool \<Rightarrow> world \<Rightarrow> fault + (wakeup_reason option \<times> world)" where
  "wo_wait user_inv (W_sema _) a try_wait is_timed w = sema_wait user_inv a try_wait is_timed w"
| "wo_wait user_inv (W_event _) a try_wait is_timed w = event_wait user_inv a try_wait is_timed w"
| "wo_wait user_inv (W_mutex _) a try_wait is_timed w =
     (if try_wait then lock_reason wakeup_failed (try_lock_exclusive a w)
      else lock_reason wakeup_timeout (lock_exclusive user_inv a is_timed w))"
| "wo_wait user_inv (W_thread _) t try_wait is_timed w = thread_wait user_inv t try_wait is_timed w"

fun wo_wait_resume :: "user_fun \<Rightarrow> waitable \<Rightarrow> nat \<Rightarrow> bool \<Rightarrow> world \<Rightarrow> fault + (wakeup_reason option \<times> world)" where
  "wo_wait_resume user_inv (W_sema _) a is_timed w = sema_wait_resume a is_timed w"
| "wo_wait_resume user_inv (W_event _) a is_timed w = event_wait_resume a w"
| "wo_wait_resume user_inv (W_mutex _) a is_timed w = lock_reason wakeup_timeout (lock_exclusive_resume user_inv a is_timed w)"
| "wo_wait_resume user_inv (W_thread _) t is_timed w = thread_wait_resume t w"

lemma op_enter_then:
  "rbind (op_enter check user_inv h w) (\<lambda>(a, w). k a w) = rbind (check h w) (\<lambda>a. rbind (ctx_sched user_inv w) (k a))"
proof (cases "check h w")
  case (Inr a)
  then show ?thesis by (cases "ctx_sched user_inv w") (simp_all add: op_enter_def)
qed (simp add: op_enter_def)

text \<open>A try in one piece, as \<open>wait_for_multiple_objects\<close> makes it, is the two pieces.\<close>

lemma wo_try_wait_pieces:
  "wo_try_wait user_inv x w = rbind (wo_enter user_inv x w) (\<lambda>(a, w). wo_wait user_inv x a True False w)"
  by (cases x) (simp_all add: op_enter_then)

fun wo_signal :: "user_fun \<Rightarrow> waitable \<Rightarrow> nat \<Rightarrow> world \<Rightarrow> fault + (bool \<times> world)" where
  "wo_signal user_inv (W_sema _) a w = rbind (sema_post user_inv a 1 w) (\<lambda>(ok, _, _, w). Inr (ok, w))"
| "wo_signal user_inv (W_event _) a w = rbind (event_set user_inv a w) (\<lambda>(_, w). Inr (True, w))"
| "wo_signal user_inv (W_mutex _) a w = rbind (unlock_exclusive user_inv a w) (\<lambda>w. Inr (True, w))"
| "wo_signal user_inv (W_thread _) t w = thread_signal t w"

section \<open>Waiting\<close>

definition rl_INFINITE :: "64 word" where "rl_INFINITE = -1"
definition rl_WAIT_FAILED :: "64 word" where "rl_WAIT_FAILED = -1"
definition rl_WAIT_OBJECT_0 :: "64 word" where "rl_WAIT_OBJECT_0 = 100"
definition rl_WAIT_TIMEOUT :: "64 word" where "rl_WAIT_TIMEOUT = 1"

definition rl_SwitchToThread :: "user_fun \<Rightarrow> world \<Rightarrow> fault + (int \<times> world)" where
  "rl_SwitchToThread user_inv w = rbind (ctx_yield user_inv 1 w) (\<lambda>w. Inr (1, w))"

text \<open>The number of milliseconds becomes an \<open>unsigned\<close>.\<close>

definition rl_Sleep :: "user_fun \<Rightarrow> 64 word \<Rightarrow> world \<Rightarrow> fault + world" where
  "rl_Sleep user_inv milliseconds w =
     ctx_yield user_inv (unat (ucast (if milliseconds \<noteq> 0 then milliseconds else 1) :: u32)) w"

fun single_object_answer :: "wakeup_reason option \<times> world \<Rightarrow> fault + (64 word option \<times> world)" where
  "single_object_answer (None, w) = Inr (None, w)"
| "single_object_answer (Some wakeup_success, w) = Inr (Some rl_WAIT_OBJECT_0, w)"
| "single_object_answer (Some wakeup_timeout, w) = Inr (Some rl_WAIT_TIMEOUT, w)"
| "single_object_answer (Some wakeup_failed, w) = Inr (Some rl_WAIT_TIMEOUT, w)"
| "single_object_answer (Some wakeup_spurious, w) = Inl Verify_failed"

text \<open>The assertion on \<open>alertable\<close> comes before the \<open>sched()\<close>.\<close>

definition alertable_check :: "bool \<Rightarrow> fault + unit" where
  "alertable_check alertable = rl_verify (\<not> alertable) (Inr ())"

definition rl_WaitForSingleObjectEx :: "user_fun \<Rightarrow> waitable \<Rightarrow> nat \<Rightarrow> 64 word \<Rightarrow> world \<Rightarrow> fault + (64 word option \<times> world)" where
  "rl_WaitForSingleObjectEx user_inv obj a timeout w =
     (let try_wait = (timeout = 0); is_timed = (timeout \<noteq> rl_INFINITE)
      in rbind (wo_wait user_inv obj a try_wait is_timed w) single_object_answer)"

text \<open>\<open>signaled\<close> is the index set by a wait for any of the objects.\<close>

fun multiple_objects_answer :: "nat \<Rightarrow> wakeup_reason \<Rightarrow> fault + 64 word" where
  "multiple_objects_answer signaled wakeup_success = Inr (rl_WAIT_OBJECT_0 + of_nat signaled)"
| "multiple_objects_answer signaled wakeup_timeout = Inr rl_WAIT_TIMEOUT"
| "multiple_objects_answer signaled _ = Inl Verify_failed"

definition rl_WaitForMultipleObjectsEx ::
  "user_fun \<Rightarrow> waitable list \<Rightarrow> bool \<Rightarrow> 64 word \<Rightarrow> world \<Rightarrow> fault + (64 word option \<times> world)" where
  "rl_WaitForMultipleObjectsEx user_inv objects wait_all timeout w =
     (let try_wait = (timeout = 0); is_timed = (timeout \<noteq> rl_INFINITE)
      in rbind (wait_for_multiple_objects user_inv objects wait_all try_wait is_timed w) (\<lambda>(r, w).
           case r of
             None \<Rightarrow> Inr (None, w)
           | Some (reason, signaled) \<Rightarrow> rbind (multiple_objects_answer signaled reason) (\<lambda>a. Inr (Some a, w))))"

text \<open>
  Signalling one object and waiting for another: from the \<open>sched()\<close> of the signal on. The wait
  follows with preemption disabled, so in the same piece; a wait that parked enables preemption
  again in \<open>signal_and_wait_end\<close>.
\<close>

definition signal_and_wait_end :: "64 word option \<times> world \<Rightarrow> fault + (64 word option \<times> world)" where
  "signal_and_wait_end = (\<lambda>(r, w). Inr (r, if r = None then w else enable_preemption w))"

definition rl_SignalObjectAndWait ::
  "user_fun \<Rightarrow> waitable \<Rightarrow> nat \<Rightarrow> waitable \<Rightarrow> 64 word \<Rightarrow> bool \<Rightarrow> world \<Rightarrow> fault + (64 word option \<times> world)" where
  "rl_SignalObjectAndWait user_inv obj_to_signal a obj_to_wait timeout alertable w =
     rbind (wo_signal user_inv obj_to_signal a w) (\<lambda>(result, w).
       if \<not> result then Inr (Some 0, w)
       else rbind (alertable_check alertable) (\<lambda>_.
            rbind (wo_enter user_inv obj_to_wait (disable_preemption w)) (\<lambda>(b, w).
            rbind (rl_WaitForSingleObjectEx user_inv obj_to_wait b timeout w) signal_and_wait_end)))"

section \<open>Handles\<close>

text \<open>
  An object a handle points to lives in a block of the memory manager; \<open>mem\<close> is \<open>malloc\<close>'s
  answer to the memory manager, \<open>es\<close> and \<open>sys\<close> are those of the slab allocator of the
  implementation, \<open>sz\<close> is the size of the object.
\<close>

definition handle_ctor :: "u32 \<Rightarrow> nat \<Rightarrow> handle" where
  "handle_ctor magic h = \<lparr>hd_impl = None, hd_sign = signature_ctor magic (of_nat h)\<rparr>"

definition rl_CreateSemaphore ::
  "nat \<Rightarrow> nat \<Rightarrow> nat \<Rightarrow> nat \<Rightarrow> 64 word \<Rightarrow> 64 word \<Rightarrow> world \<Rightarrow> fault + (waitable \<times> world)" where
  "rl_CreateSemaphore mem sz es sys initial_count max_count w =
     rbind (ctx_alloc mem sz w) (\<lambda>(h, w).
       rbind (semaphore_init es sys h False (ucast initial_count) (ucast max_count)
                (w\<lparr>w_sema_handle := (w_sema_handle w)(h := handle_ctor sema_handle_magic h)\<rparr>)) (\<lambda>w.
         Inr (W_sema h, w)))"

definition rl_CreateEvent ::
  "nat \<Rightarrow> nat \<Rightarrow> nat \<Rightarrow> nat \<Rightarrow> bool \<Rightarrow> bool \<Rightarrow> world \<Rightarrow> fault + (waitable \<times> world)" where
  "rl_CreateEvent mem sz es sys manual_reset initial_state w =
     rbind (ctx_alloc mem sz w) (\<lambda>(h, w).
       rbind (generic_event_init es sys h manual_reset initial_state
                (w\<lparr>w_event_handle := (w_event_handle w)(h := handle_ctor event_handle_magic h)\<rparr>)) (\<lambda>w.
         Inr (W_event h, w)))"

text \<open>With \<open>initial_owner\<close> the creator locks the new mutex: the piece up to that lock's \<open>sched()\<close>.\<close>

definition rl_CreateMutex ::
  "user_fun \<Rightarrow> nat \<Rightarrow> nat \<Rightarrow> nat \<Rightarrow> nat \<Rightarrow> bool \<Rightarrow> world \<Rightarrow> fault + (waitable \<times> world)" where
  "rl_CreateMutex user_inv mem sz es sys initial_owner w =
     rbind (ctx_alloc mem sz w) (\<lambda>(h, w).
       rbind (generic_mutex_init es sys h False True False False
                (w\<lparr>w_mutex_handle := (w_mutex_handle w)(h := handle_ctor mutex_handle_magic h)\<rparr>)) (\<lambda>w.
         if initial_owner then rbind (op_enter mutex_check user_inv h w) (\<lambda>(_, w). Inr (W_mutex h, w))
         else Inr (W_mutex h, w)))"

definition rl_CreateMutex_own :: "user_fun \<Rightarrow> nat \<Rightarrow> world \<Rightarrow> fault + (bool option \<times> world)" where
  "rl_CreateMutex_own user_inv a w = lock_exclusive user_inv a False w"

text \<open>
  \<open>deinit\<close> and the destructor, whose only effect is that of the signature. A thread's object has an
  empty \<open>deinit\<close> and no signature.
\<close>

fun wo_deinit :: "waitable \<Rightarrow> world \<Rightarrow> fault + world" where
  "wo_deinit (W_sema h) w = semaphore_deinit h w"
| "wo_deinit (W_event h) w = generic_event_deinit h w"
| "wo_deinit (W_mutex h) w = generic_mutex_deinit h w"
| "wo_deinit (W_thread t) w = Inr w"

fun wo_dtor :: "waitable \<Rightarrow> world \<Rightarrow> fault + world" where
  "wo_dtor (W_sema h) w =
     rbind (signature_dtor sema_handle_magic (hd_sign (w_sema_handle w h))) (\<lambda>s.
       Inr (w\<lparr>w_sema_handle := (w_sema_handle w)(h := (w_sema_handle w h)\<lparr>hd_sign := s\<rparr>)\<rparr>))"
| "wo_dtor (W_event h) w =
     rbind (signature_dtor event_handle_magic (hd_sign (w_event_handle w h))) (\<lambda>s.
       Inr (w\<lparr>w_event_handle := (w_event_handle w)(h := (w_event_handle w h)\<lparr>hd_sign := s\<rparr>)\<rparr>))"
| "wo_dtor (W_mutex h) w =
     rbind (signature_dtor mutex_handle_magic (hd_sign (w_mutex_handle w h))) (\<lambda>s.
       Inr (w\<lparr>w_mutex_handle := (w_mutex_handle w)(h := (w_mutex_handle w h)\<lparr>hd_sign := s\<rparr>)\<rparr>))"
| "wo_dtor (W_thread t) w = Inr w"

text \<open>\<open>so_addr\<close> gives the addresses of the objects of the threads, which are members of the context.\<close>

fun handle_addr :: "(nat \<Rightarrow> nat) \<Rightarrow> waitable \<Rightarrow> nat" where
  "handle_addr so_addr (W_sema h) = h"
| "handle_addr so_addr (W_event h) = h"
| "handle_addr so_addr (W_mutex h) = h"
| "handle_addr so_addr (W_thread t) = so_addr t"

definition rl_CloseHandle :: "(nat \<Rightarrow> nat) \<Rightarrow> waitable \<Rightarrow> world \<Rightarrow> fault + (int \<times> world)" where
  "rl_CloseHandle so_addr h w =
     rbind (wo_deinit h w) (\<lambda>w. rbind (wo_dtor h w) (\<lambda>w. rbind (ctx_free (handle_addr so_addr h) w) (\<lambda>w. Inr (1, w))))"

section \<open>Signalling\<close>

text \<open>The result and the count before, which the caller stores if it is asked for.\<close>

definition rl_ReleaseSemaphore :: "user_fun \<Rightarrow> nat \<Rightarrow> 64 word \<Rightarrow> world \<Rightarrow> fault + (int \<times> u32 \<times> world)" where
  "rl_ReleaseSemaphore user_inv a cnt w =
     rbind (sema_post user_inv a (ucast cnt) w) (\<lambda>(result, prev_count, _, w).
       Inr (if result then 1 else 0, prev_count, w))"

definition rl_SetEvent :: "user_fun \<Rightarrow> nat \<Rightarrow> world \<Rightarrow> fault + (int \<times> world)" where
  "rl_SetEvent user_inv a w = rbind (event_set user_inv a w) (\<lambda>(_, w). Inr (1, w))"

definition rl_ResetEvent :: "nat \<Rightarrow> world \<Rightarrow> fault + (int \<times> world)" where
  "rl_ResetEvent a w = rbind (event_reset a w) (\<lambda>w. Inr (1, w))"

definition rl_PulseEvent :: "user_fun \<Rightarrow> nat \<Rightarrow> world \<Rightarrow> fault + (int \<times> world)" where
  "rl_PulseEvent user_inv a w = rbind (event_pulse user_inv a w) (\<lambda>(_, w). Inr (1, w))"

definition rl_ReleaseMutex :: "user_fun \<Rightarrow> nat \<Rightarrow> world \<Rightarrow> fault + (int \<times> world)" where
  "rl_ReleaseMutex user_inv a w = rbind (unlock_exclusive user_inv a w) (\<lambda>w. Inr (1, w))"


section \<open>Critical sections and slim locks\<close>

definition rl_InitializeCriticalSection :: "nat \<Rightarrow> nat \<Rightarrow> nat \<Rightarrow> world \<Rightarrow> fault + world" where
  "rl_InitializeCriticalSection es sys h w = generic_mutex_init es sys h False True False False w"

definition rl_InitializeCriticalSectionAndSpinCount :: "nat \<Rightarrow> nat \<Rightarrow> nat \<Rightarrow> 64 word \<Rightarrow> world \<Rightarrow> fault + (int \<times> world)" where
  "rl_InitializeCriticalSectionAndSpinCount es sys h spin_count w =
     rbind (generic_mutex_init es sys h False True False False w) (\<lambda>w. Inr (1, w))"

definition rl_InitializeCriticalSectionEx ::
  "nat \<Rightarrow> nat \<Rightarrow> nat \<Rightarrow> 64 word \<Rightarrow> 64 word \<Rightarrow> world \<Rightarrow> fault + (int \<times> world)" where
  "rl_InitializeCriticalSectionEx es sys h spin_count flags w =
     rbind (generic_mutex_init es sys h False True False False w) (\<lambda>w. Inr (1, w))"

definition rl_DeleteCriticalSection :: "nat \<Rightarrow> world \<Rightarrow> fault + world" where
  "rl_DeleteCriticalSection h w = generic_mutex_deinit h w"

text \<open>The functions without a result return \<open>Some ()\<close> when they return.\<close>

definition rl_EnterCriticalSection :: "user_fun \<Rightarrow> nat \<Rightarrow> world \<Rightarrow> fault + (unit option \<times> world)" where
  "rl_EnterCriticalSection user_inv a w =
     rbind (lock_exclusive user_inv a False w) (\<lambda>(b, w). Inr (map_option (\<lambda>_. ()) b, w))"

definition rl_TryEnterCriticalSection :: "nat \<Rightarrow> world \<Rightarrow> fault + (int option \<times> world)" where
  "rl_TryEnterCriticalSection a w =
     rbind (try_lock_exclusive a w) (\<lambda>(b, w). Inr (map_option (\<lambda>b. if b then 1 else 0) b, w))"

definition rl_LeaveCriticalSection :: "user_fun \<Rightarrow> nat \<Rightarrow> world \<Rightarrow> fault + world" where
  "rl_LeaveCriticalSection user_inv a w = unlock_exclusive user_inv a w"

definition rl_InitializeSRWLock :: "nat \<Rightarrow> nat \<Rightarrow> nat \<Rightarrow> world \<Rightarrow> fault + world" where
  "rl_InitializeSRWLock es sys h w = generic_mutex_init es sys h True False False False w"

definition rl_AcquireSRWLockExclusive :: "user_fun \<Rightarrow> nat \<Rightarrow> world \<Rightarrow> fault + (unit option \<times> world)" where
  "rl_AcquireSRWLockExclusive user_inv a w =
     rbind (lock_exclusive user_inv a False w) (\<lambda>(b, w). Inr (map_option (\<lambda>_. ()) b, w))"

definition rl_AcquireSRWLockShared :: "user_fun \<Rightarrow> nat \<Rightarrow> world \<Rightarrow> fault + (unit option \<times> world)" where
  "rl_AcquireSRWLockShared user_inv a w =
     rbind (lock_shared user_inv a w) (\<lambda>(b, w). Inr (map_option (\<lambda>_. ()) b, w))"

definition rl_ReleaseSRWLockExclusive :: "user_fun \<Rightarrow> nat \<Rightarrow> world \<Rightarrow> fault + world" where
  "rl_ReleaseSRWLockExclusive user_inv a w = unlock_exclusive user_inv a w"

definition rl_ReleaseSRWLockShared :: "user_fun \<Rightarrow> nat \<Rightarrow> world \<Rightarrow> fault + world" where
  "rl_ReleaseSRWLockShared user_inv a w = unlock_shared user_inv a w"

definition rl_DeleteSRWLock :: "nat \<Rightarrow> world \<Rightarrow> fault + world" where
  "rl_DeleteSRWLock h w = generic_mutex_deinit h w"

section \<open>Condition variables\<close>

definition rl_InitializeConditionVariable :: "nat \<Rightarrow> nat \<Rightarrow> nat \<Rightarrow> world \<Rightarrow> fault + world" where
  "rl_InitializeConditionVariable es sys h w = condvar_init es sys h False w"

text \<open>
  The parking piece of a sleep; the other pieces are those of \<open>Condvar\<close>. Both functions return 0
  whatever the reason of the wake-up was, and both flags of the slim lock lock it exclusively.
\<close>

definition rl_SleepConditionVariableCS :: "user_fun \<Rightarrow> nat \<Rightarrow> nat \<Rightarrow> 64 word \<Rightarrow> world \<Rightarrow> fault + world" where
  "rl_SleepConditionVariableCS user_inv a m ms w =
     condvar_wait_park user_inv (unlock_exclusive user_inv m) a (ms \<noteq> rl_INFINITE) w"

definition rl_SleepConditionVariableSRW :: "user_fun \<Rightarrow> nat \<Rightarrow> nat \<Rightarrow> 64 word \<Rightarrow> 64 word \<Rightarrow> world \<Rightarrow> fault + world" where
  "rl_SleepConditionVariableSRW user_inv a m ms flags w =
     condvar_wait_park user_inv (unlock_exclusive user_inv m) a (ms \<noteq> rl_INFINITE) w"

definition sleep_answer :: "wakeup_reason \<Rightarrow> int" where
  "sleep_answer reason = 0"

definition rl_WakeAllConditionVariable :: "user_fun \<Rightarrow> nat \<Rightarrow> world \<Rightarrow> fault + world" where
  "rl_WakeAllConditionVariable user_inv a w = condvar_notify_all user_inv a w"

definition rl_WakeConditionVariable :: "user_fun \<Rightarrow> nat \<Rightarrow> world \<Rightarrow> fault + world" where
  "rl_WakeConditionVariable user_inv a w = condvar_notify_one user_inv a w"

definition rl_DeleteConditionVariable :: "nat \<Rightarrow> world \<Rightarrow> fault + world" where
  "rl_DeleteConditionVariable h w = condvar_deinit h w"

section \<open>Threads\<close>

text \<open>
  The argument of a new thread is a block with the user's function and its parameter;
  \<open>thread_fn\<close> stands for the address of
  \<open>win32_thread_helper::thread\<close>. The block's contents are returned beside its address.
\<close>

record thread_helper =
  helper_fn :: nat
  helper_param :: nat

definition rl_CreateThread ::
  "nat \<Rightarrow> nat \<Rightarrow> nat \<Rightarrow> nat \<Rightarrow> nat \<Rightarrow> world \<Rightarrow> fault + (waitable \<times> (nat \<times> thread_helper) \<times> world)" where
  "rl_CreateThread mem sz thread_fn fn param w =
     rbind (ctx_alloc mem sz w) (\<lambda>(arg, w).
       rbind (create_thread (Some thread_fn) arg w) (\<lambda>(t, w).
         Inr (W_thread t, (arg, \<lparr>helper_fn = fn, helper_param = param\<rparr>), w)))"

definition rl_beginthreadex ::
  "nat \<Rightarrow> nat \<Rightarrow> nat \<Rightarrow> nat \<Rightarrow> nat \<Rightarrow> world \<Rightarrow> fault + (waitable \<times> (nat \<times> thread_helper) \<times> world)" where
  "rl_beginthreadex mem sz thread_fn start_address arglist w =
     rbind (ctx_alloc mem sz w) (\<lambda>(arg, w).
       rbind (create_thread (Some thread_fn) arg w) (\<lambda>(t, w).
         Inr (W_thread t, (arg, \<lparr>helper_fn = start_address, helper_param = arglist\<rparr>), w)))"

text \<open>\<open>win32_thread_helper::thread\<close> from the return of the user's function on.\<close>

definition helper_thread_end :: "nat \<Rightarrow> nat \<Rightarrow> world \<Rightarrow> fault + (nat \<times> world)" where
  "helper_thread_end self result w = rbind (ctx_free self w) (\<lambda>w. Inr (result, w))"

definition rl_SetThreadAffinityMask :: "waitable \<Rightarrow> 64 word \<Rightarrow> 64 word" where
  "rl_SetThreadAffinityMask th affinity_mask = 0"

definition rl_SuspendThread :: "waitable \<Rightarrow> int" where "rl_SuspendThread th = 1"
definition rl_ResumeThread :: "waitable \<Rightarrow> int" where "rl_ResumeThread th = 1"

definition GetLastError :: "world \<Rightarrow> fault + 64 word" where
  "GetLastError w = rbind (get_errno w) (\<lambda>e. Inr (word_of_int e))"

definition SetLastError :: "64 word \<Rightarrow> world \<Rightarrow> fault + world" where
  "SetLastError value w = set_errno (sint (ucast value :: 32 word)) w"

definition rl_FlushProcessWriteBuffers :: "world \<Rightarrow> world" where
  "rl_FlushProcessWriteBuffers w = rl_global_fence w"

section \<open>Closing the handle of a thread\<close>

text \<open>
  The object behind a thread's handle is no block of the memory manager, so that closing the handle
  ends the test with a report of a double free.
\<close>

lemma close_thread_handle:
  assumes "so_addr t \<noteq> 0" "allocs (cx_memory w) (so_addr t) = None"
    "ctx_rand (if is_random_sched w then 4 else 2) sched_type_mem_realloc w = Inr (r, w')" "cx_memory w' = cx_memory w"
  shows "rl_CloseHandle so_addr (W_thread t) w = Inl (Test_failed result_double_free)"
  using assms by (simp add: rl_CloseHandle_def ctx_free_def memory_free_def Let_def fail_test_def)

end
