(* ===== verification/Alloc.thy ===== *)
theory Alloc
  imports Context
begin

text \<open>
  The allocation functions a test calls, at the end of \<^verbatim>\<open>context.hpp\<close>: arrays with
  constructors that may throw, the C functions and the global operators, and the objects the context
  makes for atomic and plain variables.

  The bytes and words of the blocks are a function \<open>mem\<close> from addresses that is passed along; sizes
  are computed modulo \<open>2 ^ 64\<close>. A constructor of an element is an argument that also tells whether
  it completed (\<open>True\<close>) or threw; a destructor does not throw. \<open>sys\<close> is the answer of
  \<open>malloc\<close>.
\<close>

section \<open>Arrays\<close>

definition size_t :: "nat \<Rightarrow> nat" where
  "size_t n = n mod 2 ^ 64"

type_synonym 'c elem_ctor = "nat \<Rightarrow> 'c \<Rightarrow> fault + (bool \<times> 'c)"
type_synonym 'c elem_dtor = "nat \<Rightarrow> 'c \<Rightarrow> fault + 'c"

text \<open>The loop of the constructors; \<open>Some i\<close> when the one of element \<open>i\<close> threw.\<close>

fun construct_elems :: "'c elem_ctor \<Rightarrow> nat \<Rightarrow> nat \<Rightarrow> nat \<Rightarrow> nat \<Rightarrow> 'c \<Rightarrow> fault + (nat option \<times> 'c)" where
  "construct_elems ctor tsz pos i 0 c = Inr (None, c)"
| "construct_elems ctor tsz pos i (Suc k) c =
     rbind (ctor pos c) (\<lambda>(ok, c). if ok then construct_elems ctor tsz (pos + tsz) (i + 1) k c else Inr (Some i, c))"

text \<open>
  The handler's loop runs from element \<open>i - 1\<close> down while the index is below \<open>count\<close>; after element 0
  the unsigned index wraps to the largest one, which is not.
\<close>

fun destroy_down :: "'c elem_dtor \<Rightarrow> nat \<Rightarrow> nat \<Rightarrow> nat \<Rightarrow> 'c \<Rightarrow> fault + 'c" where
  "destroy_down dtor tsz base 0 c = Inr c"
| "destroy_down dtor tsz base (Suc i) c = rbind (dtor (base + i * tsz) c) (destroy_down dtor tsz base i)"

fun destroy_up :: "'c elem_dtor \<Rightarrow> nat \<Rightarrow> nat \<Rightarrow> nat \<Rightarrow> 'c \<Rightarrow> fault + 'c" where
  "destroy_up dtor tsz p 0 c = Inr c"
| "destroy_up dtor tsz p (Suc k) c = rbind (dtor p c) (destroy_up dtor tsz (p + tsz) k)"

text \<open>\<open>None\<close>: the exception goes on to the caller.\<close>

definition new_arr_impl ::
  "'a ctx_scheme elem_ctor \<Rightarrow> 'a ctx_scheme elem_dtor \<Rightarrow> nat \<Rightarrow> nat \<Rightarrow> nat \<Rightarrow> (nat \<Rightarrow> nat) \<Rightarrow> 'a ctx_scheme \<Rightarrow>
     fault + (nat option \<times> (nat \<Rightarrow> nat) \<times> 'a ctx_scheme)" where
  "new_arr_impl ctor dtor sys tsz cnt mem c =
     rbind (ctx_alloc sys (size_t (alignment + cnt * tsz)) c) (\<lambda>(p, c).
       let mem = mem(p := cnt); base = p + alignment
       in rbind (construct_elems ctor tsz base 0 cnt c) (\<lambda>(threw, c).
            case threw of
              None \<Rightarrow> Inr (Some base, mem, c)
            | Some i \<Rightarrow> rbind (destroy_down dtor tsz base i c) (\<lambda>c. rbind (ctx_free p c) (\<lambda>c. Inr (None, mem, c)))))"

definition delete_arr_impl ::
  "'a ctx_scheme elem_dtor \<Rightarrow> nat \<Rightarrow> nat \<Rightarrow> (nat \<Rightarrow> nat) \<Rightarrow> 'a ctx_scheme \<Rightarrow> fault + 'a ctx_scheme" where
  "delete_arr_impl dtor tsz p mem c =
     (if p = 0 then Inr c
      else let base = p - alignment; cnt = mem base
           in rbind (destroy_up dtor tsz p cnt c) (ctx_free base))"

definition delete_impl :: "'a ctx_scheme elem_dtor \<Rightarrow> nat \<Rightarrow> 'a ctx_scheme \<Rightarrow> fault + 'a ctx_scheme" where
  "delete_impl dtor p c = rbind (dtor p c) (ctx_free p)"

section \<open>The C functions\<close>

definition rl_malloc :: "nat \<Rightarrow> nat \<Rightarrow> 'a ctx_scheme \<Rightarrow> fault + (nat \<times> 'a ctx_scheme)" where
  "rl_malloc sys sz c = ctx_alloc sys sz c"

definition rl_calloc ::
  "nat \<Rightarrow> nat \<Rightarrow> nat \<Rightarrow> (nat \<Rightarrow> nat) \<Rightarrow> 'a ctx_scheme \<Rightarrow> fault + (nat \<times> (nat \<Rightarrow> nat) \<times> 'a ctx_scheme)" where
  "rl_calloc sys sz cnt mem c =
     rbind (ctx_alloc sys (size_t (sz * cnt)) c) (\<lambda>(p, c).
       Inr (p, (\<lambda>a. if p \<le> a \<and> a < p + size_t (sz * cnt) then 0 else mem a), c))"

text \<open>The copy moves as many bytes as the new block has, whatever the size of the old one is.\<close>

definition rl_realloc ::
  "nat \<Rightarrow> nat \<Rightarrow> nat \<Rightarrow> (nat \<Rightarrow> nat) \<Rightarrow> 'a ctx_scheme \<Rightarrow> fault + (nat \<times> (nat \<Rightarrow> nat) \<times> 'a ctx_scheme)" where
  "rl_realloc sys p sz mem c =
     (if sz = 0 then rbind (ctx_free p c) (\<lambda>c. Inr (0, mem, c))
      else rbind (ctx_alloc sys sz c) (\<lambda>(pp, c).
             let mem = (\<lambda>a. if pp \<le> a \<and> a < pp + sz then mem (p + (a - pp)) else mem a)
             in rbind (ctx_free p c) (\<lambda>c. Inr (pp, mem, c))))"

definition rl_free :: "nat \<Rightarrow> 'a ctx_scheme \<Rightarrow> fault + 'a ctx_scheme" where
  "rl_free p c = ctx_free p c"

section \<open>The global operators\<close>

text \<open>\<open>is_ctx\<close>: is there a context? Without one the C library serves the request.\<close>

definition operator_new :: "bool \<Rightarrow> nat \<Rightarrow> nat \<Rightarrow> 'a ctx_scheme \<Rightarrow> fault + (nat \<times> 'a ctx_scheme)" where
  "operator_new is_ctx sys sz c = (if is_ctx then ctx_new sys sz c else Inr (sys, c))"

definition operator_delete :: "bool \<Rightarrow> nat \<Rightarrow> 'a ctx_scheme \<Rightarrow> fault + 'a ctx_scheme" where
  "operator_delete is_ctx p c = (if is_ctx then ctx_delete p c else Inr c)"

definition operator_new_info :: "nat \<Rightarrow> nat \<Rightarrow> 'a ctx_scheme \<Rightarrow> fault + (nat \<times> 'a ctx_scheme)" where
  "operator_new_info sys sz c = ctx_alloc sys sz c"

definition operator_delete_info :: "nat \<Rightarrow> 'a ctx_scheme \<Rightarrow> fault + 'a ctx_scheme" where
  "operator_delete_info p c = ctx_free p c"

section \<open>Other functions of a test\<close>

definition rl_rand :: "nat \<Rightarrow> 'a ctx_scheme \<Rightarrow> fault + (nat \<times> 'a ctx_scheme)" where
  "rl_rand limit c = ctx_rand limit sched_type_user c"

definition thread_index :: "'a ctx_scheme \<Rightarrow> nat" where
  "thread_index c = th_index (cur_thread c)"

definition systemwide_fence :: "'a ctx_scheme \<Rightarrow> 'a ctx_scheme" where
  "systemwide_fence c = rl_global_fence c"

section \<open>The objects behind variables\<close>

text \<open>\<open>raw\<close> is what the block held before.\<close>

definition ctx_atomic_ctor ::
  "nat \<Rightarrow> nat \<Rightarrow> nat \<Rightarrow> atomic_data \<Rightarrow> 'a ctx_scheme \<Rightarrow> fault + (nat \<times> atomic_data \<times> 'a ctx_scheme)" where
  "ctx_atomic_ctor es sys tag raw c =
     rbind (object_alloc es sys Slab_atomic tag c) (\<lambda>(p, c). Inr (p, atomic_data_ctor (cx_n c) raw, c))"

definition ctx_atomic_dtor :: "nat \<Rightarrow> 'a ctx_scheme \<Rightarrow> 'a ctx_scheme" where
  "ctx_atomic_dtor p c = object_free Slab_atomic p c"

section \<open>What the array functions do\<close>

definition elems :: "nat \<Rightarrow> nat \<Rightarrow> nat \<Rightarrow> nat list" where
  "elems base tsz cnt = map (\<lambda>i. base + i * tsz) [0..<cnt]"

lemma elems_Suc: "elems p tsz (Suc k) = p # elems (p + tsz) tsz k"
  by (simp add: elems_def upt_conv_Cons map_Suc_upt [symmetric] del: upt_Suc map_map)
    (simp add: algebra_simps)

lemma destroy_up_elems: "destroy_up dtor tsz p k c = rfold dtor (elems p tsz k) c"
proof (induction k arbitrary: p c)
  case (Suc k)
  then show ?case by (cases "dtor p c") (simp_all add: elems_Suc)
qed (simp add: elems_def)

lemma destroy_down_elems: "destroy_down dtor tsz p k c = rfold dtor (rev (elems p tsz k)) c"
proof (induction k arbitrary: c)
  case (Suc k)
  then show ?case by (cases "dtor (p + k * tsz) c") (simp_all add: elems_def)
qed (simp add: elems_def)

text \<open>A throwing constructor leaves as many completed ones before it as its index says.\<close>

lemma construct_elems_run:
  assumes "construct_elems ctor tsz p i k c = Inr (r, c')"
  shows "case r of
      None \<Rightarrow> rfold (\<lambda>a c. rbind (ctor a c) (\<lambda>(ok, c). rl_verify ok (Inr c))) (elems p tsz k) c = Inr c'
    | Some j \<Rightarrow> i \<le> j \<and> j < i + k \<and> (\<exists>c1. rfold (\<lambda>a c. rbind (ctor a c) (\<lambda>(ok, c). rl_verify ok (Inr c))) (elems p tsz (j - i)) c = Inr c1
        \<and> ctor (p + (j - i) * tsz) c1 = Inr (False, c'))"
  using assms
proof (induction k arbitrary: p i c)
  case 0
  then show ?case by (auto simp: elems_def)
next
  case (Suc k)
  then obtain ok c1 where c1: "ctor p c = Inr (ok, c1)" by (auto simp: fault_inv)
  show ?case
  proof (cases ok)
    case False
    then show ?thesis using Suc.prems c1 by (auto simp: elems_def)
  next
    case True
    then have rest: "construct_elems ctor tsz (p + tsz) (i + 1) k c1 = Inr (r, c')" using Suc.prems c1 by simp
    show ?thesis
    proof (cases r)
      case None
      then show ?thesis using Suc.IH [OF rest] c1 True by (simp add: elems_Suc)
    next
      case (Some j)
      then have j: "j - i = Suc (j - (i + 1))" "i + 1 \<le> j" using Suc.IH [OF rest] by auto
      have s: "p + (j - i) * tsz = p + tsz + (j - (i + 1)) * tsz" unfolding j(1) by simp
      show ?thesis using Suc.IH [OF rest] c1 True Some j(2) unfolding s by (simp add: j(1) elems_Suc add.assoc)
    qed
  qed
qed


text \<open>
  An array is made whole or not at all: when the constructor of element \<open>j\<close> throws, those of the
  elements before it are undone, last first, the block is freed, and nothing is returned.
\<close>

lemma new_arr_all_or_nothing:
  assumes "new_arr_impl ctor dtor sys tsz cnt mem c = Inr (r, mem', c')"
  obtains (made) p c1 where "ctx_alloc sys (size_t (alignment + cnt * tsz)) c = Inr (p, c1)" "r = Some (p + alignment)" "mem' p = cnt"
      "rfold (\<lambda>a c. rbind (ctor a c) (\<lambda>(ok, c). rl_verify ok (Inr c))) (elems (p + alignment) tsz cnt) c1 = Inr c'"
    | (undone) p c1 j c2 c3 c4 where "ctx_alloc sys (size_t (alignment + cnt * tsz)) c = Inr (p, c1)" "r = None" "j < cnt"
      "rfold (\<lambda>a c. rbind (ctor a c) (\<lambda>(ok, c). rl_verify ok (Inr c))) (elems (p + alignment) tsz j) c1 = Inr c2"
      "ctor (p + alignment + j * tsz) c2 = Inr (False, c3)"
      "rfold dtor (rev (elems (p + alignment) tsz j)) c3 = Inr c4" "ctx_free p c4 = Inr c'"
proof -
  obtain p c1 threw c2 where a: "ctx_alloc sys (size_t (alignment + cnt * tsz)) c = Inr (p, c1)"
    "construct_elems ctor tsz (p + alignment) 0 cnt c1 = Inr (threw, c2)"
    using assms by (auto simp: new_arr_impl_def fault_inv Let_def)
  show ?thesis
  proof (cases threw)
    case None
    then show ?thesis using assms a construct_elems_run [OF a(2)] by (intro made) (auto simp: new_arr_impl_def Let_def)
  next
    case (Some j)
    then obtain c3 where "destroy_down dtor tsz (p + alignment) j c2 = Inr c3" "ctx_free p c3 = Inr c'" "r = None"
      using assms a by (auto simp: new_arr_impl_def fault_inv Let_def)
    then show ?thesis using construct_elems_run [OF a(2)] Some a(1) by (auto simp: destroy_down_elems intro: undone)
  qed
qed

text \<open>What \<open>delete_arr_impl\<close> destroys is what \<open>new_arr_impl\<close> constructed, in the same order.\<close>

lemma delete_arr_elems:
  assumes "mem p = cnt"
  shows "delete_arr_impl dtor tsz (p + alignment) mem c = rbind (rfold dtor (elems (p + alignment) tsz cnt) c) (ctx_free p)"
  using assms by (simp add: delete_arr_impl_def destroy_up_elems Let_def alignment_def)

end
