(* ===== verification/Tls.thy ===== *)
theory Tls
  imports Alloc Plain_Var
begin

text \<open>
  Thread local variables, \<open>generic_thread_local\<close> and \<open>thread_local_var\<close> of
  \<^verbatim>\<open>thread_local.hpp\<close> with the Win32 functions over them, the back-off of
  \<^verbatim>\<open>backoff.hpp\<close>, and what the slots of the context
  (\<^verbatim>\<open>thread_local_ctx.hpp\<close>) keep.
\<close>

section \<open>Variables\<close>

record tls_var =
  tl_sign :: signature
  tl_index :: int
  tl_seq :: u32

definition tls_magic :: u32 where "tls_magic = 0xf1724ae2"

definition generic_tls_ctor :: "64 word \<Rightarrow> tls_var" where
  "generic_tls_ctor this = \<lparr>tl_sign = signature_ctor tls_magic this, tl_index = -1, tl_seq = 0\<rparr>"

definition generic_tls_init :: "nat option \<Rightarrow> tls_var \<Rightarrow> 'a ctx_scheme \<Rightarrow> fault + (tls_var \<times> 'a ctx_scheme)" where
  "generic_tls_init dtor v c =
     rbind (signature_check tls_magic (tl_sign v)) (\<lambda>_.
       let (i, c) = thread_local_alloc dtor c in Inr (v\<lparr>tl_index := int i\<rparr>, c))"

text \<open>The calls of the destructor are those of \<open>thread_local_free\<close>.\<close>

definition generic_tls_deinit :: "tls_var \<Rightarrow> 'a ctx_scheme \<Rightarrow> fault + ((nat \<times> int) list \<times> tls_var \<times> 'a ctx_scheme)" where
  "generic_tls_deinit v c =
     rbind (signature_check tls_magic (tl_sign v)) (\<lambda>_.
     rbind (ensure (tl_index v \<noteq> -1) result_user_assert_failed c) (\<lambda>c.
     rbind (thread_local_free (tl_index v) c) (\<lambda>(calls, c). Inr (calls, v\<lparr>tl_index := -1\<rparr>, c))))"

definition generic_tls_set :: "int \<Rightarrow> tls_var \<Rightarrow> 'a ctx_scheme \<Rightarrow> fault + 'a ctx_scheme" where
  "generic_tls_set value v c =
     rbind (signature_check tls_magic (tl_sign v)) (\<lambda>_. thread_local_set (tl_index v) value c)"

definition generic_tls_get :: "tls_var \<Rightarrow> 'a ctx_scheme \<Rightarrow> fault + int" where
  "generic_tls_get v c = rbind (signature_check tls_magic (tl_sign v)) (\<lambda>_. thread_local_get (tl_index v) c)"

text \<open>
  A \<open>thread_local_var\<close> allocates its slot on the first use in each context; \<open>seq\<close> is the number of
  the context.
\<close>

definition tls_var_ensure :: "u32 \<Rightarrow> tls_var \<Rightarrow> 'a ctx_scheme \<Rightarrow> fault + (tls_var \<times> 'a ctx_scheme)" where
  "tls_var_ensure seq v c =
     (if tl_seq v \<noteq> seq then generic_tls_init None (v\<lparr>tl_seq := seq\<rparr>) c else Inr (v, c))"

definition tls_var_set :: "u32 \<Rightarrow> int \<Rightarrow> tls_var \<Rightarrow> 'a ctx_scheme \<Rightarrow> fault + (tls_var \<times> 'a ctx_scheme)" where
  "tls_var_set seq value v c =
     rbind (tls_var_ensure seq v c) (\<lambda>(v, c). rbind (generic_tls_set value v c) (\<lambda>c. Inr (v, c)))"

definition tls_var_get :: "u32 \<Rightarrow> tls_var \<Rightarrow> 'a ctx_scheme \<Rightarrow> fault + (int \<times> tls_var \<times> 'a ctx_scheme)" where
  "tls_var_get seq v c =
     rbind (tls_var_ensure seq v c) (\<lambda>(v, c). rbind (generic_tls_get v c) (\<lambda>r. Inr (r, v, c)))"

section \<open>The Win32 functions\<close>

text \<open>The variable lives in a block of the memory manager, whose address is the slot.\<close>

definition rl_TlsAlloc :: "nat \<Rightarrow> nat \<Rightarrow> 'a ctx_scheme \<Rightarrow> fault + (nat \<times> tls_var \<times> 'a ctx_scheme)" where
  "rl_TlsAlloc sys sz c = rbind (operator_new_info sys sz c) (\<lambda>(p, c). Inr (p, generic_tls_ctor (of_nat p), c))"

definition rl_TlsFree :: "nat \<Rightarrow> tls_var \<Rightarrow> 'a ctx_scheme \<Rightarrow> fault + (tls_var \<times> 'a ctx_scheme)" where
  "rl_TlsFree slot v c =
     rbind (signature_dtor tls_magic (tl_sign v)) (\<lambda>s. rbind (ctx_free slot c) (\<lambda>c. Inr (v\<lparr>tl_sign := s\<rparr>, c)))"

definition rl_TlsGetValue :: "u32 \<Rightarrow> tls_var \<Rightarrow> 'a ctx_scheme \<Rightarrow> fault + (int \<times> tls_var \<times> 'a ctx_scheme)" where
  "rl_TlsGetValue seq v c = tls_var_get seq v c"

definition rl_TlsSetValue :: "u32 \<Rightarrow> int \<Rightarrow> tls_var \<Rightarrow> 'a ctx_scheme \<Rightarrow> fault + (int \<times> tls_var \<times> 'a ctx_scheme)" where
  "rl_TlsSetValue seq value v c = rbind (tls_var_set seq value v c) (\<lambda>(v, c). Inr (1, v, c))"

section \<open>Back-off\<close>

definition backoff_ctor :: u32 where
  "backoff_ctor = 1"

definition backoff_yield ::
  "u32 \<Rightarrow> u32 \<Rightarrow> ('a ctx_scheme \<Rightarrow> fault + 'a ctx_scheme) \<Rightarrow> u32 \<Rightarrow> 'a ctx_scheme \<Rightarrow> fault + (u32 \<times> 'a ctx_scheme)" where
  "backoff_yield factor add user_inv n c =
     rbind (ctx_yield user_inv (unat n) c) (\<lambda>c. Inr (n * factor + add, c))"

text \<open>The number of yields of the \<open>k\<close>-th step of \<open>exp_backoff\<close>; from step 32 on it is 0.\<close>

lemma exp_backoff_step: "((\<lambda>n. n * 2 + 0) ^^ k) backoff_ctor = (2 :: u32) ^ k"
  by (induction k) (simp_all add: backoff_ctor_def)

lemma exp_backoff_exhausted:
  assumes "32 \<le> k"
  shows "backoff_yield 2 0 user_inv (((\<lambda>n. n * 2 + 0) ^^ k) backoff_ctor) c = Inl Verify_failed"
proof -
  have "(2 :: u32) ^ k = 2 ^ 32 * 2 ^ (k - 32)" by (metis assms le_add_diff_inverse power_add)
  moreover have "(2 :: u32) ^ 32 = 0" by code_simp
  ultimately have z: "(2 :: u32) ^ k = 0" by (simp only: mult_zero_left)
  then show ?thesis unfolding exp_backoff_step z by (simp add: backoff_yield_def ctx_yield_def)
qed

section \<open>What a slot keeps\<close>

text \<open>A slot gives each thread what it stored last, and nothing of what others stored.\<close>

lemma tls_set_get:
  assumes "thread_local_set i v c = Inr c'" "threadx c = Some t"
  shows "thread_local_get i c' = Inr v" "u \<noteq> t \<Longrightarrow> thread_local_get i (c'\<lparr>threadx := Some u\<rparr>) = thread_local_get i (c\<lparr>threadx := Some u\<rparr>)"
    "j \<noteq> i \<Longrightarrow> thread_local_get j c' = thread_local_get j c"
proof -
  have i: "0 \<le> i" "nat i < length (tls_entries c)" "tls_alive (tls_entries c ! nat i)"
    "c\<lparr>tls_entries := (tls_entries c)[nat i := (tls_entries c ! nat i)\<lparr>tls_value := (tls_value (tls_entries c ! nat i))(t := v)\<rparr>]\<rparr> = c'"
    using assms by (auto simp: thread_local_set_def fault_inv Let_def cur_def)
  show "thread_local_get i c' = Inr v"
    "u \<noteq> t \<Longrightarrow> thread_local_get i (c'\<lparr>threadx := Some u\<rparr>) = thread_local_get i (c\<lparr>threadx := Some u\<rparr>)"
    unfolding i(4) [symmetric] using i(1-3) assms(2) by (simp_all add: thread_local_get_def Let_def cur_def)
  show "thread_local_get j c' = thread_local_get j c" if "j \<noteq> i"
  proof (cases "j \<ge> 0")
    case True
    then have "nat j \<noteq> nat i" using that i(1) by (simp add: nat_eq_iff)
    then show ?thesis unfolding i(4) [symmetric] by (simp add: thread_local_get_def Let_def cur_def)
  qed (simp add: thread_local_get_def)
qed

end
