(* ===== verification/Managed.thy ===== *)
theory Managed
  imports Atomic_Log Context
begin

text \<open>
  The variables of the Java and .NET layers: \<open>jatomic\<close>, \<open>jvar\<close>, \<open>jvolatile\<close>
  (\<^verbatim>\<open>java_atomic.hpp\<close>, \<^verbatim>\<open>java_var.hpp\<close>,
  \<^verbatim>\<open>java_volatile.hpp\<close>), \<open>nvar\<close>, \<open>nvolatile\<close>, \<open>Interlocked\<close> and \<open>Thread\<close>
  (\<^verbatim>\<open>cli_var.hpp\<close>, \<^verbatim>\<open>cli_volatile.hpp\<close>,
  \<^verbatim>\<open>cli_interlocked.hpp\<close>, \<^verbatim>\<open>cli.hpp\<close>). All are atomic variables whose
  constructor stores the default value; they differ in the memory orders they use.

  As for atomic variables, each operation is the body after its \<open>sched()\<close>; an operator that loads
  and then stores is two pieces, and other threads may run between them.
\<close>

section \<open>Operators of the proxies\<close>

datatype 'a proxy_op = Op_assign 'a | Op_postinc | Op_postdec | Op_preinc | Op_predec | Op_add 'a | Op_sub 'a

text \<open>Does the operator load first? What it stores after having loaded \<open>tmp\<close>, and what it returns.\<close>

fun op_loads :: "('b :: len) word proxy_op \<Rightarrow> bool" where
  "op_loads (Op_assign v) = False"
| "op_loads _ = True"

fun op_stored :: "('b :: len) word proxy_op \<Rightarrow> 'b word \<Rightarrow> 'b word" where
  "op_stored (Op_assign v) tmp = v"
| "op_stored Op_postinc tmp = tmp + 1"
| "op_stored Op_postdec tmp = tmp - 1"
| "op_stored Op_preinc tmp = tmp + 1"
| "op_stored Op_predec tmp = tmp - 1"
| "op_stored (Op_add v) tmp = tmp + v"
| "op_stored (Op_sub v) tmp = tmp - v"

fun op_returned :: "('b :: len) word proxy_op \<Rightarrow> 'b word \<Rightarrow> 'b word" where
  "op_returned (Op_assign v) tmp = v"
| "op_returned Op_postinc tmp = tmp"
| "op_returned Op_postdec tmp = tmp"
| "op_returned Op_preinc tmp = tmp + 1"
| "op_returned Op_predec tmp = tmp - 1"
| "op_returned (Op_add v) tmp = tmp + v"
| "op_returned (Op_sub v) tmp = tmp - v"

type_synonym ('b, 's) managed_load = "nat \<Rightarrow> bool \<Rightarrow> bool \<Rightarrow> 's rnd \<Rightarrow> thread_info \<Rightarrow> 'b word cell \<Rightarrow> 's \<Rightarrow>
  fault + ('b word \<times> thread_info \<times> 'b word cell \<times> 's)"
type_synonym 'b managed_store = "nat \<Rightarrow> bool \<Rightarrow> thread_info \<Rightarrow> 'b word cell \<Rightarrow> 'b word \<Rightarrow> fault + (thread_info \<times> 'b word cell)"

text \<open>
  The storing piece of an operator. The assignment from another proxy is a load of that one, the
  storing piece of \<open>Op_assign\<close>, and a load for the result.
\<close>

definition op_store :: "'b :: len managed_store \<Rightarrow> 'b word proxy_op \<Rightarrow> nat \<Rightarrow> bool \<Rightarrow> 'b word \<Rightarrow> thread_info \<Rightarrow> 'b word cell \<Rightarrow>
    fault + ('b word \<times> thread_info \<times> 'b word cell)" where
  "op_store store p n ie tmp th x = rbind (store n ie th x (op_stored p tmp)) (\<lambda>(th, x). Inr (op_returned p tmp, th, x))"

section \<open>Variables\<close>

definition jvar_load :: "('b :: len, 's) managed_load" where
  "jvar_load n ie rd rnd th x s = cell_load n ie rd mo_relaxed rnd th x s"

definition jvar_store :: "'b :: len managed_store" where
  "jvar_store n ie th x v = cell_store n ie mo_relaxed th x v"

definition jvar_op where
  "jvar_op p n ie tmp th x = op_store jvar_store p n ie tmp th x"

definition jvolatile_load :: "('b :: len, 's) managed_load" where
  "jvolatile_load n ie rd rnd th x s = cell_load n ie rd mo_seq_cst rnd th x s"

definition jvolatile_store :: "'b :: len managed_store" where
  "jvolatile_store n ie th x v = cell_store n ie mo_seq_cst th x v"

definition jvolatile_op where
  "jvolatile_op p n ie tmp th x = op_store jvolatile_store p n ie tmp th x"

definition nvar_load :: "('b :: len, 's) managed_load" where
  "nvar_load n ie rd rnd th x s = cell_load n ie rd mo_relaxed rnd th x s"

definition nvar_store :: "'b :: len managed_store" where
  "nvar_store n ie th x v = cell_store n ie mo_relaxed th x v"

definition nvar_op where
  "nvar_op p n ie tmp th x = op_store nvar_store p n ie tmp th x"

definition nvolatile_load :: "('b :: len, 's) managed_load" where
  "nvolatile_load n ie rd rnd th x s = cell_load n ie rd mo_acquire rnd th x s"

definition nvolatile_store :: "'b :: len managed_store" where
  "nvolatile_store n ie th x v = cell_store n ie mo_release th x v"

definition nvolatile_op where
  "nvolatile_op p n ie tmp th x = op_store nvolatile_store p n ie tmp th x"

text \<open>
  The default constructors are \<open>cell_ctor\<close> with \<open>strong_init\<close>; the converting ones store the value
  after it.
\<close>

definition jvar_ctor where
  "jvar_ctor n ie this raw th (x :: ('b :: len) word cell) v =
     rbind (cell_ctor n ie True this raw th x) (\<lambda>x. jvar_store n ie th x v)"

definition jvolatile_ctor where
  "jvolatile_ctor n ie this raw th (x :: ('b :: len) word cell) v =
     rbind (cell_ctor n ie True this raw th x) (\<lambda>x. jvolatile_store n ie th x v)"

definition nvar_ctor where
  "nvar_ctor n ie this raw th (x :: ('b :: len) word cell) v =
     rbind (cell_ctor n ie True this raw th x) (\<lambda>x. nvar_store n ie th x v)"

definition nvolatile_ctor where
  "nvolatile_ctor n ie this raw th (x :: ('b :: len) word cell) v =
     rbind (cell_ctor n ie True this raw th x) (\<lambda>x. nvolatile_store n ie th x v)"

definition jatomic_ctor where
  "jatomic_ctor n ie this raw th (x :: ('b :: len) word cell) v =
     rbind (cell_ctor n ie True this raw th x) (\<lambda>x. cell_store n ie mo_seq_cst th x v)"

section \<open>Atomic classes\<close>

definition jatomic_get :: "('b :: len, 's) managed_load" where
  "jatomic_get n ie rd rnd th x s = cell_load n ie rd mo_seq_cst rnd th x s"

definition jatomic_set :: "'b :: len managed_store" where
  "jatomic_set n ie th x v = cell_store n ie mo_seq_cst th x v"

definition getAndAdd where
  "getAndAdd n ie th (x :: ('b :: len) word cell) delta = cell_rmw n ie mo_seq_cst rmw_add th x delta"

definition getAndSet where
  "getAndSet n ie th (x :: ('b :: len) word cell) v = cell_rmw n ie mo_seq_cst rmw_swap th x v"

definition addAndGet where
  "addAndGet n ie th (x :: ('b :: len) word cell) delta = proxy_result (\<lambda>v. v + delta) (getAndAdd n ie th x delta)"

definition getAndIncrement where
  "getAndIncrement n ie th (x :: ('b :: len) word cell) = getAndAdd n ie th x 1"

definition getAndDecrement where
  "getAndDecrement n ie th (x :: ('b :: len) word cell) = getAndAdd n ie th x (-1)"

definition incrementAndGet where
  "incrementAndGet n ie th (x :: ('b :: len) word cell) = proxy_result (\<lambda>v. v + 1) (getAndAdd n ie th x 1)"

definition decrementAndGet where
  "decrementAndGet n ie th (x :: ('b :: len) word cell) = proxy_result (\<lambda>v. v - 1) (getAndAdd n ie th x (-1))"

definition jatomic_cas ::
  "bool \<Rightarrow> nat \<Rightarrow> bool \<Rightarrow> bool \<Rightarrow> 's rnd \<Rightarrow> thread_info \<Rightarrow> 'a cell \<Rightarrow> 'a \<Rightarrow> 'a \<Rightarrow> 's \<Rightarrow> fault + (bool \<times> thread_info \<times> 'a cell \<times> 's)" where
  "jatomic_cas weak n ie rd rnd th x expect update s =
     rbind (compare_exchange n ie rd weak mo_seq_cst rnd th x expect update s) (\<lambda>(result, _, th, x, s). Inr (result, th, x, s))"

definition compareAndSet where "compareAndSet = jatomic_cas False"
definition weakCompareAndSet where "weakCompareAndSet = jatomic_cas True"

definition Interlocked_Add where
  "Interlocked_Add n ie th (v :: ('b :: len) word cell) x = proxy_result (\<lambda>r. r + x) (cell_rmw n ie mo_seq_cst rmw_add th v x)"

definition Interlocked_Increment where
  "Interlocked_Increment n ie th (v :: ('b :: len) word cell) = Interlocked_Add n ie th v 1"

definition Interlocked_Decrement where
  "Interlocked_Decrement n ie th (v :: ('b :: len) word cell) = Interlocked_Add n ie th v (-1)"

definition Interlocked_Exchange where
  "Interlocked_Exchange n ie th (v :: ('b :: len) word cell) x = cell_rmw n ie mo_seq_cst rmw_swap th v x"

definition Interlocked_Read :: "('b :: len, 's) managed_load" where
  "Interlocked_Read n ie rd rnd th x s = cell_load n ie rd mo_acquire rnd th x s"

text \<open>The comparand is passed by reference and returned: the value found.\<close>

definition Interlocked_CompareExchange ::
  "nat \<Rightarrow> bool \<Rightarrow> bool \<Rightarrow> 's rnd \<Rightarrow> thread_info \<Rightarrow> 'a cell \<Rightarrow> 'a \<Rightarrow> 'a \<Rightarrow> 's \<Rightarrow> fault + ('a \<times> thread_info \<times> 'a cell \<times> 's)" where
  "Interlocked_CompareExchange n ie rd rnd th v xchg cmp s =
     rbind (compare_exchange2 n ie rd False mo_seq_cst mo_seq_cst rnd th v cmp xchg s) (\<lambda>(_, cmp, th, v, s). Inr (cmp, th, v, s))"

text \<open>The fence after its \<open>sched()\<close>, like the other operations.\<close>

definition MemoryBarrier :: "'a ctx_scheme \<Rightarrow> 'a ctx_scheme" where
  "MemoryBarrier c = atomic_thread_fence_seq_cst c"

definition VolatileRead :: "('b :: len, 's) managed_load" where
  "VolatileRead n ie rd rnd th x s = cell_load n ie rd mo_acquire rnd th x s"

definition VolatileWrite :: "'b :: len managed_store" where
  "VolatileWrite n ie th x v = cell_store n ie mo_release th x v"

text \<open>\<open>iterations\<close> is an \<open>int\<close> and becomes an \<open>unsigned\<close>.\<close>

definition SpinWait ::
  "('a ctx_scheme \<Rightarrow> fault + 'a ctx_scheme) \<Rightarrow> 32 word \<Rightarrow> 'a ctx_scheme \<Rightarrow> fault + 'a ctx_scheme" where
  "SpinWait user_inv iterations c = ctx_yield user_inv (unat iterations) c"

section \<open>What the atomic classes return\<close>

lemmas managed_rmw_defs = getAndAdd_def getAndSet_def addAndGet_def getAndIncrement_def getAndDecrement_def
  incrementAndGet_def decrementAndGet_def Interlocked_Add_def Interlocked_Increment_def Interlocked_Decrement_def
  Interlocked_Exchange_def

text \<open>The value before in the functions that get first, the value after in the others.\<close>

lemma cell_rmw_value:
  assumes "cell_rmw n ie mo type th x v = Inr (r, th', x')"
  shows "r = c_value x \<and> c_value x' = perform_rmw type (c_value x) v"
  using proxy_value [of "\<lambda>v. v" n ie mo type th x v r th' x'] assms by (simp add: proxy_result_def)

lemma jatomic_results:
  "addAndGet n ie th x d = Inr (r, th', x') \<Longrightarrow> r = c_value x' \<and> c_value x' = c_value x + d"
  "incrementAndGet n ie th x = Inr (r, th', x') \<Longrightarrow> r = c_value x' \<and> c_value x' = c_value x + 1"
  "decrementAndGet n ie th x = Inr (r, th', x') \<Longrightarrow> r = c_value x' \<and> c_value x' = c_value x - 1"
  "getAndAdd n ie th x d = Inr (r, th', x') \<Longrightarrow> r = c_value x \<and> c_value x' = c_value x + d"
  "getAndIncrement n ie th x = Inr (r, th', x') \<Longrightarrow> r = c_value x \<and> c_value x' = c_value x + 1"
  "getAndDecrement n ie th x = Inr (r, th', x') \<Longrightarrow> r = c_value x \<and> c_value x' = c_value x - 1"
  "getAndSet n ie th x d = Inr (r, th', x') \<Longrightarrow> r = c_value x \<and> c_value x' = d"
  unfolding managed_rmw_defs by (auto dest!: proxy_value cell_rmw_value)

lemma interlocked_results:
  "Interlocked_Add n ie th x d = Inr (r, th', x') \<Longrightarrow> r = c_value x' \<and> c_value x' = c_value x + d"
  "Interlocked_Increment n ie th x = Inr (r, th', x') \<Longrightarrow> r = c_value x' \<and> c_value x' = c_value x + 1"
  "Interlocked_Decrement n ie th x = Inr (r, th', x') \<Longrightarrow> r = c_value x' \<and> c_value x' = c_value x - 1"
  "Interlocked_Exchange n ie th x d = Inr (r, th', x') \<Longrightarrow> r = c_value x \<and> c_value x' = d"
  unfolding managed_rmw_defs by (auto dest!: proxy_value cell_rmw_value)

end
