(* ===== verification/Litmus.thy ===== *)
theory Litmus
  imports Atomic_Log
begin

text \<open>
  Tools for test programs of a few steps: an oracle that answers from a list, and for each
  operation on an atomic variable that is written at most three times one lemma that says all a
  program proof needs: the operation does not fault, which record it reads or writes, and what it
  leaves in the clocks. Everything is bounded by a number, so that no timestamp wraps.
\<close>

section \<open>Choices\<close>

text \<open>The scheduler's choices along one piece of a thread: yes or no, and no when the list ends.\<close>

fun answers :: "bool list rnd" where
  "answers [] limit t = Inr (0, [])"
| "answers (b # bs) limit t = Inr (of_bool b, bs)"

lemma answers_total: "\<exists>r s'. answers s limit t = Inr (r, s')"
  by (cases s) auto

section \<open>Bounded clocks\<close>

definition bounded :: "nat \<Rightarrow> nat \<Rightarrow> vclock \<Rightarrow> bool" where
  "bounded n b v \<longleftrightarrow> (\<forall>c<n. unat (v c) \<le> b)"

lemma bounded_mono: "bounded n b v \<Longrightarrow> b \<le> b' \<Longrightarrow> bounded n b' v"
  unfolding bounded_def by (meson order_trans)

lemma bounded_join: "bounded n b v \<Longrightarrow> bounded n b w \<Longrightarrow> bounded n b (foreach2 n v w assign_max)"
  by (simp add: bounded_def clock_simps max_def)

lemma bounded_assign: "bounded n b w \<Longrightarrow> bounded n b (foreach2 n v w assign)"
  by (simp add: bounded_def clock_simps)

lemma small_Suc: "unat (x :: timestamp) \<le> b \<Longrightarrow> b < 2 ^ 63 \<Longrightarrow> unat (x + 1) = unat x + 1"
proof -
  assume "unat x \<le> b" "b < 2 ^ 63"
  moreover have "unat (-1 :: timestamp) = 2 ^ 64 - 1" by (simp add: unsigned_minus_1_eq_mask mask_eq_exp_minus_1)
  ultimately have "x \<noteq> -1" by auto
  then show ?thesis using word_Suc_nonzero [of x] unatSuc [of x] by (simp add: add.commute)
qed

lemma bounded_tick:
  assumes "bounded n b v" "b < 2 ^ 63" "i < n"
  shows "bounded n (b + 1) (tick i v)" "vle n v (tick i v)"
proof -
  have "unat (v i) \<le> b" using assms(1,3) by (simp add: bounded_def)
  then have u: "unat (v i + 1) = unat (v i) + 1" using assms(2) by (rule small_Suc)
  show "bounded n (b + 1) (tick i v)"
    using assms(1) u by (auto simp: bounded_def tick_apply le_Suc_eq)
  show "vle n v (tick i v)"
    by (simp add: vle_def tick_apply word_le_nat_alt u)
qed

definition th_ok :: "nat \<Rightarrow> nat \<Rightarrow> nat \<Rightarrow> thread_info \<Rightarrow> bool" where
  "th_ok n b i th \<longleftrightarrow> th_index th = i \<and> bounded n b (acq_rel_order th) \<and>
     bounded n b (acquire_fence_order th) \<and> bounded n b (release_fence_order th)"

definition recs_ok :: "nat \<Rightarrow> nat \<Rightarrow> atomic_data \<Rightarrow> bool" where
  "recs_ok n b var \<longleftrightarrow> (\<forall>k<3. busy (history var k) \<longrightarrow> bounded n b (h_acq_rel_order (history var k)))"

text \<open>The same for all records but the one about to be overwritten, which may be raw memory.\<close>

definition recs_ok_but :: "nat \<Rightarrow> nat \<Rightarrow> nat \<Rightarrow> atomic_data \<Rightarrow> bool" where
  "recs_ok_but n b j var \<longleftrightarrow>
     (\<forall>k<3. k \<noteq> j \<longrightarrow> busy (history var k) \<longrightarrow> bounded n b (h_acq_rel_order (history var k)))"

lemma recs_ok_all_but: "recs_ok n b var \<Longrightarrow> recs_ok_but n b j var"
  by (simp add: recs_ok_def recs_ok_but_def)

lemma th_ok_mono: "th_ok n b i th \<Longrightarrow> b \<le> b' \<Longrightarrow> th_ok n b' i th"
  by (auto simp: th_ok_def intro: bounded_mono)

lemma recs_ok_mono: "recs_ok n b var \<Longrightarrow> b \<le> b' \<Longrightarrow> recs_ok n b' var"
  by (auto simp: recs_ok_def intro: bounded_mono)

section \<open>Loads\<close>

text \<open>The slots of the first records, which no later one has overwritten.\<close>

lemma slot_nat: "m < 2 ^ 32 \<Longrightarrow> hslot (of_nat m) = m mod 3"
  by (simp add: hslot_def atomic_history_size_def unat_of_nat take_bit_nat_eq_self)

lemma rec_at_nat: "m < 2 ^ 32 \<Longrightarrow> rec_at var (of_nat m) = history var (m mod 3)"
  by (simp add: rec_at_def slot_nat)

lemma scan_between:
  assumes "1 \<le> l" "l \<le> m" "m \<le> 3" "\<And>j. l \<le> j \<Longrightarrow> j \<le> m \<Longrightarrow> busy (rec_at var (of_nat j))"
    "\<not> passable n mo th var (of_nat l)"
  shows "\<exists>r s'. load_scan k n mo answers th var (of_nat m) s = Inr (of_nat r, s') \<and> l \<le> r \<and> r \<le> m"
  using assms
proof (induction k arbitrary: m s)
  case 0
  then show ?case by auto
next
  case (Suc k)
  have b: "busy (rec_at var (of_nat m))" using Suc.prems(2,4) by blast
  show ?case
  proof (cases "passable n mo th var (of_nat m)")
    case True
    then have lm: "l \<le> m - 1" using Suc.prems(2,5) by (cases "l = m") auto
    obtain a s1 where a: "answers s 2 sched_type_atomic_load = Inr (a, s1)" using answers_total by blast
    obtain r s' where r: "load_scan k n mo answers th var (of_nat (m - 1)) s1 = Inr (of_nat r, s')" "l \<le> r" "r \<le> m - 1"
      using Suc.IH [OF Suc.prems(1) lm _ _ Suc.prems(5)] Suc.prems(3,4) by fastforce
    have m: "(of_nat m :: u32) - 1 = of_nat (m - 1)" using Suc.prems(1,2) by (simp add: of_nat_diff)
    show ?thesis
    proof (cases "a = 0")
      case True
      then show ?thesis using a b \<open>passable n mo th var (of_nat m)\<close> Suc.prems(2)
        by (auto simp: load_scan_Suc simp del: load_scan.simps(2))
    next
      case False
      then have "load_scan (Suc k) n mo answers th var (of_nat m) s = Inr (of_nat r, s')"
        using a b r(1) \<open>passable n mo th var (of_nat m)\<close> by (simp add: load_scan_Suc m del: load_scan.simps(2))
      then show ?thesis using r(2,3) by auto
    qed
  next
    case False
    then show ?thesis using b Suc.prems(2) by (auto simp: load_scan_Suc simp del: load_scan.simps(2))
  qed
qed

text \<open>What a load leaves alone: all but the first-seen marks of the history.\<close>

definition same_cell :: "'a cell \<Rightarrow> 'a cell \<Rightarrow> bool" where
  "same_cell x x' \<longleftrightarrow> current_index (c_impl x') = current_index (c_impl x) \<and> c_history x' = c_history x \<and>
     c_sign x' = c_sign x \<and> c_initialized x' = c_initialized x \<and> c_value x' = c_value x \<and>
     (\<forall>k. let r = history (c_impl x) k; r' = history (c_impl x') k
          in busy r' = busy r \<and> h_thread_id r' = h_thread_id r \<and> acq_rel_timestamp r' = acq_rel_timestamp r \<and>
             seq_cst r' = seq_cst r \<and> h_acq_rel_order r' = h_acq_rel_order r)"

lemma same_cell_refl [simp]: "same_cell x x"
  by (simp add: same_cell_def)

lemma small_index: "r \<le> 3 \<Longrightarrow> (of_nat r :: u32) \<noteq> -1" "unat (of_nat (k mod 3) :: u32) = k mod 3"
proof -
  have "unat (-1 :: u32) = 2 ^ 32 - 1" by (simp add: unsigned_minus_1_eq_mask mask_eq_exp_minus_1)
  moreover have "unat (of_nat r :: u32) = r" if "r \<le> 3" using that by (simp add: unat_of_nat take_bit_nat_eq_self)
  ultimately show "(of_nat r :: u32) \<noteq> -1" if "r \<le> 3" using that by force
  have "k mod 3 < 3" by simp
  then show "unat (of_nat (k mod 3) :: u32) = k mod 3" by (simp add: unat_of_nat take_bit_nat_eq_self del: mod_less_divisor)
qed

lemma load_record_ok:
  assumes th: "th_ok n b i th" "i < n" "b < 2 ^ 63" and r: "bounded n b (h_acq_rel_order rec)"
  shows "th_ok n (b + 1) i (fst (load_record n mo th rec))"
    "vle n (acq_rel_order th) (acq_rel_order (fst (load_record n mo th rec)))"
    "synch_acquire mo \<Longrightarrow> vle n (h_acq_rel_order rec) (acq_rel_order (fst (load_record n mo th rec)))"
proof -
  have t: "bounded n (b + 1) (tick i (acq_rel_order th))" "vle n (acq_rel_order th) (tick i (acq_rel_order th))"
    using bounded_tick [of n b "acq_rel_order th" i] th by (simp_all add: th_ok_def)
  have up: "bounded n b v \<Longrightarrow> bounded n (Suc b) v" for v by (erule bounded_mono) simp
  have i: "th_index th = i" using th(1) by (simp add: th_ok_def)
  show "th_ok n (b + 1) i (fst (load_record n mo th rec))"
    using th(1) t(1) r by (auto simp: th_ok_def load_record_def Let_def intro: bounded_join up)
  show "vle n (acq_rel_order th) (acq_rel_order (fst (load_record n mo th rec)))"
    using t(2) by (auto simp: load_record_clock i intro: vle_trans [OF _ vle_join1])
  show "synch_acquire mo \<Longrightarrow> vle n (h_acq_rel_order rec) (acq_rel_order (fst (load_record n mo th rec)))"
    by (simp add: load_record_clock vle_join2)
qed

lemma load_record_same:
  "busy (snd (load_record n mo th rec)) = busy rec" "h_thread_id (snd (load_record n mo th rec)) = h_thread_id rec"
  "acq_rel_timestamp (snd (load_record n mo th rec)) = acq_rel_timestamp rec"
  "seq_cst (snd (load_record n mo th rec)) = seq_cst rec"
  "h_acq_rel_order (snd (load_record n mo th rec)) = h_acq_rel_order rec"
  by (simp_all add: load_record_def Let_def)

lemma cell_load_step:
  assumes x: "sig_ok cell_magic (c_sign x)" "current_index (c_impl x) = of_nat m" "1 \<le> l" "l \<le> m" "m \<le> 3"
      "\<And>j. l \<le> j \<Longrightarrow> j \<le> m \<Longrightarrow> busy (rec_at (c_impl x) (of_nat j))" "\<not> passable n mo th (c_impl x) (of_nat l)"
    and th: "th_ok n b i th" "i < n" "b < 2 ^ 63" "recs_ok n b (c_impl x)"
    and mo: "mo \<in> {mo_relaxed, mo_acquire, mo_seq_cst}"
  shows "\<exists>r th' x' s'. cell_load n False rd mo answers th x s = Inr (c_history x (r mod 3), th', x', s') \<and>
    l \<le> r \<and> r \<le> m \<and> same_cell x x' \<and> th_ok n (b + 1) i th' \<and> vle n (acq_rel_order th) (acq_rel_order th') \<and>
    (synch_acquire mo \<longrightarrow> vle n (h_acq_rel_order (rec_at (c_impl x) (of_nat r))) (acq_rel_order th'))"
proof -
  let ?v = "c_impl x"
  obtain r s' where r: "load_scan (load_limit rd) n mo answers th ?v (of_nat m) s = Inr (of_nat r, s')" "l \<le> r" "r \<le> m"
    using scan_between [OF x(3-7)] by blast
  have rb: "busy (rec_at ?v (of_nat r))" using x(6) r(2,3) by blast
  have slot: "hslot (of_nat r) = r mod 3" "rec_at ?v (of_nat r) = history ?v (r mod 3)"
    using r(3) x(5) by (simp_all add: slot_nat rec_at_nat)
  let ?rec = "history ?v (r mod 3)"
  let ?l = "load_record n mo th ?rec"
  have g: "get_load_index n rd mo False answers th ?v s = Inr (of_nat r, s')"
    using r rb small_index(1) [of r] x(5) by (simp add: get_load_index_def x(2))
  have m: "mo_release \<noteq> mo" "mo_acq_rel \<noteq> mo" using mo by auto
  define x' where "x' = x\<lparr>c_impl := ?v\<lparr>history := (history ?v)(r mod 3 := snd ?l)\<rparr>\<rparr>"
  have i: "r mod 3 < 3" by simp
  have "atomic_load n rd mo False answers th ?v s = Inr (of_nat (r mod 3), fst ?l, c_impl x', s')"
    using rb small_index(1) [of r] r(3) x(5) m by (simp add: atomic_load_def g slot x'_def split_def Let_def)
  then have "load_impl n False rd mo answers th x s = Inr (c_history x (r mod 3), fst ?l, x', s')"
    using x(1) small_index(1) [of "r mod 3"] i by (simp add: load_impl_def small_index(2) x'_def)
  then have "cell_load n False rd mo answers th x s = Inr (c_history x (r mod 3), fst ?l, x', s')"
    using mo by (auto simp: cell_load_def)
  moreover have "same_cell x x'" by (simp add: same_cell_def x'_def load_record_same)
  moreover have "bounded n b (h_acq_rel_order ?rec)" using th(4) rb i by (simp add: recs_ok_def slot)
  ultimately show ?thesis
    using r(2,3) load_record_ok [OF th(1-3), of ?rec mo] slot(2) by metis
qed

section \<open>Stores and exchanges\<close>

lemma atomic_store_order:
  assumes "atomic_store n mo rmw th var = Inr (i, th', var')"
    and "hslot (current_index var) \<noteq> hslot (current_index var + 1)" "j < n"
  shows "h_acq_rel_order (rec_at var' (current_index var')) j =
      (if busy (rec_at var (current_index var)) \<and>
          (rmw \<or> h_thread_id (rec_at var (current_index var)) = int (th_index th))
       then max (h_acq_rel_order (rec_at var (current_index var)) j) (published mo th j) else published mo th j)"
    "seq_cst (rec_at var' (current_index var')) = (mo = mo_seq_cst)"
  using assms by (auto simp: atomic_store_def rl_verify_Inr Let_def rec_at_def published_def clock_simps)

lemma atomic_store_bounded:
  assumes c: "current_index var = of_nat m" "m < 3"
    and "atomic_store n mo rmw th var = Inr (j, th', var')" "th_ok n b i th" "i < n" "b < 2 ^ 63" "recs_ok_but n b (Suc m mod 3) var"
  shows "recs_ok n (b + 1) var'" "th_ok n (b + 1) i th'" "vle n (acq_rel_order th) (acq_rel_order th')"
proof -
  have t: "bounded n (Suc b) (tick i (acq_rel_order th))" "vle n (acq_rel_order th) (tick i (acq_rel_order th))"
    using bounded_tick [of n b "acq_rel_order th" i] assms(4-6) by (simp_all add: th_ok_def)
  have up: "bounded n b v \<Longrightarrow> bounded n (Suc b) v" for v by (erule bounded_mono) simp
  have th': "th' = th\<lparr>acq_rel_order := tick i (acq_rel_order th)\<rparr>" "th_index th = i"
    using assms(3,4) by (auto simp: atomic_store_def rl_verify_Inr Let_def th_ok_def)
  show "th_ok n (b + 1) i th'" "vle n (acq_rel_order th) (acq_rel_order th')"
    using assms(4) t up by (auto simp: th' th_ok_def)
  have f: "bounded n (Suc b) (release_fence_order th)" using assms(4) up by (simp add: th_ok_def)
  have old: "busy (history var k) \<Longrightarrow> k < 3 \<Longrightarrow> k \<noteq> Suc m mod 3 \<Longrightarrow> bounded n (Suc b) (h_acq_rel_order (history var k))" for k
    using assms(7) up by (simp add: recs_ok_but_def)
  have sl: "hslot (current_index var) = m mod 3" "hslot (current_index var + 1) = Suc m mod 3"
    using c slot_nat [of m] slot_nat [of "Suc m"] by (simp_all add: add.commute)
  then have ne: "hslot (current_index var) \<noteq> hslot (current_index var + 1)" using c(2) by (simp add: mod_Suc)
  have pub: "bounded n (Suc b) (published mo th)" using t(1) f by (simp add: published_def th'(2))
  note a = atomic_store_Inr [OF assms(3)]
  have new: "bounded n (Suc b) (h_acq_rel_order (rec_at var' (current_index var')))"
    unfolding bounded_def
  proof (intro allI impI)
    fix j assume j: "j < n"
    have "busy (rec_at var (current_index var)) \<Longrightarrow> unat (h_acq_rel_order (rec_at var (current_index var)) j) \<le> Suc b"
      using old [of "hslot (current_index var)"] j hslot_less ne sl(2) by (simp add: rec_at_def bounded_def)
    then show "unat (h_acq_rel_order (rec_at var' (current_index var')) j) \<le> Suc b"
      using pub j by (auto simp: atomic_store_order(1) [OF assms(3) ne j] bounded_def max_def)
  qed
  show "recs_ok n (b + 1) var'"
    unfolding recs_ok_def
  proof (intro allI impI)
    fix k assume k: "(k :: nat) < 3" "busy (history var' k)"
    show "bounded n (b + 1) (h_acq_rel_order (history var' k))"
    proof (cases "k = hslot (current_index var')")
      case True
      then show ?thesis using new by (simp add: rec_at_def)
    next
      case False
      then show ?thesis using a(9) [of k] k old sl(2) a(1) by simp
    qed
  qed
qed

lemma atomic_store_step:
  assumes "current_index var = of_nat m" "m < 3" "th_ok n b i th" "i < n" "b < 2 ^ 63" "recs_ok_but n b (Suc m mod 3) var"
    and "rmw \<or> mo \<in> {mo_relaxed, mo_release, mo_seq_cst}"
  shows "\<exists>th' var'. atomic_store n mo rmw th var = Inr (of_nat (Suc m mod 3), th', var') \<and>
    current_index var' = of_nat (Suc m) \<and> th_ok n (b + 1) i th' \<and> recs_ok n (b + 1) var' \<and>
    vle n (acq_rel_order th) (acq_rel_order th') \<and>
    (\<forall>k. k \<noteq> Suc m mod 3 \<longrightarrow> history var' k = history var k) \<and>
    (let r = history var' (Suc m mod 3)
     in busy r \<and> h_thread_id r = int i \<and> acq_rel_timestamp r = acq_rel_order th' i \<and> seq_cst r = (mo = mo_seq_cst) \<and>
        (synch_release mo \<longrightarrow> vle n (acq_rel_order th) (h_acq_rel_order r)))"
proof -
  obtain j th' var' where s: "atomic_store n mo rmw th var = Inr (j, th', var')"
    using atomic_store_total [of rmw mo n th var] assms(7) by auto
  note a = atomic_store_Inr [OF s]
  have i: "th_index th = i" using assms(3) by (simp add: th_ok_def)
  have ci: "current_index var' = of_nat (Suc m)" using a(1) assms(1) by simp
  have sl: "hslot (current_index var') = Suc m mod 3" unfolding ci using assms(2) by (intro slot_nat) simp
  have r: "rec_at var' (current_index var') = history var' (Suc m mod 3)" by (simp add: rec_at_def sl)
  have "hslot (current_index var) = m mod 3" using assms(1,2) slot_nat [of m] by simp
  then have ne: "hslot (current_index var) \<noteq> hslot (current_index var + 1)" using sl a(1) assms(2) by (simp add: mod_Suc)
  have i0: "i < n" by (rule assms(4))
  have sc: "seq_cst (history var' (Suc m mod 3)) = (mo = mo_seq_cst)"
    using atomic_store_order(2) [OF s ne i0] r by simp
  have t: "vle n (acq_rel_order th) (tick i (acq_rel_order th))"
    using bounded_tick(2) [of n b "acq_rel_order th" i] assms(3-5) by (simp add: th_ok_def)
  have pub: "synch_release mo \<Longrightarrow> vle n (acq_rel_order th) (h_acq_rel_order (history var' (Suc m mod 3)))"
    using a(8) t unfolding r by (auto simp: published_def i intro: vle_trans)
  show ?thesis
    using s a(2) a(5-7) a(9) ci sc pub atomic_store_bounded [OF assms(1,2) s assms(3-6)] unfolding r sl
    by (intro exI [of _ th'] exI [of _ var']) (simp add: i Let_def)
qed

text \<open>The cell after a write: one record more, the others as they were.\<close>

definition appended :: "nat \<Rightarrow> nat \<Rightarrow> memory_order \<Rightarrow> nat \<Rightarrow> 'a \<Rightarrow> thread_info \<Rightarrow> thread_info \<Rightarrow> 'a cell \<Rightarrow> 'a cell \<Rightarrow> bool" where
  "appended n i mo m v th th' x x' \<longleftrightarrow>
     current_index (c_impl x') = of_nat (Suc m) \<and> c_history x' = (c_history x)(Suc m mod 3 := v) \<and>
     c_sign x' = c_sign x \<and> c_initialized x' \<and>
     (\<forall>k. k \<noteq> Suc m mod 3 \<longrightarrow> (let r = history (c_impl x) k; r' = history (c_impl x') k
          in busy r' = busy r \<and> h_thread_id r' = h_thread_id r \<and> acq_rel_timestamp r' = acq_rel_timestamp r \<and>
             seq_cst r' = seq_cst r \<and> h_acq_rel_order r' = h_acq_rel_order r)) \<and>
     (let r = history (c_impl x') (Suc m mod 3)
      in busy r \<and> h_thread_id r = int i \<and> acq_rel_timestamp r = acq_rel_order th' i \<and> seq_cst r = (mo = mo_seq_cst) \<and>
         (synch_release mo \<longrightarrow> vle n (acq_rel_order th) (h_acq_rel_order r)))"

lemma cell_store_step:
  assumes x: "sig_ok cell_magic (c_sign x)" "current_index (c_impl x) = of_nat m" "m < 3"
    and th: "th_ok n b i th" "i < n" "b < 2 ^ 63" "recs_ok_but n b (Suc m mod 3) (c_impl x)"
    and mo: "mo \<in> {mo_relaxed, mo_release, mo_seq_cst}"
  shows "\<exists>th' x'. cell_store n False mo th x v = Inr (th', x') \<and> appended n i mo m v th th' x x' \<and>
    th_ok n (b + 1) i th' \<and> recs_ok n (b + 1) (c_impl x') \<and> vle n (acq_rel_order th) (acq_rel_order th')"
proof -
  have "False \<or> mo \<in> {mo_relaxed, mo_release, mo_seq_cst}" using mo by simp
  from atomic_store_step [OF x(2,3) th this] obtain th' var' where s:
    "atomic_store n mo False th (c_impl x) = Inr (of_nat (Suc m mod 3), th', var')"
    "current_index var' = of_nat (Suc m)" "th_ok n (b + 1) i th'" "recs_ok n (b + 1) var'"
    "vle n (acq_rel_order th) (acq_rel_order th')"
    "\<forall>k. k \<noteq> Suc m mod 3 \<longrightarrow> history var' k = history (c_impl x) k"
    "let r = history var' (Suc m mod 3)
     in busy r \<and> h_thread_id r = int i \<and> acq_rel_timestamp r = acq_rel_order th' i \<and> seq_cst r = (mo = mo_seq_cst) \<and>
        (synch_release mo \<longrightarrow> vle n (acq_rel_order th) (h_acq_rel_order r))"
    by blast
  define x' where "x' = (put_value (of_nat (Suc m mod 3)) v var' x)\<lparr>c_initialized := True\<rparr>"
  have "store_impl n False mo th x v = Inr (th', x')" using s(1) x(1) by (simp add: store_impl_def x'_def)
  then have "cell_store n False mo th x v = Inr (th', x')" using mo by (auto simp: cell_store_def)
  moreover have "appended n i mo m v th th' x x'"
    using s(2,6,7) by (simp add: appended_def x'_def put_value_def small_index(2))
  moreover have "c_impl x' = var'" by (simp add: x'_def put_value_def)
  ultimately show ?thesis using s(3-5) by auto
qed

text \<open>An exchange also reads the newest record, and what an acquiring one reads it knows.\<close>

lemma cell_exchange_step:
  fixes x :: "('b :: len) word cell"
  assumes x: "sig_ok cell_magic (c_sign x)" "current_index (c_impl x) = of_nat m" "m < 3" "c_initialized x"
      "busy (history (c_impl x) (m mod 3))"
    and th: "th_ok n b i th" "i < n" "b + 1 < 2 ^ 63" "recs_ok n b (c_impl x)"
    and mo: "mo = mo_acq_rel"
  shows "\<exists>th' x'. cell_exchange n False mo th x v = Inr (c_value x, th', x') \<and> appended n i mo m v th th' x x' \<and>
    th_ok n (b + 2) i th' \<and> recs_ok n (b + 2) (c_impl x') \<and> vle n (acq_rel_order th) (acq_rel_order th') \<and>
    vle n (h_acq_rel_order (history (c_impl x) (m mod 3))) (acq_rel_order th')"
proof -
  let ?v = "c_impl x" and ?rec = "history (c_impl x) (m mod 3)"
  let ?l = "load_record n mo th ?rec"
  have sl: "hslot (of_nat m) = m mod 3" using x(3) by (intro slot_nat) simp
  define v1 where "v1 = ?v\<lparr>history := (history ?v)(m mod 3 := snd ?l)\<rparr>"
  have i: "m mod 3 < 3" by simp
  have l: "atomic_load n False mo True (\<lambda>s _ _. Inr (0, s)) th ?v () = Inr (of_nat (m mod 3), fst ?l, v1, ())"
    using x(3,5) small_index(1) [of m] by (simp add: atomic_load_def get_load_index_def x(2) rec_at_def sl mo v1_def split_def Let_def)
  have rb: "bounded n b (h_acq_rel_order ?rec)" using th(4) x(5) i by (simp add: recs_ok_def)
  have b: "b < 2 ^ 63" using th(3) by simp
  note r = load_record_ok [OF th(1,2) b rb, of mo]
  have v1: "current_index v1 = of_nat m" "recs_ok n (b + 1) v1"
    using x(2) recs_ok_mono [OF th(4), of "b + 1"] by (auto simp: v1_def recs_ok_def load_record_same)
  have "True \<or> mo \<in> {mo_relaxed, mo_release, mo_seq_cst}" by simp
  from atomic_store_step [OF v1(1) x(3) r(1) th(2,3) recs_ok_all_but [OF v1(2)] this] obtain th' var' where s:
    "atomic_store n mo True (fst ?l) v1 = Inr (of_nat (Suc m mod 3), th', var')"
    "current_index var' = of_nat (Suc m)" "th_ok n (b + 1 + 1) i th'" "recs_ok n (b + 1 + 1) var'"
    "vle n (acq_rel_order (fst ?l)) (acq_rel_order th')"
    "\<forall>k. k \<noteq> Suc m mod 3 \<longrightarrow> history var' k = history v1 k"
    "let r = history var' (Suc m mod 3)
     in busy r \<and> h_thread_id r = int i \<and> acq_rel_timestamp r = acq_rel_order th' i \<and> seq_cst r = (mo = mo_seq_cst) \<and>
        (synch_release mo \<longrightarrow> vle n (acq_rel_order (fst ?l)) (h_acq_rel_order r))"
    by blast
  define x' where "x' = put_value (of_nat (Suc m mod 3)) v var' x"
  have "cell_exchange n False mo th x v = Inr (c_value x, th', x')"
    using s(1) l x(1,4) by (simp add: mo cell_exchange_def cell_rmw_def rmw_impl_def atomic_rmw_def x'_def)
  moreover have "appended n i mo m v th th' x x'"
    using s(2,6,7) x(4) vle_trans [OF r(2)] unfolding v1_def
    by (auto simp: appended_def x'_def put_value_def small_index(2) Let_def load_record_same)
  moreover have "c_impl x' = var'" by (simp add: x'_def put_value_def)
  moreover have "vle n (h_acq_rel_order ?rec) (acq_rel_order th')"
    using vle_trans [OF r(3) s(5)] by (simp add: mo synch_acquire_def)
  ultimately show ?thesis using s(3-5) vle_trans [OF r(2) s(5)] by auto
qed

section \<open>Fences\<close>

lemma fence_step:
  assumes "th_ok n b i th" "bounded n b f" "fence_seq_cst n th f = (th', f')"
  shows "th_ok n b i th'" "bounded n b f'" "vle n (acq_rel_order th) (acq_rel_order th')" "vle n f (acq_rel_order th')"
    "vle n (acq_rel_order th) f'" "vle n f f'"
proof -
  note o = fence_seq_cst_order [OF assms(3)]
  show "vle n (acq_rel_order th) (acq_rel_order th')" "vle n f (acq_rel_order th')" "vle n (acq_rel_order th) f'"
    using o by simp_all
  show "vle n f f'"
    using assms(3) by (auto simp: fence_seq_cst_def Let_def vle_def clock_simps le_max_iff_disj)
  show "th_ok n b i th'" "bounded n b f'"
    using assms by (auto simp: fence_seq_cst_def fence_acquire_def fence_release_def Let_def th_ok_def
        intro!: bounded_join bounded_assign)
qed

end
