(* ===== verification/Peterson.thy ===== *)
theory Peterson
  imports Litmus Fibers
begin

text \<open>
  The tests of \<^verbatim>\<open>example/peterson/peterson.cpp\<close>: four versions of Peterson's
  mutual exclusion of two threads, which differ in the memory orders they use and one of which is
  marked as racy in its source. The tests run on the operations of the detector; a step is the
  piece of a thread between two calls of the scheduler, and the threads may take their steps in any
  order.
\<close>

section \<open>The four protocols\<close>

datatype setter = By_store memory_order | By_exchange memory_order

record protocol =
  set_flag :: setter
  fences :: bool
  set_turn :: setter
  flag_mo :: memory_order
  turn_mo :: memory_order
  yields :: bool
  leave_mo :: memory_order

text \<open>What thread \<open>i\<close> does. Calls without an order use \<open>memory_order_seq_cst\<close>.\<close>

definition peterson_mutex_test :: "nat \<Rightarrow> protocol" where
  "peterson_mutex_test i =
     \<lparr>set_flag = By_store mo_seq_cst, fences = False, set_turn = By_store mo_seq_cst,
      flag_mo = mo_seq_cst, turn_mo = mo_seq_cst, yields = False, leave_mo = mo_seq_cst\<rparr>"

definition peterson_mutex_test2 :: "nat \<Rightarrow> protocol" where
  "peterson_mutex_test2 i =
     \<lparr>set_flag = By_store mo_relaxed, fences = False, set_turn = By_exchange mo_acq_rel,
      flag_mo = mo_acquire, turn_mo = mo_relaxed, yields = True, leave_mo = mo_release\<rparr>"

definition peterson_mutex_test3 :: "nat \<Rightarrow> protocol" where
  "peterson_mutex_test3 i =
     \<lparr>set_flag = By_store mo_relaxed, fences = True, set_turn = By_store mo_relaxed,
      flag_mo = mo_acquire, turn_mo = mo_relaxed, yields = False, leave_mo = mo_release\<rparr>"

definition peterson_mutex_test4 :: "nat \<Rightarrow> protocol" where
  "peterson_mutex_test4 i =
     \<lparr>set_flag = By_exchange mo_acq_rel, fences = False, set_turn = By_store mo_release,
      flag_mo = mo_acquire, turn_mo = (if i = 0 then mo_acquire else mo_relaxed), yields = True,
      leave_mo = mo_release\<rparr>"

section \<open>The state of a run\<close>

text \<open>
  The detector and the members of the test: \<open>flag0\<close> and \<open>flag1\<close> are \<open>pt_flag 0\<close> and
  \<open>pt_flag 1\<close>. Each thread is about to execute the operation its \<open>pc\<close> names; at rest that
  is one whose call of the scheduler it has made.
\<close>

datatype pc = At_start | At_flag | At_fence1 | At_turn | At_fence2 | At_flag_load | At_turn_load | At_yield | At_leave | At_end

record pet =
  pt_w :: world
  pt_flag :: "nat \<Rightarrow> 32 word cell"
  pt_turn :: "32 word cell"
  pt_data :: "32 word var"
  pt_pc :: "nat \<Rightarrow> pc"

definition set_thread :: "nat \<Rightarrow> thread_info \<Rightarrow> pet \<Rightarrow> pet" where
  "set_thread i th s = s\<lparr>pt_w := upd_th i (\<lambda>_. th) (pt_w s)\<rparr>"

text \<open>
  \<open>atomic_thread_fence\<close>; the order \<open>mo_relaxed\<close> is an error. The sequentially consistent fence, and no
  other, calls the scheduler first: \<open>sched\<close> is that call, up to the point where the thread runs again.
\<close>

definition atomic_thread_fence :: "(world \<Rightarrow> fault + world) \<Rightarrow> memory_order \<Rightarrow> world \<Rightarrow> fault + world" where
  "atomic_thread_fence sched mo w =
     rl_verify (\<not> invariant_executing w)
       (case mo of
          mo_relaxed \<Rightarrow> Inl Verify_failed
        | mo_consume \<Rightarrow> Inr (atomic_thread_fence_acquire w)
        | mo_acquire \<Rightarrow> Inr (atomic_thread_fence_acquire w)
        | mo_release \<Rightarrow> Inr (atomic_thread_fence_release w)
        | mo_acq_rel \<Rightarrow> Inr (atomic_thread_fence_acq_rel w)
        | mo_seq_cst \<Rightarrow> rbind (sched w) (\<lambda>w. Inr (atomic_thread_fence_seq_cst w)))"

section \<open>The steps\<close>

fun write_cell ::
  "setter \<Rightarrow> nat \<Rightarrow> bool \<Rightarrow> thread_info \<Rightarrow> 32 word cell \<Rightarrow> 32 word \<Rightarrow> fault + (thread_info \<times> 32 word cell)" where
  "write_cell (By_store mo) n ie th x v = cell_store n ie mo th x v"
| "write_cell (By_exchange mo) n ie th x v = rbind (cell_exchange n ie mo th x v) (\<lambda>(_, th, x). Inr (th, x))"

text \<open>
  Past the loop, the thread writes the data, which is no call of the scheduler, and goes on to the
  store that ends its section.
\<close>

definition pt_enter :: "nat \<Rightarrow> pet \<Rightarrow> fault + (pc \<times> pet)" where
  "pt_enter i s =
     (let w = pt_w s
      in rbind (var_assign (cx_n w) (invariant_executing w) (of_nat (i + 1)) (cx_threads w i) (pt_data s)) (\<lambda>(_, th, v).
           Inr (At_leave, (set_thread i th s)\<lparr>pt_data := v\<rparr>)))"

text \<open>
  One operation of thread \<open>i\<close>, from the return of its call of the scheduler on, and where the thread is
  then. The call itself, that of the fences included, belongs to the step before (\<open>pt_next\<close>).
\<close>

fun pt_piece :: "protocol \<Rightarrow> bool list \<Rightarrow> nat \<Rightarrow> pc \<Rightarrow> pet \<Rightarrow> fault + (pc \<times> pet)" where
  "pt_piece p ans i At_start s = rbind (on_start i (pt_w s)) (\<lambda>w. Inr (At_flag, s\<lparr>pt_w := w\<rparr>))"
| "pt_piece p ans i At_flag s =
     (let w = pt_w s
      in rbind (write_cell (set_flag p) (cx_n w) (invariant_executing w) (cx_threads w i) (pt_flag s i) 1) (\<lambda>(th, x).
           Inr (if fences p then At_fence1 else At_turn, (set_thread i th s)\<lparr>pt_flag := (pt_flag s)(i := x)\<rparr>)))"
| "pt_piece p ans i At_fence1 s =
     rbind (atomic_thread_fence Inr mo_seq_cst (pt_w s)) (\<lambda>w. Inr (At_turn, s\<lparr>pt_w := w\<rparr>))"
| "pt_piece p ans i At_turn s =
     (let w = pt_w s
      in rbind (write_cell (set_turn p) (cx_n w) (invariant_executing w) (cx_threads w i) (pt_turn s) (of_nat (1 - i))) (\<lambda>(th, x).
           Inr (if fences p then At_fence2 else At_flag_load, (set_thread i th s)\<lparr>pt_turn := x\<rparr>)))"
| "pt_piece p ans i At_fence2 s =
     rbind (atomic_thread_fence Inr mo_seq_cst (pt_w s)) (\<lambda>w. Inr (At_flag_load, s\<lparr>pt_w := w\<rparr>))"
| "pt_piece p ans i At_flag_load s =
     (let w = pt_w s; j = 1 - i
      in rbind (cell_load (cx_n w) (invariant_executing w) (is_random_sched w) (flag_mo p) answers (cx_threads w i) (pt_flag s j) ans)
           (\<lambda>(v, th, x, _).
              let s = (set_thread i th s)\<lparr>pt_flag := (pt_flag s)(j := x)\<rparr>
              in if v \<noteq> 0 then Inr (At_turn_load, s) else pt_enter i s))"
| "pt_piece p ans i At_turn_load s =
     (let w = pt_w s
      in rbind (cell_load (cx_n w) (invariant_executing w) (is_random_sched w) (turn_mo p) answers (cx_threads w i) (pt_turn s) ans)
           (\<lambda>(v, th, x, _).
              let s = (set_thread i th s)\<lparr>pt_turn := x\<rparr>
              in if v = of_nat (1 - i) then Inr (if yields p then At_yield else At_flag_load, s) else pt_enter i s))"
| "pt_piece p ans i At_yield s = Inr (At_flag_load, s)"
| "pt_piece p ans i At_leave s =
     (let w = pt_w s
      in rbind (cell_store (cx_n w) (invariant_executing w) (leave_mo p) (cx_threads w i) (pt_flag s i) 0) (\<lambda>(th, x).
           Inr (At_end, (set_thread i th s)\<lparr>pt_flag := (pt_flag s)(i := x)\<rparr>)))"
| "pt_piece p ans i At_end s = Inr (At_end, s)"

text \<open>
  The call of the scheduler that ends a piece: it counts, and \<open>yield\<close> remembers the time. A thread
  that has ended calls it no more.
\<close>

definition pt_next :: "nat \<Rightarrow> pc \<Rightarrow> pet \<Rightarrow> fault + pet" where
  "pt_next i q s =
     (let s = s\<lparr>pt_pc := (pt_pc s)(i := q)\<rparr>
      in if q = At_end then Inr s
         else rbind (count_sched (pt_w s)) (\<lambda>w.
                Inr (s\<lparr>pt_w := if q = At_yield then upd_cur (\<lambda>t. t\<lparr>last_yield := own_order t\<rparr>) w else w\<rparr>)))"

definition pt_step :: "protocol \<Rightarrow> bool list \<Rightarrow> nat \<Rightarrow> pet \<Rightarrow> fault + pet" where
  "pt_step p ans i s =
     rbind (pt_piece p ans i (pt_pc s i) (s\<lparr>pt_w := switch_to_fiber i (pt_w s)\<rparr>)) (\<lambda>(q, s). pt_next i q s)"

text \<open>
  The start: the first fiber constructs the members on raw memory at the addresses \<open>addr\<close>,
  runs \<open>before()\<close>, whose calls of the scheduler only count, and the global fence.
\<close>

definition pt_zero :: "32 word cell \<Rightarrow> world \<Rightarrow> fault + (32 word cell \<times> world)" where
  "pt_zero x w =
     rbind (count_sched w) (\<lambda>w.
     rbind (cell_assign (cx_n w) (invariant_executing w) (cur_thread w) x 0) (\<lambda>(_, th, x).
       Inr (x, upd_cur (\<lambda>_. th) w)))"

definition pt_init ::
  "(nat \<Rightarrow> 64 word) \<Rightarrow> atomic_data \<Rightarrow> 32 word cell \<Rightarrow> var_data \<Rightarrow> world \<Rightarrow> fault + pet" where
  "pt_init addr raw_d raw_c raw_v w =
     (let ctor = (\<lambda>a. cell_ctor (cx_n w) (invariant_executing w) False (addr a) raw_d (cur_thread w) raw_c)
      in rbind (ctor 0) (\<lambda>f0. rbind (ctor 1) (\<lambda>f1. rbind (ctor 2) (\<lambda>t.
         rbind (pt_zero f0 w) (\<lambda>(f0, w). rbind (pt_zero f1 w) (\<lambda>(f1, w). rbind (pt_zero t w) (\<lambda>(t, w).
           Inr \<lparr>pt_w = rl_global_fence w, pt_flag = (\<lambda>i. if i = 0 then f0 else f1), pt_turn = t,
                pt_data = var_ctor (cx_n w) (addr 3) raw_v, pt_pc = (\<lambda>_. At_start)\<rparr>)))))))"

text \<open>Any run of the two threads, with any choices.\<close>

inductive pt_run :: "(nat \<Rightarrow> protocol) \<Rightarrow> pet \<Rightarrow> pet \<Rightarrow> bool" for p s0 where
  run_init: "pt_run p s0 s0"
| run_step: "pt_run p s0 s \<Longrightarrow> i < 2 \<Longrightarrow> pt_pc s i \<noteq> At_end \<Longrightarrow> pt_step (p i) ans i s = Inr s' \<Longrightarrow> pt_run p s0 s'"

end
