(* ===== verification/Peterson_Props.thy ===== *)
theory Peterson_Props
  imports Peterson
begin

text \<open>
  What the detector answers for the four protocols: the three correct ones pass in every run, the
  fourth has a run that is reported as a data race. The invariant ties the records in the histories
  to the program counters and to the order in which the threads wrote \<open>turn\<close>.
\<close>

section \<open>Phases of a thread\<close>

text \<open>How many records of its flag there are, and which operations are behind it.\<close>

definition flag_recs :: "pc \<Rightarrow> nat" where
  "flag_recs q = (if q \<in> {At_start, At_flag} then 1 else if q = At_end then 3 else 2)"

definition past_fence :: "pc \<Rightarrow> bool" where
  "past_fence q \<longleftrightarrow> q \<notin> {At_start, At_flag, At_fence1}"

definition past_turn :: "pc \<Rightarrow> bool" where
  "past_turn q \<longleftrightarrow> q \<notin> {At_start, At_flag, At_fence1, At_turn}"

definition handed :: "pc \<Rightarrow> bool" where
  "handed q \<longleftrightarrow> past_turn q \<and> q \<noteq> At_fence2"

definition stored :: "pc \<Rightarrow> bool" where
  "stored q \<longleftrightarrow> q \<in> {At_leave, At_end}"

lemmas phase_defs = flag_recs_def past_fence_def past_turn_def handed_def stored_def

definition sc :: "protocol \<Rightarrow> bool" where
  "sc p \<longleftrightarrow> flag_mo p = mo_seq_cst"

definition passing :: "protocol \<Rightarrow> bool" where
  "passing p \<longleftrightarrow> (\<exists>m. set_flag p = By_store m \<and> m \<in> {mo_relaxed, mo_seq_cst} \<and> (sc p \<longrightarrow> m = mo_seq_cst)) \<and>
     flag_mo p \<in> {mo_acquire, mo_seq_cst} \<and> turn_mo p \<in> {mo_relaxed, mo_seq_cst} \<and>
     leave_mo p \<in> {mo_release, mo_seq_cst} \<and> (sc p \<longrightarrow> leave_mo p = mo_seq_cst) \<and>
     (set_turn p = By_exchange mo_acq_rel \<and> \<not> fences p \<or>
      (\<exists>m. set_turn p = By_store m \<and> m \<in> {mo_relaxed, mo_seq_cst}) \<and> (fences p \<or> sc p))"

lemma passing_tests:
  "passing (peterson_mutex_test i)" "passing (peterson_mutex_test2 i)" "passing (peterson_mutex_test3 i)"
  by (simp_all add: passing_def sc_def peterson_mutex_test_def peterson_mutex_test2_def peterson_mutex_test3_def)

section \<open>What is known about the cells\<close>

definition clk :: "pet \<Rightarrow> nat \<Rightarrow> vclock" where
  "clk s i = acq_rel_order (cx_threads (pt_w s) i)"

definition fence_clk :: "pet \<Rightarrow> vclock" where
  "fence_clk s = seq_cst_fence_order (pt_w s)"

definition later :: "pet \<Rightarrow> pet \<Rightarrow> bool" where
  "later s s' \<longleftrightarrow> (\<forall>i<2. vle 2 (clk s i) (clk s' i))"

lemma laterD: "later s s' \<Longrightarrow> i < 2 \<Longrightarrow> j < 2 \<Longrightarrow> clk s i j \<le> clk s' i j"
  by (simp add: later_def vle_def)

definition cell_ok :: "nat \<Rightarrow> nat \<Rightarrow> 32 word cell \<Rightarrow> bool" where
  "cell_ok b m x \<longleftrightarrow> sig_ok cell_magic (c_sign x) \<and> c_initialized x \<and> current_index (c_impl x) = of_nat m \<and> recs_ok 2 b (c_impl x)"

definition zeroed :: "pet \<Rightarrow> 32 word cell \<Rightarrow> bool" where
  "zeroed s x \<longleftrightarrow> (let r = history (c_impl x) 1
     in busy r \<and> c_history x 1 = 0 \<and> (\<exists>j<2. h_thread_id r = int j \<and> (\<forall>i<2. acq_rel_timestamp r \<le> clk s i j)))"

definition wrote :: "pet \<Rightarrow> 32 word cell \<Rightarrow> nat \<Rightarrow> nat \<Rightarrow> 32 word \<Rightarrow> bool" where
  "wrote s x m i v \<longleftrightarrow> (let r = history (c_impl x) (m mod 3)
     in busy r \<and> h_thread_id r = int i \<and> acq_rel_timestamp r \<le> clk s i i \<and> c_history x (m mod 3) = v)"

lemma cell_ok_same: "cell_ok b m x \<Longrightarrow> same_cell x x' \<Longrightarrow> b \<le> b' \<Longrightarrow> cell_ok b' m x'"
  by (auto simp: cell_ok_def same_cell_def recs_ok_def Let_def intro: bounded_mono)

lemma zeroed_same:
  assumes "zeroed s x" "same_cell x x'" "later s s'"
  shows "zeroed s' x'"
proof -
  let ?r = "history (c_impl x) 1"
  obtain j where j: "j < 2" "h_thread_id ?r = int j" "\<forall>i<2. acq_rel_timestamp ?r \<le> clk s i j"
    using assms(1) by (auto simp: zeroed_def Let_def)
  then have "\<forall>i<2. acq_rel_timestamp ?r \<le> clk s' i j" using laterD [OF assms(3) _ j(1)] by (meson order_trans)
  then show ?thesis using assms(1,2) j(1,2) by (auto simp: zeroed_def same_cell_def Let_def)
qed

lemma wrote_same:
  assumes "wrote s x m i v" "same_cell x x'" "later s s'" "i < 2"
  shows "wrote s' x' m i v"
  using assms laterD [OF assms(3,4,4)] by (auto simp: wrote_def same_cell_def Let_def)

lemma zeroed_appended:
  assumes "zeroed s x" "appended n i mo m v th th' x x'" "later s s'" "m \<in> {1, 2}"
  shows "zeroed s' x'"
proof -
  let ?r = "history (c_impl x) 1"
  have ne: "1 \<noteq> Suc m mod 3" using assms(4) by auto
  obtain j where j: "j < 2" "h_thread_id ?r = int j" "\<forall>i<2. acq_rel_timestamp ?r \<le> clk s i j"
    using assms(1) by (auto simp: zeroed_def Let_def)
  then have "\<forall>i<2. acq_rel_timestamp ?r \<le> clk s' i j" using laterD [OF assms(3) _ j(1)] by (meson order_trans)
  then show ?thesis using assms(1,2) j(1,2) ne by (auto simp: zeroed_def appended_def Let_def)
qed

lemma wrote_appended:
  assumes "wrote s x k j u" "appended n i mo m v th th' x x'" "later s s'" "j < 2" "k mod 3 \<noteq> Suc m mod 3"
  shows "wrote s' x' k j u"
  using assms laterD [OF assms(3,4,4)] by (auto simp: wrote_def appended_def Let_def)

lemma appended_wrote:
  assumes "appended n i mo m v th th' x x'" "clk s' i = acq_rel_order th'"
  shows "wrote s' x' (Suc m) i v"
  using assms by (auto simp: wrote_def appended_def Let_def)

lemma cell_ok_appended: "cell_ok b m x \<Longrightarrow> appended n i mo m v th th' x x' \<Longrightarrow> recs_ok 2 b' (c_impl x') \<Longrightarrow> cell_ok b' (Suc m) x'"
  by (simp add: cell_ok_def appended_def)

section \<open>The invariant\<close>

definition world_inv :: "nat \<Rightarrow> pet \<Rightarrow> bool" where
  "world_inv b s \<longleftrightarrow> cx_n (pt_w s) = 2 \<and> \<not> invariant_executing (pt_w s) \<and> bounded 2 b (fence_clk s) \<and>
     (\<forall>i<2. let t = cx_threads (pt_w s) i
        in th_ok 2 b i t \<and>
           (pt_pc s i = At_start \<longrightarrow> bounded 2 b (so_sync t) \<and> temp_switch_from t = -1 \<and> saved_disable_preemption t = -1 \<and> \<not> so_finished t))"

definition flag_ts :: "pet \<Rightarrow> nat \<Rightarrow> timestamp" where
  "flag_ts s i = acq_rel_timestamp (history (c_impl (pt_flag s i)) 2)"

definition data_ts :: "pet \<Rightarrow> nat \<Rightarrow> timestamp" where
  "data_ts s i = store_ts (v_data (pt_data s)) i"

definition flag_inv :: "protocol \<Rightarrow> nat \<Rightarrow> pet \<Rightarrow> nat \<Rightarrow> bool" where
  "flag_inv p b s i \<longleftrightarrow>
     (let x = pt_flag s i; m = flag_recs (pt_pc s i)
      in cell_ok b m x \<and> zeroed s x \<and>
         (m \<noteq> 1 \<longrightarrow> wrote s x 2 i 1 \<and> (sc p \<longrightarrow> seq_cst (history (c_impl x) 2))) \<and>
         (m = 3 \<longrightarrow> wrote s x 3 i 0 \<and> (sc p \<longrightarrow> seq_cst (history (c_impl x) 0)) \<and>
            data_ts s i \<le> h_acq_rel_order (history (c_impl x) 0) i))"

text \<open>\<open>os\<close>: the threads that wrote \<open>turn\<close>, in that order.\<close>

definition turn_inv :: "nat \<Rightarrow> nat list \<Rightarrow> pet \<Rightarrow> bool" where
  "turn_inv b os s \<longleftrightarrow> cell_ok b (Suc (length os)) (pt_turn s) \<and> zeroed s (pt_turn s) \<and> distinct os \<and>
     set os = {i. i < 2 \<and> past_turn (pt_pc s i)} \<and>
     (\<forall>k < length os. wrote s (pt_turn s) (k + 2) (os ! k) (of_nat (1 - os ! k)))"

text \<open>
  The second writer has been handed what the first knew when it raised its flag, through the
  exchange or through the fences, or both read the newest record anyway; and it has entered its
  section only if the first is done.
\<close>

definition order_inv :: "protocol \<Rightarrow> nat list \<Rightarrow> pet \<Rightarrow> bool" where
  "order_inv p os s \<longleftrightarrow>
     (\<forall>f g. os = [f, g] \<longrightarrow>
        (handed (pt_pc s g) \<longrightarrow> sc p \<or> flag_ts s f \<le> clk s g f) \<and>
        (stored (pt_pc s g) \<longrightarrow> pt_pc s f = At_end \<and> data_ts s f \<le> clk s g f)) \<and>
     (set_turn p = By_exchange mo_acq_rel \<and> os \<noteq> [] \<longrightarrow>
        flag_ts s (os ! 0) \<le> h_acq_rel_order (history (c_impl (pt_turn s)) 2) (os ! 0)) \<and>
     (fences p \<longrightarrow> (\<forall>i<2. past_fence (pt_pc s i) \<longrightarrow> flag_ts s i \<le> fence_clk s i))"

definition data_inv :: "pet \<Rightarrow> bool" where
  "data_inv s \<longleftrightarrow> sig_ok var_magic (v_sign (pt_data s)) \<and>
     (\<forall>i<2. load_ts (v_data (pt_data s)) i = 0 \<and> data_ts s i \<le> clk s i i \<and> (\<not> stored (pt_pc s i) \<longrightarrow> data_ts s i = 0))"

definition pt_inv :: "protocol \<Rightarrow> nat \<Rightarrow> nat list \<Rightarrow> pet \<Rightarrow> bool" where
  "pt_inv p b os s \<longleftrightarrow> world_inv b s \<and> (\<forall>i<2. flag_inv p b s i) \<and> turn_inv b os s \<and> order_inv p os s \<and> data_inv s"

lemma pt_invI:
  "world_inv b s \<Longrightarrow> (\<And>i. i < 2 \<Longrightarrow> flag_inv p b s i) \<Longrightarrow> turn_inv b os s \<Longrightarrow> order_inv p os s \<Longrightarrow> data_inv s \<Longrightarrow>
     pt_inv p b os s"
  by (simp add: pt_inv_def)

section \<open>Steps that write no record\<close>

text \<open>The next state differs in clocks, in first-seen marks and in the program counters named.\<close>

definition quiet :: "pet \<Rightarrow> pet \<Rightarrow> bool" where
  "quiet s s' \<longleftrightarrow> later s s' \<and> vle 2 (fence_clk s) (fence_clk s') \<and> (\<forall>i<2. same_cell (pt_flag s i) (pt_flag s' i)) \<and>
     same_cell (pt_turn s) (pt_turn s') \<and> pt_data s' = pt_data s \<and>
     (\<forall>i<2. flag_recs (pt_pc s' i) = flag_recs (pt_pc s i) \<and> past_turn (pt_pc s' i) = past_turn (pt_pc s i) \<and>
        stored (pt_pc s' i) = stored (pt_pc s i) \<and> (pt_pc s' i = At_end) = (pt_pc s i = At_end))"

lemma flag_keeps:
  assumes "flag_inv p b s i" "same_cell (pt_flag s i) (pt_flag s' i)" "later s s'"
    "flag_recs (pt_pc s' i) = flag_recs (pt_pc s i)" "flag_recs (pt_pc s i) = 3 \<Longrightarrow> data_ts s' i = data_ts s i"
    "b \<le> b'" "i < 2"
  shows "flag_inv p b' s' i" "flag_ts s' i = flag_ts s i"
proof -
  have h: "seq_cst (history (c_impl (pt_flag s' i)) k) = seq_cst (history (c_impl (pt_flag s i)) k)"
    "h_acq_rel_order (history (c_impl (pt_flag s' i)) k) = h_acq_rel_order (history (c_impl (pt_flag s i)) k)"
    "acq_rel_timestamp (history (c_impl (pt_flag s' i)) k) = acq_rel_timestamp (history (c_impl (pt_flag s i)) k)" for k
    using assms(2) by (simp_all add: same_cell_def Let_def)
  show "flag_ts s' i = flag_ts s i" by (simp add: flag_ts_def h)
  show "flag_inv p b' s' i"
    using assms(1) cell_ok_same [OF _ assms(2,6)] zeroed_same [OF _ assms(2,3)] wrote_same [OF _ assms(2,3,7)] assms(5)
    by (auto simp: flag_inv_def Let_def assms(4) h)
qed

lemma turn_keeps:
  assumes "turn_inv b os s" "same_cell (pt_turn s) (pt_turn s')" "later s s'"
    "\<And>i. i < 2 \<Longrightarrow> past_turn (pt_pc s' i) = past_turn (pt_pc s i)" "b \<le> b'"
  shows "turn_inv b' os s'"
proof -
  have "{i. i < 2 \<and> past_turn (pt_pc s' i)} = {i. i < 2 \<and> past_turn (pt_pc s i)}" using assms(4) by auto
  moreover have "wrote s' (pt_turn s') (k + 2) (os ! k) (of_nat (1 - os ! k))" if "k < length os" for k
  proof -
    have "os ! k \<in> {i. i < 2 \<and> past_turn (pt_pc s i)}" using assms(1) nth_mem [OF that] by (simp add: turn_inv_def)
    then have lt: "os ! k < 2" by simp
    have w: "wrote s (pt_turn s) (k + 2) (os ! k) (of_nat (1 - os ! k))" using assms(1) that unfolding turn_inv_def by blast
    show ?thesis by (rule wrote_same [OF w assms(2,3) lt])
  qed
  moreover have "cell_ok b' (Suc (length os)) (pt_turn s')" "zeroed s' (pt_turn s')" "distinct os"
    "set os = {i. i < 2 \<and> past_turn (pt_pc s i)}"
    using assms(1) cell_ok_same [OF _ assms(2,5)] zeroed_same [OF _ assms(2,3)] by (simp_all add: turn_inv_def)
  ultimately show ?thesis unfolding turn_inv_def by blast
qed

lemma data_keeps:
  assumes "data_inv s" "later s s'" "pt_data s' = pt_data s" "\<And>i. i < 2 \<Longrightarrow> stored (pt_pc s' i) = stored (pt_pc s i)"
  shows "data_inv s'"
proof -
  have "data_ts s i \<le> clk s' i i" if "i < 2" for i
    using assms(1) that laterD [OF assms(2) that that] by (auto simp: data_inv_def intro: order_trans)
  then show ?thesis using assms by (auto simp: data_inv_def data_ts_def)
qed

lemma order_keeps:
  assumes o: "order_inv p os s" and lt: "\<And>j. j \<in> set os \<Longrightarrow> j < 2" and l: "later s s'"
    and ts: "\<And>j. j \<in> set os \<Longrightarrow> flag_ts s' j = flag_ts s j"
    and hq: "h_acq_rel_order (history (c_impl (pt_turn s')) 2) = h_acq_rel_order (history (c_impl (pt_turn s)) 2)"
    and h: "\<And>f g. os = [f, g] \<Longrightarrow> handed (pt_pc s' g) \<Longrightarrow> \<not> handed (pt_pc s g) \<Longrightarrow> \<not> sc p \<Longrightarrow> flag_ts s f \<le> clk s' g f"
    and st: "\<And>f g. os = [f, g] \<Longrightarrow> stored (pt_pc s' g) \<Longrightarrow> pt_pc s' f = At_end \<and> data_ts s' f \<le> clk s' g f"
    and e: "\<And>i. fences p \<Longrightarrow> i < 2 \<Longrightarrow> past_fence (pt_pc s' i) \<Longrightarrow> flag_ts s' i \<le> fence_clk s' i"
  shows "order_inv p os s'"
  unfolding order_inv_def
proof (intro conjI allI impI)
  fix f g assume fg: "os = [f, g]"
  then have m: "f \<in> set os" "g \<in> set os" by auto
  show "sc p \<or> flag_ts s' f \<le> clk s' g f" if "handed (pt_pc s' g)"
    using h [OF fg that] o fg laterD [OF l lt [OF m(2)] lt [OF m(1)]] ts [OF m(1)]
    by (auto simp: order_inv_def intro: order_trans)
  show "pt_pc s' f = At_end" "data_ts s' f \<le> clk s' g f" if "stored (pt_pc s' g)"
    using st [OF fg that] by simp_all
next
  assume x: "set_turn p = By_exchange mo_acq_rel \<and> os \<noteq> []"
  then have "os ! 0 \<in> set os" by simp
  then have "flag_ts s' (os ! 0) = flag_ts s (os ! 0)" by (rule ts)
  then show "flag_ts s' (os ! 0) \<le> h_acq_rel_order (history (c_impl (pt_turn s')) 2) (os ! 0)"
    using o x unfolding order_inv_def hq by metis
qed (rule e)

lemma quiet_inv:
  assumes inv: "pt_inv p b os s" and q: "quiet s s'" "world_inv b' s'" "b \<le> b'"
    and h: "\<And>f g. os = [f, g] \<Longrightarrow> handed (pt_pc s' g) \<Longrightarrow> \<not> handed (pt_pc s g) \<Longrightarrow> \<not> sc p \<Longrightarrow> flag_ts s f \<le> clk s' g f"
    and e: "\<And>i. i < 2 \<Longrightarrow> past_fence (pt_pc s' i) \<Longrightarrow> \<not> past_fence (pt_pc s i) \<Longrightarrow> fences p \<Longrightarrow> flag_ts s i \<le> fence_clk s' i"
  shows "pt_inv p b' os s'"
proof -
  have fs: "\<forall>i<2. flag_inv p b s i" and t: "turn_inv b os s" and o: "order_inv p os s" and d: "data_inv s"
    using inv by (simp_all add: pt_inv_def)
  have dt: "data_ts s' = data_ts s" using q(1) by (auto simp: quiet_def data_ts_def)
  have k: "flag_inv p b' s' i" "flag_ts s' i = flag_ts s i" if "i < 2" for i
    by (rule flag_keeps [of p b s i s' b']; use q(1,3) fs that dt in \<open>simp add: quiet_def\<close>)+
  have os: "set os = {i. i < 2 \<and> past_turn (pt_pc s i)}" using t by (simp add: turn_inv_def)
  have l: "later s s'" using q(1) by (simp add: quiet_def)
  have "order_inv p os s'"
  proof (rule order_keeps [OF o _ l])
    show "h_acq_rel_order (history (c_impl (pt_turn s')) 2) = h_acq_rel_order (history (c_impl (pt_turn s)) 2)"
      using q(1) by (simp add: quiet_def same_cell_def Let_def)
    show "pt_pc s' f = At_end \<and> data_ts s' f \<le> clk s' g f" if "os = [f, g]" "stored (pt_pc s' g)" for f g
    proof -
      have lt: "f < 2" "g < 2" using os that(1) by auto
      then show ?thesis using that o q(1) laterD [OF l lt(2,1)]
        by (auto simp: order_inv_def quiet_def dt intro: order_trans)
    qed
    show "flag_ts s' i \<le> fence_clk s' i" if "fences p" "i < 2" "past_fence (pt_pc s' i)" for i
    proof -
      have "fence_clk s i \<le> fence_clk s' i" using q(1) that(2) by (simp add: quiet_def vle_def)
      then show ?thesis using e [of i] o k(2) [OF that(2)] that by (auto simp: order_inv_def intro: order_trans)
    qed
  qed (use os k(2) h in auto)
  moreover have "turn_inv b' os s'" by (rule turn_keeps [OF t]) (use q in \<open>simp_all add: quiet_def\<close>)
  moreover have "data_inv s'" by (rule data_keeps [OF d]) (use q in \<open>simp_all add: quiet_def\<close>)
  ultimately show ?thesis using q(2) k(1) by (simp add: pt_inv_def)
qed

lemma pt_inv_mono:
  assumes "pt_inv p b os s" "b \<le> b'"
  shows "pt_inv p b' os s"
proof (rule quiet_inv [OF assms(1) _ _ assms(2)])
  have "bounded 2 b v \<Longrightarrow> bounded 2 b' v" "th_ok 2 b j t \<Longrightarrow> th_ok 2 b' j t" for v j t
    using assms(2) by (blast intro: bounded_mono th_ok_mono)+
  then show "world_inv b' s" using assms(1) by (auto simp: pt_inv_def world_inv_def Let_def)
qed (simp_all add: quiet_def later_def same_cell_def Let_def)

section \<open>The pieces\<close>

lemma upd_th_simps [simp]:
  "cx_threads (upd_th i f w) j = (if j = i then f (cx_threads w i) else cx_threads w j)"
  "cx_n (upd_th i f w) = cx_n w" "invariant_executing (upd_th i f w) = invariant_executing w"
  "seq_cst_fence_order (upd_th i f w) = seq_cst_fence_order w"
  "sched_count (upd_th i f w) = sched_count w" "cx_params (upd_th i f w) = cx_params w"
  by (simp_all add: upd_th_def)

text \<open>What a piece of thread \<open>i\<close> does to the detector: it replaces the thread.\<close>

definition moves :: "nat \<Rightarrow> nat \<Rightarrow> thread_info \<Rightarrow> pet \<Rightarrow> pet \<Rightarrow> bool" where
  "moves b i th s s' \<longleftrightarrow> pt_w s' = upd_th i (\<lambda>_. th) (pt_w s) \<and> th_ok 2 b i th \<and> vle 2 (clk s i) (acq_rel_order th)"

lemma moves_clk: "moves b i th s s' \<Longrightarrow> clk s' j = (if j = i then acq_rel_order th else clk s j)"
  by (simp add: moves_def clk_def)

lemma moves_later: "moves b i th s s' \<Longrightarrow> later s s'"
  by (auto simp: later_def moves_clk) (simp add: moves_def)

lemma moves_world:
  assumes "moves b' i th s s'" "world_inv b s" "b \<le> b'" "pt_pc s' = (pt_pc s)(i := q)" "q \<noteq> At_start"
  shows "world_inv b' s'" "fence_clk s' = fence_clk s"
proof -
  show f: "fence_clk s' = fence_clk s" using assms(1) by (simp add: fence_clk_def moves_def)
  have "bounded 2 b v \<Longrightarrow> bounded 2 b' v" "th_ok 2 b j t \<Longrightarrow> th_ok 2 b' j t" for v j t
    using assms(3) by (blast intro: bounded_mono th_ok_mono)+
  then show "world_inv b' s'" using assms(1,2,4,5) by (auto simp: world_inv_def moves_def f Let_def)
qed

lemma alike_quiet:
  assumes "later s s'" "vle 2 (fence_clk s) (fence_clk s')" "\<And>j. j < 2 \<Longrightarrow> same_cell (pt_flag s j) (pt_flag s' j)"
    "same_cell (pt_turn s) (pt_turn s')" "pt_data s' = pt_data s" "pt_pc s' = (pt_pc s)(i := q)"
    "flag_recs q = flag_recs (pt_pc s i)" "past_turn q = past_turn (pt_pc s i)" "stored q = stored (pt_pc s i)"
    "(q = At_end) = (pt_pc s i = At_end)"
  shows "quiet s s'"
  using assms by (simp add: quiet_def)

text \<open>A piece that does not fault and keeps the invariant, with two ticks at most.\<close>

definition good_piece :: "protocol \<Rightarrow> nat \<Rightarrow> bool list \<Rightarrow> nat \<Rightarrow> pet \<Rightarrow> bool" where
  "good_piece p b ans i s \<longleftrightarrow> (\<exists>q s' os'. pt_piece p ans i (pt_pc s i) s = Inr (q, s') \<and>
     pt_inv p (b + 2) os' (s'\<lparr>pt_pc := (pt_pc s)(i := q)\<rparr>) \<and> q \<noteq> At_start \<and> pt_pc s' = pt_pc s \<and>
     sched_count (pt_w s') = sched_count (pt_w s) \<and> cx_params (pt_w s') = cx_params (pt_w s) \<and> cur (pt_w s') = cur (pt_w s))"

lemma good_pieceI:
  assumes "pt_piece p ans i (pt_pc s i) s = Inr (q, s')" "pt_inv p (b + 2) os' (s'\<lparr>pt_pc := (pt_pc s)(i := q)\<rparr>)"
    "q \<noteq> At_start" "pt_pc s' = pt_pc s" "pt_w s' = upd_th i (\<lambda>_. th) w" "sched_count w = sched_count (pt_w s)"
    "cx_params w = cx_params (pt_w s)" "threadx w = threadx (pt_w s)"
  shows "good_piece p b ans i s"
proof -
  have "cur (upd_th i (\<lambda>_. th) w) = cur (pt_w s)" using assms(8) by (simp add: cur_def upd_th_def)
  then show ?thesis unfolding good_piece_def
    using assms(1-7) by (intro exI [of _ q] exI [of _ s'] exI [of _ os']) simp
qed

lemma start_piece:
  assumes inv: "pt_inv p b os s" and i: "i < 2" "cur (pt_w s) = i" "pt_pc s i = At_start" and b: "b < 2 ^ 63"
  shows "good_piece p b ans i s"
proof -
  let ?w = "pt_w s" and ?t = "cx_threads (pt_w s) i"
  let ?th = "?t\<lparr>acq_rel_order := foreach2 2 (tick i (acq_rel_order ?t)) (so_sync ?t) assign_max\<rparr>"
  let ?s = "s\<lparr>pt_w := upd_th i (\<lambda>_. ?th) ?w\<rparr>"
  let ?s' = "?s\<lparr>pt_pc := (pt_pc s)(i := At_flag)\<rparr>"
  have w: "world_inv b s" using inv by (simp add: pt_inv_def)
  then have t: "th_ok 2 b i ?t" "bounded 2 b (so_sync ?t)" "temp_switch_from ?t = -1" "saved_disable_preemption ?t = -1"
    "\<not> so_finished ?t" "cx_n ?w = 2"
    using i by (auto simp: world_inv_def Let_def)
  have k: "bounded 2 (b + 1) (tick i (acq_rel_order ?t))" "vle 2 (acq_rel_order ?t) (tick i (acq_rel_order ?t))"
    using bounded_tick [of 2 b "acq_rel_order ?t" i] t(1) i(1) b by (simp_all add: th_ok_def)
  have "th_index ?t = i" using t(1) by (simp add: th_ok_def)
  then have "on_start i ?w = Inr (upd_th i (\<lambda>_. ?th) ?w)"
    using t(3-6) i(2) by (simp add: on_start_def thread_sync_def sync_clock_def sync_order_def sync_acquire_def set_clock_def
        upd_cur_def upd_th_def cur_thread_def Let_def cur_def)
  then have e: "pt_piece p ans i At_start s = Inr (At_flag, ?s)" by simp
  have up: "bounded 2 b v \<Longrightarrow> bounded 2 (b + 2) v" "bounded 2 (b + 1) v \<Longrightarrow> bounded 2 (b + 2) v" for v
    by (erule bounded_mono, simp)+
  have "bounded 2 (b + 2) (foreach2 2 (tick i (acq_rel_order ?t)) (so_sync ?t) assign_max)"
    using k(1) t(2) by (intro bounded_join up)
  then have "th_ok 2 (b + 2) i ?th" using t(1) up by (simp add: th_ok_def)
  moreover have "vle 2 (clk s i) (acq_rel_order ?th)" using vle_trans [OF k(2) vle_join1] by (simp add: clk_def)
  ultimately have m: "moves (b + 2) i ?th s ?s'" by (simp add: moves_def)
  have w': "world_inv (b + 2) ?s'" and f: "fence_clk ?s' = fence_clk s"
    by (rule moves_world [OF m w, of At_flag]; simp)+
  have q: "quiet s ?s'"
    by (rule alike_quiet [OF moves_later [OF m], of i At_flag]) (simp_all add: f i(3) phase_defs)
  have "pt_inv p (b + 2) os ?s'"
    by (rule quiet_inv [OF inv q w']) (use i(3) in \<open>auto simp: phase_defs split: if_splits\<close>)
  then show ?thesis using e i(3) by (intro good_pieceI [of p ans i s At_flag ?s b os ?th ?w]) simp_all
qed

lemma fence_piece:
  assumes inv: "pt_inv p b os s" and i: "i < 2" "cur (pt_w s) = i"
    and q: "pt_pc s i = At_fence1 \<and> q = At_turn \<or> pt_pc s i = At_fence2 \<and> q = At_flag_load" and p: "fences p"
  shows "good_piece p b ans i s"
proof -
  let ?w = "pt_w s" and ?t = "cx_threads (pt_w s) i"
  obtain th f where f: "fence_seq_cst 2 ?t (fence_clk s) = (th, f)" by (cases "fence_seq_cst 2 ?t (fence_clk s)")
  let ?v = "?w\<lparr>seq_cst_fence_order := f\<rparr>"
  let ?s = "s\<lparr>pt_w := upd_th i (\<lambda>_. th) ?v\<rparr>"
  let ?s' = "?s\<lparr>pt_pc := (pt_pc s)(i := q)\<rparr>"
  have w: "world_inv b s" and os: "set os = {i. i < 2 \<and> past_turn (pt_pc s i)}" and o: "order_inv p os s"
    and fl: "flag_inv p b s i" and tu: "turn_inv b os s"
    using inv i(1) by (auto simp: pt_inv_def turn_inv_def)
  then have t: "th_ok 2 b i ?t" "bounded 2 b (fence_clk s)" "cx_n ?w = 2" "\<not> invariant_executing ?w"
    using i by (auto simp: world_inv_def Let_def)
  note fs = fence_step [OF t(1,2) f]
  have "atomic_thread_fence Inr mo_seq_cst ?w = Inr (upd_th i (\<lambda>_. th) ?v)"
    using t(3,4) i(2) f by (simp add: atomic_thread_fence_def atomic_thread_fence_seq_cst_def cur_thread_def upd_cur_def
        fence_clk_def cur_def)
  then have e: "pt_piece p ans i (pt_pc s i) s = Inr (q, ?s)" using q by auto
  have c: "clk ?s' j = (if j = i then acq_rel_order th else clk s j)" "fence_clk ?s' = f" for j
    by (simp_all add: clk_def fence_clk_def upd_th_def)
  have l: "later s ?s'" using fs(3) by (auto simp: later_def c) (simp add: clk_def)
  have up: "bounded 2 b v \<Longrightarrow> bounded 2 (Suc (Suc b)) v" "th_ok 2 b j x \<Longrightarrow> th_ok 2 (Suc (Suc b)) j x" for v j x
    by (erule bounded_mono th_ok_mono, simp)+
  have w': "world_inv (b + 2) ?s'"
    using w fs(1,2) q unfolding world_inv_def c(2) by (auto simp: Let_def intro!: up)
  have q': "quiet s ?s'"
    by (rule alike_quiet [OF l, of i q]) (use q fs(6) in \<open>auto simp: c phase_defs\<close>)
  have "pt_inv p (b + 2) os ?s'"
  proof (rule quiet_inv [OF inv q' w'])
    fix g h assume os2: "os = [g, h]" and h: "handed (pt_pc ?s' h)" "\<not> handed (pt_pc s h)"
    then have hi: "h = i" using q by (auto simp: phase_defs split: if_splits)
    have "g < 2" "past_turn (pt_pc s g)" using os os2 by auto
    then have "flag_ts s g \<le> fence_clk s g" using o p by (auto simp: order_inv_def phase_defs)
    moreover have "fence_clk s g \<le> acq_rel_order th g" using fs(4) \<open>g < 2\<close> by (simp add: vle_def)
    ultimately show "flag_ts s g \<le> clk ?s' h g" by (simp add: c hi)
  next
    fix j :: nat assume j: "j < 2" "past_fence (pt_pc ?s' j)" "\<not> past_fence (pt_pc s j)"
    then have ji: "j = i" by (auto simp: phase_defs split: if_splits)
    then have "flag_recs (pt_pc s i) = 2" using q j by (auto simp: phase_defs)
    then have "flag_ts s i \<le> clk s i i" using fl by (simp add: flag_inv_def wrote_def flag_ts_def Let_def)
    also have "\<dots> \<le> f i" using fs(5) i(1) by (simp add: vle_def clk_def)
    finally show "flag_ts s j \<le> fence_clk ?s' j" by (simp add: c ji)
  qed simp
  then show ?thesis using e q by (intro good_pieceI [of p ans i s q ?s b os th ?v]) auto
qed

lemma yield_piece:
  assumes inv: "pt_inv p b os s" and i: "i < 2" "pt_pc s i = At_yield"
  shows "good_piece p b ans i s"
proof -
  let ?s' = "s\<lparr>pt_pc := (pt_pc s)(i := At_flag_load)\<rparr>" and ?t = "cx_threads (pt_w s) i"
  have w: "world_inv b s" using inv by (simp add: pt_inv_def)
  have m: "moves (b + 2) i ?t s ?s'"
    using w i(1) th_ok_mono [of 2 b i ?t "b + 2"] by (simp add: moves_def world_inv_def Let_def upd_th_def clk_def)
  have w': "world_inv (b + 2) ?s'" and f: "fence_clk ?s' = fence_clk s"
    by (rule moves_world [OF m w, of At_flag_load]; simp)+
  have q: "quiet s ?s'"
    by (rule alike_quiet [OF moves_later [OF m], of i At_flag_load]) (simp_all add: f i(2) phase_defs)
  have "pt_inv p (b + 2) os ?s'"
    by (rule quiet_inv [OF inv q w']) (use i(2) in \<open>auto simp: phase_defs split: if_splits\<close>)
  then show ?thesis using i(2) by (intro good_pieceI [of p ans i s At_flag_load s b os ?t "pt_w s"]) (simp_all add: upd_th_def)
qed

section \<open>The writes\<close>

lemma write_step:
  assumes x: "cell_ok b m x" "m \<in> {1, 2}" "busy (history (c_impl x) m)"
    and th: "th_ok 2 b i th" "i < 2" "b + 1 < 2 ^ 63"
    and st: "st = By_exchange mo_acq_rel \<or> (\<exists>mo. st = By_store mo \<and> mo \<in> {mo_relaxed, mo_release, mo_seq_cst})"
  obtains th' x' mo where "write_cell st 2 False th x v = Inr (th', x')" "appended 2 i mo m v th th' x x'"
    "th_ok 2 (b + 2) i th'" "recs_ok 2 (b + 2) (c_impl x')" "vle 2 (acq_rel_order th) (acq_rel_order th')"
    "st = By_store mo \<or> st = By_exchange mo"
    "st = By_exchange mo_acq_rel \<Longrightarrow> vle 2 (h_acq_rel_order (history (c_impl x) m)) (acq_rel_order th')"
proof -
  have c: "sig_ok cell_magic (c_sign x)" "c_initialized x" "current_index (c_impl x) = of_nat m" "recs_ok 2 b (c_impl x)"
    using x(1) by (simp_all add: cell_ok_def)
  have m: "m < 3" "m mod 3 = m" using x(2) by auto
  have bm: "busy (history (c_impl x) (m mod 3))" using x(3) m(2) by simp
  show ?thesis
  proof (cases "st = By_exchange mo_acq_rel")
    case True
    obtain th' x' where e: "cell_exchange 2 False mo_acq_rel th x v = Inr (c_value x, th', x')"
      "appended 2 i mo_acq_rel m v th th' x x'" "th_ok 2 (b + 2) i th'" "recs_ok 2 (b + 2) (c_impl x')"
      "vle 2 (acq_rel_order th) (acq_rel_order th')" "vle 2 (h_acq_rel_order (history (c_impl x) (m mod 3))) (acq_rel_order th')"
      using cell_exchange_step [OF c(1,3) m(1) c(2) bm th c(4) refl, of v] by blast
    show ?thesis by (rule that [of th' x' mo_acq_rel]) (use True e m(2) in simp_all)
  next
    case False
    then obtain mo where mo: "st = By_store mo" "mo \<in> {mo_relaxed, mo_release, mo_seq_cst}" using st by blast
    have b: "b < 2 ^ 63" using th(3) by simp
    obtain th' x' where e: "cell_store 2 False mo th x v = Inr (th', x')" "appended 2 i mo m v th th' x x'"
      "th_ok 2 (b + 1) i th'" "recs_ok 2 (b + 1) (c_impl x')" "vle 2 (acq_rel_order th) (acq_rel_order th')"
      using cell_store_step [OF c(1,3) m(1) th(1,2) b recs_ok_all_but [OF c(4)] mo(2), of v] by blast
    have "b + 1 \<le> b + 2" by simp
    then have up: "th_ok 2 (b + 2) i th'" "recs_ok 2 (b + 2) (c_impl x')"
      using th_ok_mono [OF e(3)] recs_ok_mono [OF e(4)] by blast+
    show ?thesis by (rule that [of th' x' mo]) (use mo(1) e(1,2,5) up in simp_all)
  qed
qed

lemma cell_busy: "zeroed s x \<Longrightarrow> busy (history (c_impl x) 1)" "wrote s x 2 i v \<Longrightarrow> busy (history (c_impl x) 2)"
  by (simp_all add: zeroed_def wrote_def Let_def)

lemma flag_piece:
  assumes inv: "pt_inv p b os s" and p: "passing p" and i: "i < 2" "cur (pt_w s) = i" "pt_pc s i = At_flag" and b: "b + 1 < 2 ^ 63"
  shows "good_piece p b ans i s"
proof -
  let ?w = "pt_w s" and ?t = "cx_threads (pt_w s) i" and ?x = "pt_flag s i"
  let ?q = "if fences p then At_fence1 else At_turn"
  have w: "world_inv b s" and fs: "\<forall>i<2. flag_inv p b s i" and tu: "turn_inv b os s" and o: "order_inv p os s" and d: "data_inv s"
    using inv by (simp_all add: pt_inv_def)
  have t: "th_ok 2 b i ?t" "cx_n ?w = 2" "\<not> invariant_executing ?w" using w i(1) by (auto simp: world_inv_def Let_def)
  have x: "cell_ok b 1 ?x" "zeroed s ?x" using fs i by (auto simp: flag_inv_def Let_def flag_recs_def)
  have st: "set_flag p = By_exchange mo_acq_rel \<or> (\<exists>mo. set_flag p = By_store mo \<and> mo \<in> {mo_relaxed, mo_release, mo_seq_cst})"
    using p by (auto simp: passing_def)
  obtain th x' mo where e: "write_cell (set_flag p) 2 False ?t ?x 1 = Inr (th, x')" "appended 2 i mo 1 1 ?t th ?x x'"
    "th_ok 2 (b + 2) i th" "recs_ok 2 (b + 2) (c_impl x')" "vle 2 (acq_rel_order ?t) (acq_rel_order th)"
    "set_flag p = By_store mo \<or> set_flag p = By_exchange mo"
    by (rule write_step [OF x(1) _ cell_busy(1) [OF x(2)] t(1) i(1) b st, of 1]) auto
  let ?s = "(set_thread i th s)\<lparr>pt_flag := (pt_flag s)(i := x')\<rparr>"
  let ?s' = "?s\<lparr>pt_pc := (pt_pc s)(i := ?q)\<rparr>"
  have e': "pt_piece p ans i (pt_pc s i) s = Inr (?q, ?s)" using e(1) t(2,3) i(3) by (simp add: Let_def)
  have m: "moves (b + 2) i th s ?s'" using e(3,5) by (simp add: moves_def set_thread_def clk_def)
  note l = moves_later [OF m]
  have w': "world_inv (b + 2) ?s'" and f: "fence_clk ?s' = fence_clk s"
    by (rule moves_world [OF m w, of ?q]; simp add: set_thread_def)+
  have pc: "flag_recs ?q = 2" "\<not> past_turn ?q" "\<not> stored ?q" "\<not> past_fence ?q \<or> \<not> fences p" "?q \<noteq> At_start" "?q \<noteq> At_end"
    "\<not> past_turn (pt_pc s i)" "\<not> stored (pt_pc s i)"
    by (simp_all add: phase_defs i(3))
  have dt: "data_ts ?s' = data_ts s" by (auto simp: data_ts_def set_thread_def)
  have other: "flag_inv p (b + 2) ?s' j" "flag_ts ?s' j = flag_ts s j" if "j < 2" "j \<noteq> i" for j
    by (rule flag_keeps [of p b s j ?s' "b + 2"]; use fs that l dt in \<open>simp add: set_thread_def\<close>)+
  have mine: "flag_inv p (b + 2) ?s' i"
    using cell_ok_appended [OF x(1) e(2,4)] zeroed_appended [OF x(2) e(2) l] appended_wrote [OF e(2), of ?s'] moves_clk [OF m, of i]
      e(2,6) p
    by (auto simp: flag_inv_def pc numeral_2_eq_2 appended_def passing_def Let_def)
  have "turn_inv (b + 2) os ?s'" by (rule turn_keeps [OF tu _ l]) (simp_all add: pc set_thread_def)
  moreover have "data_inv ?s'" by (rule data_keeps [OF d l]) (simp_all add: pc set_thread_def)
  moreover have "order_inv p os ?s'"
  proof (rule order_keeps [OF o _ l])
    have os: "set os = {i. i < 2 \<and> past_turn (pt_pc s i)}" using tu by (simp add: turn_inv_def)
    then have ne: "j \<in> set os \<Longrightarrow> j \<noteq> i \<and> j < 2" for j using pc(7) by auto
    then show "j < 2" "flag_ts ?s' j = flag_ts s j" if "j \<in> set os" for j using that other(2) by blast+
    show "flag_ts s f \<le> clk ?s' g f" if "os = [f, g]" "handed (pt_pc ?s' g)" "\<not> handed (pt_pc s g)" for f g
      using that ne [of g] by simp
    show "pt_pc ?s' f = At_end \<and> data_ts ?s' f \<le> clk ?s' g f" if "os = [f, g]" "stored (pt_pc ?s' g)" for f g
      using that o ne [of f] ne [of g] moves_clk [OF m, of g] by (simp add: order_inv_def dt)
    show "flag_ts ?s' j \<le> fence_clk ?s' j" if j: "fences p" "j < 2" "past_fence (pt_pc ?s' j)" for j
    proof -
      have ji: "j \<noteq> i" using pc(4) j by auto
      then have "flag_ts s j \<le> fence_clk s j" using j o by (simp add: order_inv_def)
      then show ?thesis unfolding f other(2) [OF j(2) ji] .
    qed
  qed (simp add: set_thread_def)
  moreover have "flag_inv p (b + 2) ?s' j" if "j < 2" for j using other(1) [OF that] mine by (cases "j = i") (blast | iprover)+
  ultimately have "pt_inv p (b + 2) os ?s'" by (intro pt_invI w')
  then show ?thesis using e' pc(5)
    by (intro good_pieceI [of p ans i s ?q ?s b os th ?w]) (simp_all add: set_thread_def)
qed

lemma distinct_const:
  assumes "distinct xs" "\<And>x. x \<in> set xs \<Longrightarrow> x = a"
  shows "xs = [] \<or> xs = [a]"
proof (cases xs)
  case (Cons y ys)
  have "ys = []"
  proof (cases ys)
    case (Cons z zs)
    then have "y = a" "z = a" using \<open>xs = y # ys\<close> assms(2) [of y] assms(2) [of z] by simp_all
    then show ?thesis using assms(1) \<open>xs = y # ys\<close> Cons by simp
  qed
  then show ?thesis using Cons assms(2) [of y] by simp
qed simp

lemma turn_piece:
  assumes inv: "pt_inv p b os s" and p: "passing p" and i: "i < 2" "cur (pt_w s) = i" "pt_pc s i = At_turn" and b: "b + 1 < 2 ^ 63"
  shows "good_piece p b ans i s"
proof -
  let ?w = "pt_w s" and ?t = "cx_threads (pt_w s) i" and ?x = "pt_turn s" and ?m = "Suc (length os)"
  define q where "q = (if fences p then At_fence2 else At_flag_load)"
  have w: "world_inv b s" and fs: "\<And>j. j < 2 \<Longrightarrow> flag_inv p b s j" and tu: "turn_inv b os s" and o: "order_inv p os s" and d: "data_inv s"
    using inv by (simp_all add: pt_inv_def)
  have t: "th_ok 2 b i ?t" "cx_n ?w = 2" "\<not> invariant_executing ?w" using w i(1) by (auto simp: world_inv_def Let_def)
  have os: "set os = {i. i < 2 \<and> past_turn (pt_pc s i)}" "distinct os" using tu by (simp_all add: turn_inv_def)
  have iq: "i \<notin> set os" using os i(3) by (simp add: past_turn_def)
  have one: "os = [] \<or> os = [1 - i]"
  proof (rule distinct_const [OF os(2)])
    fix j assume "j \<in> set os"
    then have "j < 2" "j \<noteq> i" using os(1) iq by auto
    then show "j = 1 - i" using i(1) by arith
  qed
  have x: "cell_ok b ?m ?x" "zeroed s ?x" "\<And>k. k < length os \<Longrightarrow> wrote s ?x (k + 2) (os ! k) (of_nat (1 - os ! k))"
    using tu by (simp_all add: turn_inv_def)
  have x2: "wrote s ?x 2 (os ! 0) (of_nat (1 - os ! 0))" if "os \<noteq> []"
  proof -
    have "0 < length os" using that by simp
    then show ?thesis by (rule x(3) [of 0, unfolded add_0])
  qed
  have m: "?m \<in> {1, 2}" using one by auto
  have busy: "busy (history (c_impl ?x) ?m)"
  proof (cases "os = []")
    case True
    then show ?thesis using cell_busy(1) [OF x(2)] by simp
  next
    case False
    then have "wrote s ?x 2 (os ! 0) (of_nat (1 - os ! 0))" by (rule x2)
    then have "busy (history (c_impl ?x) 2)" by (rule cell_busy(2))
    moreover have m2: "?m = 2" using False one by auto
    ultimately show ?thesis unfolding m2 by blast
  qed
  have st: "set_turn p = By_exchange mo_acq_rel \<or> (\<exists>mo. set_turn p = By_store mo \<and> mo \<in> {mo_relaxed, mo_release, mo_seq_cst})"
    using p by (auto simp: passing_def)
  obtain th x' mo where e: "write_cell (set_turn p) 2 False ?t ?x (of_nat (1 - i)) = Inr (th, x')"
    "appended 2 i mo ?m (of_nat (1 - i)) ?t th ?x x'" "th_ok 2 (b + 2) i th" "recs_ok 2 (b + 2) (c_impl x')"
    "vle 2 (acq_rel_order ?t) (acq_rel_order th)" "set_turn p = By_store mo \<or> set_turn p = By_exchange mo"
    "set_turn p = By_exchange mo_acq_rel \<Longrightarrow> vle 2 (h_acq_rel_order (history (c_impl ?x) ?m)) (acq_rel_order th)"
    by (rule write_step [OF x(1) m busy t(1) i(1) b st, of "of_nat (1 - i)"], rule that)
  let ?s = "(set_thread i th s)\<lparr>pt_turn := x'\<rparr>"
  define s' where "s' = ?s\<lparr>pt_pc := (pt_pc s)(i := q)\<rparr>"
  have e': "pt_piece p ans i (pt_pc s i) s = Inr (q, ?s)" using e(1) t(2,3) i(3) by (simp add: Let_def q_def)
  have s': "pt_flag s' = pt_flag s" "pt_data s' = pt_data s" "pt_pc s' = (pt_pc s)(i := q)" "pt_turn s' = x'"
    by (simp_all add: s'_def set_thread_def)
  have mv: "moves (b + 2) i th s s'" using e(3,5) by (simp add: moves_def s'_def set_thread_def clk_def)
  note l = moves_later [OF mv]
  have q: "flag_recs q = 2" "past_turn q" "\<not> stored q" "q \<noteq> At_start" "q \<noteq> At_end" "past_fence q" "handed q \<Longrightarrow> \<not> fences p"
    "flag_recs (pt_pc s i) = 2" "\<not> stored (pt_pc s i)" "past_fence (pt_pc s i)"
    by (auto simp: phase_defs q_def i(3))
  have w': "world_inv (b + 2) s'" and f: "fence_clk s' = fence_clk s"
    by (rule moves_world [OF mv w, of q]; simp add: s' q)+
  have ts: "flag_ts s' = flag_ts s" "data_ts s' = data_ts s" by (auto simp: flag_ts_def data_ts_def s')
  have "flag_inv p (b + 2) s' j" if "j < 2" for j
    by (rule flag_keeps(1) [OF fs [OF that] _ l]) (use that q in \<open>auto simp: s' ts\<close>)
  moreover have "data_inv s'" by (rule data_keeps [OF d l]) (simp_all add: s' q)
  moreover have "turn_inv (b + 2) (os @ [i]) s'"
    unfolding turn_inv_def
  proof (intro conjI allI impI)
    show "cell_ok (b + 2) (Suc (length (os @ [i]))) (pt_turn s')" using cell_ok_appended [OF x(1) e(2,4)] by (simp add: s')
    show "zeroed s' (pt_turn s')" using zeroed_appended [OF x(2) e(2) l m] by (simp add: s')
    show "distinct (os @ [i])" using os(2) iq by simp
    show "set (os @ [i]) = {i. i < 2 \<and> past_turn (pt_pc s' i)}" using os(1) i(1) q(2) by (auto simp: s')
    fix k assume k: "k < length (os @ [i])"
    have new: "wrote s' x' (Suc ?m) i (of_nat (1 - i))" by (rule appended_wrote [OF e(2)]) (simp add: moves_clk [OF mv])
    show "wrote s' (pt_turn s') (k + 2) ((os @ [i]) ! k) (of_nat (1 - (os @ [i]) ! k))"
    proof (cases "k = length os")
      case True
      then show ?thesis using new by (simp add: s' del: of_nat_diff)
    next
      case False
      then have o1: "os = [1 - i]" "k = 0" using k one by auto
      have "wrote s ?x 2 (1 - i) (of_nat (1 - (1 - i)))" using x2 unfolding o1(1) nth_Cons_0 by blast
      then have "wrote s' x' 2 (1 - i) (of_nat (1 - (1 - i)))"
        by (rule wrote_appended [OF _ e(2) l]) (use i(1) o1 in auto)
      then show ?thesis unfolding o1 s' append_Cons nth_Cons_0 add_0 .
    qed
  qed
  moreover have "order_inv p (os @ [i]) s'"
    unfolding order_inv_def
  proof (intro conjI allI impI)
    fix f' g assume fg: "os @ [i] = [f', g]"
    then have g: "g = i" "os = [f']" by (cases os; simp)+
    then have "f' \<in> set os" by simp
    then have g': "f' < 2" using os(1) by blast
    show "sc p \<or> flag_ts s' f' \<le> clk s' g f'" if "handed (pt_pc s' g)"
    proof (cases "sc p")
      case False
      have "\<not> fences p" using that q(7) by (simp add: s' g)
      then have ex: "set_turn p = By_exchange mo_acq_rel" using p False by (auto simp: passing_def)
      then have "flag_ts s f' \<le> h_acq_rel_order (history (c_impl ?x) 2) f'" using o g(2) by (simp add: order_inv_def)
      also have "\<dots> \<le> acq_rel_order th f'" using e(7) [OF ex] g(2) g' by (simp add: vle_def numeral_2_eq_2)
      finally show ?thesis by (simp add: ts g moves_clk [OF mv])
    qed simp
    show "pt_pc s' f' = At_end" "data_ts s' f' \<le> clk s' g f'" if "stored (pt_pc s' g)"
      using that q(3) by (simp_all add: s' g)
  next
    assume y: "set_turn p = By_exchange mo_acq_rel \<and> os @ [i] \<noteq> []"
    then have mo: "mo = mo_acq_rel" using e(6) by auto
    show "flag_ts s' ((os @ [i]) ! 0) \<le> h_acq_rel_order (history (c_impl (pt_turn s')) 2) ((os @ [i]) ! 0)"
    proof (cases "os = []")
      case True
      have "flag_ts s i \<le> clk s i i" using fs [OF i(1)] q(8) by (simp add: flag_inv_def wrote_def flag_ts_def Let_def)
      also have "\<dots> \<le> h_acq_rel_order (history (c_impl x') 2) i"
        using e(2) i(1) True by (simp add: appended_def mo synch_release_def Let_def vle_def clk_def numeral_2_eq_2)
      finally show ?thesis using True by (simp add: s' ts)
    next
      case False
      then have o1: "os = [1 - i]" using one by simp
      then have "h_acq_rel_order (history (c_impl x') 2) = h_acq_rel_order (history (c_impl ?x) 2)"
        using e(2) by (simp add: appended_def Let_def)
      then show ?thesis using o y o1 by (simp add: s' ts order_inv_def)
    qed
  next
    fix j :: nat assume j: "fences p" "j < 2" "past_fence (pt_pc s' j)"
    then have "past_fence (pt_pc s j)" using q(10) by (auto simp: s' split: if_splits)
    then show "flag_ts s' j \<le> fence_clk s' j" using o j by (simp add: order_inv_def ts f)
  qed
  ultimately have "pt_inv p (b + 2) (os @ [i]) s'" by (intro pt_invI w')
  then show ?thesis using e' q(4)
    by (intro good_pieceI [of p ans i s q ?s b "os @ [i]" th ?w]) (simp_all add: set_thread_def s'_def)
qed

lemma leave_piece:
  assumes inv: "pt_inv p b os s" and p: "passing p" and i: "i < 2" "cur (pt_w s) = i" "pt_pc s i = At_leave" and b: "b + 1 < 2 ^ 63"
  shows "good_piece p b ans i s"
proof -
  let ?w = "pt_w s" and ?t = "cx_threads (pt_w s) i" and ?x = "pt_flag s i"
  have w: "world_inv b s" and fs: "\<And>j. j < 2 \<Longrightarrow> flag_inv p b s j" and tu: "turn_inv b os s" and o: "order_inv p os s" and d: "data_inv s"
    using inv by (simp_all add: pt_inv_def)
  have t: "th_ok 2 b i ?t" "cx_n ?w = 2" "\<not> invariant_executing ?w" using w i(1) by (auto simp: world_inv_def Let_def)
  have x: "cell_ok b 2 ?x" "zeroed s ?x" "wrote s ?x 2 i 1" "sc p \<Longrightarrow> seq_cst (history (c_impl ?x) 2)"
    using fs [OF i(1)] i(3) by (auto simp: flag_inv_def Let_def flag_recs_def)
  have lm: "leave_mo p \<in> {mo_relaxed, mo_release, mo_seq_cst}" "synch_release (leave_mo p)" "sc p \<Longrightarrow> leave_mo p = mo_seq_cst"
    using p by (auto simp: passing_def synch_release_def)
  have st: "By_store (leave_mo p) = By_exchange mo_acq_rel \<or>
      (\<exists>mo. By_store (leave_mo p) = By_store mo \<and> mo \<in> {mo_relaxed, mo_release, mo_seq_cst})"
    using lm(1) by auto
  obtain th x' where e: "cell_store 2 False (leave_mo p) ?t ?x 0 = Inr (th, x')" "appended 2 i (leave_mo p) 2 0 ?t th ?x x'"
    "th_ok 2 (b + 2) i th" "recs_ok 2 (b + 2) (c_impl x')" "vle 2 (acq_rel_order ?t) (acq_rel_order th)"
    by (rule write_step [OF x(1) _ cell_busy(2) [OF x(3)] t(1) i(1) b st, of 0]) auto
  let ?s = "(set_thread i th s)\<lparr>pt_flag := (pt_flag s)(i := x')\<rparr>"
  define s' where "s' = ?s\<lparr>pt_pc := (pt_pc s)(i := At_end)\<rparr>"
  have e': "pt_piece p ans i (pt_pc s i) s = Inr (At_end, ?s)" using e(1) t(2,3) i(3) by (simp add: Let_def)
  have s': "pt_flag s' = (pt_flag s)(i := x')" "pt_data s' = pt_data s" "pt_pc s' = (pt_pc s)(i := At_end)" "pt_turn s' = pt_turn s"
    by (simp_all add: s'_def set_thread_def)
  have mv: "moves (b + 2) i th s s'" using e(3,5) by (simp add: moves_def s'_def set_thread_def clk_def)
  note l = moves_later [OF mv]
  have w': "world_inv (b + 2) s'" and f: "fence_clk s' = fence_clk s"
    by (rule moves_world [OF mv w, of At_end]; simp add: s')+
  have dt: "data_ts s' = data_ts s" by (auto simp: data_ts_def s')
  have other: "flag_inv p (b + 2) s' j" if "j < 2" "j \<noteq> i" for j
    by (rule flag_keeps(1) [OF fs [OF that(1)] _ l]) (use that in \<open>auto simp: s' dt\<close>)
  have ts: "flag_ts s' j = flag_ts s j" for j
    using e(2) by (auto simp: flag_ts_def s' appended_def Let_def)
  have di: "data_ts s i \<le> clk s i i" using d i(1) by (simp add: data_inv_def)
  have ph: "flag_recs At_end = 3" "stored At_end" "past_turn At_end" "past_fence At_end" by (simp_all add: phase_defs)
  have "flag_inv p (b + 2) s' i"
  proof -
    have "cell_ok (b + 2) 3 x'" using cell_ok_appended [OF x(1) e(2,4)] by simp
    moreover have "zeroed s' x'" by (rule zeroed_appended [OF x(2) e(2) l]) simp
    moreover have "wrote s' x' 2 i 1" by (rule wrote_appended [OF x(3) e(2) l i(1)]) simp
    moreover have "wrote s' x' 3 i 0" using appended_wrote [OF e(2), of s'] moves_clk [OF mv, of i] by simp
    moreover have "sc p \<longrightarrow> seq_cst (history (c_impl x') 2) \<and> seq_cst (history (c_impl x') 0)"
      using e(2) x(4) lm(3) by (simp add: appended_def Let_def)
    moreover have "data_ts s i \<le> h_acq_rel_order (history (c_impl x') 0) i"
      using di e(2) lm(2) i(1) by (auto simp: appended_def Let_def vle_def clk_def intro: order_trans)
    ultimately show ?thesis by (simp add: flag_inv_def s' ph dt Let_def)
  qed
  then have "flag_inv p (b + 2) s' j" if "j < 2" for j using other [OF that] by (cases "j = i") simp_all
  moreover have "turn_inv (b + 2) os s'"
    by (rule turn_keeps [OF tu _ l]) (auto simp: s' phase_defs i(3))
  moreover have "data_inv s'" by (rule data_keeps [OF d l]) (auto simp: s' phase_defs i(3))
  moreover have "order_inv p os s'"
  proof (rule order_keeps [OF o _ l])
    have os: "set os = {i. i < 2 \<and> past_turn (pt_pc s i)}" using tu by (simp add: turn_inv_def)
    then show "j < 2" if "j \<in> set os" for j using that by auto
    show "pt_pc s' g = At_end \<and> data_ts s' g \<le> clk s' h g" if gh: "os = [g, h]" "stored (pt_pc s' h)" for g h
    proof -
      have lt: "g < 2" "h < 2" using os gh by auto
      have "stored (pt_pc s h)" using gh(2) i(3) by (auto simp: s' stored_def split: if_splits)
      then have "pt_pc s g = At_end" "data_ts s g \<le> clk s h g" using o gh(1) by (simp_all add: order_inv_def)
      then show ?thesis using laterD [OF l lt(2,1)] by (auto simp: s' dt intro: order_trans)
    qed
    show "flag_ts s g \<le> clk s' h g" if "os = [g, h]" "handed (pt_pc s' h)" "\<not> handed (pt_pc s h)" for g h
      using that i(3) by (auto simp: s' handed_def past_turn_def split: if_splits)
    show "flag_ts s' j \<le> fence_clk s' j" if "fences p" "j < 2" "past_fence (pt_pc s' j)" for j
      using that o i(3) by (auto simp: order_inv_def ts f s' past_fence_def split: if_splits)
  qed (simp_all add: s' ts)
  ultimately have "pt_inv p (b + 2) os s'" by (intro pt_invI w')
  then show ?thesis using e'
    by (intro good_pieceI [of p ans i s At_end ?s b os th ?w]) (simp_all add: set_thread_def s'_def)
qed

section \<open>The loop and the critical section\<close>

lemma two_writers:
  assumes "turn_inv b os s" "i < 2" "j < 2" "i \<noteq> j" "past_turn (pt_pc s i)" "past_turn (pt_pc s j)"
  shows "os = [i, j] \<or> os = [j, i]"
proof -
  have os: "set os = {i. i < 2 \<and> past_turn (pt_pc s i)}" "distinct os" using assms(1) by (simp_all add: turn_inv_def)
  have "k = i \<or> k = j" if "k < 2" for k :: nat using that assms(2-4) by arith
  then have s: "set os = {i, j}" using os(1) assms(2,3,5,6) by blast
  then have "length os = 2" using distinct_card [OF os(2)] assms(4) by simp
  then obtain a c where "os = [a, c]" by (auto simp: numeral_2_eq_2 length_Suc_conv)
  then show ?thesis using s assms(4) by (auto simp: doubleton_eq_iff)
qed

lemma load_quiet:
  assumes inv: "pt_inv p b os s" and i: "i < 2" "pt_pc s i \<in> {At_flag_load, At_turn_load}"
    and q: "q \<in> {At_flag_load, At_turn_load, At_yield}" and m: "moves b' i th s s'" "b \<le> b'"
    and c: "\<And>j. j < 2 \<Longrightarrow> same_cell (pt_flag s j) (pt_flag s' j)" "same_cell (pt_turn s) (pt_turn s')" "pt_data s' = pt_data s"
      "pt_pc s' = (pt_pc s)(i := q)"
  shows "pt_inv p b' os s'"
proof -
  have w: "world_inv b s" using inv by (simp add: pt_inv_def)
  have w': "world_inv b' s'" and f: "fence_clk s' = fence_clk s"
    by (rule moves_world [OF m(1) w m(2) c(4)]; use q in auto)+
  have "quiet s s'"
    by (rule alike_quiet [OF moves_later [OF m(1)] _ c]) (use i q in \<open>auto simp: f phase_defs\<close>)
  then show ?thesis
    by (rule quiet_inv [OF inv _ w' m(2)]) (use i q c(4) in \<open>auto simp: phase_defs split: if_splits\<close>)
qed

lemma enter_step:
  assumes inv: "pt_inv p b os s" and i: "i < 2" "pt_pc s i \<in> {At_flag_load, At_turn_load}" and b: "b < 2 ^ 63"
    and first: "\<And>f. os = [f, i] \<Longrightarrow> pt_pc s f = At_end \<and> data_ts s f \<le> clk s i f"
  shows "\<exists>s' th. pt_enter i s = Inr (At_leave, s') \<and> pt_inv p (b + 1) os (s'\<lparr>pt_pc := (pt_pc s)(i := At_leave)\<rparr>) \<and>
    pt_pc s' = pt_pc s \<and> pt_w s' = upd_th i (\<lambda>_. th) (pt_w s)"
proof -
  let ?w = "pt_w s" and ?t = "cx_threads (pt_w s) i" and ?v = "pt_data s"
  have w: "world_inv b s" and fs: "\<And>j. j < 2 \<Longrightarrow> flag_inv p b s j" and tu: "turn_inv b os s" and o: "order_inv p os s" and d: "data_inv s"
    using inv by (simp_all add: pt_inv_def)
  have t: "th_ok 2 b i ?t" "cx_n ?w = 2" "\<not> invariant_executing ?w" "th_index ?t = i"
    using w i(1) by (auto simp: world_inv_def Let_def th_ok_def)
  have ph: "past_turn (pt_pc s i)" "\<not> stored (pt_pc s i)" "pt_pc s i \<noteq> At_end" using i(2) by (auto simp: phase_defs)
  have known: "data_ts s j \<le> clk s i j" if j: "j < 2" for j
  proof (cases "j = i \<or> \<not> stored (pt_pc s j)")
    case True
    then show ?thesis using d i(1) j by (auto simp: data_inv_def)
  next
    case False
    then have "past_turn (pt_pc s j)" by (auto simp: phase_defs)
    then consider "os = [i, j]" | "os = [j, i]" using two_writers [OF tu i(1) j _ ph(1)] False by auto
    then show ?thesis
    proof cases
      case 1
      then show ?thesis using o False ph(3) by (simp add: order_inv_def)
    next
      case 2
      then show ?thesis using first by blast
    qed
  qed
  define th where "th = th_tick ?t"
  define v' where "v' = ?v\<lparr>v_initialized := True,
     v_data := (v_data ?v)\<lparr>store_ts := (store_ts (v_data ?v))(i := own_order ?t + 1)\<rparr>, v_value := of_nat (i + 1)\<rparr>"
  have k: "vle 2 (store_ts (v_data ?v)) (acq_rel_order ?t)" "vle 2 (load_ts (v_data ?v)) (acq_rel_order ?t)"
    using known d by (simp_all add: vle_def data_ts_def clk_def data_inv_def)
  have "var_store 2 False ?t ?v (of_nat (i + 1)) = Inr (th, v')"
  proof (cases "v_initialized ?v")
    case True
    moreover have "v' = ?v\<lparr>v_data := (v_data ?v)\<lparr>store_ts := (store_ts (v_data ?v))(i := own_order ?t + 1)\<rparr>, v_value := of_nat (i + 1)\<rparr>"
      using True unfolding v'_def by (cases ?v) simp
    ultimately show ?thesis using d k by (simp add: var_store_init data_inv_def th_def t(4))
  next
    case False
    then show ?thesis using d by (simp add: var_store_uninit data_inv_def th_def v'_def t(4))
  qed
  then have e: "pt_enter i s = Inr (At_leave, (set_thread i th s)\<lparr>pt_data := v'\<rparr>)"
    by (simp add: pt_enter_def var_assign_def t(2,3) Let_def)
  define s' where "s' = ((set_thread i th s)\<lparr>pt_data := v'\<rparr>)\<lparr>pt_pc := (pt_pc s)(i := At_leave)\<rparr>"
  have s': "pt_flag s' = pt_flag s" "pt_turn s' = pt_turn s" "pt_data s' = v'" "pt_pc s' = (pt_pc s)(i := At_leave)"
    by (simp_all add: s'_def set_thread_def)
  have tk: "bounded 2 (b + 1) (tick i (acq_rel_order ?t))" "vle 2 (acq_rel_order ?t) (tick i (acq_rel_order ?t))"
    using bounded_tick [of 2 b "acq_rel_order ?t" i] t(1) i(1) b by (simp_all add: th_ok_def)
  have up: "bounded 2 b x \<Longrightarrow> bounded 2 (Suc b) x" for x by (erule bounded_mono) simp
  have m: "moves (b + 1) i th s s'"
    using t(1) tk up by (auto simp: moves_def s'_def set_thread_def th_def th_tick_def clk_def th_ok_def)
  note l = moves_later [OF m]
  have w': "world_inv (b + 1) s'" and f: "fence_clk s' = fence_clk s"
    by (rule moves_world [OF m w _ s'(4)]; simp)+
  have dt: "data_ts s' j = (if j = i then clk s' i i else data_ts s j)" for j
    by (simp add: data_ts_def s' v'_def moves_clk [OF m] th_def t(4) tick_def own_order_def)
  have ts: "flag_ts s' = flag_ts s" by (auto simp: flag_ts_def s')
  have lv: "flag_recs At_leave = 2" "past_turn At_leave" "stored At_leave" "handed At_leave" by (simp_all add: phase_defs)
  have "flag_inv p (b + 1) s' j" if "j < 2" for j
    by (rule flag_keeps(1) [OF fs [OF that] _ l]) (use that i(2) in \<open>auto simp: s' dt phase_defs\<close>)
  moreover have "turn_inv (b + 1) os s'"
    by (rule turn_keeps [OF tu _ l]) (auto simp: s' lv ph(1))
  moreover have "data_inv s'"
    unfolding data_inv_def
  proof (intro conjI allI impI)
    show "sig_ok var_magic (v_sign (pt_data s'))" using d by (simp add: s' v'_def data_inv_def)
    fix j :: nat assume j: "j < 2"
    show "load_ts (v_data (pt_data s')) j = 0" using d j by (simp add: s' v'_def data_inv_def)
    show "data_ts s' j \<le> clk s' j j"
      using d j laterD [OF l j j] by (auto simp: dt data_inv_def intro: order_trans)
    show "data_ts s' j = 0" if "\<not> stored (pt_pc s' j)"
      using that d j lv(3) by (auto simp: dt data_inv_def s' split: if_splits)
  qed
  moreover have "order_inv p os s'"
  proof (rule order_keeps [OF o _ l])
    have os: "set os = {i. i < 2 \<and> past_turn (pt_pc s i)}" "distinct os" using tu by (simp_all add: turn_inv_def)
    then show "j < 2" if "j \<in> set os" for j using that by auto
    show "pt_pc s' g = At_end \<and> data_ts s' g \<le> clk s' h g" if gh: "os = [g, h]" "stored (pt_pc s' h)" for g h
    proof -
      have lt: "g < 2" "h < 2" "g \<noteq> h" using os gh by auto
      have "pt_pc s g = At_end \<and> data_ts s g \<le> clk s h g"
      proof (cases "h = i")
        case True
        then show ?thesis using first gh(1) by blast
      next
        case False
        then show ?thesis using gh o by (simp add: order_inv_def s')
      qed
      moreover from this have "g \<noteq> i" using ph(3) by auto
      ultimately show ?thesis using laterD [OF l lt(2,1)] by (auto simp: s' dt intro: order_trans)
    qed
    show "flag_ts s g \<le> clk s' h g" if "handed (pt_pc s' h)" "\<not> handed (pt_pc s h)" for g h
      using that i(2) by (auto simp: s' handed_def past_turn_def split: if_splits)
    show "flag_ts s' j \<le> fence_clk s' j" if "fences p" "j < 2" "past_fence (pt_pc s' j)" for j
      using that o i(2) by (auto simp: order_inv_def ts f s' past_fence_def split: if_splits)
  qed (simp_all add: s' ts)
  ultimately have "pt_inv p (b + 1) os s'" by (intro pt_invI w')
  then show ?thesis using e by (auto simp: s'_def set_thread_def)
qed

text \<open>A load, and what follows it: round the loop again, or in.\<close>

lemma after_load:
  assumes inv: "pt_inv p b os s" and i: "i < 2" "pt_pc s i \<in> {At_flag_load, At_turn_load}" and b: "b + 1 < 2 ^ 63"
    and m: "moves (b + 1) i th s s1" "pt_w s1 = upd_th i (\<lambda>_. th) (pt_w s)" "pt_pc s1 = pt_pc s"
    and c: "\<And>j. j < 2 \<Longrightarrow> same_cell (pt_flag s j) (pt_flag s1 j)" "same_cell (pt_turn s) (pt_turn s1)" "pt_data s1 = pt_data s"
    and e: "pt_piece p ans i (pt_pc s i) s = (if stay then Inr (q, s1) else pt_enter i s1)"
    and q: "q \<in> {At_flag_load, At_turn_load, At_yield}"
    and first: "\<And>f. os = [f, i] \<Longrightarrow> \<not> stay \<Longrightarrow> pt_pc s f = At_end \<and> data_ts s f \<le> acq_rel_order th f"
  shows "good_piece p b ans i s"
proof (cases stay)
  case True
  have th: "th_ok 2 (b + 1) i th" using m(1) by (simp add: moves_def)
  have "b + 1 \<le> b + 2" by simp
  then have th2: "th_ok 2 (b + 2) i th" by (rule th_ok_mono [OF th])
  then have "moves (b + 2) i th s (s1\<lparr>pt_pc := (pt_pc s)(i := q)\<rparr>)" using m(1) by (simp add: moves_def)
  then have "pt_inv p (b + 2) os (s1\<lparr>pt_pc := (pt_pc s)(i := q)\<rparr>)"
    by (rule load_quiet [OF inv i q]) (use c in simp_all)
  then show ?thesis using e True q m(2,3) by (intro good_pieceI [of p ans i s q s1 b os th "pt_w s"]) auto
next
  case False
  have q': "pt_pc s i \<in> {At_flag_load, At_turn_load, At_yield}" using i(2) by auto
  have inv1: "pt_inv p (b + 1) os s1"
    by (rule load_quiet [OF inv i q' m(1)]) (use c m(3) in simp_all)
  have dt: "data_ts s1 = data_ts s" by (auto simp: data_ts_def c(3))
  have i1: "pt_pc s1 i \<in> {At_flag_load, At_turn_load}" using i(2) m(3) by simp
  have f1: "pt_pc s1 f = At_end \<and> data_ts s1 f \<le> clk s1 i f" if "os = [f, i]" for f
    using first [OF that False] by (simp add: m(3) dt moves_clk [OF m(1)])
  obtain s' th2 where s': "pt_enter i s1 = Inr (At_leave, s')" "pt_inv p (b + 1 + 1) os (s'\<lparr>pt_pc := (pt_pc s1)(i := At_leave)\<rparr>)"
    "pt_pc s' = pt_pc s1" "pt_w s' = upd_th i (\<lambda>_. th2) (pt_w s1)"
    using enter_step [OF inv1 i(1) i1 b f1] by blast
  have "pt_w s' = upd_th i (\<lambda>_. th2) (pt_w s)" using s'(4) m(2) by (simp add: upd_th_def)
  then show ?thesis using e False s'(1-3) m(3)
    by (intro good_pieceI [of p ans i s At_leave s' b os th2 "pt_w s"]) simp_all
qed

lemma rec_at_small: "rec_at var 1 = history var 1" "rec_at var 2 = history var 2" "rec_at var 3 = history var 0"
  using rec_at_nat [of 1 var] rec_at_nat [of 2 var] rec_at_nat [of 3 var] by simp_all

lemma wrote_known: "wrote s x m i v \<Longrightarrow> m < 2 ^ 32 \<Longrightarrow> acq_rel_timestamp (history (c_impl x) (m mod 3)) \<le> acq_rel_order th i \<Longrightarrow>
    \<not> passable n mo th (c_impl x) (of_nat m)"
  by (rule known_not_passable) (simp add: rec_at_nat wrote_def Let_def)

lemma zeroed_known: "zeroed s x \<Longrightarrow> i < 2 \<Longrightarrow> \<not> passable n mo (cx_threads (pt_w s) i) (c_impl x) (of_nat 1)"
proof -
  assume z: "zeroed s x" "i < 2"
  have "rec_at (c_impl x) (of_nat 1) = history (c_impl x) 1" using rec_at_nat [of 1 "c_impl x"] by simp
  then show ?thesis using z by (intro known_not_passable) (auto simp: zeroed_def Let_def clk_def)
qed

lemma flag_load_piece:
  assumes inv: "pt_inv p b os s" and p: "passing p" and i: "i < 2" "pt_pc s i = At_flag_load" and b: "b + 1 < 2 ^ 63"
  shows "good_piece p b ans i s"
proof -
  define j where "j = 1 - i"
  have j: "j < 2" "j \<noteq> i" using i(1) unfolding j_def by arith+
  have jj: "Suc 0 - i = j" by (simp add: j_def)
  let ?w = "pt_w s" and ?t = "cx_threads (pt_w s) i" and ?x = "pt_flag s j" and ?m = "flag_recs (pt_pc s j)"
  have w: "world_inv b s" and fl: "flag_inv p b s j" and tu: "turn_inv b os s" and o: "order_inv p os s"
    using inv j(1) by (simp_all add: pt_inv_def)
  have t: "th_ok 2 b i ?t" "cx_n ?w = 2" "\<not> invariant_executing ?w" using w i(1) by (auto simp: world_inv_def Let_def)
  have x: "cell_ok b ?m ?x" "zeroed s ?x" "?m \<noteq> 1 \<Longrightarrow> wrote s ?x 2 j 1" "?m = 3 \<Longrightarrow> wrote s ?x 3 j 0"
    "sc p \<Longrightarrow> ?m \<noteq> 1 \<Longrightarrow> seq_cst (history (c_impl ?x) 2)" "sc p \<Longrightarrow> ?m = 3 \<Longrightarrow> seq_cst (history (c_impl ?x) 0)"
    "?m = 3 \<Longrightarrow> data_ts s j \<le> h_acq_rel_order (history (c_impl ?x) 0) j"
    using fl by (simp_all add: flag_inv_def Let_def)
  have m: "1 \<le> ?m" "?m \<le> 3" "?m = 3 \<longleftrightarrow> pt_pc s j = At_end" "past_turn (pt_pc s j) \<Longrightarrow> ?m \<noteq> 1"
    by (auto simp: phase_defs)
  have busy: "busy (rec_at (c_impl ?x) (of_nat k))" if k: "1 \<le> k" "k \<le> ?m" for k
  proof -
    have "k = 1 \<or> k = 2 \<or> k = 3" using k m(2) by arith
    then show ?thesis using x(2-4) k m(1,2) by (auto simp: rec_at_small zeroed_def wrote_def Let_def)
  qed
  obtain l where l: "1 \<le> l" "l \<le> ?m" "\<not> passable 2 (flag_mo p) ?t (c_impl ?x) (of_nat l)" "os = [j, i] \<Longrightarrow> l \<noteq> 1"
  proof (cases "os = [j, i]")
    case True
    then have "j \<in> set os" by simp
    then have m1: "?m \<noteq> 1" using tu m(4) by (simp add: turn_inv_def)
    have "handed (pt_pc s i)" by (simp add: i(2) phase_defs)
    then have h: "sc p \<or> flag_ts s j \<le> clk s i j" using o True by (simp add: order_inv_def)
    show ?thesis
    proof (cases "sc p")
      case False
      have "\<not> passable 2 (flag_mo p) ?t (c_impl ?x) (of_nat 2)"
        by (rule wrote_known [OF x(3) [OF m1]]) (use h False in \<open>simp_all add: flag_ts_def clk_def\<close>)
      then show ?thesis using that [of 2] m(1) m1 by simp
    next
      case sc: True
      have "?m = 2 \<or> ?m = 3" using m(1,2) m1 by arith
      then have "seq_cst (rec_at (c_impl ?x) (of_nat ?m))" using x(5,6) [OF sc] by (auto simp: rec_at_small)
      then have "\<not> passable 2 (flag_mo p) ?t (c_impl ?x) (of_nat ?m)" using sc by (simp add: passable_def sc_def Let_def)
      then show ?thesis using that [of ?m] m(1) m1 by simp
    qed
  next
    case False
    have "\<not> passable 2 (flag_mo p) ?t (c_impl ?x) (of_nat 1)" by (rule zeroed_known [OF x(2) i(1)])
    then show ?thesis using that [of 1] m(1) False by simp
  qed
  have c: "sig_ok cell_magic (c_sign ?x)" "current_index (c_impl ?x) = of_nat ?m" "recs_ok 2 b (c_impl ?x)"
    using x(1) by (simp_all add: cell_ok_def)
  have b1: "b < 2 ^ 63" using b by simp
  have mo: "flag_mo p \<in> {mo_relaxed, mo_acquire, mo_seq_cst}" "synch_acquire (flag_mo p)"
    using p by (auto simp: passing_def synch_acquire_def)
  have bl: "\<And>k. l \<le> k \<Longrightarrow> k \<le> ?m \<Longrightarrow> busy (rec_at (c_impl ?x) (of_nat k))" using busy l(1) by auto
  obtain r th x' a where r: "cell_load 2 False (is_random_sched ?w) (flag_mo p) answers ?t ?x ans = Inr (c_history ?x (r mod 3), th, x', a)"
    "l \<le> r" "r \<le> ?m" "same_cell ?x x'" "th_ok 2 (b + 1) i th" "vle 2 (acq_rel_order ?t) (acq_rel_order th)"
    "vle 2 (h_acq_rel_order (rec_at (c_impl ?x) (of_nat r))) (acq_rel_order th)"
    using cell_load_step [OF c(1,2) l(1,2) m(2) bl l(3) t(1) i(1) b1 c(3) mo(1), of "is_random_sched ?w" ans] mo(2) by blast
  define s1 where "s1 = (set_thread i th s)\<lparr>pt_flag := (pt_flag s)(j := x')\<rparr>"
  have s1: "pt_w s1 = upd_th i (\<lambda>_. th) ?w" "pt_pc s1 = pt_pc s" "pt_turn s1 = pt_turn s" "pt_data s1 = pt_data s"
    "pt_flag s1 = (pt_flag s)(j := x')"
    by (simp_all add: s1_def set_thread_def)
  have "r = 1 \<or> r = 2 \<or> r = 3" using r(2,3) l(1) m(2) by arith
  then have v: "c_history ?x (r mod 3) = (if r = 2 then 1 else 0)"
    using x(2-4) r(3) m(1,2) by (auto simp: zeroed_def wrote_def Let_def)
  show ?thesis
  proof (rule after_load [OF inv i(1) _ b _ s1(1,2)])
    show "pt_pc s i \<in> {At_flag_load, At_turn_load}" by (simp add: i(2))
    show "moves (b + 1) i th s s1" using r(5,6) by (simp add: moves_def s1 clk_def)
    show "same_cell (pt_flag s k) (pt_flag s1 k)" for k using r(4) by (simp add: s1)
    show "pt_piece p ans i (pt_pc s i) s = (if r = 2 then Inr (At_turn_load, s1) else pt_enter i s1)"
      using r(1) t(2,3) v by (simp add: i(2) Let_def jj s1_def)
    show "pt_pc s f = At_end \<and> data_ts s f \<le> acq_rel_order th f" if "os = [f, i]" "r \<noteq> 2" for f
    proof -
      have "f \<in> set os" "f \<noteq> i" using tu that(1) by (auto simp: turn_inv_def)
      then have f: "f = j" using tu i(1) j by (auto simp: turn_inv_def j_def)
      then have r3: "r = 3" "?m = 3" using l(4) that r(2,3) l(1) m(2) by auto
      then have "data_ts s j \<le> h_acq_rel_order (rec_at (c_impl ?x) (of_nat r)) j" using x(7) by (simp add: rec_at_small)
      also have "\<dots> \<le> acq_rel_order th j" using r(7) j(1) by (simp add: vle_def)
      finally show ?thesis using r3(2) m(3) f by simp
    qed
  qed (simp_all add: s1)
qed

lemma turn_load_piece:
  assumes inv: "pt_inv p b os s" and p: "passing p" and i: "i < 2" "pt_pc s i = At_turn_load" and b: "b + 1 < 2 ^ 63"
  shows "good_piece p b ans i s"
proof -
  let ?w = "pt_w s" and ?t = "cx_threads (pt_w s) i" and ?x = "pt_turn s" and ?m = "Suc (length os)"
  have w: "world_inv b s" and tu: "turn_inv b os s" using inv by (simp_all add: pt_inv_def)
  have t: "th_ok 2 b i ?t" "cx_n ?w = 2" "\<not> invariant_executing ?w" using w i(1) by (auto simp: world_inv_def Let_def)
  have x: "cell_ok b ?m ?x" "zeroed s ?x" "\<And>k. k < length os \<Longrightarrow> wrote s ?x (k + 2) (os ! k) (of_nat (1 - os ! k))"
    and os: "distinct os" "set os = {i. i < 2 \<and> past_turn (pt_pc s i)}"
    using tu by (simp_all add: turn_inv_def)
  have "i \<in> set os" using os(2) i by (simp add: past_turn_def)
  then obtain n where n: "n < length os" "os ! n = i" by (auto simp: in_set_conv_nth)
  have "k = 0 \<or> k = 1" if "k < 2" for k :: nat using that by arith
  then have "set os \<subseteq> {0, 1}" using os(2) by blast
  then have len: "length os \<le> 2" using distinct_card [OF os(1)] card_mono [of "{0, 1 :: nat}" "set os"] by simp
  have busy: "busy (rec_at (c_impl ?x) (of_nat k))" if k: "n + 2 \<le> k" "k \<le> ?m" for k
  proof -
    have "k - 2 < length os" "k - 2 + 2 = k" using k by auto
    then have "wrote s ?x k (os ! (k - 2)) (of_nat (1 - os ! (k - 2)))" using x(3) [of "k - 2"] by metis
    then show ?thesis using k len by (simp add: rec_at_nat wrote_def Let_def)
  qed
  have own: "wrote s ?x (n + 2) i (of_nat (1 - i))" using x(3) [OF n(1)] unfolding n(2) .
  then have np: "\<not> passable 2 (turn_mo p) ?t (c_impl ?x) (of_nat (n + 2))"
    by (rule wrote_known) (use own n(1) len in \<open>auto simp: wrote_def clk_def Let_def\<close>)
  have c: "sig_ok cell_magic (c_sign ?x)" "current_index (c_impl ?x) = of_nat ?m" "recs_ok 2 b (c_impl ?x)"
    using x(1) by (simp_all add: cell_ok_def)
  have l: "1 \<le> n + 2" "n + 2 \<le> ?m" "?m \<le> 3" using n(1) len by simp_all
  have b1: "b < 2 ^ 63" using b by simp
  have mo: "turn_mo p \<in> {mo_relaxed, mo_acquire, mo_seq_cst}" using p by (auto simp: passing_def)
  obtain r th x' a where r: "cell_load 2 False (is_random_sched ?w) (turn_mo p) answers ?t ?x ans = Inr (c_history ?x (r mod 3), th, x', a)"
    "n + 2 \<le> r" "r \<le> ?m" "same_cell ?x x'" "th_ok 2 (b + 1) i th" "vle 2 (acq_rel_order ?t) (acq_rel_order th)"
    using cell_load_step [OF c(1,2) l busy np t(1) i(1) b1 c(3) mo, of "is_random_sched ?w" ans] by blast
  define s1 where "s1 = (set_thread i th s)\<lparr>pt_turn := x'\<rparr>"
  have s1: "pt_w s1 = upd_th i (\<lambda>_. th) ?w" "pt_pc s1 = pt_pc s" "pt_turn s1 = x'" "pt_data s1 = pt_data s" "pt_flag s1 = pt_flag s"
    by (simp_all add: s1_def set_thread_def)
  show ?thesis
  proof (rule after_load [OF inv i(1) _ b _ s1(1,2)])
    show "pt_pc s i \<in> {At_flag_load, At_turn_load}" by (simp add: i(2))
    show "moves (b + 1) i th s s1" using r(5,6) by (simp add: moves_def s1 clk_def)
    show "same_cell (pt_turn s) (pt_turn s1)" using r(4) by (simp add: s1)
    show "pt_piece p ans i (pt_pc s i) s = (if c_history ?x (r mod 3) = of_nat (1 - i)
        then Inr (if yields p then At_yield else At_flag_load, s1) else pt_enter i s1)"
      using r(1) t(2,3) by (simp add: i(2) Let_def s1_def del: of_nat_diff)
    show "(if yields p then At_yield else At_flag_load) \<in> {At_flag_load, At_turn_load, At_yield}" by simp
    show "pt_pc s f = At_end \<and> data_ts s f \<le> acq_rel_order th f"
      if f: "os = [f, i]" "c_history ?x (r mod 3) \<noteq> of_nat (1 - i)" for f
    proof -
      have "f \<noteq> i" using os(1) f(1) by auto
      then have "n = 1" using n f(1) by (cases n) auto
      then have "r = 3" using r(2,3) f(1) by simp
      then show ?thesis using own f(2) \<open>n = 1\<close> by (simp add: wrote_def Let_def del: of_nat_diff)
    qed
  qed (simp_all add: s1)
qed

section \<open>Runs\<close>

definition fence_pcs :: "protocol \<Rightarrow> pet \<Rightarrow> bool" where
  "fence_pcs p s \<longleftrightarrow> (\<forall>i. pt_pc s i \<in> {At_fence1, At_fence2} \<longrightarrow> fences p)"

lemma piece_fence: "pt_piece p ans i q s = Inr (q', s') \<Longrightarrow> q' \<in> {At_fence1, At_fence2} \<Longrightarrow> fences p"
  by (cases q) (auto simp: fault_inv pt_enter_def Let_def split: if_splits)

lemma piece_ok:
  assumes "pt_inv p b os s" "passing p" "fence_pcs p s" "i < 2" "cur (pt_w s) = i" "pt_pc s i \<noteq> At_end" "b + 1 < 2 ^ 63"
  shows "good_piece p b ans i s"
proof (cases "pt_pc s i")
  case At_start
  then show ?thesis using start_piece [of p b os s i ans] assms by simp
next
  case At_flag
  then show ?thesis using flag_piece [of p b os s i ans] assms by simp
next
  case At_fence1
  then have "fences p" using assms(3) unfolding fence_pcs_def by blast
  then show ?thesis using fence_piece [of p b os s i At_turn ans] assms At_fence1 by simp
next
  case At_turn
  then show ?thesis using turn_piece [of p b os s i ans] assms by simp
next
  case At_fence2
  then have "fences p" using assms(3) unfolding fence_pcs_def by blast
  then show ?thesis using fence_piece [of p b os s i At_flag_load ans] assms At_fence2 by simp
next
  case At_flag_load
  then show ?thesis using flag_load_piece [of p b os s i ans] assms by simp
next
  case At_turn_load
  then show ?thesis using turn_load_piece [of p b os s i ans] assms by simp
next
  case At_yield
  then show ?thesis using yield_piece [of p b os s i ans] assms by simp
next
  case At_leave
  then show ?thesis using leave_piece [of p b os s i ans] assms by simp
qed (use assms in simp)

text \<open>The invariant does not look at what the scheduler changes.\<close>

definition same_world :: "world \<Rightarrow> world \<Rightarrow> bool" where
  "same_world w w' \<longleftrightarrow> cx_n w' = cx_n w \<and> invariant_executing w' = invariant_executing w \<and>
     seq_cst_fence_order w' = seq_cst_fence_order w \<and>
     (\<forall>i. \<exists>y. cx_threads w' i = (cx_threads w i)\<lparr>last_yield := y\<rparr>)"

lemma inv_same_world:
  assumes "pt_inv p b os s" "same_world (pt_w s) w'"
  shows "pt_inv p b os (s\<lparr>pt_w := w'\<rparr>)"
proof -
  let ?s = "s\<lparr>pt_w := w'\<rparr>"
  have t: "\<exists>y. cx_threads w' i = (cx_threads (pt_w s) i)\<lparr>last_yield := y\<rparr>" for i
    using assms(2) by (simp add: same_world_def)
  have c: "clk ?s i = clk s i" for i using t [of i] by (auto simp: clk_def)
  have f: "fence_clk ?s = fence_clk s" using assms(2) by (simp add: fence_clk_def same_world_def)
  have w: "world_inv b s" using assms(1) by (simp add: pt_inv_def)
  have "world_inv b ?s"
    unfolding world_inv_def f
  proof (intro conjI allI impI)
    show "cx_n (pt_w ?s) = 2" "\<not> invariant_executing (pt_w ?s)" "bounded 2 b (fence_clk s)"
      using w assms(2) by (simp_all add: world_inv_def same_world_def)
    fix i :: nat assume "i < 2"
    then show "let t = cx_threads (pt_w ?s) i in th_ok 2 b i t \<and> (pt_pc ?s i = At_start \<longrightarrow>
        bounded 2 b (so_sync t) \<and> temp_switch_from t = -1 \<and> saved_disable_preemption t = -1 \<and> \<not> so_finished t)"
      using w t [of i] by (auto simp: world_inv_def th_ok_def Let_def)
  qed
  then show ?thesis using assms(1)
    by (simp add: pt_inv_def flag_inv_def turn_inv_def order_inv_def data_inv_def zeroed_def wrote_def flag_ts_def data_ts_def c f)
qed

lemma same_world_steps:
  "same_world w (switch_to_fiber i w)" "same_world w (w\<lparr>sched_count := k\<rparr>)"
  "same_world w (upd_cur (\<lambda>t. t\<lparr>last_yield := own_order t\<rparr>) (w\<lparr>sched_count := k\<rparr>))"
proof -
  have self: "\<exists>y. t = t\<lparr>last_yield := y\<rparr>" for t :: thread_info by (rule exI [of _ "last_yield t"]) simp
  show "same_world w (switch_to_fiber i w)" "same_world w (w\<lparr>sched_count := k\<rparr>)"
    using self by (simp_all add: same_world_def switch_to_fiber_def)
  show "same_world w (upd_cur (\<lambda>t. t\<lparr>last_yield := own_order t\<rparr>) (w\<lparr>sched_count := k\<rparr>))"
    using self by (auto simp: same_world_def upd_cur_def upd_th_def)
qed

text \<open>A step goes through, or the detector gives up after the allowed number of calls.\<close>

definition ended :: "pet \<Rightarrow> nat" where
  "ended s = of_bool (pt_pc s 0 = At_end) + of_bool (pt_pc s 1 = At_end)"

definition run_inv :: "protocol \<Rightarrow> nat \<Rightarrow> pet \<Rightarrow> bool" where
  "run_inv p lim s \<longleftrightarrow> passing p \<and> fence_pcs p s \<and> execution_depth_limit (cx_params (pt_w s)) = lim \<and>
     sched_count (pt_w s) \<le> lim + 1 \<and> (\<exists>b os. pt_inv p b os s \<and> b \<le> 10 + 2 * sched_count (pt_w s) + 2 * ended s)"

lemma pieces_ok:
  assumes inv: "pt_inv p b os s" and p: "passing p" "fence_pcs p s" and i: "i < 2" "pt_pc s i \<noteq> At_end" and b: "b + 1 < 2 ^ 63"
  obtains q s1 os' where "pt_step p ans i s = pt_next i q s1" "pt_inv p (b + 2) os' (s1\<lparr>pt_pc := (pt_pc s)(i := q)\<rparr>)"
    "pt_pc s1 = pt_pc s" "fence_pcs p (s1\<lparr>pt_pc := (pt_pc s)(i := q)\<rparr>)"
    "sched_count (pt_w s1) = sched_count (pt_w s)" "cx_params (pt_w s1) = cx_params (pt_w s)"
proof -
  let ?s0 = "s\<lparr>pt_w := switch_to_fiber i (pt_w s)\<rparr>"
  have "good_piece p b ans i ?s0"
    by (rule piece_ok [OF inv_same_world [OF inv same_world_steps(1)]]) (use p i b in \<open>simp_all add: fence_pcs_def cur_def switch_to_fiber_def\<close>)
  then obtain q s1 os1 where s1: "pt_piece p ans i (pt_pc s i) ?s0 = Inr (q, s1)"
    "pt_inv p (b + 2) os1 (s1\<lparr>pt_pc := (pt_pc s)(i := q)\<rparr>)" "pt_pc s1 = pt_pc s"
    "sched_count (pt_w s1) = sched_count (pt_w s)" "cx_params (pt_w s1) = cx_params (pt_w s)"
    by (auto simp: good_piece_def switch_to_fiber_def cur_def)
  show thesis
  proof (rule that)
    show "pt_step p ans i s = pt_next i q s1" using s1(1) by (simp add: pt_step_def)
    show "fence_pcs p (s1\<lparr>pt_pc := (pt_pc s)(i := q)\<rparr>)" using p(2) piece_fence [OF s1(1)] by (auto simp: fence_pcs_def)
  qed (use s1 in simp_all)
qed

lemma step_ok:
  assumes inv: "run_inv p lim s" and i: "i < 2" "pt_pc s i \<noteq> At_end" and lim: "lim < 2 ^ 32"
  shows "pt_step p ans i s = Inl (Test_failed result_livelock) \<and> lim < sched_count (pt_w s) \<or>
    (\<exists>s'. pt_step p ans i s = Inr s' \<and> run_inv p lim s')"
proof -
  obtain b os where b: "pt_inv p b os s" "b \<le> 10 + 2 * sched_count (pt_w s) + 2 * ended s" and p: "passing p" "fence_pcs p s"
    and l: "execution_depth_limit (cx_params (pt_w s)) = lim" "sched_count (pt_w s) \<le> lim + 1"
    using inv by (auto simp: run_inv_def)
  have e2: "ended s \<le> 2" by (simp add: ended_def)
  have bb: "b + 1 < 2 ^ 63" using b(2) l(2) lim e2 by simp
  obtain q s1 os' where step: "pt_step p ans i s = pt_next i q s1"
    and s1: "pt_inv p (b + 2) os' (s1\<lparr>pt_pc := (pt_pc s)(i := q)\<rparr>)" "pt_pc s1 = pt_pc s"
    and fp: "fence_pcs p (s1\<lparr>pt_pc := (pt_pc s)(i := q)\<rparr>)"
    and w1: "sched_count (pt_w s1) = sched_count (pt_w s)" "cx_params (pt_w s1) = cx_params (pt_w s)"
    by (rule pieces_ok [OF b(1) p i bb])
  let ?s1 = "s1\<lparr>pt_pc := (pt_pc s)(i := q)\<rparr>"
  have mono: "ended s \<le> ended ?s1" "q = At_end \<Longrightarrow> ended ?s1 = Suc (ended s)"
    using i by (auto simp: ended_def less_2_cases_iff)
  show ?thesis
  proof (cases "q = At_end")
    case True
    then have "pt_step p ans i s = Inr ?s1" using s1(2) by (simp add: step pt_next_def)
    moreover have "run_inv p lim ?s1"
      unfolding run_inv_def using p(1) fp l s1(1) w1 b(2) mono(2) [OF True]
      by (intro conjI exI [of _ "b + 2"] exI [of _ os']) simp_all
    ultimately show ?thesis by blast
  next
    case False
    let ?w = "(pt_w s1)\<lparr>sched_count := sched_count (pt_w s1) + 1\<rparr>"
    let ?w' = "if q = At_yield then upd_cur (\<lambda>t. t\<lparr>last_yield := own_order t\<rparr>) ?w else ?w"
    show ?thesis
    proof (cases "sched_count (pt_w s1) \<le> execution_depth_limit (cx_params (pt_w s1))")
      case True
      then have "count_sched (pt_w s1) = Inr ?w" by (simp add: count_sched_step)
      then have r: "pt_step p ans i s = Inr (?s1\<lparr>pt_w := ?w'\<rparr>)" using False s1(2) by (simp add: step pt_next_def)
      have "same_world (pt_w ?s1) ?w'" using same_world_steps(2,3) [of "pt_w s1"] by simp
      from inv_same_world [OF s1(1) this] have "pt_inv p (b + 2) os' (?s1\<lparr>pt_w := ?w'\<rparr>)" .
      moreover have "sched_count ?w' = sched_count (pt_w s) + 1" "cx_params ?w' = cx_params (pt_w s)"
        using w1 by (auto simp: upd_cur_def upd_th_def)
      ultimately have "run_inv p lim (?s1\<lparr>pt_w := ?w'\<rparr>)"
        unfolding run_inv_def using p(1) fp l w1 b(2) mono(1) True
        by (intro conjI exI [of _ "b + 2"] exI [of _ os']) (simp_all add: fence_pcs_def ended_def)
      with r show ?thesis by blast
    next
      case over: False
      then have "count_sched (pt_w s1) = Inl (Test_failed result_livelock)" by (simp add: count_sched_def livelock_fails Let_def)
      then show ?thesis using False over l(1) w1 by (simp add: step pt_next_def)
    qed
  qed
qed

lemma run_ok:
  assumes "pt_run p s0 s" "\<And>i. p i = p 0" "run_inv (p 0) lim s0" "lim < 2 ^ 32"
  shows "run_inv (p 0) lim s"
  using assms(1,3)
proof (induction rule: pt_run.induct)
  case (run_step s i ans s')
  then have "run_inv (p 0) lim s" by simp
  from step_ok [OF this run_step.hyps(2,3) assms(4), of ans] show ?case using run_step.hyps(4) assms(2) [of i] by auto
qed

text \<open>Mutual exclusion.\<close>

lemma inv_exclusive:
  assumes "pt_inv p b os s"
  shows "\<not> (pt_pc s 0 = At_leave \<and> pt_pc s 1 = At_leave)"
proof
  assume l: "pt_pc s 0 = At_leave \<and> pt_pc s 1 = At_leave"
  have "turn_inv b os s" "order_inv p os s" using assms by (simp_all add: pt_inv_def)
  moreover from this have "os = [0, 1] \<or> os = [1, 0]"
    using two_writers [of b os s 0 1] l by (simp add: past_turn_def)
  ultimately show False using l by (auto simp: order_inv_def stored_def)
qed

section \<open>The start\<close>

definition fresh_world :: "nat \<Rightarrow> world \<Rightarrow> bool" where
  "fresh_world b w \<longleftrightarrow> cx_n w = 2 \<and> \<not> invariant_executing w \<and> bounded 2 b (seq_cst_fence_order w) \<and>
     (\<forall>i<2. let t = cx_threads w i
        in th_ok 2 b i t \<and> bounded 2 b (so_sync t) \<and> temp_switch_from t = -1 \<and> saved_disable_preemption t = -1 \<and> \<not> so_finished t)"

text \<open>Every iteration begins like this.\<close>

lemma iteration_fresh:
  assumes "iteration iter c = Inr w" "cx_n c = 2" "\<And>i. i < 2 \<Longrightarrow> th_index (cx_threads c i) = i" "\<not> invariant_executing c"
    "sched_idle (cx_sched c)" "s_n (cx_sched c) = 2"
  shows "fresh_world 1 w" "sched_count w = 0" "cx_params w = cx_params c" "cur w < 2"
proof -
  let ?f = "thread_iteration_begin 2"
  let ?c0 = "c\<lparr>first_thread := True, disable_preempt := 0, sched_count := 0,
     cx_threads := (\<lambda>i. if i < 2 then reset_thread 2 (cx_threads c i) else cx_threads c i),
     seq_cst_fence_order := foreach1 2 (seq_cst_fence_order c) assign_zero\<rparr>"
  let ?c1 = "tls_iteration_begin ?c0"
  have u: "[0..<2] = [0, 1 :: nat]" by (simp add: upt_conv_Cons)
  have n: "cx_n ?c1 = 2" using assms(2) by (simp add: tls_iteration_begin_def addr_hash_iteration_begin_def Let_def)
  obtain c2 th s where r: "rfold (\<lambda>i c. rl_verify (waitsets c (so_ws (cx_threads c i)) = [])
      (Inr (upd_th i (thread_iteration_begin (cx_n c)) c))) [0, 1] ?c1 = Inr c2"
    and w: "w = switch_to_fiber th (c2\<lparr>cx_sched := s\<rparr>)"
    and b: "sched_iteration_begin iter (cx_sched c2) = Inr (th, s)"
  proof -
    have i: "iteration iter c = rbind (rfold (\<lambda>i c. rl_verify (waitsets c (so_ws (cx_threads c i)) = [])
      (Inr (upd_th i (thread_iteration_begin (cx_n c)) c))) [0, 1] ?c1) (\<lambda>c.
           rbind (sched_iteration_begin iter (cx_sched c)) (\<lambda>(th, s). Inr (switch_to_fiber th (c\<lparr>cx_sched := s\<rparr>))))"
      unfolding iteration_def Let_def assms(2) n u by (rule refl)
    show ?thesis using assms(1) that unfolding i rbind_Inr split_paired_Ex prod.case sum.inject by metis
  qed
  have c2: "c2 = upd_th 1 ?f (upd_th 0 ?f ?c1)"
    using r n by (auto simp: fault_inv)
  have t: "cx_threads w i = ?f (reset_thread 2 (cx_threads c i))" if "i < 2" for i
    using that by (auto simp: w c2 switch_to_fiber_def tls_iteration_begin_def addr_hash_iteration_begin_def Let_def less_2_cases_iff)
  have p: "cx_n w = 2" "invariant_executing w = invariant_executing c" "sched_count w = 0" "cx_params w = cx_params c"
    "seq_cst_fence_order w = foreach1 2 (seq_cst_fence_order c) assign_zero"
    using assms(2) by (simp_all add: w c2 switch_to_fiber_def tls_iteration_begin_def addr_hash_iteration_begin_def Let_def)
  then show "sched_count w = 0" "cx_params w = cx_params c" by simp_all
  have "cx_sched c2 = cx_sched c" by (simp add: c2 upd_th_def tls_iteration_begin_def addr_hash_iteration_begin_def Let_def)
  then have "th < 2" using iteration_begin_tot [OF assms(5), of False iter] b assms(6) by (auto simp: tot_def)
  then show "cur w < 2" by (simp add: w switch_to_fiber_def cur_def)
  have "th_ok 2 1 i (cx_threads w i)" "bounded 2 1 (so_sync (cx_threads w i))" "temp_switch_from (cx_threads w i) = -1"
    "saved_disable_preemption (cx_threads w i) = -1" "\<not> so_finished (cx_threads w i)" if "i < 2" for i
    using assms(3) [OF that] that
    by (simp_all add: t th_ok_def bounded_def thread_iteration_begin_def reset_thread_def clock_simps)
  then show "fresh_world 1 w" using p assms(4) by (simp add: fresh_world_def bounded_def clock_simps Let_def)
qed

lemma store_thread:
  assumes "cell_store n ie mo th x v = Inr (th', x')"
  shows "\<exists>v. th' = th\<lparr>acq_rel_order := v\<rparr>"
  using assms
  by (auto simp: cell_store_def store_impl_def atomic_store_def rl_verify_Inr fault_inv Let_def split: memory_order.splits)

text \<open>After \<open>c\<close> of the stores of \<open>before()\<close>, which thread \<open>k\<close> runs.\<close>

definition zeroing :: "nat \<Rightarrow> nat \<Rightarrow> world \<Rightarrow> world \<Rightarrow> bool" where
  "zeroing k c w0 w \<longleftrightarrow> cx_n w = 2 \<and> \<not> invariant_executing w \<and> cur w = k \<and> sched_count w = c \<and> cx_params w = cx_params w0 \<and>
     seq_cst_fence_order w = seq_cst_fence_order w0 \<and> th_ok 2 (c + 1) k (cx_threads w k) \<and>
     (\<exists>v. cx_threads w k = (cx_threads w0 k)\<lparr>acq_rel_order := v\<rparr>) \<and> (\<forall>j. j \<noteq> k \<longrightarrow> cx_threads w j = cx_threads w0 j)"

definition unwritten :: "32 word cell \<Rightarrow> bool" where
  "unwritten x \<longleftrightarrow> sig_ok cell_magic (c_sign x) \<and> current_index (c_impl x) = 0 \<and>
     \<not> busy (history (c_impl x) 0) \<and> \<not> busy (history (c_impl x) 2)"

definition zero_by :: "nat \<Rightarrow> timestamp \<Rightarrow> 32 word cell \<Rightarrow> bool" where
  "zero_by k m x \<longleftrightarrow> busy (history (c_impl x) 1) \<and> h_thread_id (history (c_impl x) 1) = int k \<and>
     acq_rel_timestamp (history (c_impl x) 1) \<le> m \<and> c_history x 1 = 0"

lemma zero_step:
  assumes z: "zeroing k c w0 w" "k < 2" "c \<le> 2" "2 \<le> execution_depth_limit (cx_params w0)" and x: "unwritten x"
  shows "\<exists>x' w'. pt_zero x w = Inr (x', w') \<and> zeroing k (c + 1) w0 w' \<and> cell_ok 4 1 x' \<and>
     zero_by k (acq_rel_order (cx_threads w' k) k) x' \<and> acq_rel_order (cx_threads w k) k \<le> acq_rel_order (cx_threads w' k) k"
proof -
  let ?t = "cx_threads w k"
  have c: "current_index (c_impl x) = of_nat 0" "recs_ok_but 2 (c + 1) (Suc 0 mod 3) (c_impl x)"
  proof -
    have "k = 0 \<or> k = 2" if "k < 3" "k \<noteq> 1" for k :: nat using that by arith
    then show "recs_ok_but 2 (c + 1) (Suc 0 mod 3) (c_impl x)" using x by (auto simp: recs_ok_but_def unwritten_def)
  qed (use x in \<open>simp add: unwritten_def\<close>)
  have t: "th_ok 2 (c + 1) k ?t" using z(1) by (simp add: zeroing_def)
  have s: "sig_ok cell_magic (c_sign x)" and b: "c + 1 < 2 ^ 63" using x z(3) by (simp_all add: unwritten_def)
  obtain th x' where r: "cell_store 2 False mo_seq_cst ?t x 0 = Inr (th, x')"
    "appended 2 k mo_seq_cst 0 0 ?t th x x'" "th_ok 2 (c + 2) k th" "recs_ok 2 (c + 2) (c_impl x')"
    "vle 2 (acq_rel_order ?t) (acq_rel_order th)"
    using cell_store_step [OF s c(1) _ t z(2) b c(2), of mo_seq_cst 0] by auto
  define w' where "w' = upd_th k (\<lambda>_. th) (w\<lparr>sched_count := sched_count w + 1\<rparr>)"
  have "count_sched w = Inr (w\<lparr>sched_count := sched_count w + 1\<rparr>)" using z by (simp add: count_sched_step zeroing_def)
  then have "pt_zero x w = Inr (x', w')"
    using r(1) z(1) by (simp add: zeroing_def pt_zero_def cell_assign_def cur_thread_def upd_cur_def cur_def w'_def)
  moreover have "zeroing k (c + 1) w0 w'"
    using z(1) r(3) store_thread [OF r(1)] by (auto simp: zeroing_def w'_def cur_def) (auto simp: upd_th_def)
  moreover have "cx_threads w' k = th" by (simp add: w'_def)
  moreover have "bounded 2 (c + 2) v \<Longrightarrow> bounded 2 4 v" for v using z(3) by (erule_tac bounded_mono) simp
  then have "cell_ok 4 1 x'" using r(2,4) s by (auto simp: cell_ok_def appended_def recs_ok_def)
  moreover have "zero_by k (acq_rel_order th k) x'" using r(2) by (simp add: appended_def zero_by_def Let_def)
  moreover have "acq_rel_order ?t k \<le> acq_rel_order th k" using r(5) z(2) by (simp add: vle_def)
  ultimately show ?thesis by metis
qed

lemma global_fence_threads:
  assumes "cx_n w = 2"
  obtains m where "\<And>j. j < 2 \<Longrightarrow> acq_rel_order (cx_threads w j) j \<le> m"
    "m = 0 \<or> (\<exists>j<2. m = acq_rel_order (cx_threads w j) j)"
    "\<And>i. i < 2 \<Longrightarrow> cx_threads (rl_global_fence w) i =
       (cx_threads w i)\<lparr>acq_rel_order := (\<lambda>j. if j < 2 then m else acq_rel_order (cx_threads w i) j)\<rparr>"
proof -
  let ?a = "\<lambda>i. acq_rel_order (cx_threads w i) i"
  let ?m = "fold (\<lambda>i m. if ?a i > m then ?a i else m) [0..<2] 0"
  have u: "[0..<2] = [0, 1 :: nat]" by (simp add: upt_conv_Cons)
  have "?a 0 \<le> ?m" "?a 1 \<le> ?m" by (auto simp: u not_less intro: order_trans)
  then have "?a j \<le> ?m" if "j < 2" for j using that by (auto simp: less_2_cases_iff)
  moreover have "?m = 0 \<or> ?m = ?a 0 \<or> ?m = ?a 1" by (simp add: u)
  then have "?m = 0 \<or> (\<exists>j<2. ?m = ?a j)" by (auto intro: exI [of _ 0] exI [of _ 1])
  moreover have "cx_threads (rl_global_fence w) i = (cx_threads w i)\<lparr>acq_rel_order := (\<lambda>j. if j < 2 then ?m else acq_rel_order (cx_threads w i) j)\<rparr>"
    if "i < 2" for i using assms that by (simp add: rl_global_fence_def Let_def)
  ultimately show ?thesis by (rule that)
qed

definition address_ok :: "(nat \<Rightarrow> 64 word) \<Rightarrow> bool" where
  "address_ok addr \<longleftrightarrow> (\<forall>a<4. 4096 \<le> addr a \<and> addr a \<le> - 1 - 4096 \<and> addr a mod 4 = 0)"

lemma address_sig: "address_ok addr \<Longrightarrow> a < 4 \<Longrightarrow> sig_ok m (signature_ctor m (addr a))"
  by (simp add: address_ok_def sig_ok_def signature_check_def signature_ctor_def Let_def)

lemma constructed:
  assumes "address_ok addr" "a < 4"
  shows "\<exists>x. cell_ctor 2 False False (addr a) raw_d th raw_c = Inr x \<and> unwritten x"
  using address_sig [OF assms] by (simp add: cell_ctor_def atomic_data_ctor_def atomic_history_size_def unwritten_def Let_def)

lemma zeroed_all:
  assumes f: "fresh_world 1 w" "sched_count w = 0" "2 \<le> execution_depth_limit (cx_params w)" "cur w = k" "k < 2"
    and x: "unwritten x0" "unwritten x1" "unwritten x2"
  obtains y0 y1 y2 w1 w2 w3 where "pt_zero x0 w = Inr (y0, w1)" "pt_zero x1 w1 = Inr (y1, w2)" "pt_zero x2 w2 = Inr (y2, w3)"
    "zeroing k 3 w w3" "cell_ok 4 1 y0" "cell_ok 4 1 y1" "cell_ok 4 1 y2"
    "zero_by k (acq_rel_order (cx_threads w3 k) k) y0" "zero_by k (acq_rel_order (cx_threads w3 k) k) y1"
    "zero_by k (acq_rel_order (cx_threads w3 k) k) y2"
proof -
  have self: "\<exists>v. cx_threads w k = (cx_threads w k)\<lparr>acq_rel_order := v\<rparr>" by (rule exI [of _ "acq_rel_order (cx_threads w k)"]) simp
  have z0: "zeroing k 0 w w" unfolding zeroing_def using f self by (simp add: fresh_world_def Let_def)
  obtain y0 w1 where 1: "pt_zero x0 w = Inr (y0, w1)" "zeroing k 1 w w1" "cell_ok 4 1 y0" "zero_by k (acq_rel_order (cx_threads w1 k) k) y0"
    using zero_step [OF z0 f(5) _ f(3) x(1)] by auto
  obtain y1 w2 where 2: "pt_zero x1 w1 = Inr (y1, w2)" "zeroing k 2 w w2" "cell_ok 4 1 y1" "zero_by k (acq_rel_order (cx_threads w2 k) k) y1"
     "acq_rel_order (cx_threads w1 k) k \<le> acq_rel_order (cx_threads w2 k) k"
    using zero_step [OF 1(2) f(5) _ f(3) x(2)] by (auto simp: numeral_2_eq_2)
  obtain y2 w3 where 3: "pt_zero x2 w2 = Inr (y2, w3)" "zeroing k 3 w w3" "cell_ok 4 1 y2" "zero_by k (acq_rel_order (cx_threads w3 k) k) y2"
     "acq_rel_order (cx_threads w2 k) k \<le> acq_rel_order (cx_threads w3 k) k"
    using zero_step [OF 2(2) f(5) _ f(3) x(3)] by (auto simp: eval_nat_numeral)
  have up: "zero_by k m y \<Longrightarrow> m \<le> m' \<Longrightarrow> zero_by k m' y" for m m' y by (auto simp: zero_by_def)
  show thesis
    by (rule that [OF 1(1) 2(1) 3(1,2) 1(3) 2(3) 3(3) up [OF 1(4)] up [OF 2(4) 3(5)] 3(4)])
      (use 2(5) 3(5) in \<open>rule order_trans\<close>)
qed

lemma init_ok:
  assumes f: "fresh_world 1 w" "sched_count w = 0" "execution_depth_limit (cx_params w) = lim" "2 \<le> lim" "cur w < 2"
    and a: "address_ok addr" and p: "passing p"
  shows "\<exists>s0. pt_init addr raw_d raw_c raw_v w = Inr s0 \<and> run_inv p lim s0 \<and> pt_pc s0 = (\<lambda>_. At_start)"
proof -
  define k where "k = cur w"
  have k: "cur w = k" "k < 2" using f(5) by (simp_all add: k_def)
  have w: "cx_n w = 2" "\<not> invariant_executing w" "bounded 2 1 (seq_cst_fence_order w)"
    "\<And>i. i < 2 \<Longrightarrow> th_ok 2 1 i (cx_threads w i)" "\<And>i. i < 2 \<Longrightarrow> bounded 2 1 (so_sync (cx_threads w i))"
    "\<And>i. i < 2 \<Longrightarrow> temp_switch_from (cx_threads w i) = -1 \<and> saved_disable_preemption (cx_threads w i) = -1 \<and> \<not> so_finished (cx_threads w i)"
    using f(1) by (simp_all add: fresh_world_def Let_def)
  obtain x0 x1 x2 where x: "cell_ctor 2 False False (addr 0) raw_d (cur_thread w) raw_c = Inr x0"
     "cell_ctor 2 False False (addr 1) raw_d (cur_thread w) raw_c = Inr x1"
     "cell_ctor 2 False False (addr 2) raw_d (cur_thread w) raw_c = Inr x2" and u: "unwritten x0" "unwritten x1" "unwritten x2"
    using constructed [OF a, of 0 raw_d "cur_thread w" raw_c] constructed [OF a, of 1 raw_d "cur_thread w" raw_c]
      constructed [OF a, of 2 raw_d "cur_thread w" raw_c] by auto
  have d: "2 \<le> execution_depth_limit (cx_params w)" using f(3,4) by simp
  obtain y0 y1 y2 w1 w2 w3 where z: "pt_zero x0 w = Inr (y0, w1)" "pt_zero x1 w1 = Inr (y1, w2)" "pt_zero x2 w2 = Inr (y2, w3)"
    and w3: "zeroing k 3 w w3" and y: "cell_ok 4 1 y0" "cell_ok 4 1 y1" "cell_ok 4 1 y2"
    "zero_by k (acq_rel_order (cx_threads w3 k) k) y0" "zero_by k (acq_rel_order (cx_threads w3 k) k) y1"
    "zero_by k (acq_rel_order (cx_threads w3 k) k) y2"
    by (rule zeroed_all [OF f(1,2) d k u])
  have n3: "cx_n w3 = 2" "\<not> invariant_executing w3" "sched_count w3 = 3" "cx_params w3 = cx_params w" "seq_cst_fence_order w3 = seq_cst_fence_order w"
    using w3 by (simp_all add: zeroing_def)
  have t3: "th_ok 2 4 i (cx_threads w3 i) \<and> (\<exists>v. cx_threads w3 i = (cx_threads w i)\<lparr>acq_rel_order := v\<rparr>)" if "i < 2" for i
  proof (cases "i = k")
    case False
    then have "cx_threads w3 i = (cx_threads w i)\<lparr>acq_rel_order := acq_rel_order (cx_threads w i)\<rparr>" using w3 by (simp add: zeroing_def)
    moreover from this have "th_ok 2 4 i (cx_threads w3 i)" using th_ok_mono [OF w(4) [OF that], of 4] by simp
    ultimately show ?thesis by blast
  qed (use w3 in \<open>simp add: zeroing_def\<close>)
  obtain m where m: "\<And>j. j < 2 \<Longrightarrow> acq_rel_order (cx_threads w3 j) j \<le> m"
    "m = 0 \<or> (\<exists>j<2. m = acq_rel_order (cx_threads w3 j) j)"
    "\<And>i. i < 2 \<Longrightarrow> cx_threads (rl_global_fence w3) i =
       (cx_threads w3 i)\<lparr>acq_rel_order := (\<lambda>j. if j < 2 then m else acq_rel_order (cx_threads w3 i) j)\<rparr>"
    using global_fence_threads [OF n3(1)] by blast
  have mb: "unat m \<le> 4" using m(2) t3 by (auto simp: th_ok_def bounded_def)
  define s0 where "s0 = \<lparr>pt_w = rl_global_fence w3, pt_flag = (\<lambda>i. if i = (0 :: nat) then y0 else y1), pt_turn = y2,
                pt_data = (var_ctor 2 (addr 3) raw_v :: 32 word var), pt_pc = (\<lambda>_ :: nat. At_start)\<rparr>"
  have i0: "pt_init addr raw_d raw_c raw_v w = Inr s0" using w(1,2) x z n3(1) by (simp add: pt_init_def s0_def)
  have g: "cx_n (pt_w s0) = 2" "\<not> invariant_executing (pt_w s0)" "sched_count (pt_w s0) = 3" "cx_params (pt_w s0) = cx_params w"
    "fence_clk s0 = seq_cst_fence_order w" "pt_pc s0 = (\<lambda>_. At_start)" "pt_turn s0 = y2" "pt_flag s0 i \<in> {y0, y1}"
    "pt_data s0 = var_ctor 2 (addr 3) raw_v" for i
    using n3 by (auto simp: s0_def rl_global_fence_def fence_clk_def Let_def)
  have c: "clk s0 i j = m" if "i < 2" "j < 2" for i j using m(3) [OF that(1)] that(2) by (simp add: clk_def s0_def)
  have wi: "world_inv 4 s0"
    unfolding world_inv_def Let_def
  proof (intro conjI allI impI)
    show "bounded 2 4 (fence_clk s0)" using bounded_mono [OF w(3), of 4] by (simp add: g(5))
    fix i :: nat assume i: "i < 2"
    obtain v where v: "cx_threads w3 i = (cx_threads w i)\<lparr>acq_rel_order := v\<rparr>" using t3 [OF i] by blast
    then have va: "acq_rel_order (cx_threads w3 i) = v" by simp
    have t: "cx_threads (pt_w s0) i = (cx_threads w i)\<lparr>acq_rel_order := (\<lambda>j. if j < 2 then m else v j)\<rparr>"
      using m(3) [OF i] unfolding va by (simp add: s0_def v)
    show "th_ok 2 4 i (cx_threads (pt_w s0) i)" using t3 [OF i] mb v by (auto simp: t th_ok_def bounded_def)
    show "bounded 2 4 (so_sync (cx_threads (pt_w s0) i))" using bounded_mono [OF w(5) [OF i], of 4] by (simp add: t)
    show "temp_switch_from (cx_threads (pt_w s0) i) = - 1" "saved_disable_preemption (cx_threads (pt_w s0) i) = - 1"
      "\<not> so_finished (cx_threads (pt_w s0) i)" using w(6) [OF i] by (simp_all add: t)
  qed (use g in simp_all)
  have zs: "zeroed s0 x" if "x \<in> {y0, y1, y2}" for x
  proof -
    have "zero_by k m x" using y(4-6) m(1) [OF k(2)] that by (auto simp: zero_by_def intro: order_trans)
    then show ?thesis using k(2) c by (auto simp: zeroed_def zero_by_def Let_def intro!: exI [of _ k])
  qed
  have fi: "flag_inv p 4 s0 i" if "i < 2" for i
  proof -
    have "cell_ok 4 1 (pt_flag s0 i)" "zeroed s0 (pt_flag s0 i)" using g(8) [of i] y(1,2) zs by auto
    then show ?thesis by (simp add: flag_inv_def g(6) flag_recs_def Let_def)
  qed
  have "turn_inv 4 [] s0" using y(3) zs [of y2] by (simp add: turn_inv_def g(6,7) past_turn_def)
  moreover have "order_inv p [] s0" by (simp add: order_inv_def g(6) past_fence_def)
  moreover have "data_inv s0"
    using address_sig [OF a, of 3] by (simp add: data_inv_def data_ts_def g(6,9) stored_def var_ctor_def var_data_ctor_def clock_simps)
  ultimately have "pt_inv p 4 [] s0" using wi fi by (intro pt_invI)
  then have "run_inv p lim s0"
    unfolding run_inv_def using p g f(3,4) by (auto simp: fence_pcs_def ended_def intro!: exI [of _ 4] exI [of _ "[]"])
  then show ?thesis using i0 g(6) by blast
qed

section \<open>Properties\<close>

text \<open>
  C18. The first three tests pass, from the first state of any iteration, whatever the scheduler and
  the choices of the loads: the constructors, \<open>before()\<close> and every step of every run go through,
  no data race is reported, and the threads are never in their sections at once. The one failure a
  step can report is the livelock of a run that has called the scheduler more often than
  \<open>execution_depth_limit\<close> allows.
\<close>

theorem peterson_tests_pass:
  assumes "p \<in> {peterson_mutex_test, peterson_mutex_test2, peterson_mutex_test3}"
    "iteration iter c = Inr w" "cx_n c = 2" "\<forall>i<2. th_index (cx_threads c i) = i" "\<not> invariant_executing c"
    "sched_idle (cx_sched c)" "s_n (cx_sched c) = 2"
    "2 \<le> execution_depth_limit (cx_params c)" "execution_depth_limit (cx_params c) < 2 ^ 32" "address_ok addr"
  shows "\<exists>s0. pt_init addr raw_d raw_c raw_v w = Inr s0 \<and> (\<forall>s. pt_run p s0 s \<longrightarrow>
    \<not> (pt_pc s 0 = At_leave \<and> pt_pc s 1 = At_leave) \<and>
    (\<forall>i<2. \<forall>ans. pt_pc s i \<noteq> At_end \<longrightarrow> (\<exists>s'. pt_step (p i) ans i s = Inr s') \<or>
       pt_step (p i) ans i s = Inl (Test_failed result_livelock) \<and> execution_depth_limit (cx_params c) < sched_count (pt_w s)))"
proof -
  let ?lim = "execution_depth_limit (cx_params c)"
  have pi: "p i = p 0" "passing (p 0)" for i using assms(1) passing_tests
    by (auto simp: peterson_mutex_test_def peterson_mutex_test2_def peterson_mutex_test3_def)
  have f: "fresh_world 1 w" "sched_count w = 0" "cx_params w = cx_params c" "cur w < 2"
    using iteration_fresh [OF assms(2,3) _ assms(5-7)] assms(4) by simp_all
  obtain s0 where s0: "pt_init addr raw_d raw_c raw_v w = Inr s0" "run_inv (p 0) ?lim s0"
    using init_ok [OF f(1,2) _ assms(8) f(4) assms(10) pi(2), of raw_d raw_c raw_v] f(3) by auto
  have "\<not> (pt_pc s 0 = At_leave \<and> pt_pc s 1 = At_leave)"
    "i < 2 \<Longrightarrow> pt_pc s i \<noteq> At_end \<Longrightarrow> (\<exists>s'. pt_step (p i) ans i s = Inr s') \<or>
       pt_step (p i) ans i s = Inl (Test_failed result_livelock) \<and> ?lim < sched_count (pt_w s)" if "pt_run p s0 s" for s i ans
  proof -
    have r: "run_inv (p 0) ?lim s" by (rule run_ok [OF that pi(1) s0(2) assms(9)])
    then show "\<not> (pt_pc s 0 = At_leave \<and> pt_pc s 1 = At_leave)" using inv_exclusive by (auto simp: run_inv_def)
    show "i < 2 \<Longrightarrow> pt_pc s i \<noteq> At_end \<Longrightarrow> (\<exists>s'. pt_step (p i) ans i s = Inr s') \<or>
       pt_step (p i) ans i s = Inl (Test_failed result_livelock) \<and> ?lim < sched_count (pt_w s)"
      using step_ok [OF r _ _ assms(9), of i ans] pi(1) [of i] by auto
  qed
  then show ?thesis using s0(1) by blast
qed

text \<open>A context before its first iteration, and where the members of the test lie.\<close>

definition two_threads :: world where
  "two_threads = parked_sample\<lparr>cx_sched := sched_ctor sched_random 2 default_params 0\<rparr>"

definition member_at :: "nat \<Rightarrow> 64 word" where
  "member_at a = 4096 + 64 * of_nat a"

lemma two_threads_begin: "\<exists>w. iteration 0 two_threads = Inr w"
proof -
  obtain th s where "sched_iteration_begin 0 (sched_ctor sched_random 2 default_params 0) = Inr (th, s)"
    using ctor_begin [of 0 2 0 sched_random default_params] by auto
  moreover have "[0..<2] = [0, 1 :: nat]" by (simp add: upt_conv_Cons)
  ultimately show ?thesis
    by (simp add: two_threads_def parked_sample_def iteration_def Let_def tls_iteration_begin_def addr_hash_iteration_begin_def
        upd_th_def)
qed

lemma member_at_ok: "address_ok member_at"
proof -
  have "a \<in> {0, 1, 2, 3}" if "a < 4" for a :: nat using that by auto
  then show ?thesis by (fastforce simp: address_ok_def member_at_def)
qed

theorem peterson_tests_pass_witness:
  "\<exists>w s0. iteration 0 two_threads = Inr w \<and> pt_init member_at undefined undefined undefined w = Inr s0 \<and>
     (\<forall>s. pt_run peterson_mutex_test3 s0 s \<longrightarrow> \<not> (pt_pc s 0 = At_leave \<and> pt_pc s 1 = At_leave))"
proof -
  obtain w where w: "iteration 0 two_threads = Inr w" using two_threads_begin by blast
  have "sched_idle (sched_ctor sched_random 2 default_params 0)" by (rule sched_ctor_idle) simp
  then have i: "sched_idle (cx_sched two_threads)" "s_n (cx_sched two_threads) = 2"
    by (simp_all add: two_threads_def) (simp add: sched_ctor_def)
  show ?thesis
    using peterson_tests_pass [OF _ w _ _ _ i _ _ member_at_ok, of peterson_mutex_test3 undefined undefined undefined] w
    by (fastforce simp: two_threads_def parked_sample_def sample_thread_def default_params_def)
qed

end
