(* ===== verification/Peterson_Race.thy ===== *)
theory Peterson_Race
  imports Peterson_Props
begin

text \<open>
  The fourth protocol of \<^verbatim>\<open>example/peterson/peterson.cpp\<close>, which its source marks as failing with a data
  race: a run of it that the detector reports. The run is evaluated by rewriting, with the rules
  below that keep the clocks of two threads and the histories in closed form.
\<close>

section \<open>Scripts\<close>

text \<open>The steps of a run in order: which thread, and its choices.\<close>

fun pt_script :: "(nat \<Rightarrow> protocol) \<Rightarrow> (nat \<times> bool list) list \<Rightarrow> pet \<Rightarrow> fault + pet" where
  "pt_script p [] s = Inr s"
| "pt_script p ((i, ans) # xs) s =
     (if pt_pc s i = At_end then Inl Verify_failed else rbind (pt_step (p i) ans i s) (pt_script p xs))"

lemma script_run:
  assumes "pt_script p xs s = Inl (Test_failed e)" "\<forall>x \<in> set xs. fst x < 2" "pt_run p s0 s"
  shows "\<exists>s' i ans. pt_run p s0 s' \<and> i < 2 \<and> pt_step (p i) ans i s' = Inl (Test_failed e)"
  using assms
proof (induction p xs s rule: pt_script.induct)
  case (2 p i ans xs s)
  then have i: "i < 2" "pt_pc s i \<noteq> At_end" by (auto split: if_splits)
  show ?case
  proof (cases "pt_step (p i) ans i s")
    case (Inl f)
    then show ?thesis using 2 i by auto
  next
    case (Inr s1)
    then have "pt_run p s0 s1" using 2(4) i by (blast intro: run_step)
    then show ?thesis using 2(1) [OF i(2), of s1] 2(2,3) i Inr by simp
  qed
qed simp

section \<open>Evaluation with two threads\<close>

lemma foreach_two:
  "foreach1 2 v f = v(0 := f (v 0), 1 := f (v 1))" "foreach2 2 v u g = v(0 := g (v 0) (u 0), 1 := g (v 1) (u 1))"
  by (auto simp: fun_eq_iff foreach1_apply foreach2_apply less_2_cases_iff)

lemma global_fence_two:
  assumes "cx_n w = 2"
  shows "rl_global_fence w = w\<lparr>cx_threads :=
    (let t = cx_threads w; a = acq_rel_order (t 0) 0; b = acq_rel_order (t 1) 1; m = (if a < b then b else a)
     in t(0 := (t 0)\<lparr>acq_rel_order := (acq_rel_order (t 0))(0 := m, 1 := m)\<rparr>,
          1 := (t 1)\<lparr>acq_rel_order := (acq_rel_order (t 1))(0 := m, 1 := m)\<rparr>))\<rparr>"
proof -
  let ?a = "acq_rel_order (cx_threads w 0) 0" and ?b = "acq_rel_order (cx_threads w 1) 1"
  have "fold (\<lambda>i m. if acq_rel_order (cx_threads w i) i > m then acq_rel_order (cx_threads w i) i else m) [0..<cx_n w] 0 =
      (if ?a < ?b then ?b else ?a)"
    by (auto simp: assms upt_conv_Cons word_neq_0_conv [symmetric] simp del: word_neq_0_conv)
  moreover have "(\<lambda>j. if j < 2 then m else v j) = v(0 := m, 1 := m)" for v :: vclock and m
    by (auto simp: fun_eq_iff less_2_cases_iff)
  moreover have "(\<lambda>i. if i < 2 then f i else t i) = t(0 := f 0, 1 := f 1)" for f t :: "nat \<Rightarrow> thread_info"
    by (auto simp: fun_eq_iff less_2_cases_iff)
  ultimately show ?thesis by (simp only: rl_global_fence_def Let_def assms)
qed

lemma small_slots: "hslot 0 = 0" "hslot 1 = 1" "hslot 2 = 2" "hslot 3 = 0"
  by (simp_all add: hslot_def atomic_history_size_def)

lemma newest_le: "(- 1 :: timestamp) \<le> x \<longleftrightarrow> x = - 1"
  by (simp add: word_order.extremum_unique)

lemma member_sigs [simp]:
  "a < 4 \<Longrightarrow> sig_ok cell_magic (signature_ctor cell_magic (member_at a))"
  "a < 4 \<Longrightarrow> sig_ok var_magic (signature_ctor var_magic (member_at a))"
  by (rule address_sig [OF member_at_ok], assumption)+

lemmas clock_eval = foreach_two tick_def global_fence_two small_slots newest_le synch_release_def synch_acquire_def assign_defs
  sync_init_def sync_acquire_def max_def th_tick_def own_order_def atomic_history_size_def Let_def

lemmas start_eval = pt_init_def pt_zero_def cell_ctor_def atomic_data_ctor_def var_ctor_def var_data_ctor_def cell_assign_def
  count_sched_def cur_thread_def cur_def upd_cur_def upd_th_def

lemmas step_eval = pt_step_def pt_next_def pt_enter_def set_thread_def switch_to_fiber_def on_start_def thread_sync_def
  set_clock_def sync_clock_def sync_order_def is_random_sched_def

lemmas access_eval = cell_store_def store_impl_def atomic_store_def put_value_def cell_exchange_def cell_rmw_def rmw_impl_def
  atomic_rmw_def cell_load_def load_impl_def atomic_load_def get_load_index_def load_limit_def seen_before_def load_record_def
  rec_at_def var_assign_def var_store_def var_data_store_def var_data_init_def

section \<open>The race\<close>

definition full_search :: world where
  "full_search = two_threads\<lparr>cx_params := default_params\<lparr>search_type := sched_full\<rparr>, cx_sched := sched_ctor sched_full 2 default_params 0\<rparr>"

definition begun :: "nat \<Rightarrow> thread_info" where
  "begun i = (sample_thread i)\<lparr>acq_rel_order := (\<lambda>_. 0)(i := 1)\<rparr>"

lemma full_search_begin:
  "\<exists>w. iteration 0 full_search = Inr w \<and> cx_n w = 2 \<and> \<not> invariant_executing w \<and> threadx w = Some 0 \<and> sched_count w = 0 \<and>
     cx_params w = default_params\<lparr>search_type := sched_full\<rparr> \<and> cx_threads w 0 = begun 0 \<and> cx_threads w 1 = begun 1"
proof -
  have u: "[0..<2] = [0, 1 :: nat]" by (simp add: upt_conv_Cons)
  obtain s where "sched_iteration_begin 0 (sched_ctor sched_full 2 default_params 0) = Inr (0, s)"
    by (simp add: sched_iteration_begin_def sched_ctor_def iteration_begin_impl_def tree_iteration_begin_impl_def rand_impl_def u Let_def)
  then show ?thesis
    by (simp add: full_search_def two_threads_def parked_sample_def iteration_def Let_def tls_iteration_begin_def
        addr_hash_iteration_begin_def upd_th_def switch_to_fiber_def thread_iteration_begin_def reset_thread_def sample_thread_def
        begun_def foreach_two assign_zero_def sync_init_def u) (simp add: fun_eq_iff)
qed

text \<open>
  Thread 0 runs into its section. Thread 1 raises its flag and hands over the turn, and its load of
  \<open>flag0\<close> still returns the value that \<open>before()\<close> stored: nothing it did synchronizes with
  thread 0.
\<close>

lemma racing_script:
  assumes "cx_n w = 2" "\<not> invariant_executing w" "threadx w = Some 0" "sched_count w = 0"
   "cx_params w = default_params\<lparr>search_type := sched_full\<rparr>" "cx_threads w 0 = begun 0" "cx_threads w 1 = begun 1"
  shows "rbind (pt_init member_at raw_d raw_c raw_v w)
      (pt_script peterson_mutex_test4 [(0, []), (0, []), (0, []), (0, []), (1, []), (1, []), (1, []), (1, [True])]) =
    Inl (Test_failed result_data_race)"
  using assms
  by (simp add: start_eval step_eval access_eval clock_eval peterson_mutex_test4_def begun_def sample_thread_def
      default_params_def upt_conv_Cons)

text \<open>
  C13. The fourth test fails as its source says: in the first iteration, whatever the memory held, some
  run of it makes a step that is reported as a data race.
\<close>

theorem peterson_test4_races:
  "\<exists>w s0 s i ans. iteration 0 full_search = Inr w \<and> pt_init member_at raw_d raw_c raw_v w = Inr s0 \<and>
     pt_run peterson_mutex_test4 s0 s \<and> i < 2 \<and> pt_step (peterson_mutex_test4 i) ans i s = Inl (Test_failed result_data_race)"
proof -
  obtain w where w: "iteration 0 full_search = Inr w" "cx_n w = 2" "\<not> invariant_executing w" "threadx w = Some 0" "sched_count w = 0"
    "cx_params w = default_params\<lparr>search_type := sched_full\<rparr>" "cx_threads w 0 = begun 0" "cx_threads w 1 = begun 1"
    using full_search_begin by blast
  have "sched_idle (sched_ctor sched_full 2 default_params 0)" by (rule sched_ctor_idle) simp
  then have c: "sched_idle (cx_sched full_search)" "s_n (cx_sched full_search) = 2" "cx_n full_search = 2"
    "\<not> invariant_executing full_search" "\<And>i. th_index (cx_threads full_search i) = i"
    by (simp_all add: full_search_def two_threads_def parked_sample_def sample_thread_def) (simp add: sched_ctor_def)
  note f = iteration_fresh [OF w(1) c(3) c(5) c(4,1,2)]
  obtain s0 where s0: "pt_init member_at raw_d raw_c raw_v w = Inr s0"
    using init_ok [OF f(1,2) refl _ f(4) member_at_ok passing_tests(1) [of 0], of raw_d raw_c raw_v] w(6)
    by (auto simp: default_params_def)
  from racing_script [OF w(2-8), of raw_d raw_c raw_v] s0
  have "pt_script peterson_mutex_test4 [(0, []), (0, []), (0, []), (0, []), (1, []), (1, []), (1, []), (1, [True])] s0 =
      Inl (Test_failed result_data_race)" by simp
  from script_run [OF this _ run_init] w(1) s0 show ?thesis by fastforce
qed

end
