(* ===== verification/Lifo.thy ===== *)
theory Lifo
  imports Relacy_Prelude
begin

text \<open>
  What the two lock-free stacks of \<^verbatim>\<open>src/code/aba\<close> have in common: the calls, the errors of
  memory that is used after it was freed, lists along a pointer, and the sequential stack that a
  concurrent one promises to be.
\<close>

section \<open>Errors and events\<close>

text \<open>The one error: a node is read, written or released after it was freed.\<close>

datatype stack_error = Freed_node

fun sbind :: "stack_error + 'a \<Rightarrow> ('a \<Rightarrow> stack_error + 'b) \<Rightarrow> stack_error + 'b" where
  "sbind (Inl e) f = Inl e"
| "sbind (Inr x) f = f x"

lemma sbind_Inr: "sbind m f = Inr y \<longleftrightarrow> (\<exists>x. m = Inr x \<and> f x = Inr y)"
  by (cases m) auto

text \<open>What a call of the class has done. \<open>Threw\<close> is the exception of \<open>pop\<close> on an empty stack.\<close>

datatype 'a event = Pushed 'a | Popped 'a | Threw

section \<open>The sequential stack\<close>

text \<open>The contents after the events, or \<open>None\<close> if no stack could have done them in this order.\<close>

fun replay :: "'a event list \<Rightarrow> 'a list \<Rightarrow> 'a list option" where
  "replay [] s = Some s"
| "replay (Pushed v # es) s = replay es (v # s)"
| "replay (Popped v # es) (x # s) = (if x = v then replay es s else None)"
| "replay (Popped v # es) [] = None"
| "replay (Threw # es) s = (if s = [] then replay es [] else None)"

lemma replay_append: "replay (xs @ ys) s = (case replay xs s of None \<Rightarrow> None | Some t \<Rightarrow> replay ys t)"
  by (induction xs s rule: replay.induct) auto

lemma replay_popped:
  "replay es s = Some t \<Longrightarrow> Popped v \<in> set es \<Longrightarrow> v \<in> set s \<or> Pushed v \<in> set es"
proof (induction es s rule: replay.induct)
  case (3 u es x s)
  then show ?case by (auto split: if_splits)
qed (auto split: if_splits)

section \<open>Lists along a pointer\<close>

type_synonym ptr = "nat option"

text \<open>The null pointer is \<open>None\<close>. The list holds the addresses of the nodes on the way.\<close>

fun chain :: "(nat \<Rightarrow> ptr option) \<Rightarrow> ptr \<Rightarrow> nat list \<Rightarrow> bool" where
  "chain nx p [] \<longleftrightarrow> p = None"
| "chain nx p (a # as) \<longleftrightarrow> p = Some a \<and> (\<exists>q. nx a = Some q \<and> chain nx q as)"

lemma chain_unique: "chain nx p as \<Longrightarrow> chain nx p bs \<Longrightarrow> as = bs"
proof (induction nx p as arbitrary: bs rule: chain.induct)
  case (1 nx p)
  then show ?case by (cases bs) auto
next
  case (2 nx p a as)
  then show ?case by (cases bs) auto
qed

lemma chain_cong: "chain nx p as \<Longrightarrow> (\<And>a. a \<in> set as \<Longrightarrow> nx' a = nx a) \<Longrightarrow> chain nx' p as"
  by (induction nx p as rule: chain.induct) auto

lemma chain_live: "chain nx p as \<Longrightarrow> a \<in> set as \<Longrightarrow> \<exists>q. nx a = Some q"
  by (induction nx p as rule: chain.induct) auto

lemma chain_from: "chain nx p as \<Longrightarrow> a \<in> set as \<Longrightarrow> \<exists>bs. chain nx (Some a) bs \<and> length bs \<le> length as"
proof (induction nx p as rule: chain.induct)
  case (2 nx p b as)
  then show ?case by (cases "a = b") (force intro: exI [of _ "b # as"])+
qed simp

lemma chain_distinct: "chain nx p as \<Longrightarrow> distinct as"
proof (induction nx p as rule: chain.induct)
  case (2 nx p a as)
  then obtain q where q: "p = Some a" "nx a = Some q" "chain nx q as" by auto
  have "a \<notin> set as"
  proof
    assume "a \<in> set as"
    then obtain bs where "chain nx (Some a) bs" "length bs \<le> length as" using chain_from [OF q(3)] by blast
    moreover have "chain nx (Some a) (a # as)" using q by simp
    ultimately have "a # as = bs" "length bs \<le> length as" using chain_unique by blast+
    then show False by (metis impossible_Cons)
  qed
  then show ?case using 2(1) [OF q(3)] by simp
qed simp

text \<open>A node on the way is the first or the next of another.\<close>

lemma chain_referred: "chain nx p as \<Longrightarrow> a \<in> set as \<Longrightarrow> p = Some a \<or> (\<exists>b. nx b = Some (Some a))"
proof (induction nx p as rule: chain.induct)
  case (2 nx p b as)
  then obtain q where q: "p = Some b" "nx b = Some q" "chain nx q as" by auto
  show ?case
  proof (cases "a = b")
    case False
    then have "q = Some a \<or> (\<exists>b. nx b = Some (Some a))" using 2(1) [OF q(3)] 2(3) by simp
    then show ?thesis using q(2) by blast
  qed (simp add: q(1))
qed simp

end
