(* ===== verification/Aba_Stack.thy ===== *)
theory Aba_Stack
  imports Lifo
begin

text \<open>
  The lock-free stack of \<^verbatim>\<open>src/code/aba\<close>: \<^verbatim>\<open>aba.cpp\<close>, \<^verbatim>\<open>aba_sync.cpp\<close> and
  \<^verbatim>\<open>aba_detect.cpp\<close>, which have the same class and differ in how their threads start. A node is
  freed as soon as it is popped, so that another thread may still hold its address, and the address
  may come back from \<open>new\<close>.
\<close>

section \<open>State\<close>

record 'a node =
  n_data :: 'a
  n_next :: ptr

text \<open>
  Where a thread is: about to make its next access to the shared pointer \<open>head\<close> or to a node. The
  numbers are its local pointers.
\<close>

datatype 'a rpc =
    R_idle
  | R_push_load nat
  | R_push_cas nat
  | R_pop_test ptr
  | R_pop_cas nat ptr
  | R_pop_take nat
  | R_pop_delete nat 'a

text \<open>The calls of a thread's program; \<open>R_new\<close> is a \<open>new node\<close> of the program's own.\<close>

datatype 'a rcall = R_push 'a | R_pop | R_new 'a

record 'a rthread =
  r_calls :: "'a rcall list"
  r_pc :: "'a rpc"
  r_out :: "'a event list"

text \<open>\<open>rs_head\<close> holds the values of \<open>head\<close>, the newest first.\<close>

record 'a raw_stack =
  rs_heap :: "nat \<Rightarrow> 'a node option"
  rs_head :: "ptr list"
  rs_threads :: "nat \<Rightarrow> 'a rthread"

definition raw_start :: "(nat \<Rightarrow> 'a rcall list) \<Rightarrow> 'a raw_stack" where
  "raw_start prog =
     \<lparr>rs_heap = Map.empty, rs_head = [None], rs_threads = (\<lambda>i. \<lparr>r_calls = prog i, r_pc = R_idle, r_out = []\<rparr>)\<rparr>"

section \<open>Steps\<close>

definition raw_go :: "nat \<Rightarrow> 'a rpc \<Rightarrow> 'a raw_stack \<Rightarrow> 'a raw_stack" where
  "raw_go i pc w = w\<lparr>rs_threads := (rs_threads w)(i := (rs_threads w i)\<lparr>r_pc := pc\<rparr>)\<rparr>"

definition raw_return :: "nat \<Rightarrow> 'a event list \<Rightarrow> 'a raw_stack \<Rightarrow> 'a raw_stack" where
  "raw_return i es w =
     (let t = rs_threads w i
      in w\<lparr>rs_threads := (rs_threads w)(i := t\<lparr>r_pc := R_idle, r_calls := tl (r_calls t), r_out := r_out t @ es\<rparr>)\<rparr>)"

definition raw_node :: "nat \<Rightarrow> 'a raw_stack \<Rightarrow> ('a node \<Rightarrow> stack_error + 'b) \<Rightarrow> stack_error + 'b" where
  "raw_node a w f = (case rs_heap w a of None \<Rightarrow> Inl Freed_node | Some n \<Rightarrow> f n)"

definition set_node :: "nat \<Rightarrow> 'a node \<Rightarrow> 'a raw_stack \<Rightarrow> 'a raw_stack" where
  "set_node a n w = w\<lparr>rs_heap := (rs_heap w)(a := Some n)\<rparr>"

text \<open>
  A step of thread \<open>i\<close>: \<open>new\<close> returns the unused address \<open>a\<close>, the relaxed load returns the \<open>k\<close>-th
  newest value of \<open>head\<close>, and \<open>spurious\<close> makes the weak compare-exchange fail for no reason. An
  access to a freed node is an error. The argument \<open>old_head->next\<close> is read before the
  compare-exchange, and in \<^verbatim>\<open>aba_detect.cpp\<close> the thread may sleep in between.
\<close>

fun raw_pc_step :: "nat \<Rightarrow> nat \<Rightarrow> nat \<Rightarrow> bool \<Rightarrow> 'a rpc \<Rightarrow> 'a raw_stack \<Rightarrow> stack_error + 'a raw_stack" where
  "raw_pc_step i a k spurious R_idle w =
     (case r_calls (rs_threads w i) of
        [] \<Rightarrow> Inr w
      | R_push v # _ \<Rightarrow> Inr (raw_go i (R_push_load a) (set_node a \<lparr>n_data = v, n_next = None\<rparr> w))
      | R_pop # _ \<Rightarrow> Inr (raw_go i (R_pop_test (hd (rs_head w))) w)
      | R_new v # _ \<Rightarrow> Inr (raw_return i [] (set_node a \<lparr>n_data = v, n_next = None\<rparr> w)))"
| "raw_pc_step i a k spurious (R_push_load b) w =
     raw_node b w (\<lambda>n. Inr (raw_go i (R_push_cas b) (set_node b (n\<lparr>n_next := rs_head w ! (k mod length (rs_head w))\<rparr>) w)))"
| "raw_pc_step i a k spurious (R_push_cas b) w =
     raw_node b w (\<lambda>n.
       if \<not> spurious \<and> hd (rs_head w) = n_next n
       then Inr (raw_return i [Pushed (n_data n)] (w\<lparr>rs_head := Some b # rs_head w\<rparr>))
       else Inr (raw_go i (R_push_cas b) (set_node b (n\<lparr>n_next := hd (rs_head w)\<rparr>) w)))"
| "raw_pc_step i a k spurious (R_pop_test old) w =
     (case old of
        None \<Rightarrow> Inr (raw_return i [Threw] w)
      | Some b \<Rightarrow> raw_node b w (\<lambda>n. Inr (raw_go i (R_pop_cas b (n_next n)) w)))"
| "raw_pc_step i a k spurious (R_pop_cas b nx) w =
     (if \<not> spurious \<and> hd (rs_head w) = Some b
      then Inr (raw_go i (R_pop_take b) (w\<lparr>rs_head := nx # rs_head w\<rparr>))
      else Inr (raw_go i (R_pop_test (hd (rs_head w))) w))"
| "raw_pc_step i a k spurious (R_pop_take b) w = raw_node b w (\<lambda>n. Inr (raw_go i (R_pop_delete b (n_data n)) w))"
| "raw_pc_step i a k spurious (R_pop_delete b v) w =
     raw_node b w (\<lambda>n. Inr (raw_return i [Popped v] (w\<lparr>rs_heap := (rs_heap w)(b := None)\<rparr>)))"

definition raw_step :: "nat \<Rightarrow> nat \<Rightarrow> nat \<Rightarrow> bool \<Rightarrow> 'a raw_stack \<Rightarrow> stack_error + 'a raw_stack" where
  "raw_step i a k spurious w = raw_pc_step i a k spurious (r_pc (rs_threads w i)) w"

text \<open>The runs in which only the threads of \<open>I\<close> move.\<close>

inductive raw_run :: "nat set \<Rightarrow> 'a raw_stack \<Rightarrow> 'a raw_stack \<Rightarrow> bool" for I where
  raw_refl: "raw_run I w w"
| raw_next: "raw_run I w w1 \<Longrightarrow> i \<in> I \<Longrightarrow> rs_heap w1 a = None \<Longrightarrow> raw_step i a k spurious w1 = Inr w2 \<Longrightarrow> raw_run I w w2"

definition raw_finished :: "nat set \<Rightarrow> 'a raw_stack \<Rightarrow> bool" where
  "raw_finished I w \<longleftrightarrow> (\<forall>i\<in>I. r_pc (rs_threads w i) = R_idle \<and> r_calls (rs_threads w i) = [])"

section \<open>The end of the program\<close>

text \<open>
  After the threads have ended, \<open>main\<close>, thread 0, is alone. The output operator prints the values from
  \<open>head\<close> on, and the destructor pops until \<open>head\<close> is null. No exchange of a thread that is alone fails.
\<close>

partial_function (option) raw_print :: "'a raw_stack \<Rightarrow> ptr \<Rightarrow> (stack_error + 'a list) option" where
  "raw_print w cur =
     (case cur of
        None \<Rightarrow> Some (Inr [])
      | Some b \<Rightarrow> (case rs_heap w b of
            None \<Rightarrow> Some (Inl Freed_node)
          | Some n \<Rightarrow> Option.bind (raw_print w (n_next n)) (\<lambda>r. Some (sbind r (\<lambda>vs. Inr (n_data n # vs))))))"

partial_function (option) raw_call :: "nat \<Rightarrow> 'a raw_stack \<Rightarrow> (stack_error + 'a raw_stack) option" where
  "raw_call i w =
     (if r_pc (rs_threads w i) = R_idle \<and> r_calls (rs_threads w i) = [] then Some (Inr w)
      else case raw_step i 0 0 False w of Inl e \<Rightarrow> Some (Inl e) | Inr w \<Rightarrow> raw_call i w)"

definition raw_call_pop :: "'a raw_stack \<Rightarrow> 'a raw_stack" where
  "raw_call_pop w = w\<lparr>rs_threads := (rs_threads w)(0 := (rs_threads w 0)\<lparr>r_calls := [R_pop]\<rparr>)\<rparr>"

partial_function (option) raw_dtor :: "'a raw_stack \<Rightarrow> (stack_error + 'a raw_stack) option" where
  "raw_dtor w =
     (if hd (rs_head w) = None then Some (Inr w)
      else Option.bind (raw_call 0 (raw_call_pop w)) (\<lambda>r. case r of Inl e \<Rightarrow> Some (Inl e) | Inr w \<Rightarrow> raw_dtor w))"

section \<open>Scripts\<close>

text \<open>Steps in order: the thread and the address for \<open>new\<close>; loads are of the newest value.\<close>

fun raw_script :: "(nat \<times> nat) list \<Rightarrow> 'a raw_stack \<Rightarrow> (stack_error + 'a raw_stack) option" where
  "raw_script [] w = Some (Inr w)"
| "raw_script ((i, a) # xs) w =
     (if rs_heap w a \<noteq> None then None
      else case raw_step i a 0 False w of Inl e \<Rightarrow> Some (Inl e) | Inr w \<Rightarrow> raw_script xs w)"

lemma raw_trans: "raw_run I w1 w2 \<Longrightarrow> raw_run I w0 w1 \<Longrightarrow> raw_run I w0 w2"
  by (induction rule: raw_run.induct) (auto intro: raw_next)

lemma raw_script_run: "raw_script xs w = Some (Inr w') \<Longrightarrow> fst ` set xs \<subseteq> I \<Longrightarrow> raw_run I w w'"
proof (induction xs w rule: raw_script.induct)
  case (2 i a xs w)
  then obtain w1 where w1: "rs_heap w a = None" "raw_step i a 0 False w = Inr w1" "raw_script xs w1 = Some (Inr w')"
    by (auto split: if_splits sum.splits)
  have "raw_run I w w1" by (rule raw_next [OF raw_refl _ w1(1,2)]) (use 2(3) in simp)
  moreover have "raw_run I w1 w'" using 2(1) w1 2(3) by auto
  ultimately show ?case using raw_trans by blast
qed (simp add: raw_refl)

section \<open>The programs\<close>

text \<open>
  Thread 0 is \<open>main\<close>: it pushes, and in \<^verbatim>\<open>aba_detect.cpp\<close> it pops after the other two have ended.
\<close>

definition detect_main :: "nat \<Rightarrow> nat rcall list" where
  "detect_main i =
     (if i = 0 then [R_push 1, R_push 2, R_push 3, R_push 4, R_pop]
      else if i = 1 then [R_pop]
      else if i = 2 then [R_pop, R_pop, R_new 666, R_push 5]
      else [])"

definition aba_main :: "nat \<Rightarrow> nat rcall list" where
  "aba_main i =
     (if i = 0 then [R_push 1, R_push 2, R_push 3, R_push 4, R_push 5]
      else if i = 1 then [R_pop]
      else if i = 2 then [R_pop, R_pop, R_push 5]
      else [])"

lemmas raw_eval = raw_step_def raw_go_def raw_return_def raw_node_def set_node_def raw_start_def Let_def

text \<open>
  The programs push the numbers from 1 on. Thread 1 then pops, and stops before its compare-exchange,
  where thread 2 pops two nodes and pushes a new one at the address of the first.
\<close>

abbreviation push_one :: "nat \<Rightarrow> (nat \<times> nat) list" where
  "push_one a \<equiv> [(0, a), (0, 0), (0, 0)]"

abbreviation pop_by :: "nat \<Rightarrow> (nat \<times> nat) list" where
  "pop_by i \<equiv> [(i, 0), (i, 0), (i, 0), (i, 0), (i, 0)]"

lemma detect_script:
  "\<exists>w1 w2 w3. raw_script (push_one 10 @ push_one 11 @ push_one 12 @ push_one 13) (raw_start detect_main) = Some (Inr w1) \<and>
     r_calls (rs_threads w1 0) = [R_pop] \<and> r_pc (rs_threads w1 0) = R_idle \<and>
     raw_script ([(1, 0), (1, 0)] @ pop_by 2 @ pop_by 2 @ [(2, 12)] @ [(2, 13), (2, 0), (2, 0)] @ [(1, 0), (1, 0), (1, 0)]) w1 =
       Some (Inr w2) \<and> raw_finished {1, 2} w2 \<and>
     raw_script (pop_by 0) w2 = Some (Inr w3) \<and>
     r_out (rs_threads w3 0) = [Pushed 1, Pushed 2, Pushed 3, Pushed 4, Popped 666]"
  by (simp add: raw_eval detect_main_def raw_finished_def)

lemma aba_script:
  "\<exists>w1 w2. raw_script (push_one 10 @ push_one 11 @ push_one 12 @ push_one 13 @ push_one 14) (raw_start aba_main) = Some (Inr w1) \<and>
     raw_finished {0} w1 \<and>
     raw_script ([(1, 0), (1, 0)] @ pop_by 2 @ pop_by 2 @ [(2, 14), (2, 0), (2, 0)] @ [(1, 0), (1, 0), (1, 0)]) w1 = Some (Inr w2) \<and>
     raw_finished {1, 2} w2 \<and>
     raw_print w2 (hd (rs_head w2)) = Some (Inl Freed_node) \<and> raw_dtor w2 = Some (Inl Freed_node)"
  by (simp add: raw_eval aba_main_def raw_finished_def raw_call_pop_def raw_print.simps raw_call.simps raw_dtor.simps)

text \<open>
  C17. The ABA problem is real in both programs. \<^verbatim>\<open>aba_detect.cpp\<close> can end with a pop of 666, the
  value of a node that nobody pushed; and in \<^verbatim>\<open>aba.cpp\<close> all threads can end with \<open>head\<close> at a node
  that is freed, which the output operator and the destructor then read.
\<close>

theorem aba_happens:
  "(\<exists>w1 w2 w3. raw_run {0} (raw_start detect_main) w1 \<and> r_calls (rs_threads w1 0) = [R_pop] \<and> r_pc (rs_threads w1 0) = R_idle \<and>
      raw_run {1, 2} w1 w2 \<and> raw_finished {1, 2} w2 \<and>
      raw_run {0} w2 w3 \<and> r_out (rs_threads w3 0) = [Pushed 1, Pushed 2, Pushed 3, Pushed 4, Popped 666]) \<and>
   (\<exists>w1 w2. raw_run {0} (raw_start aba_main) w1 \<and> raw_finished {0} w1 \<and>
      raw_run {1, 2} w1 w2 \<and> raw_finished {1, 2} w2 \<and> raw_print w2 (hd (rs_head w2)) = Some (Inl Freed_node) \<and>
      raw_dtor w2 = Some (Inl Freed_node))"
proof
  obtain w1 w2 w3 where w:
    "raw_script (push_one 10 @ push_one 11 @ push_one 12 @ push_one 13) (raw_start detect_main) = Some (Inr w1)"
    "r_calls (rs_threads w1 0) = [R_pop]" "r_pc (rs_threads w1 0) = R_idle"
    "raw_script ([(1, 0), (1, 0)] @ pop_by 2 @ pop_by 2 @ [(2, 12)] @ [(2, 13), (2, 0), (2, 0)] @ [(1, 0), (1, 0), (1, 0)]) w1 =
       Some (Inr w2)" "raw_finished {1, 2} w2" "raw_script (pop_by 0) w2 = Some (Inr w3)"
    "r_out (rs_threads w3 0) = [Pushed 1, Pushed 2, Pushed 3, Pushed 4, Popped 666]"
    using detect_script by blast
  have "raw_run {0} (raw_start detect_main) w1" "raw_run {1, 2} w1 w2" "raw_run {0} w2 w3"
    by (rule raw_script_run [OF w(1)] raw_script_run [OF w(4)] raw_script_run [OF w(6)]; simp)+
  then show "\<exists>w1 w2 w3. raw_run {0} (raw_start detect_main) w1 \<and> r_calls (rs_threads w1 0) = [R_pop] \<and> r_pc (rs_threads w1 0) = R_idle \<and>
      raw_run {1, 2} w1 w2 \<and> raw_finished {1, 2} w2 \<and>
      raw_run {0} w2 w3 \<and> r_out (rs_threads w3 0) = [Pushed 1, Pushed 2, Pushed 3, Pushed 4, Popped 666]"
    using w by blast
next
  obtain w1 w2 where w:
    "raw_script (push_one 10 @ push_one 11 @ push_one 12 @ push_one 13 @ push_one 14) (raw_start aba_main) = Some (Inr w1)"
    "raw_finished {0} w1"
    "raw_script ([(1, 0), (1, 0)] @ pop_by 2 @ pop_by 2 @ [(2, 14), (2, 0), (2, 0)] @ [(1, 0), (1, 0), (1, 0)]) w1 = Some (Inr w2)"
    "raw_finished {1, 2} w2" "raw_print w2 (hd (rs_head w2)) = Some (Inl Freed_node)"
    "raw_dtor w2 = Some (Inl Freed_node)"
    using aba_script by blast
  have "raw_run {0} (raw_start aba_main) w1" "raw_run {1, 2} w1 w2"
    by (rule raw_script_run [OF w(1)] raw_script_run [OF w(3)]; simp)+
  then show "\<exists>w1 w2. raw_run {0} (raw_start aba_main) w1 \<and> raw_finished {0} w1 \<and>
      raw_run {1, 2} w1 w2 \<and> raw_finished {1, 2} w2 \<and> raw_print w2 (hd (rs_head w2)) = Some (Inl Freed_node) \<and>
      raw_dtor w2 = Some (Inl Freed_node)"
    using w by blast
qed

end
