(* ===== verification/Shared_Stack.thy ===== *)
theory Shared_Stack
  imports Lifo
begin

text \<open>
  The repaired stack, \<^verbatim>\<open>src/code/aba/aba_fixed.cpp\<close>: its pointers are \<open>std::shared_ptr\<close>, and
  \<open>head\<close> is read and changed with the atomic functions of the standard library for them. A node
  holds its reference count. Every step below is one atomic action: a change of \<open>head\<close> under the
  library's lock, the copy of a pointer, or the release of one, which may free its node and then
  has the node's own pointer to release.
\<close>

section \<open>State\<close>

record 'a snode =
  s_data :: 'a
  s_next :: ptr
  s_count :: nat

text \<open>
  Where a thread is, with its local pointers. \<open>S_drop ps k\<close> is a thread that has the pointers
  \<open>ps\<close> still to release before it goes on at \<open>k\<close>.
\<close>

datatype 'a spc =
    S_idle
  | S_push_load nat
  | S_push_copy nat
  | S_push_cas nat
  | S_pop_test ptr
  | S_pop_cas nat ptr
  | S_pop_take nat
  | S_drop "ptr list" "'a spc"
  | S_return "'a event"

datatype 'a scall = S_push 'a | S_pop

record 'a sthread =
  s_calls :: "'a scall list"
  s_pc :: "'a spc"
  s_out :: "'a event list"

record 'a shared_stack =
  ss_heap :: "nat \<Rightarrow> 'a snode option"
  ss_head :: ptr
  ss_threads :: "nat \<Rightarrow> 'a sthread"

definition shared_start :: "(nat \<Rightarrow> 'a scall list) \<Rightarrow> 'a shared_stack" where
  "shared_start prog =
     \<lparr>ss_heap = Map.empty, ss_head = None, ss_threads = (\<lambda>i. \<lparr>s_calls = prog i, s_pc = S_idle, s_out = []\<rparr>)\<rparr>"

section \<open>Shared pointers\<close>

type_synonym 'a sheap = "nat \<Rightarrow> 'a snode option"

definition sp_node :: "'a sheap \<Rightarrow> nat \<Rightarrow> stack_error + 'a snode" where
  "sp_node h a = (case h a of None \<Rightarrow> Inl Freed_node | Some n \<Rightarrow> Inr n)"

text \<open>The copy of a pointer counts one more.\<close>

fun sp_copy :: "ptr \<Rightarrow> 'a sheap \<Rightarrow> stack_error + 'a sheap" where
  "sp_copy None h = Inr h"
| "sp_copy (Some a) h = sbind (sp_node h a) (\<lambda>n. Inr (h(a := Some (n\<lparr>s_count := s_count n + 1\<rparr>))))"

text \<open>The release of a pointer; the last one frees the node and leaves the node's pointer to release.\<close>

fun sp_release :: "ptr \<Rightarrow> 'a sheap \<Rightarrow> stack_error + (ptr list \<times> 'a sheap)" where
  "sp_release None h = Inr ([], h)"
| "sp_release (Some a) h = sbind (sp_node h a) (\<lambda>n.
     if s_count n = 1 then Inr ([s_next n], h(a := None))
     else Inr ([], h(a := Some (n\<lparr>s_count := s_count n - 1\<rparr>))))"

definition sp_set_next :: "nat \<Rightarrow> ptr \<Rightarrow> 'a sheap \<Rightarrow> stack_error + 'a sheap" where
  "sp_set_next a p h = sbind (sp_node h a) (\<lambda>n. Inr (h(a := Some (n\<lparr>s_next := p\<rparr>))))"

section \<open>Steps\<close>

definition s_go :: "nat \<Rightarrow> 'a spc \<Rightarrow> 'a sheap \<Rightarrow> ptr \<Rightarrow> 'a shared_stack \<Rightarrow> 'a shared_stack" where
  "s_go i pc h p w = w\<lparr>ss_heap := h, ss_head := p, ss_threads := (ss_threads w)(i := (ss_threads w i)\<lparr>s_pc := pc\<rparr>)\<rparr>"

text \<open>
  A step of thread \<open>i\<close>, with the event it decides: \<open>make_shared\<close> returns the unused address \<open>a\<close>, and
  \<open>spurious\<close> makes the weak compare-exchange fail for no reason. The compare-exchange takes its second
  argument by value, a copy made before; when it succeeds the copy becomes \<open>head\<close> and the old value of
  \<open>head\<close> is released, and when it fails \<open>expected\<close> becomes a copy of \<open>head\<close>, and its old value and the
  copy are released. A pop of the empty stack is decided where it reads the null pointer.
\<close>

definition empty_event :: "ptr \<Rightarrow> 'a event list" where
  "empty_event p = (if p = None then [Threw] else [])"

fun s_pc_step ::
  "nat \<Rightarrow> nat \<Rightarrow> bool \<Rightarrow> 'a spc \<Rightarrow> 'a shared_stack \<Rightarrow> stack_error + ('a event list \<times> 'a shared_stack)" where
  "s_pc_step i a spurious S_idle w =
     (case s_calls (ss_threads w i) of
        [] \<Rightarrow> Inr ([], w)
      | S_push v # _ \<Rightarrow>
          Inr ([], s_go i (S_push_load a) ((ss_heap w)(a := Some \<lparr>s_data = v, s_next = None, s_count = 1\<rparr>)) (ss_head w) w)
      | S_pop # _ \<Rightarrow> sbind (sp_copy (ss_head w) (ss_heap w)) (\<lambda>h.
          Inr (empty_event (ss_head w), s_go i (S_pop_test (ss_head w)) h (ss_head w) w)))"
| "s_pc_step i a spurious (S_push_load b) w =
     sbind (sp_copy (ss_head w) (ss_heap w)) (\<lambda>h. sbind (sp_set_next b (ss_head w) h) (\<lambda>h.
       Inr ([], s_go i (S_push_copy b) h (ss_head w) w)))"
| "s_pc_step i a spurious (S_push_copy b) w =
     sbind (sp_copy (Some b) (ss_heap w)) (\<lambda>h. Inr ([], s_go i (S_push_cas b) h (ss_head w) w))"
| "s_pc_step i a spurious (S_push_cas b) w =
     sbind (sp_node (ss_heap w) b) (\<lambda>n.
       if \<not> spurious \<and> ss_head w = s_next n
       then (case s_calls (ss_threads w i) of
               S_push v # _ \<Rightarrow>
                 Inr ([Pushed (s_data n)], s_go i (S_drop [ss_head w, Some b] (S_return (Pushed v))) (ss_heap w) (Some b) w)
             | _ \<Rightarrow> Inr ([], w))
       else sbind (sp_copy (ss_head w) (ss_heap w)) (\<lambda>h. sbind (sp_set_next b (ss_head w) h) (\<lambda>h.
              Inr ([], s_go i (S_drop [s_next n, Some b] (S_push_copy b)) h (ss_head w) w))))"
| "s_pc_step i a spurious (S_pop_test old) w =
     (case old of
        None \<Rightarrow> Inr ([], s_go i (S_return Threw) (ss_heap w) (ss_head w) w)
      | Some b \<Rightarrow> sbind (sp_node (ss_heap w) b) (\<lambda>n. sbind (sp_copy (s_next n) (ss_heap w)) (\<lambda>h.
          Inr ([], s_go i (S_pop_cas b (s_next n)) h (ss_head w) w))))"
| "s_pc_step i a spurious (S_pop_cas b nx) w =
     (if \<not> spurious \<and> ss_head w = Some b
      then sbind (sp_node (ss_heap w) b) (\<lambda>n.
             Inr ([Popped (s_data n)], s_go i (S_drop [Some b] (S_pop_take b)) (ss_heap w) nx w))
      else sbind (sp_copy (ss_head w) (ss_heap w)) (\<lambda>h.
             Inr (empty_event (ss_head w), s_go i (S_drop [Some b, nx] (S_pop_test (ss_head w))) h (ss_head w) w)))"
| "s_pc_step i a spurious (S_pop_take b) w =
     sbind (sp_node (ss_heap w) b) (\<lambda>n.
       Inr ([], s_go i (S_drop [Some b] (S_return (Popped (s_data n)))) (ss_heap w) (ss_head w) w))"
| "s_pc_step i a spurious (S_drop ps k) w =
     (case ps of
        [] \<Rightarrow> Inr ([], s_go i k (ss_heap w) (ss_head w) w)
      | p # ps \<Rightarrow> sbind (sp_release p (ss_heap w)) (\<lambda>(qs, h). Inr ([], s_go i (S_drop (qs @ ps) k) h (ss_head w) w)))"
| "s_pc_step i a spurious (S_return e) w =
     (let t = ss_threads w i
      in Inr ([], w\<lparr>ss_threads := (ss_threads w)(i := t\<lparr>s_pc := S_idle, s_calls := tl (s_calls t), s_out := s_out t @ [e]\<rparr>)\<rparr>))"

definition s_step :: "nat \<Rightarrow> nat \<Rightarrow> bool \<Rightarrow> 'a shared_stack \<Rightarrow> stack_error + ('a event list \<times> 'a shared_stack)" where
  "s_step i a spurious w = s_pc_step i a spurious (s_pc (ss_threads w i)) w"

text \<open>The runs of \<open>n\<close> threads, with the events in the order they are decided and who did them.\<close>

inductive shared_run :: "nat \<Rightarrow> 'a shared_stack \<Rightarrow> (nat \<times> 'a event) list \<Rightarrow> 'a shared_stack \<Rightarrow> bool" for n w0 where
  shared_init: "shared_run n w0 [] w0"
| shared_next: "shared_run n w0 tr w \<Longrightarrow> i < n \<Longrightarrow> ss_heap w a = None \<Longrightarrow> s_step i a spurious w = Inr (es, w') \<Longrightarrow>
    shared_run n w0 (tr @ map (Pair i) es) w'"

definition shared_finished :: "nat \<Rightarrow> 'a shared_stack \<Rightarrow> bool" where
  "shared_finished n w \<longleftrightarrow> (\<forall>i<n. s_pc (ss_threads w i) = S_idle \<and> s_calls (ss_threads w i) = [])"

section \<open>The end of the program\<close>

text \<open>
  After the threads have ended, \<open>main\<close>, thread 0, is alone. The output operator prints the values from
  \<open>head\<close> on; its pointer \<open>cur\<close> holds a reference for as long as it is at a node, which is left out here.
\<close>

partial_function (option) shared_print :: "'a sheap \<Rightarrow> ptr \<Rightarrow> (stack_error + 'a list) option" where
  "shared_print h cur =
     (case cur of
        None \<Rightarrow> Some (Inr [])
      | Some a \<Rightarrow> (case h a of
            None \<Rightarrow> Some (Inl Freed_node)
          | Some m \<Rightarrow> Option.bind (shared_print h (s_next m)) (\<lambda>r. Some (sbind r (\<lambda>vs. Inr (s_data m # vs))))))"

text \<open>The calls of a thread that is alone, to their ends. Nothing new is made, and no exchange fails.\<close>

partial_function (option) shared_call :: "nat \<Rightarrow> 'a shared_stack \<Rightarrow> (stack_error + 'a shared_stack) option" where
  "shared_call i w =
     (if s_pc (ss_threads w i) = S_idle \<and> s_calls (ss_threads w i) = [] then Some (Inr w)
      else case s_step i 0 False w of Inl e \<Rightarrow> Some (Inl e) | Inr x \<Rightarrow> shared_call i (snd x))"

text \<open>The destructor pops until \<open>head\<close> is null.\<close>

definition call_pop :: "'a shared_stack \<Rightarrow> 'a shared_stack" where
  "call_pop w = w\<lparr>ss_threads := (ss_threads w)(0 := (ss_threads w 0)\<lparr>s_calls := [S_pop]\<rparr>)\<rparr>"

partial_function (option) shared_dtor :: "'a shared_stack \<Rightarrow> (stack_error + 'a shared_stack) option" where
  "shared_dtor w =
     (if ss_head w = None then Some (Inr w)
      else Option.bind (shared_call 0 (call_pop w)) (\<lambda>r. case r of Inl e \<Rightarrow> Some (Inl e) | Inr w \<Rightarrow> shared_dtor w))"

end
