(* ===== verification/Shared_Stack_Props.thy ===== *)
theory Shared_Stack_Props
  imports Shared_Stack "HOL-Library.Multiset"
begin

text \<open>
  The repaired stack is one: in every run the reference counts are exact, so that no thread touches a
  freed node and no address comes back while anybody holds it, and the calls are linearizable.
\<close>

section \<open>What a heap looks like without its counts\<close>

definition view :: "'a sheap \<Rightarrow> nat \<Rightarrow> ('a \<times> ptr) option" where
  "view h a = map_option (\<lambda>m. (s_data m, s_next m)) (h a)"

definition nx :: "'a sheap \<Rightarrow> nat \<Rightarrow> ptr option" where
  "nx h a = map_option s_next (h a)"

definition data_of :: "'a sheap \<Rightarrow> nat \<Rightarrow> 'a" where
  "data_of h a = s_data (the (h a))"

definition count_of :: "'a sheap \<Rightarrow> nat \<Rightarrow> nat" where
  "count_of h a = (case h a of None \<Rightarrow> 0 | Some m \<Rightarrow> s_count m)"

lemma view_parts:
  assumes "view h' a = view h a"
  shows "nx h' a = nx h a" "a \<in> dom h' \<longleftrightarrow> a \<in> dom h" "a \<in> dom h \<Longrightarrow> data_of h' a = data_of h a"
  using assms by (cases "h a"; cases "h' a"; auto simp: view_def nx_def data_of_def)+

definition nexts :: "'a sheap \<Rightarrow> ptr multiset" where
  "nexts h = {# s_next (the (h a)). a \<in># mset_set (dom h) #}"

lemma mset_setD: "a \<in># mset_set A \<Longrightarrow> a \<in> A"
  by (cases "finite A") auto

lemma nexts_same: "(\<And>a. view h' a = view h a) \<Longrightarrow> nexts h' = nexts h"
proof -
  assume v: "\<And>a. view h' a = view h a"
  then have d: "dom h' = dom h" using view_parts(2) by blast
  have "s_next (the (h' a)) = s_next (the (h a))" if "a \<in> dom h" for a
    using v [of a] that by (cases "h a"; cases "h' a") (auto simp: view_def)
  then show ?thesis unfolding nexts_def d by (intro image_mset_cong) (blast dest: mset_setD)
qed

lemma nexts_new: "finite (dom h) \<Longrightarrow> h a = None \<Longrightarrow> nexts (h(a := Some m)) = add_mset (s_next m) (nexts h)"
proof -
  assume f: "finite (dom h)" "h a = None"
  then have "a \<notin> dom h" by auto
  moreover have "{# s_next (the ((h(a := Some m)) b)). b \<in># mset_set (dom h) #} = nexts h"
    unfolding nexts_def using f by (intro image_mset_cong) (auto dest!: mset_setD)
  ultimately show ?thesis using f(1) by (simp add: nexts_def)
qed

lemma nexts_free: "finite (dom h) \<Longrightarrow> h a = Some m \<Longrightarrow> nexts h = add_mset (s_next m) (nexts (h(a := None)))"
  using nexts_new [of "h(a := None)" a m] by (simp add: fun_upd_idem)

lemma nexts_set:
  "finite (dom h) \<Longrightarrow> h a = Some m \<Longrightarrow> add_mset (s_next m) (nexts (h(a := Some m'))) = add_mset (s_next m') (nexts h)"
  using nexts_free [of h a m] nexts_new [of "h(a := None)" a m'] by simp

lemma in_nexts: "finite (dom h) \<Longrightarrow> p \<in># nexts h \<longleftrightarrow> (\<exists>a. nx h a = Some p)"
  by (force simp: nexts_def nx_def)

section \<open>References\<close>

text \<open>The pointers a thread holds.\<close>

fun owned :: "'a spc \<Rightarrow> ptr list" where
  "owned S_idle = []"
| "owned (S_push_load b) = [Some b]"
| "owned (S_push_copy b) = [Some b]"
| "owned (S_push_cas b) = [Some b, Some b]"
| "owned (S_pop_test p) = [p]"
| "owned (S_pop_cas b q) = [Some b, q]"
| "owned (S_pop_take b) = [Some b]"
| "owned (S_drop ps k) = ps @ owned k"
| "owned (S_return e) = []"

abbreviation pc_of :: "'a shared_stack \<Rightarrow> nat \<Rightarrow> 'a spc" where
  "pc_of w i \<equiv> s_pc (ss_threads w i)"

definition held :: "'a shared_stack \<Rightarrow> nat \<Rightarrow> ptr multiset" where
  "held w i = mset (owned (pc_of w i))"

definition refs :: "nat \<Rightarrow> 'a shared_stack \<Rightarrow> ptr multiset" where
  "refs n w = add_mset (ss_head w) (nexts (ss_heap w)) + (\<Sum>i<n. held w i)"

text \<open>The references that are not held by a thread other than \<open>i\<close>.\<close>

definition near :: "'a shared_stack \<Rightarrow> nat \<Rightarrow> ptr multiset" where
  "near w i = add_mset (ss_head w) (nexts (ss_heap w)) + held w i"

lemma refs_split:
  assumes "i < n"
  shows "refs n w = near w i + (\<Sum>j\<in>{..<n} - {i}. held w j)"
  using sum.remove [of "{..<n}" i "held w"] assms by (simp add: refs_def near_def)

lemma refs_two:
  assumes "i < n" "j < n" "i \<noteq> j"
  shows "near w i + held w j \<subseteq># refs n w"
proof -
  have "(\<Sum>k\<in>{..<n} - {i}. held w k) = held w j + (\<Sum>k\<in>{..<n} - {i} - {j}. held w k)"
    by (rule sum.remove) (use assms in auto)
  then show ?thesis by (simp add: refs_split [OF assms(1)])
qed

lemma go_simps [simp]:
  "ss_heap (s_go i pc h p w) = h" "ss_head (s_go i pc h p w) = p"
  "ss_threads (s_go i pc h p w) j = (if j = i then (ss_threads w i)\<lparr>s_pc := pc\<rparr> else ss_threads w j)"
  by (simp_all add: s_go_def)

lemma refs_go:
  assumes "i < n"
  shows "refs n (s_go i pc h p w) = add_mset p (nexts h) + mset (owned pc) + (\<Sum>j\<in>{..<n} - {i}. held w j)"
proof -
  have "(\<Sum>j\<in>{..<n} - {i}. held (s_go i pc h p w) j) = (\<Sum>j\<in>{..<n} - {i}. held w j)"
    by (rule sum.cong) (simp_all add: held_def)
  then show ?thesis by (simp add: refs_split [OF assms] near_def held_def)
qed

section \<open>The invariant\<close>

fun pushing :: "'a spc \<Rightarrow> nat option" where
  "pushing (S_push_load b) = Some b"
| "pushing (S_push_copy b) = Some b"
| "pushing (S_push_cas b) = Some b"
| "pushing (S_drop ps k) = pushing k"
| "pushing _ = None"

fun call_of :: "'a event \<Rightarrow> 'a scall" where
  "call_of (Pushed v) = S_push v"
| "call_of _ = S_pop"

text \<open>What a thread knows of the heap and of its current call.\<close>

fun pc_ok :: "'a sheap \<Rightarrow> 'a scall list \<Rightarrow> 'a spc \<Rightarrow> bool" where
  "pc_ok h cs S_idle \<longleftrightarrow> True"
| "pc_ok h cs (S_push_load b) \<longleftrightarrow> nx h b = Some None \<and> (\<exists>cs'. cs = S_push (data_of h b) # cs')"
| "pc_ok h cs (S_push_copy b) \<longleftrightarrow> (\<exists>cs'. cs = S_push (data_of h b) # cs')"
| "pc_ok h cs (S_push_cas b) \<longleftrightarrow> (\<exists>cs'. cs = S_push (data_of h b) # cs')"
| "pc_ok h cs (S_pop_test p) \<longleftrightarrow> (\<exists>cs'. cs = S_pop # cs')"
| "pc_ok h cs (S_pop_cas b q) \<longleftrightarrow> nx h b = Some q \<and> (\<exists>cs'. cs = S_pop # cs')"
| "pc_ok h cs (S_pop_take b) \<longleftrightarrow> (\<exists>cs'. cs = S_pop # cs')"
| "pc_ok h cs (S_drop ps k) \<longleftrightarrow> pc_ok h cs k"
| "pc_ok h cs (S_return e) \<longleftrightarrow> (\<exists>cs'. cs = call_of e # cs')"

text \<open>The events a thread has decided and not yet returned.\<close>

fun pending :: "'a sheap \<Rightarrow> 'a spc \<Rightarrow> 'a event list" where
  "pending h (S_pop_test p) = empty_event p"
| "pending h (S_pop_take b) = [Popped (data_of h b)]"
| "pending h (S_drop ps k) = pending h k"
| "pending h (S_return e) = [e]"
| "pending h _ = []"

lemma pc_frame:
  assumes "\<And>b. Some b \<in> set (owned pc) \<Longrightarrow> view h' b = view h b \<and> b \<in> dom h"
  shows "pc_ok h' cs pc = pc_ok h cs pc" "pending h' pc = pending h pc"
proof -
  have "\<And>b. Some b \<in> set (owned pc) \<Longrightarrow> nx h' b = nx h b \<and> data_of h' b = data_of h b"
    using assms view_parts by metis
  then show "pc_ok h' cs pc = pc_ok h cs pc" "pending h' pc = pending h pc" by (induction pc) auto
qed

lemma pushing_owned: "pushing pc = Some b \<Longrightarrow> Some b \<in> set (owned pc)"
  by (induction pc rule: pushing.induct) auto

definition chains_ok :: "'a sheap \<Rightarrow> bool" where
  "chains_ok h \<longleftrightarrow> (\<forall>a\<in>dom h. \<exists>as. chain (nx h) (Some a) as)"

text \<open>The counts are exact, lists end, and a node that is being pushed is known to its thread alone.\<close>

definition stack_inv :: "nat \<Rightarrow> 'a shared_stack \<Rightarrow> bool" where
  "stack_inv n w \<longleftrightarrow> finite (dom (ss_heap w)) \<and>
     (\<forall>c. count_of (ss_heap w) c = count (refs n w) (Some c)) \<and>
     (\<forall>c m. ss_heap w c = Some m \<longrightarrow> 0 < s_count m) \<and> chains_ok (ss_heap w) \<and>
     (\<forall>i<n. pc_ok (ss_heap w) (s_calls (ss_threads w i)) (pc_of w i)) \<and>
     (\<forall>i<n. \<forall>b. pushing (pc_of w i) = Some b \<longrightarrow> count (refs n w) (Some b) = count (held w i) (Some b))"

lemma ref_live:
  assumes "stack_inv n w" "Some c \<in># refs n w"
  shows "\<exists>m. ss_heap w c = Some m \<and> s_count m = count (refs n w) (Some c) \<and> 0 < s_count m"
proof -
  have "count_of (ss_heap w) c = count (refs n w) (Some c)" using assms(1) by (simp add: stack_inv_def)
  moreover have "0 < count (refs n w) (Some c)" using assms(2) by simp
  ultimately show ?thesis by (cases "ss_heap w c") (auto simp: count_of_def)
qed

lemma near_live: "stack_inv n w \<Longrightarrow> i < n \<Longrightarrow> Some c \<in># near w i \<Longrightarrow> \<exists>m. ss_heap w c = Some m \<and> 0 < s_count m"
  using ref_live [of n w c] by (auto simp: refs_split)

text \<open>Nobody else's new node is near.\<close>

lemma near_not_pushing:
  assumes "stack_inv n w" "i < n" "j < n" "i \<noteq> j" "pushing (pc_of w j) = Some b"
  shows "Some b \<notin># near w i"
proof
  assume "Some b \<in># near w i"
  have "count (near w i + held w j) (Some b) \<le> count (refs n w) (Some b)"
    using refs_two [OF assms(2-4)] by (rule mset_subset_eq_count)
  moreover have "count (refs n w) (Some b) = count (held w j) (Some b)" using assms(1,3,5) by (simp add: stack_inv_def)
  ultimately have "count (near w i) (Some b) = 0" by simp
  then have "Some b \<notin># near w i" by (rule iffD1 [OF count_eq_zero_iff])
  then show False using \<open>Some b \<in># near w i\<close> by blast
qed

text \<open>The own new node is not referred to by the stack.\<close>

lemma own_pushing:
  assumes "stack_inv n w" "i < n" "pushing (pc_of w i) = Some b"
  shows "ss_head w \<noteq> Some b" "nx (ss_heap w) c \<noteq> Some (Some b)"
    "j < n \<Longrightarrow> j \<noteq> i \<Longrightarrow> Some b \<notin># held w j"
proof -
  have c: "count (refs n w) (Some b) = count (held w i) (Some b)" using assms by (simp add: stack_inv_def)
  define x where "x = add_mset (ss_head w) (nexts (ss_heap w))"
  have "refs n w = x + held w i + (\<Sum>j\<in>{..<n} - {i}. held w j)" by (simp add: refs_split [OF assms(2)] near_def x_def)
  then have "count x (Some b) = 0" using c by simp
  then have z: "count (add_mset (ss_head w) (nexts (ss_heap w))) (Some b) = 0" by (simp only: x_def)
  then show "ss_head w \<noteq> Some b" by (auto split: if_splits)
  have "finite (dom (ss_heap w))" using assms(1) by (simp add: stack_inv_def)
  moreover have "count (nexts (ss_heap w)) (Some b) = 0" using z by (simp split: if_splits)
  then have "Some b \<notin># nexts (ss_heap w)" by (rule iffD1 [OF count_eq_zero_iff])
  ultimately show "nx (ss_heap w) c \<noteq> Some (Some b)" by (auto simp: in_nexts)
  assume j: "j < n" "j \<noteq> i"
  have "count (near w i + held w j) (Some b) \<le> count (refs n w) (Some b)"
    using refs_two [OF assms(2) j(1) j(2) [symmetric]] by (rule mset_subset_eq_count)
  then have "count (held w j) (Some b) = 0" using c by (simp add: near_def split: if_splits)
  then show "Some b \<notin># held w j" by (rule iffD1 [OF count_eq_zero_iff])
qed

section \<open>What a step has to keep\<close>

text \<open>
  A step of thread \<open>i\<close> to the heap \<open>h\<close>, the head \<open>p\<close> and the place \<open>pc\<close>. The nodes others hold look
  the same, and no reference to a node that another thread pushes is made.
\<close>

definition keeps :: "nat \<Rightarrow> nat \<Rightarrow> 'a spc \<Rightarrow> 'a sheap \<Rightarrow> ptr \<Rightarrow> 'a shared_stack \<Rightarrow> bool" where
  "keeps n i pc h p w \<longleftrightarrow> stack_inv n (s_go i pc h p w) \<and>
     (\<forall>j<n. j \<noteq> i \<longrightarrow> pending h (pc_of w j) = pending (ss_heap w) (pc_of w j))"

lemma go_inv:
  assumes inv: "stack_inv n w" and i: "i < n"
    and fin: "finite (dom h)" and cnt: "\<And>c. count_of h c = count (refs n (s_go i pc h p w)) (Some c)"
    and pos: "\<And>c m. h c = Some m \<Longrightarrow> 0 < s_count m" and ch: "chains_ok h"
    and ok: "pc_ok h (s_calls (ss_threads w i)) pc"
    and new: "\<And>b. pushing pc = Some b \<Longrightarrow> Some b \<notin># add_mset p (nexts h) + (\<Sum>j\<in>{..<n} - {i}. held w j)"
    and frame: "\<And>j b. j < n \<Longrightarrow> j \<noteq> i \<Longrightarrow> Some b \<in># held w j \<Longrightarrow> view h b = view (ss_heap w) b"
    and more: "\<And>q. q \<in># add_mset p (nexts h) + mset (owned pc) \<Longrightarrow> q \<in># near w i \<or> (\<exists>c. q = Some c \<and> ss_heap w c = None) \<or> q = None"
  shows "keeps n i pc h p w"
proof -
  let ?w = "s_go i pc h p w"
  have live: "b \<in> dom (ss_heap w)" if "j < n" "Some b \<in># held w j" for j b
    using near_live [OF inv that(1), of b] that(2) by (auto simp: near_def)
  have fr: "view h b = view (ss_heap w) b \<and> b \<in> dom (ss_heap w)" if "j < n" "j \<noteq> i" "Some b \<in> set (owned (pc_of w j))" for j b
    using frame [OF that(1,2)] live [OF that(1)] that(3) by (simp add: held_def)
  note same = pc_frame [of "pc_of w j" h "ss_heap w" for j, OF fr]
  have pend: "pending h (pc_of w j) = pending (ss_heap w) (pc_of w j)" if "j < n" "j \<noteq> i" for j using that by (rule same(2))
  have oks: "pc_ok h (s_calls (ss_threads ?w j)) (pc_of ?w j)" if "j < n" for j
    using ok same(1) [of j] that inv by (cases "j = i") (simp_all add: stack_inv_def)
  have priv: "count (refs n ?w) (Some b) = count (held ?w j) (Some b)" if j: "j < n" "pushing (pc_of ?w j) = Some b" for j b
  proof (cases "j = i")
    case True
    then have "count (add_mset p (nexts h) + (\<Sum>j\<in>{..<n} - {i}. held w j)) (Some b) = 0"
      using new [of b] j(2) by (intro iffD2 [OF count_eq_zero_iff]) simp
    then have "count (refs n ?w) (Some b) = count (mset (owned pc)) (Some b)" by (simp only: refs_go [OF i] count_union)
    then show ?thesis using True by (simp add: held_def)
  next
    case False
    then have h: "held ?w j = held w j" "pushing (pc_of w j) = Some b" using j(2) by (simp_all add: held_def)
    have "Some b \<notin># near w i" by (rule near_not_pushing [OF inv i j(1) _ h(2)]) (use False in simp)
    moreover have "b \<in> dom (ss_heap w)"
    proof -
      have "Some b \<in># held w j" using pushing_owned [OF h(2)] by (simp add: held_def)
      then show ?thesis by (rule live [OF j(1)])
    qed
    ultimately have "Some b \<notin># add_mset p (nexts h) + mset (owned pc)" using more [of "Some b"] by auto
    then have z: "count (add_mset p (nexts h) + mset (owned pc)) (Some b) = 0" by (rule iffD2 [OF count_eq_zero_iff])
    have z': "count (near w i) (Some b) = 0" using \<open>Some b \<notin># near w i\<close> by (rule iffD2 [OF count_eq_zero_iff])
    have "count (refs n ?w) (Some b) = count (refs n w) (Some b)"
      using z z' by (simp only: refs_go [OF i] refs_split [OF i, of w] count_union)
    also have "\<dots> = count (held w j) (Some b)" using inv j(1) h(2) by (simp add: stack_inv_def)
    finally show ?thesis by (simp add: h(1))
  qed
  show ?thesis unfolding stack_inv_def keeps_def using fin cnt pos ch oks priv pend by simp
qed

text \<open>Others do not hold the own new node.\<close>

lemma others_not_pushing:
  assumes "stack_inv n w" "i < n" "pushing (pc_of w i) = Some b"
  shows "Some b \<notin># (\<Sum>j\<in>{..<n} - {i}. held w j)"
  using own_pushing(3) [OF assms] by (auto simp: sum_mset_def set_mset_sum)

section \<open>Steps that change counts only\<close>

lemma chains_same: "(\<And>a. view h' a = view h a) \<Longrightarrow> nx h' = nx h \<and> chains_ok h' = chains_ok h"
proof -
  assume v: "\<And>a. view h' a = view h a"
  then have "nx h' = nx h" "dom h' = dom h" using view_parts(1,2) by blast+
  then show ?thesis by (simp add: chains_ok_def)
qed

lemma view_inv:
  assumes inv: "stack_inv n w" and i: "i < n" and v: "\<And>a. view h a = view (ss_heap w) a"
    and cnt: "\<And>c. count_of h c + count (near w i) (Some c) =
        count_of (ss_heap w) c + count (add_mset p (nexts (ss_heap w)) + mset (owned pc)) (Some c)"
    and pos: "\<And>c m. h c = Some m \<Longrightarrow> 0 < s_count m"
    and ok: "pc_ok (ss_heap w) (s_calls (ss_threads w i)) pc"
    and sub: "set_mset (add_mset p (nexts (ss_heap w)) + mset (owned pc)) \<subseteq> insert None (set_mset (near w i))"
    and new: "\<And>b. pushing pc = Some b \<Longrightarrow> pushing (pc_of w i) = Some b \<and> p = ss_head w"
  shows "keeps n i pc h p w"
proof -
  have nh: "nexts h = nexts (ss_heap w)" by (rule nexts_same [OF v])
  have dh: "dom h = dom (ss_heap w)" using view_parts(2) [OF v] by blast
  have fin: "finite (dom (ss_heap w))" using inv by (simp add: stack_inv_def)
  have live: "b \<in> dom (ss_heap w)" if "Some b \<in> set (owned pc)" for b
  proof -
    have "Some b \<in># near w i" using sub that by auto
    then show ?thesis using near_live [OF inv i] by blast
  qed
  have cnt': "count_of h c = count (refs n (s_go i pc h p w)) (Some c)" for c
  proof -
    have "count_of (ss_heap w) c = count (refs n w) (Some c)" using inv by (simp add: stack_inv_def)
    then show ?thesis using cnt [of c] by (simp only: refs_go [OF i] refs_split [OF i, of w] count_union nh)
  qed
  have nb: "Some b \<notin># add_mset p (nexts h) + (\<Sum>j\<in>{..<n} - {i}. held w j)" if "pushing pc = Some b" for b
    using own_pushing(1,2) [OF inv i, of b] others_not_pushing [OF inv i, of b] new [OF that] fin by (auto simp: nh in_nexts)
  show ?thesis
  proof (rule go_inv [OF inv i])
    show "pc_ok h (s_calls (ss_threads w i)) pc" using pc_frame(1) [of pc h "ss_heap w"] v live ok by simp
    show "q \<in># near w i \<or> (\<exists>c. q = Some c \<and> ss_heap w c = None) \<or> q = None"
      if "q \<in># add_mset p (nexts h) + mset (owned pc)" for q
      using sub that by (auto simp: nh)
    show "Some b \<notin># add_mset p (nexts h) + (\<Sum>j\<in>{..<n} - {i}. held w j)" if "pushing pc = Some b" for b by (rule nb [OF that])
    show "chains_ok h" using chains_same [OF v] inv by (simp add: stack_inv_def)
  qed (use fin dh v cnt' pos in simp_all)
qed

text \<open>A step that passes references around.\<close>

lemma move_inv:
  assumes "stack_inv n w" "i < n"
    and eq: "near w i = add_mset p (nexts (ss_heap w)) + mset (owned pc) + x" "set_mset x \<subseteq> {None}"
    and "pc_ok (ss_heap w) (s_calls (ss_threads w i)) pc"
    and "\<And>b. pushing pc = Some b \<Longrightarrow> pushing (pc_of w i) = Some b \<and> p = ss_head w"
  shows "keeps n i pc (ss_heap w) p w"
proof (rule view_inv [OF assms(1,2)])
  have "Some c \<notin># x" for c using eq(2) by auto
  then have "count x (Some c) = 0" for c by (intro iffD2 [OF count_eq_zero_iff])
  then show "count_of (ss_heap w) c + count (near w i) (Some c) =
      count_of (ss_heap w) c + count (add_mset p (nexts (ss_heap w)) + mset (owned pc)) (Some c)" for c
    by (simp only: eq(1) count_union)
  show "set_mset (add_mset p (nexts (ss_heap w)) + mset (owned pc)) \<subseteq> insert None (set_mset (near w i))"
    unfolding eq(1) by auto
qed (use assms in \<open>auto simp: stack_inv_def\<close>)

lemma sp_copy_ok:
  assumes "\<And>c. q = Some c \<Longrightarrow> \<exists>m. h c = Some m \<and> 0 < s_count m" "\<And>c m. h c = Some m \<Longrightarrow> 0 < s_count m"
  obtains h' where "sp_copy q h = Inr h'" "\<And>a. view h' a = view h a"
    "\<And>c. count_of h' c = count_of h c + of_bool (q = Some c)" "\<And>c m. h' c = Some m \<Longrightarrow> 0 < s_count m"
proof (cases q)
  case None
  show thesis by (rule that [of h]) (use None assms(2) in auto)
next
  case (Some c)
  then obtain m where m: "h c = Some m" "0 < s_count m" using assms(1) by blast
  show thesis
    by (rule that [of "h(c := Some (m\<lparr>s_count := s_count m + 1\<rparr>))"])
      (use Some m assms(2) in \<open>auto simp: sp_node_def view_def count_of_def split: if_splits\<close>)
qed

text \<open>A step that copies a pointer it can see.\<close>

lemma copy_inv:
  assumes inv: "stack_inv n w" and i: "i < n" and q: "q \<in># near w i"
    and eq: "add_mset p (nexts (ss_heap w)) + mset (owned pc) = near w i + {#q#}"
    and ok: "pc_ok (ss_heap w) (s_calls (ss_threads w i)) pc"
    and new: "\<And>b. pushing pc = Some b \<Longrightarrow> pushing (pc_of w i) = Some b \<and> p = ss_head w"
  obtains h where "sp_copy q (ss_heap w) = Inr h" "keeps n i pc h p w" "\<And>a. view h a = view (ss_heap w) a"
proof -
  have pos: "\<And>c m. ss_heap w c = Some m \<Longrightarrow> 0 < s_count m" using inv by (simp add: stack_inv_def)
  obtain h where h: "sp_copy q (ss_heap w) = Inr h" "\<And>a. view h a = view (ss_heap w) a"
    "\<And>c. count_of h c = count_of (ss_heap w) c + of_bool (q = Some c)" "\<And>c m. h c = Some m \<Longrightarrow> 0 < s_count m"
    by (rule sp_copy_ok [of q "ss_heap w"]) (use near_live [OF inv i] q pos in auto)
  have "keeps n i pc h p w"
  proof (rule view_inv [OF inv i h(2) _ h(4) ok _ new])
    show "count_of h c + count (near w i) (Some c) =
      count_of (ss_heap w) c + count (add_mset p (nexts (ss_heap w)) + mset (owned pc)) (Some c)" for c
      unfolding eq h(3) by auto
    show "set_mset (add_mset p (nexts (ss_heap w)) + mset (owned pc)) \<subseteq> insert None (set_mset (near w i))"
      unfolding eq using q by auto
  qed
  then show thesis by (rule that [OF h(1) _ h(2)])
qed

section \<open>Steps that change the lists\<close>

lemma chains_set:
  assumes ch: "chains_ok h" and u: "\<And>c. nx h c \<noteq> Some (Some b)" and p: "p \<noteq> Some b" "\<And>c. p = Some c \<Longrightarrow> c \<in> dom h"
    and v: "\<And>c. c \<noteq> b \<Longrightarrow> view h' c = view h c" "nx h' b = Some p"
  shows "chains_ok h'"
  unfolding chains_ok_def
proof
  fix a assume a: "a \<in> dom h'"
  have keep: "chain (nx h') q as" if "chain (nx h) q as" "q \<noteq> Some b" for q as
  proof -
    have "b \<notin> set as" using chain_referred [OF that(1), of b] that(2) u by blast
    then show ?thesis using view_parts(1) [OF v(1)] by (intro chain_cong [OF that(1)]) metis
  qed
  have "\<exists>as. chain (nx h') p as"
  proof (cases p)
    case None
    then show ?thesis by (intro exI [of _ "[]"]) simp
  next
    case (Some c)
    then obtain as where "chain (nx h) (Some c) as" using ch p(2) by (auto simp: chains_ok_def)
    then show ?thesis using keep Some p(1) by blast
  qed
  then obtain as where as: "chain (nx h') p as" by blast
  show "\<exists>as. chain (nx h') (Some a) as"
  proof (cases "a = b")
    case True
    then show ?thesis using as v(2) by (intro exI [of _ "b # as"]) simp
  next
    case False
    then have "a \<in> dom h" using view_parts(2) [OF v(1)] a by blast
    then show ?thesis using ch keep [of "Some a"] False by (auto simp: chains_ok_def)
  qed
qed

lemma chains_free:
  assumes ch: "chains_ok h" and u: "\<And>a. nx h a \<noteq> Some (Some c)"
  shows "chains_ok (h(c := None))" "chain (nx h) q as \<Longrightarrow> q \<noteq> Some c \<Longrightarrow> chain (nx (h(c := None))) q as"
proof -
  have keep: "chain (nx (h(c := None))) q as" if "chain (nx h) q as" "q \<noteq> Some c" for q as
  proof -
    have "c \<notin> set as" using chain_referred [OF that(1), of c] that(2) u by blast
    then show ?thesis by (intro chain_cong [OF that(1)]) (auto simp: nx_def)
  qed
  then show "chain (nx h) q as \<Longrightarrow> q \<noteq> Some c \<Longrightarrow> chain (nx (h(c := None))) q as" by blast
  show "chains_ok (h(c := None))" using ch keep by (fastforce simp: chains_ok_def)
qed

text \<open>The copy of \<open>head\<close> into the own new node.\<close>

lemma set_inv:
  assumes inv: "stack_inv n w" and i: "i < n" and b: "pushing (pc_of w i) = Some b" "nx (ss_heap w) b = Some q"
    and own: "\<And>c. count (mset (owned pc)) (Some c) = count (held w i) (Some c) + of_bool (q = Some c)"
    and ok: "\<And>h. data_of h b = data_of (ss_heap w) b \<Longrightarrow> pc_ok h (s_calls (ss_threads w i)) pc" and pu: "pushing pc = Some b"
  obtains h h' where "sp_copy (ss_head w) (ss_heap w) = Inr h" "sp_set_next b (ss_head w) h = Inr h'"
    "keeps n i pc h' (ss_head w) w" "\<And>a. a \<noteq> b \<Longrightarrow> view h' a = view (ss_heap w) a"
proof -
  let ?p = "ss_head w"
  have fin: "finite (dom (ss_heap w))" and pos: "\<And>c m. ss_heap w c = Some m \<Longrightarrow> 0 < s_count m" and ch: "chains_ok (ss_heap w)"
    using inv by (simp_all add: stack_inv_def)
  have pl: "\<exists>m. ss_heap w c = Some m \<and> 0 < s_count m" if "?p = Some c" for c
    using near_live [OF inv i, of c] that by (simp add: near_def)
  note np = own_pushing [OF inv i b(1)]
  obtain h where h: "sp_copy ?p (ss_heap w) = Inr h" "\<And>a. view h a = view (ss_heap w) a"
    "\<And>c. count_of h c = count_of (ss_heap w) c + of_bool (?p = Some c)" "\<And>c m. h c = Some m \<Longrightarrow> 0 < s_count m"
    by (rule sp_copy_ok [of ?p "ss_heap w"]) (use pl pos in auto)
  have nxb: "nx h b = Some q" using view_parts(1) [OF h(2)] b(2) by simp
  then obtain m where m: "h b = Some m" "s_next m = q" by (auto simp: nx_def)
  define h' where "h' = h(b := Some (m\<lparr>s_next := ?p\<rparr>))"
  have set: "sp_set_next b ?p h = Inr h'" using m by (simp add: sp_set_next_def sp_node_def h'_def)
  have v: "view h' a = view (ss_heap w) a" if "a \<noteq> b" for a using h(2) [of a] that by (simp add: h'_def view_def)
  have dh: "dom h = dom (ss_heap w)" using view_parts(2) [OF h(2)] by blast
  have d: "data_of h' b = data_of (ss_heap w) b"
    using view_parts(3) [OF h(2) [of b]] m dh by (auto simp: h'_def data_of_def)
  have nn: "add_mset q (nexts h') = add_mset ?p (nexts (ss_heap w))"
    using nexts_set [of h b m "m\<lparr>s_next := ?p\<rparr>"] m fin dh nexts_same [OF h(2)] by (simp add: h'_def)
  have cn: "count_of h' c = count_of h c" for c using m by (simp add: h'_def count_of_def)
  have "keeps n i pc h' ?p w"
  proof (rule go_inv [OF inv i])
    show "finite (dom h')" using fin dh by (simp add: h'_def)
    show "count_of h' c = count (refs n (s_go i pc h' ?p w)) (Some c)" for c
    proof -
      have "count (add_mset q (nexts h')) (Some c) = count (add_mset ?p (nexts (ss_heap w))) (Some c)" by (simp only: nn)
      then have e: "of_bool (q = Some c) + count (nexts h') (Some c) = of_bool (?p = Some c) + count (nexts (ss_heap w)) (Some c)"
        by (auto split: if_splits)
      have "count_of (ss_heap w) c = count (refs n w) (Some c)" using inv by (simp add: stack_inv_def)
      moreover have "count (add_mset ?p (nexts h')) (Some c) = of_bool (?p = Some c) + count (nexts h') (Some c)"
        "count (add_mset ?p (nexts (ss_heap w))) (Some c) = of_bool (?p = Some c) + count (nexts (ss_heap w)) (Some c)" by simp_all
      ultimately show ?thesis using e own [of c] unfolding cn h(3) refs_go [OF i] refs_split [OF i, of w] near_def count_union by linarith
    qed
    show "0 < s_count m'" if "h' c = Some m'" for c m' using that h(4) [of c] h(4) [OF m(1)] by (auto simp: h'_def split: if_splits)
    show "chains_ok h'"
      by (rule chains_set [OF ch np(2) np(1) _ v]) (use pl m in \<open>auto simp: h'_def nx_def\<close>)
    show "pc_ok h' (s_calls (ss_threads w i)) pc" by (rule ok [OF d])
    show "Some b' \<notin># add_mset ?p (nexts h') + (\<Sum>j\<in>{..<n} - {i}. held w j)" if "pushing pc = Some b'" for b'
    proof -
      have "set_mset (nexts h') \<subseteq> set_mset (add_mset ?p (nexts (ss_heap w)))" unfolding nn [symmetric] by auto
      then have "Some b \<notin># nexts h'" using np(1,2) fin by (auto simp: in_nexts)
      then show ?thesis using np(1) others_not_pushing [OF inv i b(1)] that pu by auto
    qed
    show "view h' c = view (ss_heap w) c" if "j < n" "j \<noteq> i" "Some c \<in># held w j" for j c
      by (rule v) (use np(3) [OF that(1,2)] that(3) in auto)
    show "r \<in># near w i \<or> (\<exists>c. r = Some c \<and> ss_heap w c = None) \<or> r = None"
      if "r \<in># add_mset ?p (nexts h') + mset (owned pc)" for r
    proof -
      have qn: "q \<in># nexts (ss_heap w)" using b(2) fin by (auto simp: in_nexts)
      have "set_mset (nexts h') \<subseteq> set_mset (add_mset ?p (nexts (ss_heap w)))" unfolding nn [symmetric] by auto
      moreover have "Some c \<in># held w i \<or> q = Some c" if "Some c \<in># mset (owned pc)" for c
      proof -
        have "count (mset (owned pc)) (Some c) \<noteq> 0" using that by (simp only: count_eq_zero_iff not_not)
        then have "q \<noteq> Some c \<Longrightarrow> count (held w i) (Some c) \<noteq> 0" using own [of c] by (simp only: of_bool_eq add_0_right not_False_eq_True)
        then show ?thesis by (simp only: count_eq_zero_iff not_not) blast
      qed
      ultimately show ?thesis using that qn by (cases r) (auto simp: near_def)
    qed
  qed
  then show thesis by (rule that [OF h(1) set _ v])
qed

text \<open>The release of the first pointer a thread has to drop, and what is left of the heap.\<close>

lemma free_inv:
  assumes inv: "stack_inv n w" and i: "i < n" and pc: "pc_of w i = S_drop (Some c # ps) k"
    and m: "ss_heap w c = Some m" "s_count m = 1"
  shows "keeps n i (S_drop ([s_next m] @ ps) k) ((ss_heap w)(c := None)) (ss_head w) w"
    "nx (ss_heap w) a \<noteq> Some (Some c)" "ss_head w \<noteq> Some c" "Some c \<notin> set (owned (S_drop ps k))"
proof -
  let ?h = "(ss_heap w)(c := None)" and ?p = "ss_head w" and ?s = "\<Sum>j\<in>{..<n} - {i}. held w j"
  have fin: "finite (dom (ss_heap w))" and pos: "\<And>c m. ss_heap w c = Some m \<Longrightarrow> 0 < s_count m" and ch: "chains_ok (ss_heap w)"
    and ok: "pc_ok (ss_heap w) (s_calls (ss_threads w i)) (pc_of w i)"
    using inv i by (simp_all add: stack_inv_def)
  have cnt: "count_of (ss_heap w) d = count (refs n w) (Some d)" for d using inv by (simp add: stack_inv_def)
  have held: "held w i = add_mset (Some c) (mset (owned (S_drop ps k)))" by (simp add: held_def pc)
  have nn: "nexts (ss_heap w) = add_mset (s_next m) (nexts ?h)" by (rule nexts_free [OF fin m(1)])
  have rs: "refs n w = add_mset (Some c) (add_mset ?p (add_mset (s_next m) (nexts ?h)) + mset (owned (S_drop ps k)) + ?s)"
    unfolding refs_split [OF i] near_def held nn by simp
  define y where "y = add_mset ?p (add_mset (s_next m) (nexts ?h)) + mset (owned (S_drop ps k)) + ?s"
  have ry: "refs n w = add_mset (Some c) y" by (simp only: rs y_def)
  have "count (refs n w) (Some c) = 1" using cnt [of c] m by (simp add: count_of_def)
  then have y0: "count y (Some c) = 0" by (simp add: ry)
  then have z: "Some c \<notin># y" by (rule iffD1 [OF count_eq_zero_iff])
  show p: "?p \<noteq> Some c" and o: "Some c \<notin> set (owned (S_drop ps k))" using z by (auto simp: y_def)
  have n: "nx (ss_heap w) a \<noteq> Some (Some c)" for a
  proof -
    have "Some c \<notin># nexts (ss_heap w)" using z by (auto simp: y_def nn)
    then show ?thesis using fin by (auto simp: in_nexts)
  qed
  then show "nx (ss_heap w) a \<noteq> Some (Some c)" .
  have others: "Some c \<notin># held w j" if "j < n" "j \<noteq> i" for j
    using z that by (auto simp: y_def set_mset_sum)
  show "keeps n i (S_drop ([s_next m] @ ps) k) ?h ?p w"
  proof (rule go_inv [OF inv i])
    show "finite (dom ?h)" using fin by simp
    show "count_of ?h d = count (refs n (s_go i (S_drop ([s_next m] @ ps) k) ?h ?p w)) (Some d)" for d
    proof -
      have r: "refs n (s_go i (S_drop ([s_next m] @ ps) k) ?h ?p w) = y" by (simp add: refs_go [OF i] y_def)
      show ?thesis
      proof (cases "d = c")
        case True
        then show ?thesis using y0 by (simp only: r) (simp add: count_of_def)
      next
        case False
        then have "count_of ?h d = count_of (ss_heap w) d" by (simp add: count_of_def)
        then show ?thesis using cnt [of d] False by (simp only: r) (simp add: ry)
      qed
    qed
    show "0 < s_count m'" if "?h d = Some m'" for d m' using that pos by (simp split: if_splits)
    show "chains_ok ?h" by (rule chains_free(1) [OF ch n])
    have "view ?h b = view (ss_heap w) b \<and> b \<in> dom (ss_heap w)" if "Some b \<in> set (owned k)" for b
    proof -
      have "b \<noteq> c" using o that by auto
      moreover have "Some b \<in># near w i" using that by (simp add: near_def held)
      ultimately show ?thesis using near_live [OF inv i] by (auto simp: view_def)
    qed
    from pc_frame(1) [OF this] show "pc_ok ?h (s_calls (ss_threads w i)) (S_drop ([s_next m] @ ps) k)" using ok pc by simp
    show "Some b \<notin># add_mset ?p (nexts ?h) + ?s" if "pushing (S_drop ([s_next m] @ ps) k) = Some b" for b
    proof -
      have b: "pushing (pc_of w i) = Some b" using that by (simp add: pc)
      have "Some b \<notin># nexts (ss_heap w)" using own_pushing(2) [OF inv i b] fin by (auto simp: in_nexts)
      then show ?thesis using own_pushing(1) [OF inv i b] others_not_pushing [OF inv i b] by (auto simp: nn)
    qed
    show "view ?h b = view (ss_heap w) b" if "j < n" "j \<noteq> i" "Some b \<in># held w j" for j b
      using others [OF that(1,2)] that(3) by (auto simp: view_def)
    show "r \<in># near w i \<or> (\<exists>c. r = Some c \<and> ss_heap w c = None) \<or> r = None"
      if "r \<in># add_mset ?p (nexts ?h) + mset (owned (S_drop ([s_next m] @ ps) k))" for r
      using that by (auto simp: near_def held nn)
  qed
qed

lemma drop_ref_inv:
  assumes inv: "stack_inv n w" and i: "i < n" and pc: "pc_of w i = S_drop (q # ps) k"
  obtains qs h where "sp_release q (ss_heap w) = Inr (qs, h)" "keeps n i (S_drop (qs @ ps) k) h (ss_head w) w"
    "\<And>as. chain (nx (ss_heap w)) (ss_head w) as \<Longrightarrow> chain (nx h) (ss_head w) as \<and> (\<forall>a\<in>set as. data_of h a = data_of (ss_heap w) a)"
    "pending h k = pending (ss_heap w) k"
proof -
  have ok: "pc_ok (ss_heap w) (s_calls (ss_threads w i)) (pc_of w i)" and pos: "\<And>c m. ss_heap w c = Some m \<Longrightarrow> 0 < s_count m"
    and cnt: "\<And>c. count_of (ss_heap w) c = count (refs n w) (Some c)"
    using inv i by (simp_all add: stack_inv_def)
  have held: "held w i = add_mset q (mset (owned (S_drop ps k)))" by (simp add: held_def pc)
  have push: "pushing (S_drop ps' k) = Some b \<Longrightarrow> pushing (pc_of w i) = Some b" for b ps' by (simp add: pc)
  show thesis
  proof (cases q)
    case None
    have "keeps n i (S_drop ps k) (ss_heap w) (ss_head w) w"
      by (rule move_inv [OF inv i, of _ _ "{#None#}"]) (use ok push in \<open>auto simp: near_def held None pc\<close>)
    then show thesis using that [of "[]" "ss_heap w"] None by simp
  next
    case (Some c)
    have "Some c \<in># near w i" by (simp add: near_def held Some)
    then obtain m where m: "ss_heap w c = Some m" "0 < s_count m" using near_live [OF inv i] by blast
    show thesis
    proof (cases "s_count m = 1")
      case True
      let ?h = "(ss_heap w)(c := None)"
      note f = free_inv [OF inv i pc [unfolded Some] m(1) True]
      have ch: "chains_ok (ss_heap w)" using inv by (simp add: stack_inv_def)
      have "chain (nx ?h) (ss_head w) as \<and> (\<forall>a\<in>set as. data_of ?h a = data_of (ss_heap w) a)"
        if as: "chain (nx (ss_heap w)) (ss_head w) as" for as
        using chains_free(2) [OF ch f(2) as f(3)] chain_referred [OF as, of c] f(2,3) by (auto simp: data_of_def)
      moreover have "pending ?h k = pending (ss_heap w) k"
      proof (rule pc_frame(2))
        fix b assume b: "Some b \<in> set (owned k)"
        then have "Some b \<in># near w i" "b \<noteq> c" using f(4) by (auto simp: near_def held)
        then show "view ?h b = view (ss_heap w) b \<and> b \<in> dom (ss_heap w)" using near_live [OF inv i] by (auto simp: view_def)
      qed
      ultimately show thesis using that [of "[s_next m]" ?h] f(1) Some m True by (simp add: sp_node_def)
    next
      case False
      let ?h = "(ss_heap w)(c := Some (m\<lparr>s_count := s_count m - 1\<rparr>))"
      have v: "view ?h a = view (ss_heap w) a" for a using m by (simp add: view_def)
      have "keeps n i (S_drop ps k) ?h (ss_head w) w"
      proof (rule view_inv [OF inv i v])
        show "count_of ?h d + count (near w i) (Some d) =
          count_of (ss_heap w) d + count (add_mset (ss_head w) (nexts (ss_heap w)) + mset (owned (S_drop ps k))) (Some d)" for d
          using m by (cases "d = c") (simp_all add: near_def held Some count_of_def)
        show "0 < s_count m'" if "?h d = Some m'" for d m' 
        proof (cases "d = c")
          case True
          then show ?thesis using that m False by auto
        qed (use that pos in simp)
      qed (use ok push in \<open>auto simp: near_def held pc\<close>)
      moreover have "data_of ?h a = data_of (ss_heap w) a" for a using m by (simp add: data_of_def)
      moreover have "pending ?h k = pending (ss_heap w) k"
      proof (rule pc_frame(2))
        fix b assume "Some b \<in> set (owned k)"
        then have "Some b \<in># near w i" by (simp add: near_def held)
        then show "view ?h b = view (ss_heap w) b \<and> b \<in> dom (ss_heap w)" using near_live [OF inv i] v by auto
      qed
      ultimately show thesis using that [of "[]" ?h] chains_same [OF v] Some m False by (simp add: sp_node_def)
    qed
  qed
qed

lemma alloc_inv:
  assumes inv: "stack_inv n w" and i: "i < n" and pc: "pc_of w i = S_idle" and a: "ss_heap w a = None"
    and cs: "s_calls (ss_threads w i) = S_push v # cs"
  shows "keeps n i (S_push_load a) ((ss_heap w)(a := Some \<lparr>s_data = v, s_next = None, s_count = 1\<rparr>)) (ss_head w) w"
proof -
  let ?h = "(ss_heap w)(a := Some \<lparr>s_data = v, s_next = None, s_count = 1\<rparr>)" and ?p = "ss_head w"
  let ?s = "\<Sum>j\<in>{..<n} - {i}. held w j"
  have fin: "finite (dom (ss_heap w))" and pos: "\<And>c m. ss_heap w c = Some m \<Longrightarrow> 0 < s_count m" and ch: "chains_ok (ss_heap w)"
    and cnt: "\<And>c. count_of (ss_heap w) c = count (refs n w) (Some c)"
    using inv by (simp_all add: stack_inv_def)
  have nn: "nexts ?h = add_mset None (nexts (ss_heap w))" using nexts_new [OF fin a] by simp
  have z: "Some a \<notin># refs n w" using cnt [of a] a by (intro iffD1 [OF count_eq_zero_iff]) (simp add: count_of_def)
  have rs: "refs n w = add_mset ?p (nexts (ss_heap w)) + ?s" by (simp add: refs_split [OF i] near_def held_def pc)
  have nr: "nx (ss_heap w) c \<noteq> Some (Some a)" for c
  proof -
    have "Some a \<notin># nexts (ss_heap w)" using z by (simp add: rs)
    then show ?thesis using fin by (auto simp: in_nexts)
  qed
  show ?thesis
  proof (rule go_inv [OF inv i])
    show "count_of ?h c = count (refs n (s_go i (S_push_load a) ?h ?p w)) (Some c)" for c
    proof (cases "c = a")
      case True
      have "count (refs n w) (Some a) = 0" using cnt [of a] a by (simp add: count_of_def)
      then show ?thesis using True unfolding refs_go [OF i] nn rs by (simp add: count_of_def split: if_splits)
    next
      case False
      then show ?thesis using cnt [of c] unfolding refs_go [OF i] nn rs by (simp add: count_of_def)
    qed
    show "chains_ok ?h" by (rule chains_set [OF ch nr, of None]) (auto simp: view_def nx_def)
    show "Some b \<notin># add_mset ?p (nexts ?h) + ?s" if "pushing (S_push_load a) = Some b" for b
      using that z unfolding rs nn by auto
    show "view ?h b = view (ss_heap w) b" if "j < n" "j \<noteq> i" "Some b \<in># held w j" for j b
      using near_live [OF inv that(1), of b] that(3) a by (auto simp: near_def view_def)
    show "r \<in># near w i \<or> (\<exists>c. r = Some c \<and> ss_heap w c = None) \<or> r = None"
      if "r \<in># add_mset ?p (nexts ?h) + mset (owned (S_push_load a))" for r
      using that a unfolding nn by (auto simp: near_def)
  qed (use fin pos cs in \<open>auto simp: nx_def data_of_def split: if_splits\<close>)
qed

section \<open>Every step is good\<close>

text \<open>
  The invariant holds again, the others are where they were, the list did what the events say, and the
  thread has returned, or has still to return, exactly what it decided.
\<close>

definition step_good :: "nat \<Rightarrow> nat \<Rightarrow> 'a shared_stack \<Rightarrow> 'a event list \<Rightarrow> 'a shared_stack \<Rightarrow> bool" where
  "step_good n i w es w' \<longleftrightarrow> stack_inv n w' \<and> (\<forall>j. j \<noteq> i \<longrightarrow> ss_threads w' j = ss_threads w j) \<and>
     (\<forall>j<n. j \<noteq> i \<longrightarrow> pending (ss_heap w') (pc_of w j) = pending (ss_heap w) (pc_of w j)) \<and>
     (\<forall>as. chain (nx (ss_heap w)) (ss_head w) as \<longrightarrow> (\<exists>as'. chain (nx (ss_heap w')) (ss_head w') as' \<and>
        replay es (map (data_of (ss_heap w)) as) = Some (map (data_of (ss_heap w')) as'))) \<and>
     s_out (ss_threads w i) @ pending (ss_heap w) (pc_of w i) @ es = s_out (ss_threads w' i) @ pending (ss_heap w') (pc_of w' i) \<and>
     map call_of (s_out (ss_threads w i)) @ s_calls (ss_threads w i) = map call_of (s_out (ss_threads w' i)) @ s_calls (ss_threads w' i)"

lemma goodI:
  assumes "keeps n i pc h p w" "pending (ss_heap w) (pc_of w i) @ es = pending h pc"
    and "\<And>as. chain (nx (ss_heap w)) (ss_head w) as \<Longrightarrow> \<exists>as'. chain (nx h) p as' \<and>
        replay es (map (data_of (ss_heap w)) as) = Some (map (data_of h) as')"
  shows "step_good n i w es (s_go i pc h p w)"
  using assms by (simp add: step_good_def keeps_def)

text \<open>A list whose nodes look the same is the same.\<close>

lemma list_same:
  assumes as: "chain (nx h) p as" and v: "\<And>a. a \<in> set as \<Longrightarrow> view h' a = view h a"
  shows "chain (nx h') p as" "map (data_of h') as = map (data_of h) as"
proof -
  show "chain (nx h') p as" by (rule chain_cong [OF as view_parts(1) [OF v]])
  show "map (data_of h') as = map (data_of h) as"
  proof (rule map_cong [OF refl])
    fix a assume a: "a \<in> set as"
    then have "a \<in> dom h" using chain_live [OF as a] by (auto simp: nx_def)
    then show "data_of h' a = data_of h a" using view_parts(3) [OF v [OF a]] by blast
  qed
qed

lemma replay_empty: "chain g p as \<Longrightarrow> replay (empty_event p) (map f as) = Some (map f as)"
  by (cases as) (auto simp: empty_event_def)

lemma view_good:
  assumes "keeps n i pc h (ss_head w) w" "pending (ss_heap w) (pc_of w i) @ es = pending h pc"
    "es \<in> {[], empty_event (ss_head w)}" "\<And>as a. chain (nx (ss_heap w)) (ss_head w) as \<Longrightarrow> a \<in> set as \<Longrightarrow> view h a = view (ss_heap w) a"
  shows "step_good n i w es (s_go i pc h (ss_head w) w)"
proof (rule goodI [OF assms(1,2)])
  fix as assume as: "chain (nx (ss_heap w)) (ss_head w) as"
  have "replay es (map (data_of (ss_heap w)) as) = Some (map (data_of (ss_heap w)) as)"
    using assms(3) replay_empty [OF as] by auto
  then show "\<exists>as'. chain (nx h) (ss_head w) as' \<and> replay es (map (data_of (ss_heap w)) as) = Some (map (data_of h) as')"
    using list_same [OF as assms(4) [OF as]] by (intro exI [of _ as]) simp
qed

text \<open>What every step may use.\<close>

definition step_ok :: "nat \<Rightarrow> nat \<Rightarrow> nat \<Rightarrow> bool \<Rightarrow> 'a shared_stack \<Rightarrow> bool" where
  "step_ok n i a sp w \<longleftrightarrow> (\<exists>es w'. s_step i a sp w = Inr (es, w') \<and> step_good n i w es w')"

lemma step_okI: "s_pc_step i a sp (pc_of w i) w = Inr (es, w') \<Longrightarrow> step_good n i w es w' \<Longrightarrow> step_ok n i a sp w"
  by (auto simp: step_ok_def s_step_def)

lemma pc_invD:
  "stack_inv n w \<Longrightarrow> i < n \<Longrightarrow> pc_ok (ss_heap w) (s_calls (ss_threads w i)) (pc_of w i)"
  by (simp add: stack_inv_def)

lemma held_live:
  assumes "stack_inv n w" "i < n" "Some b \<in> set (owned (pc_of w i))"
  obtains m where "ss_heap w b = Some m"
  using near_live [OF assms(1,2), of b] assms(3) by (auto simp: near_def held_def)

lemma idle_step:
  assumes inv: "stack_inv n w" and i: "i < n" and pc: "pc_of w i = S_idle" and a: "ss_heap w a = None"
  shows "step_ok n i a sp w"
proof (cases "s_calls (ss_threads w i)")
  case Nil
  have "step_good n i w [] w" using inv by (auto simp: step_good_def)
  then show ?thesis using Nil pc by (intro step_okI) simp_all
next
  case (Cons c cs)
  show ?thesis
  proof (cases c)
    case (S_push v)
    let ?h = "(ss_heap w)(a := Some \<lparr>s_data = v, s_next = None, s_count = 1\<rparr>)"
    have "step_good n i w [] (s_go i (S_push_load a) ?h (ss_head w) w)"
    proof (rule view_good [OF alloc_inv [OF inv i pc a]])
      fix as b assume "chain (nx (ss_heap w)) (ss_head w) as" "b \<in> set as"
      then have "b \<noteq> a" using chain_live a by (fastforce simp: nx_def)
      then show "view ?h b = view (ss_heap w) b" by (simp add: view_def)
    qed (use Cons S_push pc in simp_all)
    then show ?thesis using Cons S_push pc by (intro step_okI) simp_all
  next
    case S_pop
    obtain h where h: "sp_copy (ss_head w) (ss_heap w) = Inr h" "keeps n i (S_pop_test (ss_head w)) h (ss_head w) w"
      "\<And>a. view h a = view (ss_heap w) a"
      by (rule copy_inv [OF inv i, of "ss_head w" "ss_head w" "S_pop_test (ss_head w)"])
        (use Cons S_pop pc in \<open>auto simp: near_def held_def\<close>)
    have "step_good n i w (empty_event (ss_head w)) (s_go i (S_pop_test (ss_head w)) h (ss_head w) w)"
      by (rule view_good [OF h(2)]) (use pc h(3) in simp_all)
    then show ?thesis using Cons S_pop pc h(1) by (intro step_okI) simp_all
  qed
qed

lemma push_load_step:
  assumes inv: "stack_inv n w" and i: "i < n" and pc: "pc_of w i = S_push_load b"
  shows "step_ok n i a sp w"
proof -
  have ok: "nx (ss_heap w) b = Some None" "\<exists>cs'. s_calls (ss_threads w i) = S_push (data_of (ss_heap w) b) # cs'"
    using pc_invD [OF inv i] pc by simp_all
  have pu: "pushing (pc_of w i) = Some b" using pc by simp
  obtain h h' where h: "sp_copy (ss_head w) (ss_heap w) = Inr h" "sp_set_next b (ss_head w) h = Inr h'"
    "keeps n i (S_push_copy b) h' (ss_head w) w" "\<And>a. a \<noteq> b \<Longrightarrow> view h' a = view (ss_heap w) a"
    by (rule set_inv [OF inv i pu ok(1), of "S_push_copy b"]) (use ok pc in \<open>auto simp: held_def\<close>)
  have "step_good n i w [] (s_go i (S_push_copy b) h' (ss_head w) w)"
  proof (rule view_good [OF h(3)])
    fix as c assume as: "chain (nx (ss_heap w)) (ss_head w) as" "c \<in> set as"
    have "c \<noteq> b" using chain_referred [OF as] own_pushing(1,2) [OF inv i pu] by blast
    then show "view h' c = view (ss_heap w) c" by (rule h(4))
  qed (use pc in simp_all)
  then show ?thesis using pc h(1,2) by (intro step_okI) simp_all
qed

lemma push_copy_step:
  assumes inv: "stack_inv n w" and i: "i < n" and pc: "pc_of w i = S_push_copy b"
  shows "step_ok n i a sp w"
proof -
  obtain h where h: "sp_copy (Some b) (ss_heap w) = Inr h" "keeps n i (S_push_cas b) h (ss_head w) w" "\<And>a. view h a = view (ss_heap w) a"
    by (rule copy_inv [OF inv i, of "Some b" "ss_head w" "S_push_cas b"])
      (use pc_invD [OF inv i] pc in \<open>auto simp: near_def held_def\<close>)
  have "step_good n i w [] (s_go i (S_push_cas b) h (ss_head w) w)" by (rule view_good [OF h(2)]) (use pc h(3) in simp_all)
  then show ?thesis using pc h(1) by (intro step_okI) (simp_all del: sp_copy.simps)
qed

lemma push_cas_step:
  assumes inv: "stack_inv n w" and i: "i < n" and pc: "pc_of w i = S_push_cas b"
  shows "step_ok n i a sp w"
proof -
  obtain m where m: "ss_heap w b = Some m" by (rule held_live [OF inv i, of b]) (simp add: pc)
  then have d: "data_of (ss_heap w) b = s_data m" "nx (ss_heap w) b = Some (s_next m)" by (simp_all add: data_of_def nx_def)
  obtain cs where cs: "s_calls (ss_threads w i) = S_push (s_data m) # cs" using pc_invD [OF inv i] pc d by auto
  have pu: "pushing (pc_of w i) = Some b" using pc by simp
  show ?thesis
  proof (cases "\<not> sp \<and> ss_head w = s_next m")
    case True
    let ?pc = "S_drop [ss_head w, Some b] (S_return (Pushed (s_data m)))"
    have "keeps n i ?pc (ss_heap w) (Some b) w"
      by (rule move_inv [OF inv i, of _ _ "{#}"]) (use pc cs in \<open>auto simp: near_def held_def\<close>)
    then have "step_good n i w [Pushed (s_data m)] (s_go i ?pc (ss_heap w) (Some b) w)"
    proof (rule goodI)
      fix as assume "chain (nx (ss_heap w)) (ss_head w) as"
      then show "\<exists>as'. chain (nx (ss_heap w)) (Some b) as' \<and>
          replay [Pushed (s_data m)] (map (data_of (ss_heap w)) as) = Some (map (data_of (ss_heap w)) as')"
        using d True by (intro exI [of _ "b # as"]) simp
    qed (simp add: pc)
    then show ?thesis using pc m cs True by (intro step_okI) (simp_all add: sp_node_def)
  next
    case False
    let ?pc = "S_drop [s_next m, Some b] (S_push_copy b)"
    obtain h h' where h: "sp_copy (ss_head w) (ss_heap w) = Inr h" "sp_set_next b (ss_head w) h = Inr h'"
      "keeps n i ?pc h' (ss_head w) w" "\<And>a. a \<noteq> b \<Longrightarrow> view h' a = view (ss_heap w) a"
      by (rule set_inv [OF inv i pu d(2), of ?pc]) (use cs pc d in \<open>auto simp: held_def\<close>)
    have "step_good n i w [] (s_go i ?pc h' (ss_head w) w)"
    proof (rule view_good [OF h(3)])
      fix as c assume as: "chain (nx (ss_heap w)) (ss_head w) as" "c \<in> set as"
      have "c \<noteq> b" using chain_referred [OF as] own_pushing(1,2) [OF inv i pu] by blast
      then show "view h' c = view (ss_heap w) c" by (rule h(4))
    qed (use pc in simp_all)
    then show ?thesis using pc m h(1,2) False by (intro step_okI) (auto simp: sp_node_def)
  qed
qed

lemma pop_test_step:
  assumes inv: "stack_inv n w" and i: "i < n" and pc: "pc_of w i = S_pop_test p"
  shows "step_ok n i a sp w"
proof -
  obtain cs where cs: "s_calls (ss_threads w i) = S_pop # cs" using pc_invD [OF inv i] pc by auto
  show ?thesis
  proof (cases p)
    case None
    have "keeps n i (S_return Threw) (ss_heap w) (ss_head w) w"
      by (rule move_inv [OF inv i, of _ _ "{#None#}"]) (use pc cs None in \<open>auto simp: near_def held_def\<close>)
    then have "step_good n i w [] (s_go i (S_return Threw) (ss_heap w) (ss_head w) w)"
      by (rule view_good) (use pc None in \<open>simp_all add: empty_event_def\<close>)
    then show ?thesis using pc None by (intro step_okI) simp_all
  next
    case (Some b)
    obtain m where m: "ss_heap w b = Some m" by (rule held_live [OF inv i, of b]) (simp add: pc Some)
    have nb: "nx (ss_heap w) b = Some (s_next m)" using m by (simp add: nx_def)
    have "finite (dom (ss_heap w))" using inv by (simp add: stack_inv_def)
    then have q: "s_next m \<in># near w i" using nb by (auto simp: near_def in_nexts)
    obtain h where h: "sp_copy (s_next m) (ss_heap w) = Inr h" "keeps n i (S_pop_cas b (s_next m)) h (ss_head w) w"
      "\<And>a. view h a = view (ss_heap w) a"
      by (rule copy_inv [OF inv i q, of "ss_head w" "S_pop_cas b (s_next m)"])
        (use nb cs pc Some in \<open>auto simp: near_def held_def\<close>)
    have "step_good n i w [] (s_go i (S_pop_cas b (s_next m)) h (ss_head w) w)"
      by (rule view_good [OF h(2)]) (use pc Some h(3) in \<open>simp_all add: empty_event_def\<close>)
    then show ?thesis using pc Some m h(1) by (intro step_okI) (simp_all add: sp_node_def)
  qed
qed

lemma pop_cas_step:
  assumes inv: "stack_inv n w" and i: "i < n" and pc: "pc_of w i = S_pop_cas b q"
  shows "step_ok n i a sp w"
proof -
  obtain cs where cs: "s_calls (ss_threads w i) = S_pop # cs" and nb: "nx (ss_heap w) b = Some q" using pc_invD [OF inv i] pc by auto
  obtain m where m: "ss_heap w b = Some m" by (rule held_live [OF inv i, of b]) (simp add: pc)
  show ?thesis
  proof (cases "\<not> sp \<and> ss_head w = Some b")
    case True
    let ?pc = "S_drop [Some b] (S_pop_take b)"
    have "keeps n i ?pc (ss_heap w) q w"
      by (rule move_inv [OF inv i, of _ _ "{#}"]) (use pc cs True in \<open>auto simp: near_def held_def\<close>)
    then have "step_good n i w [Popped (s_data m)] (s_go i ?pc (ss_heap w) q w)"
    proof (rule goodI)
      fix as assume as: "chain (nx (ss_heap w)) (ss_head w) as"
      then obtain as' where "as = b # as'" "chain (nx (ss_heap w)) q as'" using True nb by (cases as) auto
      then show "\<exists>as'. chain (nx (ss_heap w)) q as' \<and>
          replay [Popped (s_data m)] (map (data_of (ss_heap w)) as) = Some (map (data_of (ss_heap w)) as')"
        using m by (intro exI [of _ as']) (simp add: data_of_def)
    qed (use pc m in \<open>simp add: data_of_def\<close>)
    then show ?thesis using pc m True by (intro step_okI) (simp_all add: sp_node_def)
  next
    case False
    let ?pc = "S_drop [Some b, q] (S_pop_test (ss_head w))"
    obtain h where h: "sp_copy (ss_head w) (ss_heap w) = Inr h" "keeps n i ?pc h (ss_head w) w" "\<And>a. view h a = view (ss_heap w) a"
      by (rule copy_inv [OF inv i, of "ss_head w" "ss_head w" ?pc]) (use cs pc in \<open>auto simp: near_def held_def\<close>)
    have "step_good n i w (empty_event (ss_head w)) (s_go i ?pc h (ss_head w) w)"
      by (rule view_good [OF h(2)]) (use pc h(3) in simp_all)
    then show ?thesis using pc h(1) False by (intro step_okI) auto
  qed
qed

lemma pop_take_step:
  assumes inv: "stack_inv n w" and i: "i < n" and pc: "pc_of w i = S_pop_take b"
  shows "step_ok n i a sp w"
proof -
  obtain cs where cs: "s_calls (ss_threads w i) = S_pop # cs" using pc_invD [OF inv i] pc by auto
  obtain m where m: "ss_heap w b = Some m" by (rule held_live [OF inv i, of b]) (simp add: pc)
  let ?pc = "S_drop [Some b] (S_return (Popped (s_data m)))"
  have "keeps n i ?pc (ss_heap w) (ss_head w) w"
    by (rule move_inv [OF inv i, of _ _ "{#}"]) (use pc cs in \<open>auto simp: near_def held_def\<close>)
  then have "step_good n i w [] (s_go i ?pc (ss_heap w) (ss_head w) w)"
    by (rule view_good) (use pc m in \<open>simp_all add: data_of_def\<close>)
  then show ?thesis using pc m by (intro step_okI) (simp_all add: sp_node_def)
qed

lemma drop_step:
  assumes inv: "stack_inv n w" and i: "i < n" and pc: "pc_of w i = S_drop ps k"
  shows "step_ok n i a sp w"
proof (cases ps)
  case Nil
  have "keeps n i k (ss_heap w) (ss_head w) w"
    by (rule move_inv [OF inv i, of _ _ "{#}"]) (use pc Nil pc_invD [OF inv i] in \<open>auto simp: near_def held_def\<close>)
  then have "step_good n i w [] (s_go i k (ss_heap w) (ss_head w) w)" by (rule view_good) (use pc in simp_all)
  then show ?thesis using pc Nil by (intro step_okI) simp_all
next
  case (Cons q qs)
  obtain rs h where h: "sp_release q (ss_heap w) = Inr (rs, h)" "keeps n i (S_drop (rs @ qs) k) h (ss_head w) w"
    "\<And>as. chain (nx (ss_heap w)) (ss_head w) as \<Longrightarrow> chain (nx h) (ss_head w) as \<and> (\<forall>a\<in>set as. data_of h a = data_of (ss_heap w) a)"
    "pending h k = pending (ss_heap w) k"
    using drop_ref_inv [OF inv i pc [unfolded Cons]] by blast
  have "step_good n i w [] (s_go i (S_drop (rs @ qs) k) h (ss_head w) w)"
  proof (rule goodI [OF h(2)])
    fix as assume "chain (nx (ss_heap w)) (ss_head w) as"
    from h(3) [OF this] show "\<exists>as'. chain (nx h) (ss_head w) as' \<and>
        replay [] (map (data_of (ss_heap w)) as) = Some (map (data_of h) as')" by (intro exI [of _ as]) auto
  qed (use pc h(4) in simp)
  then show ?thesis using pc Cons h(1) by (intro step_okI) simp_all
qed

lemma return_step:
  assumes inv: "stack_inv n w" and i: "i < n" and pc: "pc_of w i = S_return e"
  shows "step_ok n i a sp w"
proof -
  let ?t = "ss_threads w i"
  let ?w = "w\<lparr>ss_threads := (ss_threads w)(i := ?t\<lparr>s_pc := S_idle, s_calls := tl (s_calls ?t), s_out := s_out ?t @ [e]\<rparr>)\<rparr>"
  have held: "held ?w j = held w j" for j using pc by (simp add: held_def)
  then have "refs n ?w = refs n w" by (simp add: refs_def)
  then have inv': "stack_inv n ?w" using inv held by (simp add: stack_inv_def)
  obtain cs where "s_calls ?t = call_of e # cs" using pc_invD [OF inv i] pc by auto
  then have "step_good n i w [] ?w" using inv' pc by (auto simp: step_good_def)
  then show ?thesis using pc by (intro step_okI) (simp_all add: Let_def)
qed

lemma every_step:
  assumes "stack_inv n w" "i < n" "ss_heap w a = None"
  shows "step_ok n i a sp w"
  using assms idle_step push_load_step push_copy_step push_cas_step pop_test_step pop_cas_step pop_take_step drop_step return_step
  by (cases "pc_of w i") blast+

section \<open>Runs\<close>

definition events_of :: "nat \<Rightarrow> (nat \<times> 'a event) list \<Rightarrow> 'a event list" where
  "events_of i tr = map snd (filter (\<lambda>x. fst x = i) tr)"

lemma events_of_step: "events_of j (tr @ map (Pair i) es) = events_of j tr @ (if j = i then es else [])"
  by (simp add: events_of_def comp_def)

definition run_good :: "nat \<Rightarrow> (nat \<Rightarrow> 'a scall list) \<Rightarrow> (nat \<times> 'a event) list \<Rightarrow> 'a shared_stack \<Rightarrow> bool" where
  "run_good n prog tr w \<longleftrightarrow> stack_inv n w \<and>
     (\<exists>as. chain (nx (ss_heap w)) (ss_head w) as \<and> replay (map snd tr) [] = Some (map (data_of (ss_heap w)) as)) \<and>
     (\<forall>i<n. events_of i tr = s_out (ss_threads w i) @ pending (ss_heap w) (pc_of w i) \<and>
        map call_of (s_out (ss_threads w i)) @ s_calls (ss_threads w i) = prog i)"

lemma start_good: "run_good n prog [] (shared_start prog)"
proof -
  have "refs n (shared_start prog) = {#None#}" by (simp add: refs_def held_def shared_start_def nexts_def)
  then have "stack_inv n (shared_start prog)"
    by (simp add: stack_inv_def) (simp add: shared_start_def count_of_def chains_ok_def)
  moreover have "chain (nx (ss_heap (shared_start prog))) (ss_head (shared_start prog)) []" by (simp add: shared_start_def)
  ultimately show ?thesis unfolding run_good_def
    by (intro conjI exI [of _ "[]"]) (simp_all add: events_of_def, simp_all add: shared_start_def)
qed

lemma step_run_good:
  assumes g: "run_good n prog tr w" and s: "step_good n i w es w'" and i: "i < n"
  shows "run_good n prog (tr @ map (Pair i) es) w'"
proof -
  obtain as where as: "chain (nx (ss_heap w)) (ss_head w) as" "replay (map snd tr) [] = Some (map (data_of (ss_heap w)) as)"
    using g by (auto simp: run_good_def)
  obtain as' where as': "chain (nx (ss_heap w')) (ss_head w') as'"
    "replay es (map (data_of (ss_heap w)) as) = Some (map (data_of (ss_heap w')) as')"
    using s as(1) by (auto simp: step_good_def)
  have "replay (map snd (tr @ map (Pair i) es)) [] = Some (map (data_of (ss_heap w')) as')"
    using as(2) as'(2) by (simp add: replay_append comp_def)
  moreover have "events_of j (tr @ map (Pair i) es) = s_out (ss_threads w' j) @ pending (ss_heap w') (pc_of w' j) \<and>
      map call_of (s_out (ss_threads w' j)) @ s_calls (ss_threads w' j) = prog j" if "j < n" for j
  proof (cases "j = i")
    case True
    then show ?thesis using g s i by (simp add: run_good_def step_good_def events_of_step)
  next
    case False
    then show ?thesis using g s that by (simp add: run_good_def step_good_def events_of_step)
  qed
  ultimately show ?thesis using s as'(1) by (auto simp: run_good_def step_good_def)
qed

lemma run_is_good: "shared_run n (shared_start prog) tr w \<Longrightarrow> run_good n prog tr w"
proof (induction rule: shared_run.induct)
  case (shared_next tr w i a sp es w')
  have "stack_inv n w" using shared_next.IH by (simp add: run_good_def)
  from every_step [OF this shared_next.hyps(2,3), of sp] have "step_good n i w es w'"
    using shared_next.hyps(4) by (auto simp: step_ok_def)
  then show ?case by (rule step_run_good [OF shared_next.IH _ shared_next.hyps(2)])
qed (rule start_good)

section \<open>Nothing is left over\<close>

lemma chain_closed: "chain g p as \<Longrightarrow> b \<in> set as \<Longrightarrow> g b = Some (Some a) \<Longrightarrow> a \<in> set as"
proof (induction g p as rule: chain.induct)
  case (2 g p c as)
  then obtain q where q: "g c = Some q" "chain g q as" by auto
  show ?case
  proof (cases "b = c")
    case True
    then have "q = Some a" using q(1) 2(4) by simp
    then show ?thesis using q(2) by (cases as) auto
  next
    case False
    then show ?thesis using 2(1) [OF q(2)] 2(3,4) by simp
  qed
qed simp

text \<open>When no thread holds a pointer, the nodes are those of the list: a node off the list with the longest rest has nobody to refer to it.\<close>

lemma all_on_list:
  assumes inv: "stack_inv n w" and idle: "\<And>i. i < n \<Longrightarrow> pc_of w i = S_idle"
    and as: "chain (nx (ss_heap w)) (ss_head w) as"
  shows "dom (ss_heap w) = set as"
proof
  show "set as \<subseteq> dom (ss_heap w)" using chain_live [OF as] by (auto simp: nx_def)
  let ?s = "dom (ss_heap w) - set as"
  have fin: "finite (dom (ss_heap w))" and ch: "chains_ok (ss_heap w)" using inv by (simp_all add: stack_inv_def)
  show "dom (ss_heap w) \<subseteq> set as"
  proof (rule ccontr)
    assume "\<not> dom (ss_heap w) \<subseteq> set as"
    then have ne: "?s \<noteq> {}" by blast
    define f where "f a = length (SOME xs. chain (nx (ss_heap w)) (Some a) xs)" for a
    have f: "f a = length xs" if "chain (nx (ss_heap w)) (Some a) xs" for a xs
      using chain_unique [OF that someI [of "chain (nx (ss_heap w)) (Some a)", OF that]] by (simp add: f_def)
    have "Max (f ` ?s) \<in> f ` ?s" using fin ne by (intro Max_in) auto
    then obtain a where a: "a \<in> ?s" "f a = Max (f ` ?s)" by (metis imageE)
    have "held w i = {#}" if "i < n" for i using idle [OF that] by (simp add: held_def)
    then have rs: "refs n w = add_mset (ss_head w) (nexts (ss_heap w))" by (simp add: refs_def)
    obtain m where m: "ss_heap w a = Some m" using a(1) by auto
    then have "0 < s_count m" "s_count m = count (refs n w) (Some a)"
      using inv by (auto simp: stack_inv_def count_of_def dest: spec [of _ a])
    then have "Some a \<in># add_mset (ss_head w) (nexts (ss_heap w))" by (simp only: rs [symmetric] count_greater_zero_iff)
    moreover have "ss_head w \<noteq> Some a" using as a(1) by (cases as) auto
    ultimately obtain b where b: "nx (ss_heap w) b = Some (Some a)" using fin by (auto simp: in_nexts)
    have "b \<notin> set as" using chain_closed [OF as _ b] a(1) by blast
    then have bs: "b \<in> ?s" using b by (auto simp: nx_def)
    obtain xs where xs: "chain (nx (ss_heap w)) (Some a) xs" using ch m by (auto simp: chains_ok_def)
    then have "chain (nx (ss_heap w)) (Some b) (b # xs)" using b by simp
    then have "f b = Suc (f a)" using f [of b "b # xs"] f [OF xs] by simp
    moreover have "f b \<le> Max (f ` ?s)" using bs fin by (intro Max_ge) auto
    ultimately show False using a(2) by simp
  qed
qed

section \<open>A run of the program\<close>

text \<open>The threads of \<open>main\<close>, with \<open>main\<close> itself as thread 0.\<close>

definition fixed_main :: "nat \<Rightarrow> nat scall list" where
  "fixed_main i =
     (if i = 0 then [S_push 1, S_push 2, S_push 3, S_push 4, S_push 5]
      else if i = 1 then [S_pop]
      else if i = 2 then [S_pop, S_pop, S_push 5]
      else [])"

fun s_script :: "(nat \<times> nat) list \<Rightarrow> 'a shared_stack \<Rightarrow> (stack_error + ((nat \<times> 'a event) list \<times> 'a shared_stack)) option" where
  "s_script [] w = Some (Inr ([], w))"
| "s_script ((i, a) # xs) w =
     (if ss_heap w a \<noteq> None then None
      else case s_step i a False w of
        Inl e \<Rightarrow> Some (Inl e)
      | Inr (es, w) \<Rightarrow> (case s_script xs w of
            Some (Inr (tr, w)) \<Rightarrow> Some (Inr (map (Pair i) es @ tr, w)) | r \<Rightarrow> r))"

lemma s_script_run:
  "s_script xs w = Some (Inr (tr', w')) \<Longrightarrow> fst ` set xs \<subseteq> {..<n} \<Longrightarrow> shared_run n w0 tr w \<Longrightarrow> shared_run n w0 (tr @ tr') w'"
proof (induction xs arbitrary: w tr tr')
  case (Cons x xs)
  obtain i a where x: "x = (i, a)" by (cases x)
  obtain es w1 tr1 where w1: "ss_heap w a = None" "s_step i a False w = Inr (es, w1)" "s_script xs w1 = Some (Inr (tr1, w'))"
    "tr' = map (Pair i) es @ tr1"
    using Cons.prems(1) by (auto simp: x split: if_splits sum.splits option.splits)
  have "shared_run n w0 (tr @ map (Pair i) es) w1" by (rule shared_next [OF Cons.prems(3) _ w1(1,2)]) (use Cons.prems(2) x in simp)
  then have "shared_run n w0 ((tr @ map (Pair i) es) @ tr1) w'" by (rule Cons.IH [OF w1(3), rotated]) (use Cons.prems(2) in simp)
  then show ?case using w1(4) by simp
qed simp

lemmas shared_eval = s_step_def s_go_def sp_node_def sp_set_next_def empty_event_def shared_start_def Let_def

text \<open>
  Thread 1 stops before its compare-exchange, as in the run that breaks \<^verbatim>\<open>aba.cpp\<close>. It holds the first node, which
  can therefore not come back: the address of the new node is another one, and the exchange fails.
\<close>

abbreviation fixed_schedule :: "(nat \<times> nat) list" where
  "fixed_schedule \<equiv> concat (map (\<lambda>a. (0, a) # replicate 7 (0, 0)) [10, 11, 12, 13, 14]) @
     [(1, 0), (1, 0)] @ replicate 18 (2, 0) @ [(2, 15)] @ replicate 7 (2, 0) @ replicate 15 (1, 0)"

abbreviation fixed_events :: "(nat \<times> nat event) list" where
  "fixed_events \<equiv> [(0, Pushed 1), (0, Pushed 2), (0, Pushed 3), (0, Pushed 4), (0, Pushed 5),
     (2, Popped 5), (2, Popped 4), (2, Pushed 5), (1, Popped 5)]"

lemma fixed_script:
  "\<exists>w. s_script fixed_schedule (shared_start fixed_main) = Some (Inr (fixed_events, w)) \<and> shared_finished 3 w \<and>
     ss_head w = Some 12 \<and> dom (ss_heap w) = {10, 11, 12} \<and> s_out (ss_threads w 1) = [Popped 5]"
  by (simp add: shared_eval fixed_main_def shared_finished_def eval_nat_numeral less_Suc_eq)
     (auto simp: dom_def)

lemma fixed_run:
  "\<exists>w. shared_run 3 (shared_start fixed_main) fixed_events w \<and> shared_finished 3 w \<and>
     ss_head w = Some 12 \<and> dom (ss_heap w) = {10, 11, 12} \<and> s_out (ss_threads w 1) = [Popped 5]"
proof -
  obtain w where w: "s_script fixed_schedule (shared_start fixed_main) = Some (Inr (fixed_events, w))"
    "shared_finished 3 w" "ss_head w = Some 12" "dom (ss_heap w) = {10, 11, 12}" "s_out (ss_threads w 1) = [Popped 5]"
    using fixed_script by blast
  show ?thesis using s_script_run [OF w(1) _ shared_init, of 3] w(2-) by auto
qed

section \<open>The end of the program\<close>

text \<open>What is left when all calls have returned: the list, each node with one reference.\<close>

definition quiet :: "'a shared_stack \<Rightarrow> nat list \<Rightarrow> bool" where
  "quiet w as \<longleftrightarrow> chain (nx (ss_heap w)) (ss_head w) as \<and> dom (ss_heap w) = set as \<and>
     (\<forall>a\<in>set as. count_of (ss_heap w) a = 1) \<and> s_pc (ss_threads w 0) = S_idle \<and> s_calls (ss_threads w 0) = []"

lemma chain_links: "chain g p as \<Longrightarrow> p # map (the \<circ> g) as = map Some as @ [None]"
  by (induction g p as rule: chain.induct) auto

lemma finished_quiet:
  assumes inv: "stack_inv n w" and fin: "shared_finished n w" and n: "0 < n" and as: "chain (nx (ss_heap w)) (ss_head w) as"
  shows "quiet w as"
proof -
  have idle: "\<And>i. i < n \<Longrightarrow> pc_of w i = S_idle" using fin by (simp add: shared_finished_def)
  have dom: "dom (ss_heap w) = set as" by (rule all_on_list [OF inv idle as])
  have "held w i = {#}" if "i < n" for i using idle [OF that] by (simp add: held_def)
  then have "refs n w = add_mset (ss_head w) (nexts (ss_heap w))" by (simp add: refs_def)
  also have "nexts (ss_heap w) = mset (map (the \<circ> nx (ss_heap w)) as)"
  proof -
    have "nexts (ss_heap w) = image_mset (\<lambda>a. s_next (the (ss_heap w a))) (mset as)"
      using chain_distinct [OF as] by (simp add: nexts_def dom mset_set_set)
    also have "\<dots> = image_mset (the \<circ> nx (ss_heap w)) (mset as)"
    proof (rule image_mset_cong)
      fix a assume "a \<in># mset as"
      then have "a \<in> dom (ss_heap w)" by (simp add: dom)
      then show "s_next (the (ss_heap w a)) = (the \<circ> nx (ss_heap w)) a" by (auto simp: nx_def)
    qed
    finally show ?thesis by simp
  qed
  also have "add_mset (ss_head w) \<dots> = mset (map Some as @ [None])" by (simp flip: chain_links [OF as])
  finally have refs: "refs n w = mset (map Some as @ [None])" .
  have "count_of (ss_heap w) a = 1" if "a \<in> set as" for a
  proof -
    have "count_of (ss_heap w) a = count (refs n w) (Some a)" using inv by (simp add: stack_inv_def)
    also have "\<dots> = count (mset (map Some as)) (Some a)" by (simp add: refs)
    also have "\<dots> = 1" using chain_distinct [OF as] that by (subst distinct_count_atmost_1 [THEN iffD1]) (auto simp: distinct_map)
    finally show ?thesis .
  qed
  then show ?thesis using as dom fin n by (simp add: quiet_def shared_finished_def)
qed

text \<open>A pop alone: every reference it makes it releases, and the one \<open>head\<close> had frees the node.\<close>

lemma pop_alone:
  assumes "ss_head w = Some b" "ss_heap w b = Some m" "s_count m = 1" "pc_of w 0 = S_idle"
    "\<And>c. s_next m = Some c \<Longrightarrow> c \<noteq> b \<and> (\<exists>k. ss_heap w c = Some k \<and> 0 < s_count k)"
  shows "\<exists>w'. shared_call 0 (call_pop w) = Some (Inr w') \<and> ss_heap w' = (ss_heap w)(b := None) \<and> ss_head w' = s_next m \<and>
    pc_of w' 0 = S_idle \<and> s_calls (ss_threads w' 0) = []"
proof (cases "s_next m")
  case None
  then show ?thesis using assms(1-4) by (simp add: call_pop_def shared_call.simps shared_eval)
next
  case (Some c)
  then obtain k where "c \<noteq> b" "ss_heap w c = Some k" "0 < s_count k" using assms(5) by blast
  then show ?thesis using assms(1-4) Some
    by (simp add: call_pop_def shared_call.simps shared_eval fun_upd_twist fun_upd_idem)
qed

lemma quiet_pop:
  assumes "quiet w (b # as)"
  shows "\<exists>w'. shared_call 0 (call_pop w) = Some (Inr w') \<and> quiet w' as"
proof -
  obtain m where m: "ss_head w = Some b" "ss_heap w b = Some m" "s_count m = 1" "chain (nx (ss_heap w)) (s_next m) as"
    using assms by (auto simp: quiet_def nx_def count_of_def split: option.splits)
  have dist: "distinct (b # as)" using assms chain_distinct unfolding quiet_def by blast
  have next_live: "c \<noteq> b \<and> (\<exists>k. ss_heap w c = Some k \<and> 0 < s_count k)" if "s_next m = Some c" for c
  proof -
    have "c \<in> set as" using m(4) that by (cases as) auto
    then have "c \<noteq> b" "count_of (ss_heap w) c = 1" using assms dist by (auto simp: quiet_def)
    then show ?thesis by (auto simp: count_of_def split: option.splits)
  qed
  obtain w' where w': "shared_call 0 (call_pop w) = Some (Inr w')" "ss_heap w' = (ss_heap w)(b := None)" "ss_head w' = s_next m"
    "pc_of w' 0 = S_idle" "s_calls (ss_threads w' 0) = []"
    using pop_alone [OF m(1-3) _ next_live] assms by (auto simp: quiet_def)
  have "chain (nx (ss_heap w')) (s_next m) as" by (rule chain_cong [OF m(4)]) (use dist in \<open>auto simp: w'(2) nx_def\<close>)
  moreover have "dom (ss_heap w') = set as" using assms dist by (auto simp: w'(2) quiet_def)
  moreover have "\<forall>a\<in>set as. count_of (ss_heap w') a = 1" using assms dist by (auto simp: w'(2) quiet_def count_of_def)
  ultimately show ?thesis using w' by (simp add: quiet_def)
qed

lemma quiet_dtor: "quiet w as \<Longrightarrow> \<exists>w'. shared_dtor w = Some (Inr w') \<and> ss_heap w' = Map.empty"
proof (induction as arbitrary: w)
  case Nil
  then show ?case by (subst shared_dtor.simps) (simp add: quiet_def)
next
  case (Cons b as)
  obtain w1 where "shared_call 0 (call_pop w) = Some (Inr w1)" "quiet w1 as" using quiet_pop [OF Cons.prems] by blast
  moreover have "ss_head w = Some b" using Cons.prems by (simp add: quiet_def)
  ultimately show ?case using Cons.IH by (subst shared_dtor.simps) simp
qed

lemma quiet_print: "chain (nx h) p as \<Longrightarrow> shared_print h p = Some (Inr (map (data_of h) as))"
proof (induction as arbitrary: p)
  case Nil
  then show ?case by (simp add: shared_print.simps)
next
  case (Cons b as)
  then show ?case by (subst shared_print.simps) (auto simp: nx_def data_of_def)
qed


section \<open>What the class promises\<close>

lemma pending_call: "pc_ok h cs pc \<Longrightarrow> length (pending h pc) \<le> 1 \<and> (\<exists>cs'. cs = map call_of (pending h pc) @ cs')"
  by (induction pc) (auto simp: empty_event_def)

text \<open>
  C31. The repaired stack is linearizable. Every push, pop and exception takes effect at one step of its call:
  the events, in the order of these steps, are the run of a sequential stack, whose contents are the list
  from \<open>head\<close>. Each thread has returned exactly the events of its own calls, in the order of the program,
  but for at most one, that of the call it is in.
\<close>

theorem shared_stack_linearizable:
  assumes "shared_run n (shared_start prog) tr w"
  shows "(\<exists>as. chain (nx (ss_heap w)) (ss_head w) as \<and> replay (map snd tr) [] = Some (map (data_of (ss_heap w)) as)) \<and>
    (\<forall>i<n. \<exists>es cs. events_of i tr = s_out (ss_threads w i) @ es \<and> map call_of (s_out (ss_threads w i) @ es) @ cs = prog i \<and>
      length es \<le> 1 \<and> (s_pc (ss_threads w i) = S_idle \<longrightarrow> es = [] \<and> cs = s_calls (ss_threads w i)))"
proof (intro conjI allI impI)
  note good = run_is_good [OF assms, unfolded run_good_def]
  show "\<exists>as. chain (nx (ss_heap w)) (ss_head w) as \<and> replay (map snd tr) [] = Some (map (data_of (ss_heap w)) as)"
    using good by blast
  fix i assume i: "i < n"
  then have "pc_ok (ss_heap w) (s_calls (ss_threads w i)) (pc_of w i)" using good pc_invD by blast
  then obtain cs where "length (pending (ss_heap w) (pc_of w i)) \<le> 1"
    "s_calls (ss_threads w i) = map call_of (pending (ss_heap w) (pc_of w i)) @ cs"
    using pending_call by blast
  then show "\<exists>es cs. events_of i tr = s_out (ss_threads w i) @ es \<and> map call_of (s_out (ss_threads w i) @ es) @ cs = prog i \<and>
      length es \<le> 1 \<and> (s_pc (ss_threads w i) = S_idle \<longrightarrow> es = [] \<and> cs = s_calls (ss_threads w i))"
    using good i by (intro exI [of _ "pending (ss_heap w) (pc_of w i)"] exI [of _ cs]) auto
qed

text \<open>In the run above thread 1 pops the node that thread 2 pushed, and the list ends with three nodes.\<close>

theorem shared_stack_linearizable_witness:
  "\<exists>w as. shared_run 3 (shared_start fixed_main) fixed_events w \<and> chain (nx (ss_heap w)) (Some 12) as \<and>
     map (data_of (ss_heap w)) as = [3, 2, 1]"
proof -
  obtain w where w: "shared_run 3 (shared_start fixed_main) fixed_events w" "ss_head w = Some 12" using fixed_run by blast
  obtain as where "chain (nx (ss_heap w)) (Some 12) as" "replay (map snd fixed_events) [] = Some (map (data_of (ss_heap w)) as)"
    using shared_stack_linearizable [OF w(1)] w(2) by metis
  then have "chain (nx (ss_heap w)) (Some 12) as" "map (data_of (ss_heap w)) as = [3, 2, 1]" by simp_all
  with w(1) show ?thesis by (intro exI [of _ w] exI [of _ as]) simp
qed

text \<open>
  C33. The memory of the repaired stack is safe, and none is lost: no thread can be stopped by a step on a freed
  node, whatever it does next. When all calls have returned the nodes are exactly those of the list, \<open>main\<close>
  prints the contents, and the destructor ends and frees every node.
\<close>

theorem shared_stack_memory:
  assumes "shared_run n (shared_start prog) tr w"
  shows "(\<forall>i<n. \<forall>a spurious. ss_heap w a = None \<longrightarrow> (\<exists>es w'. s_step i a spurious w = Inr (es, w'))) \<and>
    (0 < n \<and> shared_finished n w \<longrightarrow> (\<exists>as. chain (nx (ss_heap w)) (ss_head w) as \<and> dom (ss_heap w) = set as \<and>
       replay (map snd tr) [] = Some (map (data_of (ss_heap w)) as) \<and>
       shared_print (ss_heap w) (ss_head w) = Some (Inr (map (data_of (ss_heap w)) as)) \<and>
       (\<exists>w'. shared_dtor w = Some (Inr w') \<and> ss_heap w' = Map.empty)))"
proof (intro conjI allI impI)
  have inv: "stack_inv n w" using run_is_good [OF assms] by (simp add: run_good_def)
  show "\<exists>es w'. s_step i a spurious w = Inr (es, w')" if "i < n" "ss_heap w a = None" for i a spurious
    using every_step [OF inv that, of spurious] by (auto simp: step_ok_def)
  assume fin: "0 < n \<and> shared_finished n w"
  obtain as where as: "chain (nx (ss_heap w)) (ss_head w) as" "replay (map snd tr) [] = Some (map (data_of (ss_heap w)) as)"
    using run_is_good [OF assms] by (auto simp: run_good_def)
  have q: "quiet w as" by (rule finished_quiet [OF inv _ _ as(1)]) (use fin in simp_all)
  then have "dom (ss_heap w) = set as" by (simp add: quiet_def)
  then show "\<exists>as. chain (nx (ss_heap w)) (ss_head w) as \<and> dom (ss_heap w) = set as \<and>
       replay (map snd tr) [] = Some (map (data_of (ss_heap w)) as) \<and>
       shared_print (ss_heap w) (ss_head w) = Some (Inr (map (data_of (ss_heap w)) as)) \<and>
       (\<exists>w'. shared_dtor w = Some (Inr w') \<and> ss_heap w' = Map.empty)"
    using as quiet_print [OF as(1)] quiet_dtor [OF q] by blast
qed

text \<open>The run above ends with the output \<^verbatim>\<open>3, 2, 1\<close>.\<close>

theorem shared_stack_memory_witness:
  "\<exists>w w'. shared_run 3 (shared_start fixed_main) fixed_events w \<and> shared_finished 3 w \<and>
     shared_print (ss_heap w) (ss_head w) = Some (Inr [3, 2, 1]) \<and> shared_dtor w = Some (Inr w') \<and> ss_heap w' = Map.empty \<and>
     (\<exists>es w'. s_step 1 13 False w = Inr (es, w'))"
proof -
  obtain w where w: "shared_run 3 (shared_start fixed_main) fixed_events w" "shared_finished 3 w"
    "dom (ss_heap w) = {10, 11, 12}" using fixed_run by blast
  note memory = shared_stack_memory [OF w(1)]
  have "13 \<notin> dom (ss_heap w)" unfolding w(3) by simp
  then have "ss_heap w 13 = None" by auto
  then have step: "\<exists>es w'. s_step 1 13 False w = Inr (es, w')" using memory by simp
  have "0 < (3 :: nat) \<and> shared_finished 3 w" using w(2) by simp
  then obtain as w' where as: "replay (map snd fixed_events) [] = Some (map (data_of (ss_heap w)) as)"
    "shared_print (ss_heap w) (ss_head w) = Some (Inr (map (data_of (ss_heap w)) as))"
    "shared_dtor w = Some (Inr w')" "ss_heap w' = Map.empty"
    using mp [OF conjunct2 [OF memory]] by blast
  from as(1) have "map (data_of (ss_heap w)) as = [3, 2, 1]" by simp
  with as(2) have "shared_print (ss_heap w) (ss_head w) = Some (Inr [3, 2, 1])" by simp
  then show ?thesis using w(1,2) as(3,4) step by (intro exI [of _ w] exI [of _ w']) simp
qed

end
