(* ===== verification/Spec2Isabelle.thy ===== *)
theory Spec2Isabelle
  imports Race_Exact Memory_Order Tree_Search Scheduler_Stuck Atomic_Log Semaphore Event Wfmo_Props Simulate Futex Windows Tls Managed
    Peterson_Race Aba_Stack Shared_Stack_Props
begin

text \<open>
  Relacy Race Detector, the C++ library under \<^verbatim>\<open>src/code/relacy/relacy\<close>: a test runs
  its threads as fibers on a simulated machine, over and over, under a scheduler that chooses at
  every scheduling point which thread goes on and at every relaxed load which value it sees, and
  reports data races, deadlocks, livelocks, leaks and misuse of the synchronisation objects. The
  development models the machine, the schedulers, the objects and the driver, and proves what a
  report and the absence of a report mean.

  \<^bold>\<open>Conventions.\<close> The prelude (\<^theory_text>\<open>Relacy_Prelude\<close>) holds the machine types - a timestamp is a
  64-bit word, an \<open>unsigned\<close> a 32-bit one - and the type \<open>fault\<close>: \<open>Test_failed r\<close> is
  \<open>fail_test\<close>, which leaves the test with result \<open>r\<close>, \<open>Verify_failed\<close> is a failed \<open>RL_VERIFY\<close>, that is
  an internal assertion. An operation returns \<open>fault + 'a\<close>, and \<open>rbind\<close> runs one after another.
  \<^theory_text>\<open>Relacy_Types\<close> holds the enumerations, the parameters of a test, the arithmetic of
  read-modify-writes and the random generator.

  A fiber gives up control only in \<open>switch_to_fiber\<close>. So an operation that may switch is modelled in
  pieces: a definition is what one fiber runs between two switches, and where it parks, the rest is a
  definition of its own, named \<open>resume\<close>, \<open>end\<close> or \<open>done\<close>. Nearly every operation of the library
  starts with the scheduling point \<open>c.sched()\<close>; a definition is the part after it unless its text
  says otherwise. Interleavings are therefore sequences of these pieces.

  \<^bold>\<open>The memory model.\<close>
  \<^item> \<^theory_text>\<open>Vclock\<close>: \<^verbatim>\<open>foreach.hpp\<close>, \<^verbatim>\<open>sync_var.hpp\<close>; vector clocks and the clock
    of a synchronisation object. The locale \<open>release_acquire\<close> says what such an object passes on.
  \<^item> \<^theory_text>\<open>Thread_Mem\<close>, \<^theory_text>\<open>Thread_Mem_Props\<close>, \<^theory_text>\<open>Memory_Order\<close>: \<^verbatim>\<open>thread.hpp\<close>; loads, stores,
    read-modify-writes and fences of a thread over the history of three records of an atomic
    variable. C3 gives the records a load may choose; C4 to C9 are the guarantees of the memory
    orders and of coherence, and message passing end to end.
  \<^item> \<^theory_text>\<open>Plain_Var\<close>, \<^theory_text>\<open>Race_Exact\<close>: \<^verbatim>\<open>var.hpp\<close>; plain variables and the race detector.
    C1 and C2: over traces of synchronisations and accesses it reports a race exactly when there is
    one under a happens-before that is defined without clocks.
  \<^item> \<^theory_text>\<open>Atomic_Cell\<close>, \<^theory_text>\<open>Atomic_Log\<close>: \<^verbatim>\<open>atomic.hpp\<close>, \<^verbatim>\<open>rmw.hpp\<close>; the class
    \<open>generic_atomic\<close> and its proxies, a refinement of a log of the values stored (C16).
    \<^theory_text>\<open>Managed\<close> has the Java and .NET classes over it.

  \<^bold>\<open>The schedulers.\<close>
  \<^item> \<^theory_text>\<open>Scheduler\<close>: \<^verbatim>\<open>scheduler.hpp\<close>, \<^verbatim>\<open>random_scheduler.hpp\<close>,
    \<^verbatim>\<open>full_search_scheduler.hpp\<close>, \<^verbatim>\<open>context_bound_scheduler.hpp\<close>; one state
    for the three, told apart by \<open>s_kind\<close>. \<^theory_text>\<open>Scheduler_Inv\<close>, \<^theory_text>\<open>Scheduler_Sched\<close> and
    \<^theory_text>\<open>Scheduler_Props\<close>: the invariant of every reachable state, that \<open>schedule\<close> returns, when a
    deadlock is reported, and the context bound (C10 to C12, C14). \<^theory_text>\<open>Scheduler_Stuck\<close>: a reachable
    state in which an assertion fails (C19). The block counts and yield debts are \<open>unsigned\<close> and wrap around in the
    model as in the code (\<open>inc32\<close>, \<open>dec32\<close>, \<open>add32\<close>, \<open>sub32\<close>). C14 holds for yields of any size; C10 to C12 hold as long as no
    yield reaches a bound \<open>B\<close> with \<open>B\<close> times the number of threads at most \<open>2 ^ 32\<close>, and the lemma
    \<open>debts_wrap_deadlock\<close> shows that two yields of \<open>2 ^ 31\<close> break the detection of deadlocks.
  \<^item> \<^theory_text>\<open>Tree_Search\<close>, \<^theory_text>\<open>Search_State\<close>: the depth-first search of the tree of choices runs each
    way through a deterministic test once, in order (C15), and its saved state is read back (C37).

  \<^bold>\<open>Memory.\<close> \<^theory_text>\<open>Memory\<close> (\<^verbatim>\<open>memory.hpp\<close>, C20, C21) and \<^theory_text>\<open>Slab\<close>
  (\<^verbatim>\<open>slab_allocator.hpp\<close>, C22) refine a heap of blocks that share no byte and a pool of elements.
  \<^theory_text>\<open>Alloc\<close> has the functions a test allocates with, arrays and the global operators included.

  \<^bold>\<open>The context and the objects.\<close>
  \<^item> \<^theory_text>\<open>Context\<close>: \<^verbatim>\<open>context.hpp\<close> and its bases; the record \<open>ctx\<close> holds the scheduler,
    the threads, the wait sets, the allocators, the address hashes and the thread local slots.
    \<^theory_text>\<open>Tls\<close> has the variables over the slots and the back-off.
  \<^item> \<^theory_text>\<open>Waitset\<close>, \<^theory_text>\<open>Wait_Contract\<close>: \<^verbatim>\<open>waitset.hpp\<close>; parking and waking. The
    locales \<open>waker\<close> and \<open>broadcaster\<close> state the contract between a wait set and the object that wakes
    it: if a woken fiber takes what it waited for and gives control back, so does the loop over all
    of them. They are interpreted for semaphores, events and the waiters that ask for no switch.
  \<^item> \<^theory_text>\<open>Waitable\<close>, \<^theory_text>\<open>Wfmo\<close>: the state of the blocking objects, the record \<open>world\<close>, the
    waiting half of their operations and the wait for several of them. \<^theory_text>\<open>Wfmo_Props\<close> shows that
    this wait refines a specification over sets of objects, and that a wait which cannot be served parks on all
    of them or is reported as a deadlock (C34).
  \<^item> \<^theory_text>\<open>Semaphore\<close> (C23), \<^theory_text>\<open>Event\<close> (C24, C25), \<^theory_text>\<open>Mutex\<close>, \<^theory_text>\<open>Mutex_History\<close>,
    \<^theory_text>\<open>Mutex_Props\<close> (C26 to C30), \<^theory_text>\<open>Condvar\<close> (C32): \<^verbatim>\<open>stdlib\<close>. The
    properties of mutexes are about all runs of the pieces of one mutex by any threads. The shared operations
    assert that the mutex is a reader-writer one (\<open>rw_check\<close>).
  \<^item> \<^theory_text>\<open>Posix\<close>, \<^theory_text>\<open>Futex\<close>, \<^theory_text>\<open>Windows\<close>: \<^verbatim>\<open>stdlib/pthread.hpp\<close> and
    \<^verbatim>\<open>stdlib/windows.hpp\<close>, thin layers over the objects; C40 ties the futexes to the
    memory model.
  \<^item> \<^theory_text>\<open>Fibers\<close>: what a fiber runs around the test's own functions, and dynamic threads
    (C35, C36). \<^theory_text>\<open>Simulate\<close>: the loop over iterations and the driver that repeats a failed run (C38,
    C39).

  \<^bold>\<open>A test, end to end.\<close> \<^theory_text>\<open>Peterson\<close> is the test program
  \<^verbatim>\<open>example/peterson/peterson.cpp\<close>: four versions of Peterson's mutual exclusion that differ in
  their memory orders, run on the operations of the detector. \<^theory_text>\<open>Litmus\<close> has one lemma for
  each operation on an atomic variable that a small program writes at most three times.
  \<^theory_text>\<open>Peterson_Props\<close> proves an invariant over all runs and with it that the first three tests pass,
  whatever the scheduler and the loads choose (C18); \<^theory_text>\<open>Peterson_Race\<close> gives the run in which the
  fourth is reported as a data race, as its source says it is (C13). A run takes the pieces of the
  two threads in any order, which is more than what any of the schedulers does. Every operation that calls the
  scheduler is a piece of its own, the sequentially consistent fences among them.

  \<^bold>\<open>The stacks.\<close> The lock-free stacks of \<^verbatim>\<open>src/code/aba\<close>, with which the repository shows what a
  detector should find, are modelled at the same grain as the detector's own fibers, a step for each
  access to what is shared. \<^theory_text>\<open>Lifo\<close> has what they share: a sequential stack of events, lists
  along pointers, and the one error, \<open>Freed_node\<close>. \<^theory_text>\<open>Aba_Stack\<close> is \<^verbatim>\<open>aba.cpp\<close>,
  \<^verbatim>\<open>aba_sync.cpp\<close> and \<^verbatim>\<open>aba_detect.cpp\<close>, with the values of \<open>head\<close> as a list, of which the relaxed
  load may return any; C17 gives the runs in which the address of a freed node comes back, and what becomes
  of the stack. \<^theory_text>\<open>Shared_Stack\<close> is \<^verbatim>\<open>aba_fixed.cpp\<close>, whose pointers count their
  references; the functions of the standard library on a shared pointer are one step each, as its lock
  makes them. \<^theory_text>\<open>Shared_Stack_Props\<close> proves that the counts are exact in every reachable state of
  any threads, and from that that the stack is linearizable (C31), touches no freed node and loses none, so that what \<open>main\<close>
  prints is the contents and the destructor frees all (C33). The address of a new node is any that is not in use.

  \<^bold>\<open>Bounds and fuel.\<close> Three loops of the code have no bound of their own. \<open>finish_retry\<close> has fuel 2:
  its body runs again only after the dynamic threads were released, which leaves a thread that can
  run, so that a third round cannot be. \<open>unpark_all_loop\<close> and \<open>futex_wake_loop\<close> have as fuel the number
  of waiters on entry; every round takes one waiter away and nothing adds one, which C24 and
  the lemmas \<open>notify_wakes\<close> and \<open>futex_wakes\<close> prove by giving the result. \<open>simulate2\<close> is a partial function whose \<open>None\<close> is a loop that
  does not end; C38 and C39 prove that it returns. So are the output and the destructor of the stacks, for
  which C17 and C33 give the results.

  \<^bold>\<open>Parameters.\<close> Code that is not the library's is an argument: the answers of \<open>malloc\<close> (\<open>sys\<close>), the
  test's functions and invariant (\<open>user_inv\<close>, the record \<open>suite\<close>), the predicate and the mutex of a
  wait, constructors and destructors of array elements, and for the driver what an iteration does
  (\<open>iter\<close>). Theorems state what they ask of an argument in their assumptions.

  \<^bold>\<open>Not modelled.\<close> Recording and printing of histories and progress (\<^verbatim>\<open>history.hpp\<close>,
  \<^verbatim>\<open>atomic_events.hpp\<close>, the \<open>output\<close> functions), which no operation reads; the platform's
  fibers (\<^verbatim>\<open>platform.hpp\<close>), whose effect is the change of \<open>threadx\<close>; the garbage collected
  build \<open>RL_GC\<close>; the estimates of the number of iterations, in floating point, for the progress
  display; macros that rename library functions; the other examples and the tests, which use the
  library; the other demonstration programs under \<^verbatim>\<open>src/code\<close>.
\<close>

end
